(* ===== verification/Prelude.thy ===== *)
theory Prelude
  imports Main "HOL-Library.Word" "HOL-Library.Signed_Division"
begin

text \<open>
  What every theory of the development shares: the names of the machine types, the collections
  the simplifier sets of the components are kept in, the memory operations of a byte vector
  (\<open>memcpy\<close> into a vector, a sub-vector read), and two interfaces stated as locales.
  \<^item> \<open>codec\<close>: an encoder with a decoder that inverts it on the valid values. Encoders of the
    program (big-endian integers, hexadecimal, opcode bytes, hex-prefix keys) interpret it.
  \<^item> \<open>metered_loop\<close>: a loop whose body keeps an invariant and decreases a measure. Its lemmas
    give termination within a fuel bound, and the invariant at every exit.
\<close>

unbundle bit_operations_syntax

section \<open>Machine types\<close>

type_synonym byte = "8 word"
type_synonym u32 = "32 word"
type_synonym u64 = "64 word"
type_synonym u160 = "160 word"
type_synonym u256 = "256 word"
type_synonym u512 = "512 word"
type_synonym bytes = "byte list"
type_synonym address = u160
type_synonym h256 = bytes

named_theorems vm_simps \<open>unfolding and case rules of the virtual machine's operations\<close>
named_theorems frame_simps \<open>fields an operation leaves alone\<close>

section \<open>Byte vectors\<close>

text \<open>
  \<open>bslice b n xs\<close> are the \<open>n\<close> elements from index \<open>b\<close>; \<open>poke b ys xs\<close> overwrites \<open>xs\<close> from index
  \<open>b\<close> with \<open>ys\<close>. Both are the usual reading of \<open>memcpy\<close> when the range lies inside \<open>xs\<close>.
\<close>

definition bslice :: "nat \<Rightarrow> nat \<Rightarrow> 'a list \<Rightarrow> 'a list" where
  "bslice b n xs = take n (drop b xs)"

definition poke :: "nat \<Rightarrow> 'a list \<Rightarrow> 'a list \<Rightarrow> 'a list" where
  "poke b ys xs = take b xs @ ys @ drop (b + length ys) xs"

lemma length_bslice [simp]: "b + n \<le> length xs \<Longrightarrow> length (bslice b n xs) = n"
  by (simp add: bslice_def)

lemma length_poke [simp]: "b + length ys \<le> length xs \<Longrightarrow> length (poke b ys xs) = length xs"
  by (simp add: poke_def)

lemma poke_Nil [simp]: "poke b [] xs = xs"
  by (simp add: poke_def)

lemma bslice_0 [simp]: "bslice b 0 xs = []"
  by (simp add: bslice_def)

lemma bslice_poke_same: "b + length ys \<le> length xs \<Longrightarrow> bslice b (length ys) (poke b ys xs) = ys"
  by (simp add: bslice_def poke_def)

lemma nth_poke:
  assumes "b + length ys \<le> length xs" and "i < length xs"
  shows "poke b ys xs ! i = (if b \<le> i \<and> i < b + length ys then ys ! (i - b) else xs ! i)"
  using assms by (auto simp: poke_def nth_append nth_drop min_def)

lemma bslice_poke_disjoint:
  assumes "b + length ys \<le> length xs" and "c + n \<le> length xs"
    and "c + n \<le> b \<or> b + length ys \<le> c"
  shows "bslice c n (poke b ys xs) = bslice c n xs"
proof (rule nth_equalityI)
  show "length (bslice c n (poke b ys xs)) = length (bslice c n xs)"
    using assms(1,2) by simp
next
  fix i assume "i < length (bslice c n (poke b ys xs))"
  then have i: "i < n" using assms(1,2) by simp
  then show "bslice c n (poke b ys xs) ! i = bslice c n xs ! i"
    using assms by (auto simp: bslice_def nth_poke)
qed

section \<open>Numbers and words\<close>

lemma unat_of_nat_lt: "n < 2 ^ LENGTH('a) \<Longrightarrow> unat (of_nat n :: 'a::len word) = n"
  by (simp add: unat_of_nat)

lemma unat_64_lt [simp]: "unat (w :: u64) < 18446744073709551616"
  using unsigned_less [of w, where ?'a = nat] by simp

lemma unat_256_lt [simp]:
  "unat (w :: u256) < 115792089237316195423570985008687907853269984665640564039457584007913129639936"
  using unsigned_less [of w, where ?'a = nat] by simp

lemma unat_drop_bit: "unat (drop_bit n w) = unat (w :: 'a::len word) div 2 ^ n"
  by (simp add: unsigned_drop_bit_eq take_bit_nat_eq_self flip: drop_bit_eq_div)

lemma bit_byte_high [simp]: "8 \<le> n \<Longrightarrow> bit (b :: byte) n = False"
  using bit_imp_le_length [of b n] by auto

lemma div_mult_self_le: "(n::nat) div k * k \<le> n"
  by simp

section \<open>Codecs\<close>

locale codec =
  fixes enc :: "'a \<Rightarrow> 'b" and dec :: "'b \<Rightarrow> 'a option" and ok :: "'a \<Rightarrow> bool"
  assumes dec_enc: "ok x \<Longrightarrow> dec (enc x) = Some x"
begin

lemma enc_inj: "ok x \<Longrightarrow> ok y \<Longrightarrow> enc x = enc y \<Longrightarrow> x = y"
  by (metis dec_enc option.inject)

lemma enc_eq_iff: "ok x \<Longrightarrow> ok y \<Longrightarrow> enc x = enc y \<longleftrightarrow> x = y"
  using enc_inj by blast

lemma inj_on_enc: "inj_on enc {x. ok x}"
  by (auto intro: inj_onI enc_inj)

end

section \<open>Loops with a measure\<close>

text \<open>
  The body answers \<open>Inl r\<close> when the loop is left with \<open>r\<close> and \<open>Inr s\<close> when it goes round again
  in state \<open>s\<close>. The loop takes fuel; \<open>None\<close> is running out of it.
\<close>

fun loop_fuel :: "('s \<Rightarrow> 'r + 's) \<Rightarrow> nat \<Rightarrow> 's \<Rightarrow> 'r option" where
  "loop_fuel body 0 s = None"
| "loop_fuel body (Suc n) s = (case body s of Inl r \<Rightarrow> Some r | Inr s' \<Rightarrow> loop_fuel body n s')"

inductive loop_reach :: "('s \<Rightarrow> 'r + 's) \<Rightarrow> 's \<Rightarrow> 's \<Rightarrow> bool" for body s where
  loop_start: "loop_reach body s s"
| loop_round: "loop_reach body s t \<Longrightarrow> body t = Inr u \<Longrightarrow> loop_reach body s u"

lemma loop_fuel_more: "loop_fuel body n s = Some r \<Longrightarrow> n \<le> m \<Longrightarrow> loop_fuel body m s = Some r"
proof (induction n arbitrary: s m)
  case (Suc n)
  then obtain k where "m = Suc k" and "n \<le> k" by (cases m) auto
  with Suc show ?case by (auto split: sum.splits)
qed simp

lemma loop_fuel_exit:
  "loop_fuel body n s = Some r \<Longrightarrow> \<exists>t. loop_reach body s t \<and> body t = Inl r"
proof (induction n arbitrary: s)
  case (Suc n)
  show ?case
  proof (cases "body s")
    case (Inl x)
    with Suc.prems have "body s = Inl r" by simp
    then show ?thesis by (blast intro: loop_start)
  next
    case (Inr s')
    with Suc.prems have "loop_fuel body n s' = Some r" by simp
    then obtain t where t: "loop_reach body s' t" "body t = Inl r" using Suc.IH by blast
    have "loop_reach body s t"
      using t(1) by (induction rule: loop_reach.induct) (use Inr in \<open>blast intro: loop_reach.intros\<close>)+
    with t(2) show ?thesis by blast
  qed
qed simp

locale metered_loop =
  fixes body :: "'s \<Rightarrow> 'r + 's" and inv :: "'s \<Rightarrow> bool" and fuel_of :: "'s \<Rightarrow> nat"
  assumes inv_round: "inv s \<Longrightarrow> body s = Inr s' \<Longrightarrow> inv s'"
    and round_decreases: "inv s \<Longrightarrow> body s = Inr s' \<Longrightarrow> fuel_of s' < fuel_of s"
begin

lemma reach_inv: "loop_reach body s t \<Longrightarrow> inv s \<Longrightarrow> inv t"
  by (induction rule: loop_reach.induct) (auto intro: inv_round)

lemma reach_measure: "loop_reach body s t \<Longrightarrow> inv s \<Longrightarrow> fuel_of t \<le> fuel_of s"
proof (induction rule: loop_reach.induct)
  case (loop_round t u)
  then show ?case using reach_inv round_decreases by fastforce
qed simp

lemma terminates: "inv s \<Longrightarrow> fuel_of s < n \<Longrightarrow> \<exists>r. loop_fuel body n s = Some r"
proof (induction n arbitrary: s)
  case (Suc n)
  show ?case
  proof (cases "body s")
    case (Inr s')
    with Suc.prems have "inv s'" "fuel_of s' < n"
      using inv_round round_decreases by fastforce+
    with Suc.IH Inr show ?thesis by simp
  qed simp
qed simp

lemma exits_from_inv:
  assumes "inv s" and "loop_fuel body n s = Some r"
  shows "\<exists>t. inv t \<and> fuel_of t \<le> fuel_of s \<and> body t = Inl r"
  using loop_fuel_exit [OF assms(2)] assms(1) reach_inv reach_measure by blast

end

end
