(* ===== verification/CommonData.thy ===== *)
theory CommonData
  imports Prelude
begin

text \<open>
  The byte and number conversions of \<open>libdevcore/CommonData.h\<close>, \<open>CommonData.cpp\<close> and the numeric
  part of \<open>Common.h\<close>: big-endian encoding, hexadecimal text, nibbles, two's complement, and the
  set-queue \<open>QueueSet\<close> the peers keep their seen messages in.

  The fixed-width integers are words (boost's unchecked \<open>u256\<close> wraps); \<open>s256\<close> is boost's
  sign-magnitude number, read here as the integer it denotes.
\<close>

section \<open>Big-endian integers\<close>

text \<open>
  \<open>toBigEndian(_val, o_out)\<close> fills the output from its last byte to its first, shifting the value
  right by a byte each time; only the size of the output matters.
\<close>

fun toBigEndian :: "nat \<Rightarrow> 'a::len word \<Rightarrow> bytes" where
  "toBigEndian 0 val = []"
| "toBigEndian (Suc i) val = toBigEndian i (drop_bit 8 val) @ [ucast (val AND 0xff)]"

definition fromBigEndian_step :: "'a::len word \<Rightarrow> byte \<Rightarrow> 'a word" where
  "fromBigEndian_step ret i = (push_bit 8 ret OR ucast i)"

definition fromBigEndian :: "bytes \<Rightarrow> 'a::len word" where
  "fromBigEndian bs = foldl fromBigEndian_step 0 bs"

function bytesRequired :: "'a::len word \<Rightarrow> nat" where
  "bytesRequired i = (if i \<noteq> 0 then Suc (bytesRequired (drop_bit 8 i)) else 0)"
  by pat_completeness auto

definition toCompactBigEndian :: "'a::len word \<Rightarrow> nat \<Rightarrow> bytes" where
  "toCompactBigEndian val mn = toBigEndian (max mn (bytesRequired val)) val"

text \<open>A number as the standard stream writes it in base 16, without padding.\<close>

fun hex_digits :: "nat \<Rightarrow> string" where
  "hex_digits n = (let d = ''0123456789abcdef'' ! (n mod 16)
     in if n < 16 then [d] else hex_digits (n div 16) @ [d])"

declare hex_digits.simps [simp del]

section \<open>Two's complement\<close>

definition u2s :: "u256 \<Rightarrow> int" where
  "u2s u = (if bit u 255 then - (2 ^ 256 - uint u) else uint u)"

definition s2u :: "int \<Rightarrow> u256" where
  "s2u i = (if 0 \<le> i then word_of_int i else word_of_int (2 ^ 256 + i))"

section \<open>Facts about the encodings\<close>

lemma drop_bit_8_less: "(i :: 'a::len word) \<noteq> 0 \<Longrightarrow> unat (drop_bit 8 i) < unat i"
proof -
  assume "i \<noteq> 0"
  then have "0 < unat i" by (simp add: unat_gt_0)
  then have "unat i div 2 ^ 8 < unat i" by (simp add: div_less_dividend)
  then show ?thesis by (simp only: unat_drop_bit)
qed

termination bytesRequired
  by (relation "measure unat") (auto intro: drop_bit_8_less)

declare bytesRequired.simps [simp del]

lemma length_toBigEndian [simp]: "length (toBigEndian n v) = n"
  by (induction n arbitrary: v) auto

lemma fromBigEndian_Nil [simp]: "fromBigEndian [] = 0"
  by (simp add: fromBigEndian_def)

lemma fromBigEndian_snoc [simp]:
  "fromBigEndian (bs @ [b]) = (push_bit 8 (fromBigEndian bs) OR ucast b)"
  by (simp add: fromBigEndian_def fromBigEndian_step_def)

lemma byte_low: "(ucast (ucast (v AND 0xff) :: byte) :: 'a::len word) = take_bit 8 v"
  by (rule bit_word_eqI) (auto simp: bit_simps bit_numeral_rec numeral_eq_Suc less_Suc_eq)

text \<open>What the code reads back is the value cut to the bytes it wrote.\<close>

lemma from_toBigEndian: "fromBigEndian (toBigEndian n v) = take_bit (8 * n) (v :: 'a::len word)"
proof (induction n arbitrary: v)
  case (Suc n)
  have "fromBigEndian (toBigEndian (Suc n) v)
      = (push_bit 8 (take_bit (8 * n) (drop_bit 8 v)) OR take_bit 8 v)"
    by (simp add: Suc.IH byte_low)
  also have "\<dots> = take_bit (8 * Suc n) v"
    by (rule bit_word_eqI) (auto simp: bit_simps)
  finally show ?case .
qed simp

lemma from_toBigEndian_id:
  "LENGTH('a) \<le> 8 * n \<Longrightarrow> fromBigEndian (toBigEndian n v) = (v :: 'a::len word)"
  by (simp add: from_toBigEndian take_bit_word_eq_self)

lemma and_0xff: "(v AND 0xff) = take_bit 8 (v :: 'a::len word)"
  by (simp add: take_bit_eq_mask mask_numeral)

lemma shift_or_byte:
  fixes w :: "'a::len word" and b :: byte
  assumes "8 \<le> LENGTH('a)"
  shows "ucast ((push_bit 8 w OR ucast b) AND 0xff) = b"
    and "drop_bit 8 (push_bit 8 w OR ucast b) = take_bit (LENGTH('a) - 8) w"
  unfolding and_0xff using assms
  by (auto intro!: bit_word_eqI simp: bit_simps less_diff_conv add.commute)

text \<open>Reading a byte string that fits in the word and writing it again gives the string back.\<close>

lemma toBigEndian_take_bit:
  "8 * n \<le> k \<Longrightarrow> toBigEndian n (take_bit k v) = toBigEndian n (v :: 'a::len word)"
proof (induction n arbitrary: k v)
  case (Suc n)
  have d: "drop_bit 8 (take_bit k v) = take_bit (k - 8) (drop_bit 8 v)"
    by (rule bit_word_eqI) (auto simp: bit_simps)
  have "(take_bit k v AND 0xff) = (v AND 0xff)"
    using Suc.prems by (auto simp: and_0xff intro!: bit_word_eqI simp: bit_simps)
  then show ?case using Suc.IH [of "k - 8"] Suc.prems d by simp
qed simp

lemma to_fromBigEndian:
  "8 * length bs \<le> LENGTH('a) \<Longrightarrow> toBigEndian (length bs) (fromBigEndian bs :: 'a::len word) = bs"
proof (induction bs rule: rev_induct)
  case (snoc b bs)
  then have l: "8 \<le> LENGTH('a)" and le: "8 * length bs \<le> LENGTH('a) - 8" by simp_all
  show ?case
    using snoc shift_or_byte [OF l, of "fromBigEndian bs" b]
      toBigEndian_take_bit [OF le, of "fromBigEndian bs :: 'a word"]
    by simp
qed simp

text \<open>\<open>bytesRequired\<close> is the least size that loses nothing.\<close>

lemma bytesRequired_0 [simp]: "bytesRequired 0 = 0"
  by (simp add: bytesRequired.simps)

lemma bytesRequired_enough: "unat v < 256 ^ bytesRequired v"
proof (induction v rule: bytesRequired.induct)
  case (1 v)
  show ?case
  proof (cases "v = 0")
    case False
    have "unat (drop_bit 8 v) = unat v div 256"
      by (simp only: unat_drop_bit) simp
    with 1 False have "unat v div 256 < 256 ^ bytesRequired (drop_bit 8 v)" by simp
    then have "unat v < 256 * 256 ^ bytesRequired (drop_bit 8 v)"
      by (simp add: div_less_iff_less_mult mult.commute)
    with False show ?thesis by (subst bytesRequired.simps) simp
  qed simp
qed

lemma bytesRequired_least: "unat v < 256 ^ n \<Longrightarrow> bytesRequired v \<le> n"
proof (induction v arbitrary: n rule: bytesRequired.induct)
  case (1 v)
  show ?case
  proof (cases "v = 0")
    case False
    then have "n \<noteq> 0" using 1(2) by (auto simp: unat_eq_0 intro: ccontr)
    then obtain m where m: "n = Suc m" by (cases n) auto
    have "unat (drop_bit 8 v) = unat v div 256"
      by (simp only: unat_drop_bit) simp
    with 1(2) m have "unat (drop_bit 8 v) < 256 ^ m"
      by (simp add: div_less_iff_less_mult mult.commute)
    with 1(1) False m show ?thesis by (subst bytesRequired.simps) simp
  qed simp
qed

lemma bytesRequired_le_iff: "bytesRequired v \<le> n \<longleftrightarrow> unat v < 256 ^ n"
proof
  assume "bytesRequired v \<le> n"
  then have "256 ^ bytesRequired v \<le> (256::nat) ^ n" by (simp add: power_increasing)
  then show "unat v < 256 ^ n" using bytesRequired_enough [of v] by linarith
qed (rule bytesRequired_least)

lemma compact_roundtrip: "fromBigEndian (toCompactBigEndian v mn) = v"
proof -
  have "take_bit (8 * max mn (bytesRequired v)) v = v"
  proof -
    have "unat v < 256 ^ max mn (bytesRequired v)"
      using bytesRequired_le_iff [of v "max mn (bytesRequired v)"] by simp
    then have "take_bit (8 * max mn (bytesRequired v)) (unat v) = unat v"
      by (simp add: take_bit_nat_eq_self power_mult)
    then show ?thesis by (metis unsigned_take_bit_eq unsigned_word_eqI)
  qed
  then show ?thesis by (simp add: toCompactBigEndian_def from_toBigEndian)
qed

text \<open>The signed reading is the library's, and the two conversions are inverse.\<close>

lemma u2s_sint: "u2s u = sint u"
proof -
  have "take_bit 256 (uint u) = uint u" using uint_lt2p [of u] by (simp add: take_bit_int_eq_self)
  then show ?thesis
    by (simp add: u2s_def sint_uint signed_take_bit_eq_take_bit_minus bit_uint_iff)
qed

lemma s2u_of_int: "s2u i = word_of_int i"
  by (simp add: s2u_def)

lemma s2u_u2s: "s2u (u2s u) = u"
  by (simp add: u2s_sint s2u_of_int)

interpretation be256: codec "toBigEndian 32 :: u256 \<Rightarrow> bytes"
  "\<lambda>bs. if length bs = 32 then Some (fromBigEndian bs) else None" "\<lambda>_. True"
  by unfold_locales (simp add: from_toBigEndian_id)

interpretation be160: codec "toBigEndian 20 :: u160 \<Rightarrow> bytes"
  "\<lambda>bs. if length bs = 20 then Some (fromBigEndian bs) else None" "\<lambda>_. True"
  by unfold_locales (simp add: from_toBigEndian_id)

interpretation compact: codec "\<lambda>v :: u256. toCompactBigEndian v 0"
  "\<lambda>bs. Some (fromBigEndian bs)" "\<lambda>_. True"
  by unfold_locales (simp add: compact_roundtrip)

end
