(* ===== verification/FixedHash.thy ===== *)
theory FixedHash
  imports CommonData
begin

text \<open>
  \<open>FixedHash<N>\<close> and \<open>SecureFixedHash<N>\<close> of \<open>libdevcore/FixedHash.h\<close>: a hash is its array of \<open>N\<close>
  bytes, a list of length \<open>N\<close>. Here are the resizing constructor, the comparison and bit operators,
  the big-endian increment, the search for the first set bit (the byte count of an exponent in the
  virtual machine's \<open>EXP\<close>), and the Bloom filter operations.
\<close>

section \<open>Constructors and comparison\<close>

datatype ConstructFromHashType = AlignLeft | AlignRight | FailIfDifferent

definition zero_hash :: "nat \<Rightarrow> bytes" where
  "zero_hash n = replicate n 0"

text \<open>The constructor from a byte vector.\<close>

definition FixedHash_of_bytes :: "nat \<Rightarrow> bytes \<Rightarrow> ConstructFromHashType \<Rightarrow> bytes" where
  "FixedHash_of_bytes n b t =
     (if length b = n then b
      else if t \<noteq> FailIfDifferent then
        (let c = min (length b) n
         in foldl (\<lambda>m i. m[(if t = AlignRight then n - 1 - i else i)
               := b ! (if t = AlignRight then length b - 1 - i else i)]) (zero_hash n) [0..<c])
      else zero_hash n)"

fun hash_less :: "bytes \<Rightarrow> bytes \<Rightarrow> bool" where
  "hash_less (x # xs) (y # ys) = (if x < y then True else if x > y then False else hash_less xs ys)"
| "hash_less _ _ = False"

definition hash_le :: "bytes \<Rightarrow> bytes \<Rightarrow> bool" where
  "hash_le a b = (a = b \<or> hash_less a b)"

section \<open>Bit operators\<close>

definition hash_xor :: "bytes \<Rightarrow> bytes \<Rightarrow> bytes" where
  "hash_xor a b = map2 (XOR) a b"

definition hash_or :: "bytes \<Rightarrow> bytes \<Rightarrow> bytes" where
  "hash_or a b = map2 (OR) a b"

definition hash_and :: "bytes \<Rightarrow> bytes \<Rightarrow> bytes" where
  "hash_and a b = map2 (AND) a b"

definition hash_not :: "bytes \<Rightarrow> bytes" where
  "hash_not a = map NOT a"

text \<open>The increment carries from the last byte towards the first.\<close>

fun hash_inc_from :: "nat \<Rightarrow> bytes \<Rightarrow> bytes" where
  "hash_inc_from 0 m = m"
| "hash_inc_from (Suc i) m =
     (let v = m ! i + 1; m' = m[i := v] in if v = 0 then hash_inc_from i m' else m')"

definition hash_inc :: "bytes \<Rightarrow> bytes" where
  "hash_inc m = hash_inc_from (length m) m"

definition hash_contains :: "bytes \<Rightarrow> bytes \<Rightarrow> bool" where
  "hash_contains a c = (hash_and a c = c)"

text \<open>\<open>SecureFixedHash\<close> delegates to the operators of \<open>FixedHash\<close>: all three to \<open>operator^=\<close>.\<close>

definition secure_xor :: "bytes \<Rightarrow> bytes \<Rightarrow> bytes" where
  "secure_xor a c = hash_xor a c"

definition secure_or :: "bytes \<Rightarrow> bytes \<Rightarrow> bytes" where
  "secure_or a c = hash_xor a c"

definition secure_and :: "bytes \<Rightarrow> bytes \<Rightarrow> bytes" where
  "secure_and a c = hash_xor a c"

section \<open>First set bit\<close>

text \<open>
  The inner loop shifts a non-zero byte left until its top bit is set. It is entered with a
  non-zero byte only; for zero, where the loop of the code would not end, the model answers 0.
\<close>

function lead_zeros :: "byte \<Rightarrow> nat" where
  "lead_zeros d = (if d AND 0x80 \<noteq> 0 \<or> d = 0 then 0 else Suc (lead_zeros (push_bit 1 d)))"
  by pat_completeness auto

text \<open>Termination of the bit search: a non-zero byte below 128 doubles.\<close>

lemma byte_top_clear: "(d :: byte) AND 0x80 = 0 \<longleftrightarrow> unat d < 128"
proof -
  have "(d AND 0x80 = 0) = (\<not> bit d 7)"
    using and_exp_eq_0_iff_not_bit [of d 7] by simp
  also have "bit d 7 = bit (unat d) 7" by (simp add: bit_unsigned_iff)
  also have "\<dots> = odd (unat d div 128)" by (simp add: bit_nat_def)
  also have "(\<not> odd (unat d div 128)) = (unat d < 128)"
  proof -
    have "unat d < 256" using unsigned_less [of d, where ?'a = nat] by simp
    then have "unat d div 128 = 0 \<or> unat d div 128 = 1" by (auto simp: less_2_cases_iff)
    moreover have "unat d div 128 = 0 \<longleftrightarrow> unat d < 128" by (simp add: div_eq_0_iff)
    ultimately show ?thesis by (metis even_zero odd_one)
  qed
  finally show ?thesis .
qed

lemma unat_push_1: "unat (d :: byte) < 128 \<Longrightarrow> unat (push_bit 1 d) = 2 * unat d"
  by (simp add: push_bit_eq_mult unat_word_ariths)

termination lead_zeros
proof (relation "measure (\<lambda>d. 256 - unat d)", simp, goal_cases)
  case (1 d)
  then have "unat d < 128" "0 < unat d" by (auto simp: byte_top_clear unat_gt_0)
  then show ?case using unat_push_1 [of d] by simp
qed

declare lead_zeros.simps [simp del]

fun firstBitSet_from :: "nat \<Rightarrow> bytes \<Rightarrow> nat" where
  "firstBitSet_from ret [] = ret"
| "firstBitSet_from ret (d # ds) =
     (if d \<noteq> 0 then ret + lead_zeros d else firstBitSet_from (ret + 8) ds)"

definition firstBitSet :: "bytes \<Rightarrow> nat" where
  "firstBitSet m = firstBitSet_from 0 m"

section \<open>Bloom filters\<close>

fun StaticLog2 :: "nat \<Rightarrow> nat" where
  "StaticLog2 n = (if n \<le> 1 then 0 else 1 + StaticLog2 (n div 2))"

declare StaticLog2.simps [simp del]

text \<open>
  \<open>bloomPart<P, M>\<close>: \<open>P\<close> indices of \<open>c_bloomBytes\<close> bytes each, read in order from the hash, each
  reduced to a bit number of the \<open>M\<close>-byte result. The index is a C++ \<open>unsigned\<close>.
\<close>

definition bloom_index :: "nat \<Rightarrow> bytes \<Rightarrow> u32" where
  "bloom_index m ps = foldl (\<lambda>index p. push_bit 8 index OR ucast p) 0 ps AND of_nat (m * 8 - 1)"

definition set_bloom_bit :: "nat \<Rightarrow> u32 \<Rightarrow> bytes \<Rightarrow> bytes" where
  "set_bloom_bit m index ret =
     (let j = m - 1 - unat index div 8
      in ret[j := ret ! j OR push_bit (unat index mod 8) 1])"

fun bloomPart_from :: "nat \<Rightarrow> nat \<Rightarrow> nat \<Rightarrow> bytes \<Rightarrow> bytes \<Rightarrow> bytes" where
  "bloomPart_from 0 m bb p ret = ret"
| "bloomPart_from (Suc k) m bb p ret =
     bloomPart_from k m bb (drop bb p) (set_bloom_bit m (bloom_index m (take bb p)) ret)"

definition bloomPart :: "nat \<Rightarrow> nat \<Rightarrow> bytes \<Rightarrow> bytes" where
  "bloomPart parts m h = bloomPart_from parts m ((StaticLog2 (m * 8) + 7) div 8) h (zero_hash m)"

definition shiftBloom :: "nat \<Rightarrow> bytes \<Rightarrow> bytes \<Rightarrow> bytes" where
  "shiftBloom parts bloom h = hash_or bloom (bloomPart parts (length bloom) h)"

definition containsBloom :: "nat \<Rightarrow> bytes \<Rightarrow> bytes \<Rightarrow> bool" where
  "containsBloom parts bloom h = hash_contains bloom (bloomPart parts (length bloom) h)"

text \<open>\<open>right160\<close> and \<open>left160\<close> cut a 256-bit hash to 20 bytes.\<close>

definition right160 :: "bytes \<Rightarrow> bytes" where
  "right160 t = bslice 12 20 t"

definition left160 :: "bytes \<Rightarrow> bytes" where
  "left160 t = bslice 0 20 t"

section \<open>The first set bit and the length of a number in bytes\<close>

lemma lead_zeros_bound: "d \<noteq> 0 \<Longrightarrow> unat d * 2 ^ lead_zeros d < 256"
proof (induction d rule: lead_zeros.induct)
  case (1 d)
  show ?case
  proof (cases "d AND 0x80 \<noteq> 0")
    case True
    then show ?thesis using unsigned_less [of d, where ?'a = nat]
      by (simp add: lead_zeros.simps [of d])
  next
    case False
    then have d: "unat d < 128" by (simp add: byte_top_clear)
    moreover have "0 < unat d" using "1.prems" by (simp add: unat_gt_0)
    ultimately have "push_bit 1 d \<noteq> 0" using unat_push_1 [of d] by force
    then have "unat (push_bit 1 d) * 2 ^ lead_zeros (push_bit 1 d) < 256"
      using 1 False by simp
    then have "2 * unat d * 2 ^ lead_zeros (push_bit 1 d) < 256"
      by (simp only: unat_push_1 [OF d])
    moreover have "lead_zeros d = Suc (lead_zeros (push_bit 1 d))"
      using False "1.prems" by (subst lead_zeros.simps) (simp only: simp_thms if_False)
    ultimately show ?thesis by simp
  qed
qed

lemma lead_zeros_le_7: "d \<noteq> 0 \<Longrightarrow> lead_zeros d \<le> 7"
proof (rule ccontr)
  assume d: "d \<noteq> 0" and "\<not> lead_zeros d \<le> 7"
  then have "(2 :: nat) ^ 8 \<le> 2 ^ lead_zeros d" by (intro power_increasing) auto
  moreover have "1 \<le> unat d" using d by (simp add: Suc_le_eq unat_gt_0)
  ultimately have "1 * 2 ^ 8 \<le> unat d * 2 ^ lead_zeros d" by (rule_tac mult_le_mono) simp_all
  with lead_zeros_bound [OF d] show False by simp
qed

lemma firstBitSet_from_div:
  "8 dvd ret \<Longrightarrow> firstBitSet_from ret m div 8 = ret div 8 + length (takeWhile (\<lambda>d. d = 0) m)"
proof (induction ret m rule: firstBitSet_from.induct)
  case (2 ret d ds)
  show ?case
  proof (cases "d = 0")
    case False
    with 2 lead_zeros_le_7 [OF False] show ?thesis by (simp add: div_plus_div_distrib_dvd_left)
  qed (use 2 in simp)
qed simp

lemma toBigEndian_0: "toBigEndian n 0 = replicate n 0"
  by (induction n) (auto simp: replicate_append_same)

lemma dropWhile_zeros: "dropWhile (\<lambda>d. d = 0) (replicate n 0 @ ys) = dropWhile (\<lambda>d. d = (0 :: byte)) ys"
  by (induction n) auto

lemma bytesRequired_pos: "v \<noteq> 0 \<Longrightarrow> 0 < bytesRequired v"
  by (subst bytesRequired.simps) simp

lemma bytesRequired_dropWhile:
  "unat v < 256 ^ n \<Longrightarrow> bytesRequired v = length (dropWhile (\<lambda>d. d = 0) (toBigEndian n v))"
proof (induction n arbitrary: v)
  case 0
  then show ?case by (simp add: unat_eq_0)
next
  case (Suc n)
  let ?v = "drop_bit 8 v"
  have "unat ?v = unat v div 256" by (simp only: unat_drop_bit) simp
  then have IH: "bytesRequired ?v = length (dropWhile (\<lambda>d. d = 0) (toBigEndian n ?v))"
    using Suc by (simp add: div_less_iff_less_mult mult.commute)
  show ?case
  proof (cases "?v = 0")
    case False
    then have "v \<noteq> 0" by auto
    have "dropWhile (\<lambda>d. d = 0) (toBigEndian n ?v) \<noteq> []"
      using bytesRequired_pos [OF False] IH by auto
    then obtain x where "x \<in> set (toBigEndian n ?v)" "x \<noteq> 0" by auto
    then have "dropWhile (\<lambda>d. d = 0) (toBigEndian (Suc n) v)
        = dropWhile (\<lambda>d. d = 0) (toBigEndian n ?v) @ [ucast (v AND 0xff)]"
      by (simp add: dropWhile_append1)
    with IH \<open>v \<noteq> 0\<close> show ?thesis by (subst bytesRequired.simps) simp
  next
    case True
    then have "take_bit 8 v = v" using bits_ident [of 8 v] by simp
    then have "(ucast (v AND 0xff) = (0 :: byte)) = (v = 0)"
      using byte_low [of v] by (metis and_zero_eq bit.conj_zero_left unsigned_0)
    with True show ?thesis
      by (subst bytesRequired.simps) (simp add: toBigEndian_0 dropWhile_zeros)
  qed
qed

lemma firstBitSet_bytesRequired: "32 - firstBitSet (toBigEndian 32 (e :: u256)) div 8 = bytesRequired e"
proof -
  let ?m = "toBigEndian 32 e"
  have "length (takeWhile (\<lambda>d. d = 0) ?m) + length (dropWhile (\<lambda>d. d = 0) ?m) = 32"
    by (metis length_append length_toBigEndian takeWhile_dropWhile_id)
  moreover have "bytesRequired e = length (dropWhile (\<lambda>d. d = 0) ?m)"
    using unat_256_lt [of e] by (intro bytesRequired_dropWhile) simp
  ultimately show ?thesis by (simp add: firstBitSet_def firstBitSet_from_div)
qed

section \<open>The secure operators\<close>

lemma secure_or_self: "secure_or a a = zero_hash (length a)"
  by (induction a) (auto simp: secure_or_def hash_xor_def zero_hash_def)

end
