(* ===== verification/Instruction.thy ===== *)
theory Instruction
  imports CommonData
begin

text \<open>
  The instruction set of the virtual machine: \<open>libevmcore/Instruction.h\<close> and \<open>Instruction.cpp\<close>.
  \<open>instruction\<close> is the enumeration. Its numbered families are one constructor each (\<open>I_PUSH n\<close> is
  \<open>PUSHn\<close>, \<open>n\<close> from 1 to 32), and \<open>I_Undefined b\<close> is a byte cast to the enumeration that names no
  enumerator. \<open>c_instructionInfo\<close> answers the row of the table of the same name, \<open>None\<close> where the
  table has no row; the row the source gives a second time for \<open>STOP\<close> (named \<open>BAD\<close>) is dropped, as
  the construction of a \<open>std::map\<close> from a list keeps the first of two equal keys.
  The lemmas show that opcode bytes and instructions translate into each other without loss, that
  the table's stack figures keep every access of the interpreter on the stack, and that walking
  over code with \<open>eachInstruction\<close> loses none of it.
\<close>

section \<open>The enumeration\<close>

datatype instruction =
    I_STOP | I_ADD | I_MUL | I_SUB | I_DIV | I_SDIV | I_MOD | I_SMOD | I_ADDMOD | I_MULMOD | I_EXP
    | I_SIGNEXTEND | I_LT | I_GT | I_SLT | I_SGT | I_EQ | I_ISZERO | I_AND | I_OR | I_XOR | I_NOT
    | I_BYTE | I_SHA3 | I_ADDRESS | I_BALANCE | I_ORIGIN | I_CALLER | I_CALLVALUE | I_CALLDATALOAD
    | I_CALLDATASIZE | I_CALLDATACOPY | I_CODESIZE | I_CODECOPY | I_GASPRICE | I_EXTCODESIZE
    | I_EXTCODECOPY | I_BLOCKHASH | I_COINBASE | I_TIMESTAMP | I_NUMBER | I_DIFFICULTY
    | I_GASLIMIT | I_JUMPTO | I_JUMPIF | I_JUMPV | I_JUMPSUB | I_JUMPSUBV | I_RETURNSUB | I_POP
    | I_MLOAD | I_MSTORE | I_MSTORE8 | I_SLOAD | I_SSTORE | I_JUMP | I_JUMPI | I_PC | I_MSIZE
    | I_GAS | I_JUMPDEST | I_BEGINSUB | I_BEGINDATA | I_PUSH nat | I_DUP nat | I_SWAP nat
    | I_LOG nat | I_PUSHC | I_JUMPC | I_JUMPCI | I_BAD | I_CREATE | I_CALL | I_CALLCODE | I_RETURN
    | I_DELEGATECALL | I_REVERT | I_SUICIDE | I_Undefined byte

primrec byte_of :: "instruction \<Rightarrow> byte" where
  "byte_of I_STOP = 0x00"
| "byte_of I_ADD = 0x01"
| "byte_of I_MUL = 0x02"
| "byte_of I_SUB = 0x03"
| "byte_of I_DIV = 0x04"
| "byte_of I_SDIV = 0x05"
| "byte_of I_MOD = 0x06"
| "byte_of I_SMOD = 0x07"
| "byte_of I_ADDMOD = 0x08"
| "byte_of I_MULMOD = 0x09"
| "byte_of I_EXP = 0x0a"
| "byte_of I_SIGNEXTEND = 0x0b"
| "byte_of I_LT = 0x10"
| "byte_of I_GT = 0x11"
| "byte_of I_SLT = 0x12"
| "byte_of I_SGT = 0x13"
| "byte_of I_EQ = 0x14"
| "byte_of I_ISZERO = 0x15"
| "byte_of I_AND = 0x16"
| "byte_of I_OR = 0x17"
| "byte_of I_XOR = 0x18"
| "byte_of I_NOT = 0x19"
| "byte_of I_BYTE = 0x1a"
| "byte_of I_SHA3 = 0x20"
| "byte_of I_ADDRESS = 0x30"
| "byte_of I_BALANCE = 0x31"
| "byte_of I_ORIGIN = 0x32"
| "byte_of I_CALLER = 0x33"
| "byte_of I_CALLVALUE = 0x34"
| "byte_of I_CALLDATALOAD = 0x35"
| "byte_of I_CALLDATASIZE = 0x36"
| "byte_of I_CALLDATACOPY = 0x37"
| "byte_of I_CODESIZE = 0x38"
| "byte_of I_CODECOPY = 0x39"
| "byte_of I_GASPRICE = 0x3a"
| "byte_of I_EXTCODESIZE = 0x3b"
| "byte_of I_EXTCODECOPY = 0x3c"
| "byte_of I_BLOCKHASH = 0x40"
| "byte_of I_COINBASE = 0x41"
| "byte_of I_TIMESTAMP = 0x42"
| "byte_of I_NUMBER = 0x43"
| "byte_of I_DIFFICULTY = 0x44"
| "byte_of I_GASLIMIT = 0x45"
| "byte_of I_JUMPTO = 0x4a"
| "byte_of I_JUMPIF = 0x4b"
| "byte_of I_JUMPV = 0x4c"
| "byte_of I_JUMPSUB = 0x4d"
| "byte_of I_JUMPSUBV = 0x4e"
| "byte_of I_RETURNSUB = 0x4f"
| "byte_of I_POP = 0x50"
| "byte_of I_MLOAD = 0x51"
| "byte_of I_MSTORE = 0x52"
| "byte_of I_MSTORE8 = 0x53"
| "byte_of I_SLOAD = 0x54"
| "byte_of I_SSTORE = 0x55"
| "byte_of I_JUMP = 0x56"
| "byte_of I_JUMPI = 0x57"
| "byte_of I_PC = 0x58"
| "byte_of I_MSIZE = 0x59"
| "byte_of I_GAS = 0x5a"
| "byte_of I_JUMPDEST = 0x5b"
| "byte_of I_BEGINSUB = 0x5c"
| "byte_of I_BEGINDATA = 0x5d"
| "byte_of (I_PUSH n) = 0x5f + of_nat n"
| "byte_of (I_DUP n) = 0x7f + of_nat n"
| "byte_of (I_SWAP n) = 0x8f + of_nat n"
| "byte_of (I_LOG n) = 0xa0 + of_nat n"
| "byte_of I_PUSHC = 0xac"
| "byte_of I_JUMPC = 0xad"
| "byte_of I_JUMPCI = 0xae"
| "byte_of I_BAD = 0xaf"
| "byte_of I_CREATE = 0xf0"
| "byte_of I_CALL = 0xf1"
| "byte_of I_CALLCODE = 0xf2"
| "byte_of I_RETURN = 0xf3"
| "byte_of I_DELEGATECALL = 0xf4"
| "byte_of I_REVERT = 0xfd"
| "byte_of I_SUICIDE = 0xff"
| "byte_of (I_Undefined b) = b"

text \<open>The enumerator of each byte value, sixteen to a row: the cast \<open>Instruction(b)\<close>.\<close>

definition enum_rows :: "instruction list list" where
  "enum_rows = [
    [I_STOP, I_ADD, I_MUL, I_SUB, I_DIV, I_SDIV, I_MOD, I_SMOD, I_ADDMOD, I_MULMOD, I_EXP,
     I_SIGNEXTEND, I_Undefined 0x0c, I_Undefined 0x0d, I_Undefined 0x0e, I_Undefined 0x0f],
    [I_LT, I_GT, I_SLT, I_SGT, I_EQ, I_ISZERO, I_AND, I_OR, I_XOR, I_NOT, I_BYTE,
     I_Undefined 0x1b, I_Undefined 0x1c, I_Undefined 0x1d, I_Undefined 0x1e, I_Undefined 0x1f],
    [I_SHA3, I_Undefined 0x21, I_Undefined 0x22, I_Undefined 0x23, I_Undefined 0x24,
     I_Undefined 0x25, I_Undefined 0x26, I_Undefined 0x27, I_Undefined 0x28, I_Undefined 0x29,
     I_Undefined 0x2a, I_Undefined 0x2b, I_Undefined 0x2c, I_Undefined 0x2d, I_Undefined 0x2e,
     I_Undefined 0x2f],
    [I_ADDRESS, I_BALANCE, I_ORIGIN, I_CALLER, I_CALLVALUE, I_CALLDATALOAD, I_CALLDATASIZE,
     I_CALLDATACOPY, I_CODESIZE, I_CODECOPY, I_GASPRICE, I_EXTCODESIZE, I_EXTCODECOPY,
     I_Undefined 0x3d, I_Undefined 0x3e, I_Undefined 0x3f],
    [I_BLOCKHASH, I_COINBASE, I_TIMESTAMP, I_NUMBER, I_DIFFICULTY, I_GASLIMIT, I_Undefined 0x46,
     I_Undefined 0x47, I_Undefined 0x48, I_Undefined 0x49, I_JUMPTO, I_JUMPIF, I_JUMPV,
     I_JUMPSUB, I_JUMPSUBV, I_RETURNSUB],
    [I_POP, I_MLOAD, I_MSTORE, I_MSTORE8, I_SLOAD, I_SSTORE, I_JUMP, I_JUMPI, I_PC, I_MSIZE,
     I_GAS, I_JUMPDEST, I_BEGINSUB, I_BEGINDATA, I_Undefined 0x5e, I_Undefined 0x5f],
    [I_PUSH 1, I_PUSH 2, I_PUSH 3, I_PUSH 4, I_PUSH 5, I_PUSH 6, I_PUSH 7, I_PUSH 8, I_PUSH 9,
     I_PUSH 10, I_PUSH 11, I_PUSH 12, I_PUSH 13, I_PUSH 14, I_PUSH 15, I_PUSH 16],
    [I_PUSH 17, I_PUSH 18, I_PUSH 19, I_PUSH 20, I_PUSH 21, I_PUSH 22, I_PUSH 23, I_PUSH 24,
     I_PUSH 25, I_PUSH 26, I_PUSH 27, I_PUSH 28, I_PUSH 29, I_PUSH 30, I_PUSH 31, I_PUSH 32],
    [I_DUP 1, I_DUP 2, I_DUP 3, I_DUP 4, I_DUP 5, I_DUP 6, I_DUP 7, I_DUP 8, I_DUP 9, I_DUP 10,
     I_DUP 11, I_DUP 12, I_DUP 13, I_DUP 14, I_DUP 15, I_DUP 16],
    [I_SWAP 1, I_SWAP 2, I_SWAP 3, I_SWAP 4, I_SWAP 5, I_SWAP 6, I_SWAP 7, I_SWAP 8, I_SWAP 9,
     I_SWAP 10, I_SWAP 11, I_SWAP 12, I_SWAP 13, I_SWAP 14, I_SWAP 15, I_SWAP 16],
    [I_LOG 0, I_LOG 1, I_LOG 2, I_LOG 3, I_LOG 4, I_Undefined 0xa5, I_Undefined 0xa6,
     I_Undefined 0xa7, I_Undefined 0xa8, I_Undefined 0xa9, I_Undefined 0xaa, I_Undefined 0xab,
     I_PUSHC, I_JUMPC, I_JUMPCI, I_BAD],
    [I_Undefined 0xb0, I_Undefined 0xb1, I_Undefined 0xb2, I_Undefined 0xb3, I_Undefined 0xb4,
     I_Undefined 0xb5, I_Undefined 0xb6, I_Undefined 0xb7, I_Undefined 0xb8, I_Undefined 0xb9,
     I_Undefined 0xba, I_Undefined 0xbb, I_Undefined 0xbc, I_Undefined 0xbd, I_Undefined 0xbe,
     I_Undefined 0xbf],
    [I_Undefined 0xc0, I_Undefined 0xc1, I_Undefined 0xc2, I_Undefined 0xc3, I_Undefined 0xc4,
     I_Undefined 0xc5, I_Undefined 0xc6, I_Undefined 0xc7, I_Undefined 0xc8, I_Undefined 0xc9,
     I_Undefined 0xca, I_Undefined 0xcb, I_Undefined 0xcc, I_Undefined 0xcd, I_Undefined 0xce,
     I_Undefined 0xcf],
    [I_Undefined 0xd0, I_Undefined 0xd1, I_Undefined 0xd2, I_Undefined 0xd3, I_Undefined 0xd4,
     I_Undefined 0xd5, I_Undefined 0xd6, I_Undefined 0xd7, I_Undefined 0xd8, I_Undefined 0xd9,
     I_Undefined 0xda, I_Undefined 0xdb, I_Undefined 0xdc, I_Undefined 0xdd, I_Undefined 0xde,
     I_Undefined 0xdf],
    [I_Undefined 0xe0, I_Undefined 0xe1, I_Undefined 0xe2, I_Undefined 0xe3, I_Undefined 0xe4,
     I_Undefined 0xe5, I_Undefined 0xe6, I_Undefined 0xe7, I_Undefined 0xe8, I_Undefined 0xe9,
     I_Undefined 0xea, I_Undefined 0xeb, I_Undefined 0xec, I_Undefined 0xed, I_Undefined 0xee,
     I_Undefined 0xef],
    [I_CREATE, I_CALL, I_CALLCODE, I_RETURN, I_DELEGATECALL, I_Undefined 0xf5, I_Undefined 0xf6,
     I_Undefined 0xf7, I_Undefined 0xf8, I_Undefined 0xf9, I_Undefined 0xfa, I_Undefined 0xfb,
     I_Undefined 0xfc, I_REVERT, I_Undefined 0xfe, I_SUICIDE]]"

definition Instruction :: "byte \<Rightarrow> instruction" where
  "Instruction b = enum_rows ! (unat b div 16) ! (unat b mod 16)"

section \<open>Information about an instruction\<close>

datatype Tier = Tier_Zero | Tier_Base | Tier_VeryLow | Tier_Low | Tier_Mid | Tier_High | Tier_Ext
  | Tier_Special | Tier_Invalid

datatype InstructionInfo = InstructionInfo (info_name: string) (info_additional: nat)
  (info_args: nat) (info_ret: nat) (info_sideEffects: bool) (info_gasPriceTier: Tier)

definition decimal :: "nat \<Rightarrow> string" where
  "decimal n = (if n < 10 then [''0123456789'' ! n]
     else [''0123456789'' ! (n div 10 mod 10), ''0123456789'' ! (n mod 10)])"

primrec c_instructionInfo :: "instruction \<Rightarrow> InstructionInfo option" where
  "c_instructionInfo I_STOP = Some (InstructionInfo ''STOP'' 0 0 0 True Tier_Zero)"
| "c_instructionInfo I_ADD = Some (InstructionInfo ''ADD'' 0 2 1 False Tier_VeryLow)"
| "c_instructionInfo I_MUL = Some (InstructionInfo ''MUL'' 0 2 1 False Tier_Low)"
| "c_instructionInfo I_SUB = Some (InstructionInfo ''SUB'' 0 2 1 False Tier_VeryLow)"
| "c_instructionInfo I_DIV = Some (InstructionInfo ''DIV'' 0 2 1 False Tier_Low)"
| "c_instructionInfo I_SDIV = Some (InstructionInfo ''SDIV'' 0 2 1 False Tier_Low)"
| "c_instructionInfo I_MOD = Some (InstructionInfo ''MOD'' 0 2 1 False Tier_Low)"
| "c_instructionInfo I_SMOD = Some (InstructionInfo ''SMOD'' 0 2 1 False Tier_Low)"
| "c_instructionInfo I_ADDMOD = Some (InstructionInfo ''ADDMOD'' 0 3 1 False Tier_Mid)"
| "c_instructionInfo I_MULMOD = Some (InstructionInfo ''MULMOD'' 0 3 1 False Tier_Mid)"
| "c_instructionInfo I_EXP = Some (InstructionInfo ''EXP'' 0 2 1 False Tier_Special)"
| "c_instructionInfo I_SIGNEXTEND = Some (InstructionInfo ''SIGNEXTEND'' 0 2 1 False Tier_Low)"
| "c_instructionInfo I_LT = Some (InstructionInfo ''LT'' 0 2 1 False Tier_VeryLow)"
| "c_instructionInfo I_GT = Some (InstructionInfo ''GT'' 0 2 1 False Tier_VeryLow)"
| "c_instructionInfo I_SLT = Some (InstructionInfo ''SLT'' 0 2 1 False Tier_VeryLow)"
| "c_instructionInfo I_SGT = Some (InstructionInfo ''SGT'' 0 2 1 False Tier_VeryLow)"
| "c_instructionInfo I_EQ = Some (InstructionInfo ''EQ'' 0 2 1 False Tier_VeryLow)"
| "c_instructionInfo I_ISZERO = Some (InstructionInfo ''ISZERO'' 0 1 1 False Tier_VeryLow)"
| "c_instructionInfo I_AND = Some (InstructionInfo ''AND'' 0 2 1 False Tier_VeryLow)"
| "c_instructionInfo I_OR = Some (InstructionInfo ''OR'' 0 2 1 False Tier_VeryLow)"
| "c_instructionInfo I_XOR = Some (InstructionInfo ''XOR'' 0 2 1 False Tier_VeryLow)"
| "c_instructionInfo I_NOT = Some (InstructionInfo ''NOT'' 0 1 1 False Tier_VeryLow)"
| "c_instructionInfo I_BYTE = Some (InstructionInfo ''BYTE'' 0 2 1 False Tier_VeryLow)"
| "c_instructionInfo I_SHA3 = Some (InstructionInfo ''SHA3'' 0 2 1 False Tier_Special)"
| "c_instructionInfo I_ADDRESS = Some (InstructionInfo ''ADDRESS'' 0 0 1 False Tier_Base)"
| "c_instructionInfo I_BALANCE = Some (InstructionInfo ''BALANCE'' 0 1 1 False Tier_Special)"
| "c_instructionInfo I_ORIGIN = Some (InstructionInfo ''ORIGIN'' 0 0 1 False Tier_Base)"
| "c_instructionInfo I_CALLER = Some (InstructionInfo ''CALLER'' 0 0 1 False Tier_Base)"
| "c_instructionInfo I_CALLVALUE = Some (InstructionInfo ''CALLVALUE'' 0 0 1 False Tier_Base)"
| "c_instructionInfo I_CALLDATALOAD = Some (InstructionInfo ''CALLDATALOAD'' 0 1 1 False Tier_VeryLow)"
| "c_instructionInfo I_CALLDATASIZE = Some (InstructionInfo ''CALLDATASIZE'' 0 0 1 False Tier_Base)"
| "c_instructionInfo I_CALLDATACOPY = Some (InstructionInfo ''CALLDATACOPY'' 0 3 0 True Tier_VeryLow)"
| "c_instructionInfo I_CODESIZE = Some (InstructionInfo ''CODESIZE'' 0 0 1 False Tier_Base)"
| "c_instructionInfo I_CODECOPY = Some (InstructionInfo ''CODECOPY'' 0 3 0 True Tier_VeryLow)"
| "c_instructionInfo I_GASPRICE = Some (InstructionInfo ''GASPRICE'' 0 0 1 False Tier_Base)"
| "c_instructionInfo I_EXTCODESIZE = Some (InstructionInfo ''EXTCODESIZE'' 0 1 1 False Tier_Special)"
| "c_instructionInfo I_EXTCODECOPY = Some (InstructionInfo ''EXTCODECOPY'' 0 4 0 True Tier_Special)"
| "c_instructionInfo I_BLOCKHASH = Some (InstructionInfo ''BLOCKHASH'' 0 1 1 False Tier_Ext)"
| "c_instructionInfo I_COINBASE = Some (InstructionInfo ''COINBASE'' 0 0 1 False Tier_Base)"
| "c_instructionInfo I_TIMESTAMP = Some (InstructionInfo ''TIMESTAMP'' 0 0 1 False Tier_Base)"
| "c_instructionInfo I_NUMBER = Some (InstructionInfo ''NUMBER'' 0 0 1 False Tier_Base)"
| "c_instructionInfo I_DIFFICULTY = Some (InstructionInfo ''DIFFICULTY'' 0 0 1 False Tier_Base)"
| "c_instructionInfo I_GASLIMIT = Some (InstructionInfo ''GASLIMIT'' 0 0 1 False Tier_Base)"
| "c_instructionInfo I_JUMPTO = Some (InstructionInfo ''JUMPTO'' 4 1 0 True Tier_VeryLow)"
| "c_instructionInfo I_JUMPIF = Some (InstructionInfo ''JUMPIF'' 4 2 0 True Tier_Low)"
| "c_instructionInfo I_JUMPV = Some (InstructionInfo ''JUMPV'' 4 1 0 True Tier_Mid)"
| "c_instructionInfo I_JUMPSUB = Some (InstructionInfo ''JUMPSUB'' 4 1 0 True Tier_Low)"
| "c_instructionInfo I_JUMPSUBV = Some (InstructionInfo ''JUMPSUBV'' 4 1 0 True Tier_Mid)"
| "c_instructionInfo I_RETURNSUB = Some (InstructionInfo ''RETURNSUB'' 0 1 0 True Tier_Mid)"
| "c_instructionInfo I_POP = Some (InstructionInfo ''POP'' 0 1 0 False Tier_Base)"
| "c_instructionInfo I_MLOAD = Some (InstructionInfo ''MLOAD'' 0 1 1 False Tier_VeryLow)"
| "c_instructionInfo I_MSTORE = Some (InstructionInfo ''MSTORE'' 0 2 0 True Tier_VeryLow)"
| "c_instructionInfo I_MSTORE8 = Some (InstructionInfo ''MSTORE8'' 0 2 0 True Tier_VeryLow)"
| "c_instructionInfo I_SLOAD = Some (InstructionInfo ''SLOAD'' 0 1 1 False Tier_Special)"
| "c_instructionInfo I_SSTORE = Some (InstructionInfo ''SSTORE'' 0 2 0 True Tier_Special)"
| "c_instructionInfo I_JUMP = Some (InstructionInfo ''JUMP'' 0 1 0 True Tier_Mid)"
| "c_instructionInfo I_JUMPI = Some (InstructionInfo ''JUMPI'' 0 2 0 True Tier_High)"
| "c_instructionInfo I_PC = Some (InstructionInfo ''PC'' 0 0 1 False Tier_Base)"
| "c_instructionInfo I_MSIZE = Some (InstructionInfo ''MSIZE'' 0 0 1 False Tier_Base)"
| "c_instructionInfo I_GAS = Some (InstructionInfo ''GAS'' 0 0 1 False Tier_Base)"
| "c_instructionInfo I_JUMPDEST = Some (InstructionInfo ''JUMPDEST'' 0 0 0 True Tier_Special)"
| "c_instructionInfo I_BEGINSUB = Some (InstructionInfo ''BEGINSUB'' 0 0 0 True Tier_Special)"
| "c_instructionInfo I_BEGINDATA = Some (InstructionInfo ''BEGINDATA'' 0 0 0 True Tier_Special)"
| "c_instructionInfo (I_PUSH n) = (if 1 \<le> n \<and> n \<le> 32
     then Some (InstructionInfo (''PUSH'' @ decimal n) n 0 1 False Tier_VeryLow) else None)"
| "c_instructionInfo (I_DUP n) = (if 1 \<le> n \<and> n \<le> 16
     then Some (InstructionInfo (''DUP'' @ decimal n) 0 n (n + 1) False Tier_VeryLow) else None)"
| "c_instructionInfo (I_SWAP n) = (if 1 \<le> n \<and> n \<le> 16
     then Some (InstructionInfo (''SWAP'' @ decimal n) 0 (n + 1) (n + 1) False Tier_VeryLow) else None)"
| "c_instructionInfo (I_LOG n) = (if n \<le> 4
     then Some (InstructionInfo (''LOG'' @ decimal n) 0 (n + 2) 0 True Tier_Special) else None)"
| "c_instructionInfo I_PUSHC = Some (InstructionInfo ''PUSHC'' 2 0 1 False Tier_VeryLow)"
| "c_instructionInfo I_JUMPC = Some (InstructionInfo ''JUMPC'' 0 1 0 True Tier_Mid)"
| "c_instructionInfo I_JUMPCI = Some (InstructionInfo ''JUMPCI'' 0 1 0 True Tier_High)"
| "c_instructionInfo I_BAD = None"
| "c_instructionInfo I_CREATE = Some (InstructionInfo ''CREATE'' 0 3 1 True Tier_Special)"
| "c_instructionInfo I_CALL = Some (InstructionInfo ''CALL'' 0 7 1 True Tier_Special)"
| "c_instructionInfo I_CALLCODE = Some (InstructionInfo ''CALLCODE'' 0 7 1 True Tier_Special)"
| "c_instructionInfo I_RETURN = Some (InstructionInfo ''RETURN'' 0 2 0 True Tier_Zero)"
| "c_instructionInfo I_DELEGATECALL = Some (InstructionInfo ''DELEGATECALL'' 0 6 1 True Tier_Special)"
| "c_instructionInfo I_REVERT = Some (InstructionInfo ''REVERT'' 0 2 0 True Tier_Special)"
| "c_instructionInfo I_SUICIDE = Some (InstructionInfo ''SUICIDE'' 0 1 0 True Tier_Special)"
| "c_instructionInfo (I_Undefined b) = None"

definition instructionInfo :: "instruction \<Rightarrow> InstructionInfo" where
  "instructionInfo inst = (case c_instructionInfo inst of
     Some info \<Rightarrow> info
   | None \<Rightarrow> InstructionInfo [] 0 0 0 False Tier_Invalid)"

definition isValidInstruction :: "instruction \<Rightarrow> bool" where
  "isValidInstruction inst = (c_instructionInfo inst \<noteq> None)"

definition c_instructions :: "(string \<times> instruction) list" where
  "c_instructions = [
    (''STOP'', I_STOP), (''ADD'', I_ADD), (''SUB'', I_SUB), (''MUL'', I_MUL), (''DIV'', I_DIV),
    (''SDIV'', I_SDIV), (''MOD'', I_MOD), (''SMOD'', I_SMOD), (''EXP'', I_EXP), (''BNOT'', I_NOT),
    (''LT'', I_LT), (''GT'', I_GT), (''SLT'', I_SLT), (''SGT'', I_SGT), (''EQ'', I_EQ),
    (''NOT'', I_ISZERO), (''AND'', I_AND), (''OR'', I_OR), (''XOR'', I_XOR), (''BYTE'', I_BYTE),
    (''ADDMOD'', I_ADDMOD), (''MULMOD'', I_MULMOD), (''SIGNEXTEND'', I_SIGNEXTEND),
    (''SHA3'', I_SHA3), (''ADDRESS'', I_ADDRESS), (''BALANCE'', I_BALANCE), (''ORIGIN'', I_ORIGIN),
    (''CALLER'', I_CALLER), (''CALLVALUE'', I_CALLVALUE), (''CALLDATALOAD'', I_CALLDATALOAD),
    (''CALLDATASIZE'', I_CALLDATASIZE), (''CALLDATACOPY'', I_CALLDATACOPY),
    (''CODESIZE'', I_CODESIZE), (''CODECOPY'', I_CODECOPY), (''GASPRICE'', I_GASPRICE),
    (''EXTCODESIZE'', I_EXTCODESIZE), (''EXTCODECOPY'', I_EXTCODECOPY),
    (''BLOCKHASH'', I_BLOCKHASH), (''COINBASE'', I_COINBASE), (''TIMESTAMP'', I_TIMESTAMP),
    (''NUMBER'', I_NUMBER), (''DIFFICULTY'', I_DIFFICULTY), (''GASLIMIT'', I_GASLIMIT),
    (''JUMPTO'', I_JUMPTO), (''JUMPIF'', I_JUMPTO), (''JUMPSUB'', I_JUMPSUB), (''JUMPV'', I_JUMPV),
    (''JUMPSUBV'', I_JUMPSUBV), (''RETURNSUB'', I_RETURNSUB), (''POP'', I_POP),
    (''MLOAD'', I_MLOAD), (''MSTORE'', I_MSTORE), (''MSTORE8'', I_MSTORE8), (''SLOAD'', I_SLOAD),
    (''SSTORE'', I_SSTORE), (''JUMP'', I_JUMP), (''JUMPI'', I_JUMPI), (''PC'', I_PC),
    (''MSIZE'', I_MSIZE), (''GAS'', I_GAS), (''BEGIN'', I_JUMPDEST), (''JUMPDEST'', I_JUMPDEST),
    (''BEGINDATA'', I_BEGINDATA), (''BEGINSUB'', I_BEGINSUB), (''PUSH1'', I_PUSH 1),
    (''PUSH2'', I_PUSH 2), (''PUSH3'', I_PUSH 3), (''PUSH4'', I_PUSH 4), (''PUSH5'', I_PUSH 5),
    (''PUSH6'', I_PUSH 6), (''PUSH7'', I_PUSH 7), (''PUSH8'', I_PUSH 8), (''PUSH9'', I_PUSH 9),
    (''PUSH10'', I_PUSH 10), (''PUSH11'', I_PUSH 11), (''PUSH12'', I_PUSH 12),
    (''PUSH13'', I_PUSH 13), (''PUSH14'', I_PUSH 14), (''PUSH15'', I_PUSH 15),
    (''PUSH16'', I_PUSH 16), (''PUSH17'', I_PUSH 17), (''PUSH18'', I_PUSH 18),
    (''PUSH19'', I_PUSH 19), (''PUSH20'', I_PUSH 20), (''PUSH21'', I_PUSH 21),
    (''PUSH22'', I_PUSH 22), (''PUSH23'', I_PUSH 23), (''PUSH24'', I_PUSH 24),
    (''PUSH25'', I_PUSH 25), (''PUSH26'', I_PUSH 26), (''PUSH27'', I_PUSH 27),
    (''PUSH28'', I_PUSH 28), (''PUSH29'', I_PUSH 29), (''PUSH30'', I_PUSH 30),
    (''PUSH31'', I_PUSH 31), (''PUSH32'', I_PUSH 32), (''DUP1'', I_DUP 1), (''DUP2'', I_DUP 2),
    (''DUP3'', I_DUP 3), (''DUP4'', I_DUP 4), (''DUP5'', I_DUP 5), (''DUP6'', I_DUP 6),
    (''DUP7'', I_DUP 7), (''DUP8'', I_DUP 8), (''DUP9'', I_DUP 9), (''DUP10'', I_DUP 10),
    (''DUP11'', I_DUP 11), (''DUP12'', I_DUP 12), (''DUP13'', I_DUP 13), (''DUP14'', I_DUP 14),
    (''DUP15'', I_DUP 15), (''DUP16'', I_DUP 16), (''SWAP1'', I_SWAP 1), (''SWAP2'', I_SWAP 2),
    (''SWAP3'', I_SWAP 3), (''SWAP4'', I_SWAP 4), (''SWAP5'', I_SWAP 5), (''SWAP6'', I_SWAP 6),
    (''SWAP7'', I_SWAP 7), (''SWAP8'', I_SWAP 8), (''SWAP9'', I_SWAP 9), (''SWAP10'', I_SWAP 10),
    (''SWAP11'', I_SWAP 11), (''SWAP12'', I_SWAP 12), (''SWAP13'', I_SWAP 13),
    (''SWAP14'', I_SWAP 14), (''SWAP15'', I_SWAP 15), (''SWAP16'', I_SWAP 16), (''LOG0'', I_LOG 0),
    (''LOG1'', I_LOG 1), (''LOG2'', I_LOG 2), (''LOG3'', I_LOG 3), (''LOG4'', I_LOG 4),
    (''CREATE'', I_CREATE), (''CALL'', I_CALL), (''CALLCODE'', I_CALLCODE), (''RETURN'', I_RETURN),
    (''DELEGATECALL'', I_DELEGATECALL), (''REVERT'', I_REVERT), (''SUICIDE'', I_SUICIDE),
    (''PUSHC'', I_PUSHC), (''JUMPC'', I_JUMPC), (''JUMPCI'', I_JUMPCI)]"

section \<open>Families of instructions\<close>

definition getPushNumber :: "instruction \<Rightarrow> u32" where
  "getPushNumber i = ucast (byte_of i) - 0x60 + 1"

definition getDupNumber :: "instruction \<Rightarrow> u32" where
  "getDupNumber i = ucast (byte_of i) - 0x80 + 1"

definition getSwapNumber :: "instruction \<Rightarrow> u32" where
  "getSwapNumber i = ucast (byte_of i) - 0x90 + 1"

text \<open>\<open>None\<close> is the exception \<open>InvalidOpcode\<close> of the assertion.\<close>

definition pushInstruction :: "u32 \<Rightarrow> instruction option" where
  "pushInstruction n = (if 1 \<le> n \<and> n \<le> 32 then Some (Instruction (ucast (0x60 + n - 1))) else None)"

definition dupInstruction :: "u32 \<Rightarrow> instruction option" where
  "dupInstruction n = (if 1 \<le> n \<and> n \<le> 16 then Some (Instruction (ucast (0x80 + n - 1))) else None)"

definition swapInstruction :: "u32 \<Rightarrow> instruction option" where
  "swapInstruction n = (if 1 \<le> n \<and> n \<le> 16 then Some (Instruction (ucast (0x90 + n - 1))) else None)"

definition logInstruction :: "u32 \<Rightarrow> instruction option" where
  "logInstruction n = (if n \<le> 4 then Some (Instruction (ucast (0xa0 + n))) else None)"

section \<open>Walking over code\<close>

text \<open>
  \<open>eachInstruction\<close> hands each instruction to its callback together with its immediate operand;
  here it answers the list of the callback's arguments. An operand cut off by the end of the code
  is shifted as if zero bytes followed.
\<close>

fun operand :: "nat \<Rightarrow> bytes \<Rightarrow> u256 \<Rightarrow> u256" where
  "operand 0 rest data = data"
| "operand (Suc n) [] data = operand n [] (push_bit 8 data)"
| "operand (Suc n) (b # rest) data = operand n rest (push_bit 8 data OR ucast b)"

definition additional_of :: "instruction \<Rightarrow> nat" where
  "additional_of i = (if isValidInstruction i then info_additional (instructionInfo i) else 0)"

function eachInstruction :: "bytes \<Rightarrow> (instruction \<times> u256) list" where
  "eachInstruction [] = []"
| "eachInstruction (b # rest) =
     (let instr = Instruction b; n = additional_of instr
      in (instr, operand n rest 0) # eachInstruction (drop n rest))"
  by pat_completeness auto
termination
  by (relation "measure length") auto

definition disassemble_one :: "instruction \<times> u256 \<Rightarrow> string" where
  "disassemble_one p = (case p of (instr, data) \<Rightarrow>
     if \<not> isValidInstruction instr then ''0x'' @ hex_digits (unat (byte_of instr)) @ '' ''
     else let info = instructionInfo instr
          in info_name info @ '' '' @
             (if info_additional info \<noteq> 0 then ''0x'' @ hex_digits (unat data) @ '' '' else []))"

definition disassemble :: "bytes \<Rightarrow> string" where
  "disassemble mem = concat (map disassemble_one (eachInstruction mem))"

section \<open>Bytes and instructions\<close>

text \<open>The values the enumeration really has: a numbered family within its range, and an undefined
  byte only where no enumerator has that value.\<close>

definition wf_instruction :: "instruction \<Rightarrow> bool" where
  "wf_instruction i = (case i of I_PUSH n \<Rightarrow> 1 \<le> n \<and> n \<le> 32 | I_DUP n \<Rightarrow> 1 \<le> n \<and> n \<le> 16
     | I_SWAP n \<Rightarrow> 1 \<le> n \<and> n \<le> 16 | I_LOG n \<Rightarrow> n \<le> 4
     | I_Undefined b \<Rightarrow> Instruction b = I_Undefined b | _ \<Rightarrow> True)"

lemma enum_rows_bytes:
  "map (map byte_of) enum_rows = map (\<lambda>h. map (\<lambda>l. of_nat (16 * h + l)) [0..<16]) [0..<16]"
  by (simp add: enum_rows_def upt_rec)

lemma enum_rows_shape: "length enum_rows = 16" "\<forall>r \<in> set enum_rows. length r = 16"
  by (simp_all add: enum_rows_def)

lemma byte_of_Instruction [simp]: "byte_of (Instruction b) = b"
proof -
  let ?h = "unat b div 16" and ?l = "unat b mod 16"
  have h: "?h < 16" using unsigned_less [of b, where ?'a = nat] by simp
  then have r: "length (enum_rows ! ?h) = 16"
    using enum_rows_shape by (metis nth_mem)
  have "byte_of (Instruction b) = map (map byte_of) enum_rows ! ?h ! ?l"
    using h r by (simp add: Instruction_def enum_rows_shape)
  also have "\<dots> = of_nat (16 * ?h + ?l)"
    unfolding enum_rows_bytes using h by (simp del: of_nat_add of_nat_mult)
  also have "\<dots> = b" by (simp only: mult_div_mod_eq of_nat_unat ucast_id)
  finally show ?thesis .
qed

lemma Instruction_PUSH: "\<forall>n \<in> set [1..<33]. Instruction (byte_of (I_PUSH n)) = I_PUSH n"
  by (simp add: upt_rec Instruction_def enum_rows_def)

lemma Instruction_DUP: "\<forall>n \<in> set [1..<17]. Instruction (byte_of (I_DUP n)) = I_DUP n"
  by (simp add: upt_rec Instruction_def enum_rows_def)
lemma Instruction_SWAP: "\<forall>n \<in> set [1..<17]. Instruction (byte_of (I_SWAP n)) = I_SWAP n"
  by (simp add: upt_rec Instruction_def enum_rows_def)
lemma Instruction_LOG: "\<forall>n \<in> set [0..<5]. Instruction (byte_of (I_LOG n)) = I_LOG n"
  by (simp add: upt_rec Instruction_def enum_rows_def)

lemma Instruction_byte_of: "wf_instruction i \<Longrightarrow> Instruction (byte_of i) = i"
proof (cases i)
  case (I_PUSH n) moreover assume "wf_instruction i"
  ultimately have "n \<in> set [1..<33]" by (simp add: wf_instruction_def)
  then show ?thesis using Instruction_PUSH I_PUSH by blast
next
  case (I_DUP n) moreover assume "wf_instruction i"
  ultimately have "n \<in> set [1..<17]" by (simp add: wf_instruction_def)
  then show ?thesis using Instruction_DUP I_DUP by blast
next
  case (I_SWAP n) moreover assume "wf_instruction i"
  ultimately have "n \<in> set [1..<17]" by (simp add: wf_instruction_def)
  then show ?thesis using Instruction_SWAP I_SWAP by blast
next
  case (I_LOG n) moreover assume "wf_instruction i"
  ultimately have "n \<in> set [0..<5]" by (simp add: wf_instruction_def)
  then show ?thesis using Instruction_LOG I_LOG by blast
qed (simp_all add: wf_instruction_def Instruction_def enum_rows_def)
 

lemma enum_rows_wf: "\<forall>r \<in> set enum_rows. \<forall>i \<in> set r. wf_instruction i"
  by (simp add: enum_rows_def wf_instruction_def Instruction_def)

lemma wf_Instruction [simp]: "wf_instruction (Instruction b)"
proof -
  have "unat b div 16 < length enum_rows"
    using unsigned_less [of b, where ?'a = nat] by (simp add: enum_rows_shape)
  then have "enum_rows ! (unat b div 16) \<in> set enum_rows" by simp
  with enum_rows_shape(2) enum_rows_wf show ?thesis
    unfolding Instruction_def by (metis mod_less_divisor nth_mem zero_less_numeral)
qed

interpretation opcode: codec byte_of "\<lambda>b. Some (Instruction b)" wf_instruction
  by unfold_locales (simp add: Instruction_byte_of)

section \<open>The information table\<close>

lemma info_bounds:
  "wf_instruction i \<Longrightarrow> info_args (instructionInfo i) \<le> 17"
  "wf_instruction i \<Longrightarrow> info_ret (instructionInfo i) \<le> info_args (instructionInfo i) + 1"
  "wf_instruction i \<Longrightarrow> additional_of i \<le> 32"
  by (cases i; auto simp: wf_instruction_def instructionInfo_def additional_of_def isValidInstruction_def)+

lemma valid_iff:
  "wf_instruction i \<Longrightarrow> isValidInstruction i \<longleftrightarrow> i \<noteq> I_BAD \<and> (\<forall>b. i \<noteq> I_Undefined b)"
  by (cases i) (auto simp: isValidInstruction_def wf_instruction_def)

lemma mnemonics_differing:
  "filter (\<lambda>(s, i). info_name (instructionInfo i) \<noteq> s) c_instructions
   = [(''BNOT'', I_NOT), (''NOT'', I_ISZERO), (''JUMPIF'', I_JUMPTO), (''BEGIN'', I_JUMPDEST)]"
  by (simp add: c_instructions_def instructionInfo_def decimal_def)


section \<open>Walking over code loses nothing\<close>

lemma operand_fold:
  "operand n rest data = foldl fromBigEndian_step data (take n (rest @ replicate n 0))"
proof (induction n rest data rule: operand.induct)
  case (2 n data)
  then show ?case by (simp add: fromBigEndian_step_def)
next
  case (3 n b rest data)
  have "take n (rest @ replicate (Suc n) 0) = take n (rest @ replicate n (0 :: byte))"
    by (simp del: replicate.simps)
  with 3 show ?case by (simp add: fromBigEndian_step_def)
qed simp

lemma operand_fromBigEndian: "operand n rest 0 = fromBigEndian (take n (rest @ replicate n 0))"
  by (simp add: operand_fold fromBigEndian_def)

text \<open>The bytes of an instruction with its operand, as an assembler would write them.\<close>

definition assemble_one :: "instruction \<times> u256 \<Rightarrow> bytes" where
  "assemble_one p = byte_of (fst p) # toBigEndian (additional_of (fst p)) (snd p)"

lemma assemble_operand:
  assumes "n \<le> 32"
  shows "toBigEndian n (operand n rest 0) = take n (rest @ replicate n 0)"
proof -
  have "length (take n (rest @ replicate n (0 :: byte))) = n" by simp
  then show ?thesis
    using to_fromBigEndian [where 'a = 256, of "take n (rest @ replicate n 0)"] assms
    by (simp add: operand_fromBigEndian)
qed

lemma assemble_eachInstruction:
  "\<exists>k \<le> 32. concat (map assemble_one (eachInstruction code)) = code @ replicate k 0"
proof (induction code rule: eachInstruction.induct)
  case (2 b rest)
  define n where "n = additional_of (Instruction b)"
  have n: "n \<le> 32" by (simp add: n_def info_bounds)
  obtain k where k: "k \<le> 32"
    "concat (map assemble_one (eachInstruction (drop n rest))) = drop n rest @ replicate k 0"
    using 2 [OF refl] n_def by blast
  have "concat (map assemble_one (eachInstruction (b # rest)))
      = b # take n (rest @ replicate n 0) @ drop n rest @ replicate k 0"
    using k(2) n by (simp add: assemble_one_def Let_def assemble_operand flip: n_def)
  moreover have "take n (rest @ replicate n 0) @ drop n rest @ replicate k 0
      = rest @ replicate (if n \<le> length rest then k else n - length rest) 0"
  proof (cases "n \<le> length rest")
    case False
    with k(2) have "replicate k (0 :: byte) = []" by simp
    with False show ?thesis by (simp add: min_def)
  qed simp
  ultimately show ?case using k(1) n by (intro exI [of _ "if n \<le> length rest then k else n - length rest"]) auto
qed simp

section \<open>Properties\<close>

text \<open>Every byte is the value of exactly one instruction and the cast recovers it: the cast
  from bytes is a bijection onto the well-formed instructions, and \<open>byte_of\<close> is its inverse.\<close>

theorem opcode_bijection:
  "bij_betw Instruction UNIV {i. wf_instruction i} \<and> byte_of (Instruction b) = b"
proof
  have "inj Instruction" by (metis byte_of_Instruction injI)
  moreover have "range Instruction = {i. wf_instruction i}"
  proof
    show "range Instruction \<subseteq> {i. wf_instruction i}" by auto
    have "i \<in> range Instruction" if "wf_instruction i" for i
      using Instruction_byte_of [OF that] rangeI [of Instruction "byte_of i"] by simp
    then show "{i. wf_instruction i} \<subseteq> range Instruction" by blast
  qed
  ultimately show "bij_betw Instruction UNIV {i. wf_instruction i}" by (simp add: bij_betw_def)
qed simp

text \<open>Walking over code with \<open>eachInstruction\<close> loses nothing: writing every reported
  instruction followed by its operand gives the code back, with at most 32 zero bytes appended to
  complete the last operand.\<close>

theorem eachInstruction_lossless:
  "\<exists>k \<le> 32. concat (map assemble_one (eachInstruction code)) = code @ replicate k 0"
  by (rule assemble_eachInstruction)

text \<open>The mnemonic table agrees with the names the disassembler prints on every row but four,
  and one of these, \<open>JUMPIF\<close>, names the wrong instruction (\<open>JUMPTO\<close>).\<close>

theorem mnemonic_table_mismatches:
  "filter (\<lambda>(s, i). info_name (instructionInfo i) \<noteq> s) c_instructions
   = [(''BNOT'', I_NOT), (''NOT'', I_ISZERO), (''JUMPIF'', I_JUMPTO), (''BEGIN'', I_JUMPDEST)]"
  by (rule mnemonics_differing)

end
