(* ===== verification/EVMSchedule.thy ===== *)
theory EVMSchedule
  imports Instruction
begin

text \<open>
  The gas schedules of \<open>libevmcore/EVMSchedule.h\<close>. The fields are C++ \<open>unsigned\<close>, kept at 32 bits.
  \<open>tierStepGas\<close> is the array of eight tier prices; \<open>wellPriced\<close> states the bounds on the prices
  under which metering in 64 bits cannot wrap and every instruction that goes on costs something.
  Each schedule of the source satisfies it.
\<close>

record EVMSchedule =
  exceptionalFailedCodeDeposit :: bool
  haveDelegateCall :: bool
  eip150Mode :: bool
  eip158Mode :: bool
  haveRevert :: bool
  tierStepGas :: "u32 list"
  expGas :: u32
  expByteGas :: u32
  sha3Gas :: u32
  sha3WordGas :: u32
  sloadGas :: u32
  sstoreSetGas :: u32
  sstoreResetGas :: u32
  sstoreRefundGas :: u32
  jumpdestGas :: u32
  logGas :: u32
  logDataGas :: u32
  logTopicGas :: u32
  createGas :: u32
  callGas :: u32
  callStipend :: u32
  callValueTransferGas :: u32
  callNewAccountGas :: u32
  suicideRefundGas :: u32
  memoryGas :: u32
  quadCoeffDiv :: u32
  createDataGas :: u32
  txGas :: u32
  txCreateGas :: u32
  txDataZeroGas :: u32
  txDataNonZeroGas :: u32
  copyGas :: u32
  extcodesizeGas :: u32
  extcodecopyGas :: u32
  balanceGas :: u32
  suicideGas :: u32
  maxCodeSize :: u32

definition DefaultSchedule :: EVMSchedule where
  "DefaultSchedule = \<lparr>exceptionalFailedCodeDeposit = True, haveDelegateCall = True,
     eip150Mode = False, eip158Mode = False, haveRevert = False,
     tierStepGas = [0, 2, 3, 5, 8, 10, 20, 0],
     expGas = 10, expByteGas = 10, sha3Gas = 30, sha3WordGas = 6, sloadGas = 50,
     sstoreSetGas = 20000, sstoreResetGas = 5000, sstoreRefundGas = 15000, jumpdestGas = 1,
     logGas = 375, logDataGas = 8, logTopicGas = 375, createGas = 32000, callGas = 40,
     callStipend = 2300, callValueTransferGas = 9000, callNewAccountGas = 25000,
     suicideRefundGas = 24000, memoryGas = 3, quadCoeffDiv = 512, createDataGas = 200,
     txGas = 21000, txCreateGas = 53000, txDataZeroGas = 4, txDataNonZeroGas = 68, copyGas = 3,
     extcodesizeGas = 20, extcodecopyGas = 20, balanceGas = 20, suicideGas = 0,
     maxCodeSize = - 1\<rparr>"

text \<open>The constructor with three arguments overrides three fields of the defaults.\<close>

definition EVMSchedule_of :: "bool \<Rightarrow> bool \<Rightarrow> u32 \<Rightarrow> EVMSchedule" where
  "EVMSchedule_of efcd hdc txCreate = DefaultSchedule\<lparr>exceptionalFailedCodeDeposit := efcd,
     haveDelegateCall := hdc, txCreateGas := txCreate\<rparr>"

definition FrontierSchedule :: EVMSchedule where
  "FrontierSchedule = EVMSchedule_of False False 21000"

definition HomesteadSchedule :: EVMSchedule where
  "HomesteadSchedule = EVMSchedule_of True True 53000"

definition EIP150Schedule :: EVMSchedule where
  "EIP150Schedule = HomesteadSchedule\<lparr>eip150Mode := True, extcodesizeGas := 700,
     extcodecopyGas := 700, balanceGas := 400, sloadGas := 200, callGas := 700,
     suicideGas := 5000, maxCodeSize := 0x6000\<rparr>"

definition EIP158Schedule :: EVMSchedule where
  "EIP158Schedule = EIP150Schedule\<lparr>expByteGas := 50, eip158Mode := True\<rparr>"

definition MetropolisSchedule :: EVMSchedule where
  "MetropolisSchedule = EIP158Schedule\<lparr>haveRevert := True\<rparr>"

definition staticCallDepthLimit :: "EVMSchedule \<Rightarrow> bool" where
  "staticCallDepthLimit s = (\<not> eip150Mode s)"

definition suicideChargesNewAccountGas :: "EVMSchedule \<Rightarrow> bool" where
  "suicideChargesNewAccountGas s = eip150Mode s"

definition emptinessIsNonexistence :: "EVMSchedule \<Rightarrow> bool" where
  "emptinessIsNonexistence s = eip158Mode s"

definition zeroValueTransferChargesNewAccountGas :: "EVMSchedule \<Rightarrow> bool" where
  "zeroValueTransferChargesNewAccountGas s = (\<not> eip158Mode s)"

lemmas schedule_defs = DefaultSchedule_def EVMSchedule_of_def FrontierSchedule_def
  HomesteadSchedule_def EIP150Schedule_def EIP158Schedule_def MetropolisSchedule_def

text \<open>The position of a tier in the array. \<open>Tier_Invalid\<close> is 8, one past the last price.\<close>

primrec tier_index :: "Tier \<Rightarrow> nat" where
  "tier_index Tier_Zero = 0"
| "tier_index Tier_Base = 1"
| "tier_index Tier_VeryLow = 2"
| "tier_index Tier_Low = 3"
| "tier_index Tier_Mid = 4"
| "tier_index Tier_High = 5"
| "tier_index Tier_Ext = 6"
| "tier_index Tier_Special = 7"
| "tier_index Tier_Invalid = 8"

section \<open>Schedules whose prices are positive and small\<close>

definition wellPriced :: "EVMSchedule \<Rightarrow> bool" where
  "wellPriced s \<longleftrightarrow> length (tierStepGas s) = 8
     \<and> list_all (\<lambda>g. 0 < g) (take 6 (tl (tierStepGas s)))
     \<and> 0 < expGas s \<and> 0 < sha3Gas s \<and> 0 < sloadGas s \<and> 0 < sstoreSetGas s \<and> 0 < sstoreResetGas s
     \<and> 0 < logGas s \<and> 0 < createGas s \<and> 0 < callGas s \<and> 0 < extcodesizeGas s
     \<and> 0 < extcodecopyGas s \<and> 0 < balanceGas s
     \<and> unat (expGas s) + 32 * unat (expByteGas s) < 2 ^ 32
     \<and> unat (logGas s) + 4 * unat (logTopicGas s) < 2 ^ 32
     \<and> unat (copyGas s) \<le> 16 \<and> 0 < quadCoeffDiv s
     \<and> callStipend s < callValueTransferGas s"

lemma wellPriced_schedules:
  "wellPriced DefaultSchedule" "wellPriced FrontierSchedule" "wellPriced HomesteadSchedule"
  "wellPriced EIP150Schedule" "wellPriced EIP158Schedule" "wellPriced MetropolisSchedule"
  by (simp_all add: wellPriced_def schedule_defs)

end
