(* ===== verification/VMState.thy ===== *)
theory VMState
  imports FixedHash EVMSchedule "HOL-Library.Monad_Syntax"
begin

text \<open>
  The state of the virtual machine (\<open>libevm/VM.h\<close>), the interface it sees of the world
  (\<open>ExtVMFace\<close>, a parameter), and the operations every instruction is built from: stack adjustment,
  metering, memory growth and instruction fetch (\<open>libevm/VM.cpp\<close>, lines 9 to 139), with the
  \<open>throw\<close> functions of \<open>libevm/VMCalls.cpp\<close>.

  An operation maps a state to an outcome: \<open>Ok\<close> the next state, or \<open>Throw\<close> the exception together
  with the state at the throw (the caller of \<open>exec\<close> reads the gas left there). \<open>seq\<close> runs operations
  one after the other and stops at the first throw. The trace callback \<open>m_onOp\<close> only observes and is
  left out.
\<close>

section \<open>Outcomes\<close>

datatype vm_exception = OutOfGas | BadInstruction | BadJumpDestination | OutOfStack
  | StackUnderflow | RevertInstruction bytes

datatype 's outcome = Throw vm_exception 's | Ok 's

fun seq :: "('s \<Rightarrow> 's outcome) list \<Rightarrow> 's \<Rightarrow> 's outcome" where
  "seq [] s = Ok s"
| "seq (f # fs) s = (case f s of Throw e t \<Rightarrow> Throw e t | Ok t \<Rightarrow> seq fs t)"

definition upd :: "('s \<Rightarrow> 's) \<Rightarrow> 's \<Rightarrow> 's outcome" where
  "upd f s = Ok (f s)"

lemma seq_Ok [simp]: "seq (f # fs) s = Ok u \<longleftrightarrow> (\<exists>t. f s = Ok t \<and> seq fs t = Ok u)"
  by (auto split: outcome.splits)

declare seq.simps(2) [simp del]

lemma seq_Throw: "seq (f # fs) s = Throw e u \<longleftrightarrow> f s = Throw e u \<or> (\<exists>t. f s = Ok t \<and> seq fs t = Throw e u)"
  by (auto simp: seq.simps(2) split: outcome.splits)

lemma upd_Ok [simp]: "upd f s = Ok t \<longleftrightarrow> t = f s"
  by (auto simp: upd_def)

lemma upd_Throw [simp]: "upd f s \<noteq> Throw e t"
  by (simp add: upd_def)

section \<open>The world the machine sees\<close>

text \<open>
  \<open>ExtVMFace\<close> belongs to no file of the repository; what the machine uses of it is a record of
  functions over the world's state \<open>'w\<close>. \<open>oob_tierGas\<close> is what the read of \<open>tierStepGas\<close> past its
  end gives, for a byte that is no instruction (\<open>Tier::Invalid\<close> is 8, the array has 8 entries).
\<close>

record CallParameters =
  senderAddress :: address
  codeAddress :: address
  receiveAddress :: address
  valueTransfer :: u256
  apparentValue :: u256
  cp_gas :: u256
  cp_data :: bytes

record 'w ext =
  evmSchedule :: EVMSchedule
  oob_tierGas :: u32
  myAddress :: address
  caller :: address
  origin :: address
  callvalue :: u256
  gasPrice :: u256
  calldata :: bytes
  code :: bytes
  depth :: u32
  author :: address
  timestamp :: u256
  block_number :: u256
  difficulty :: u256
  gasLimit :: u256
  store :: "u256 \<Rightarrow> 'w \<Rightarrow> u256"
  setStore :: "u256 \<Rightarrow> u256 \<Rightarrow> 'w \<Rightarrow> 'w"
  balance :: "address \<Rightarrow> 'w \<Rightarrow> u256"
  account_exists :: "address \<Rightarrow> 'w \<Rightarrow> bool"
  codeAt :: "address \<Rightarrow> 'w \<Rightarrow> bytes"
  codeSizeAt :: "address \<Rightarrow> 'w \<Rightarrow> nat"
  blockHash :: "u256 \<Rightarrow> 'w \<Rightarrow> bytes"
  ext_log :: "u256 list \<Rightarrow> bytes \<Rightarrow> 'w \<Rightarrow> 'w"
  ext_suicide :: "address \<Rightarrow> 'w \<Rightarrow> 'w"
  addRefund :: "u32 \<Rightarrow> 'w \<Rightarrow> 'w"
  ext_create :: "u256 \<Rightarrow> u256 \<Rightarrow> bytes \<Rightarrow> 'w \<Rightarrow> address \<times> u256 \<times> 'w"
  ext_call :: "CallParameters \<Rightarrow> 'w \<Rightarrow> bool \<times> bytes \<times> u256 \<times> 'w"

text \<open>
  What the machine relies on: calls and creations give back at most the gas they were given.
\<close>

definition ext_gas_ok :: "'w ext \<Rightarrow> bool" where
  "ext_gas_ok E \<longleftrightarrow>
     (\<forall>v g init w. fst (snd (ext_create E v g init w)) \<le> g)
   \<and> (\<forall>p w. fst (snd (snd (ext_call E p w))) \<le> cp_gas p)"

section \<open>The machine's state\<close>

datatype bounce = initEntry | interpretCases | caseCreate | caseCall

text \<open>
  \<open>m_stack\<close> is the array of 1024 slots; \<open>m_SP\<close> and \<open>m_SPP\<close> are indices into it (pointers in the
  code), the stack growing towards index 0 from \<open>m_stackEnd\<close>, index 1024. \<open>m_bounce\<close> is \<open>None\<close> for
  the null pointer.
\<close>

record 'w vm =
  m_io_gas :: u64
  m_ext :: 'w
  m_output :: bytes
  m_mem :: bytes
  m_code :: bytes
  m_stack :: "nat \<Rightarrow> u256"
  m_OP :: instruction
  m_PC :: u64
  m_SP :: nat
  m_SPP :: nat
  m_runGas :: u64
  m_newMemSize :: u64
  m_copyMemSize :: u64
  m_jumpDests :: "u64 list"
  m_bounce :: "bounce option"

definition stackEnd :: nat where
  "stackEnd = 1024"

text \<open>The stack as a list, top first: the slots from the next stack pointer to the end.\<close>

definition stack_of :: "'w vm \<Rightarrow> u256 list" where
  "stack_of s = map (m_stack s) [m_SPP s..<stackEnd]"

definition SP :: "'w vm \<Rightarrow> nat \<Rightarrow> u256" where
  "SP s i = m_stack s (m_SP s + i)"

definition setSP :: "nat \<Rightarrow> u256 \<Rightarrow> 'w vm \<Rightarrow> 'w vm" where
  "setSP i v s = s\<lparr>m_stack := (m_stack s)(m_SP s + i := v)\<rparr>"

definition setSPP :: "u256 \<Rightarrow> 'w vm \<Rightarrow> 'w vm" where
  "setSPP v s = s\<lparr>m_stack := (m_stack s)(m_SPP s := v)\<rparr>"

definition memSize :: "'w vm \<Rightarrow> u64" where
  "memSize s = of_nat (length (m_mem s))"

text \<open>\<open>asAddress\<close> and \<open>fromAddress\<close>: the low 160 bits, and back.\<close>

definition asAddress :: "u256 \<Rightarrow> address" where
  "asAddress item = fromBigEndian (right160 (toBigEndian 32 item))"

definition fromAddress :: "address \<Rightarrow> u256" where
  "fromAddress a = ucast a"

section \<open>Throwing\<close>

definition throwOutOfGas :: "'w vm \<Rightarrow> 'w vm outcome" where
  "throwOutOfGas s = Throw OutOfGas s"

definition throwBadInstruction :: "'w vm \<Rightarrow> 'w vm outcome" where
  "throwBadInstruction s = Throw BadInstruction s"

definition throwBadJumpDestination :: "'w vm \<Rightarrow> 'w vm outcome" where
  "throwBadJumpDestination s = Throw BadJumpDestination s"

text \<open>
  \<open>throwBadStack\<close> is called with \<open>m_SPP\<close> moved out of the array; \<open>spp\<close> is where it then points.
\<close>

definition throwBadStack :: "int \<Rightarrow> nat \<Rightarrow> nat \<Rightarrow> 'w vm \<Rightarrow> 'w vm outcome" where
  "throwBadStack spp removed added s =
     (let sz = int stackEnd - spp
      in if sz < int removed then Throw StackUnderflow s else Throw OutOfStack s)"

definition throwRevertInstruction :: "bytes \<Rightarrow> 'w vm \<Rightarrow> 'w vm outcome" where
  "throwRevertInstruction out s = Throw (RevertInstruction out) s"

lemmas throw_defs = throwOutOfGas_def throwBadInstruction_def throwBadJumpDestination_def
  throwRevertInstruction_def

section \<open>Stack adjustment\<close>

definition adjustStack :: "nat \<Rightarrow> nat \<Rightarrow> 'w vm \<Rightarrow> 'w vm outcome" where
  "adjustStack removed added s =
     (let s1 = s\<lparr>m_SP := m_SPP s\<rparr>;
          up = m_SPP s + removed
      in if stackEnd < up then throwBadStack (int up) removed added s1
         else if int up - int added < 0 then throwBadStack (int up - int added) removed added s1
         else Ok (s1\<lparr>m_SPP := up - added\<rparr>))"

section \<open>Metering\<close>

text \<open>\<open>toInt63\<close> throws \<open>OutOfGas\<close> above \<open>2 ^ 63 - 1\<close>; \<open>None\<close> stands for that throw.\<close>

definition toInt63 :: "'a::len word \<Rightarrow> u64 option" where
  "toInt63 v = (if 0x7FFFFFFFFFFFFFFF < unat v then None else Some (ucast v))"

definition int63 :: "u64 option \<Rightarrow> (u64 \<Rightarrow> 'w vm \<Rightarrow> 'w vm outcome) \<Rightarrow> 'w vm \<Rightarrow> 'w vm outcome" where
  "int63 v k s = (case v of None \<Rightarrow> throwOutOfGas s | Some w \<Rightarrow> k w s)"

definition memNeed :: "u256 \<Rightarrow> u256 \<Rightarrow> u64 option" where
  "memNeed offset sz = toInt63 (if sz \<noteq> 0 then ucast offset + ucast sz else (0 :: u512))"

definition gasForMem :: "EVMSchedule \<Rightarrow> u512 \<Rightarrow> u64 option" where
  "gasForMem sch sz = (let s = sz div 32
     in toInt63 (ucast (memoryGas sch) * s + s * s div ucast (quadCoeffDiv sch)))"

definition updateIOGas :: "'w vm \<Rightarrow> 'w vm outcome" where
  "updateIOGas s = (if m_io_gas s < m_runGas s then throwOutOfGas s
     else Ok (s\<lparr>m_io_gas := m_io_gas s - m_runGas s\<rparr>))"

definition memGas :: "EVMSchedule \<Rightarrow> u64 \<Rightarrow> u64 \<Rightarrow> u64 option" where
  "memGas sch newSize oldSize = do {
     g1 \<leftarrow> gasForMem sch (ucast newSize);
     g0 \<leftarrow> gasForMem sch (ucast oldSize);
     toInt63 (g1 - g0)
   }"

definition setRunGas :: "u64 option \<Rightarrow> 'w vm \<Rightarrow> 'w vm outcome" where
  "setRunGas v = int63 v (\<lambda>g. upd (\<lambda>s. s\<lparr>m_runGas := g\<rparr>))"

definition addRunGas :: "u64 option \<Rightarrow> 'w vm \<Rightarrow> 'w vm outcome" where
  "addRunGas v = int63 v (\<lambda>g. upd (\<lambda>s. s\<lparr>m_runGas := m_runGas s + g\<rparr>))"

definition updateGas :: "EVMSchedule \<Rightarrow> 'w vm \<Rightarrow> 'w vm outcome" where
  "updateGas sch = seq [
     \<lambda>s. if memSize s < m_newMemSize s
         then addRunGas (memGas sch (m_newMemSize s) (memSize s)) s
         else Ok s,
     upd (\<lambda>s. s\<lparr>m_runGas := m_runGas s + ucast (copyGas sch) * ((m_copyMemSize s + 31) div 32)\<rparr>),
     \<lambda>s. if m_io_gas s < m_runGas s then throwOutOfGas s else Ok s]"

definition updateMem :: "EVMSchedule \<Rightarrow> u64 \<Rightarrow> 'w vm \<Rightarrow> 'w vm outcome" where
  "updateMem sch newMem = seq [
     upd (\<lambda>s. s\<lparr>m_newMemSize := (newMem + 31) div 32 * 32\<rparr>),
     updateGas sch,
     upd (\<lambda>s. if memSize s < m_newMemSize s
              then s\<lparr>m_mem := m_mem s @ replicate (unat (m_newMemSize s) - length (m_mem s)) 0\<rparr>
              else s)]"

definition logGasMem :: "EVMSchedule \<Rightarrow> 'w vm \<Rightarrow> 'w vm outcome" where
  "logGasMem sch = seq [
     \<lambda>s. (let n = ucast (byte_of (m_OP s)) - ucast (byte_of (I_LOG 0)) :: u32
          in setRunGas (toInt63 (ucast (logGas sch + logTopicGas sch * n)
                                   + ucast (logDataGas sch) * ucast (SP s 1) :: u512)) s),
     \<lambda>s. int63 (memNeed (SP s 0) (SP s 1)) (updateMem sch) s]"

section \<open>Instruction fetch\<close>

text \<open>\<open>initMetrics\<close> fills \<open>c_metrics\<close>, one row per byte, from \<open>instructionInfo\<close>.\<close>

definition c_metrics :: "byte \<Rightarrow> Tier \<times> nat \<times> nat" where
  "c_metrics b = (let op = instructionInfo (Instruction b)
     in (info_gasPriceTier op, info_args op, info_ret op))"

definition tierGas :: "'w ext \<Rightarrow> Tier \<Rightarrow> u32" where
  "tierGas E t = (if tier_index t < length (tierStepGas (evmSchedule E))
     then tierStepGas (evmSchedule E) ! tier_index t else oob_tierGas E)"

definition fetchInstruction :: "'w ext \<Rightarrow> 'w vm \<Rightarrow> 'w vm outcome" where
  "fetchInstruction E s =
     (let b = m_code s ! unat (m_PC s);
          (tier, args, ret) = c_metrics b
      in seq [upd (\<lambda>s. s\<lparr>m_OP := Instruction b\<rparr>),
              adjustStack args ret,
              setRunGas (toInt63 (tierGas E tier)),
              upd (\<lambda>s. s\<lparr>m_newMemSize := memSize s, m_copyMemSize := 0\<rparr>)] s)"

section \<open>Facts about the stack and the fetch\<close>

lemma length_stack_of [simp]: "length (stack_of s) = stackEnd - m_SPP s"
  by (simp add: stack_of_def)

lemma nth_stack_of: "i < stackEnd - m_SPP s \<Longrightarrow> stack_of s ! i = m_stack s (m_SPP s + i)"
  by (simp add: stack_of_def)

lemma adjustStack_Ok [simp]:
  "adjustStack removed added s = Ok t \<longleftrightarrow> m_SPP s + removed \<le> stackEnd \<and> added \<le> m_SPP s + removed
     \<and> t = s\<lparr>m_SP := m_SPP s, m_SPP := m_SPP s + removed - added\<rparr>"
  by (auto simp: adjustStack_def throwBadStack_def Let_def)

text \<open>
  In terms of the height of the stack: too few items is an underflow, too many after the exchange
  an overflow, and the message never confuses the two.
\<close>

lemma adjustStack_cases:
  assumes "m_SPP s \<le> stackEnd" and "removed \<le> stackEnd"
  shows "case adjustStack removed added s of
      Throw StackUnderflow _ \<Rightarrow> length (stack_of s) < removed
    | Throw OutOfStack _ \<Rightarrow> removed \<le> length (stack_of s)
        \<and> stackEnd < length (stack_of s) - removed + added
    | Throw _ _ \<Rightarrow> False
    | Ok t \<Rightarrow> removed \<le> length (stack_of s) \<and> length (stack_of s) - removed + added \<le> stackEnd
        \<and> length (stack_of t) = length (stack_of s) - removed + added"
  using assms by (auto simp: adjustStack_def throwBadStack_def Let_def)

lemma toInt63_Some [simp]:
  "toInt63 v = Some w \<longleftrightarrow> unat v \<le> 0x7FFFFFFFFFFFFFFF \<and> w = ucast v"
  by (auto simp: toInt63_def)

lemma unat_ucast_63: "unat v \<le> 0x7FFFFFFFFFFFFFFF \<Longrightarrow> unat (ucast v :: u64) = unat v"
  by (simp add: unsigned_ucast_eq take_bit_nat_eq_self)

lemma toInt63_u32 [simp]: "toInt63 (v :: u32) = Some (ucast v)"
  using unsigned_less [of v, where ?'a = nat] by (simp add: toInt63_def)

lemma unat_ucast_u32 [simp]: "unat (ucast (v :: u32) :: u64) = unat v"
  using unsigned_less [of v, where ?'a = nat] by (simp add: unat_ucast_63)

lemma int63_Ok [simp]: "int63 v k s = Ok t \<longleftrightarrow> (\<exists>w. v = Some w \<and> k w s = Ok t)"
  by (auto simp: int63_def throw_defs split: option.splits)

lemma int63_Throw: "int63 v k s = Throw e t
    \<longleftrightarrow> (v = None \<and> e = OutOfGas \<and> t = s) \<or> (\<exists>w. v = Some w \<and> k w s = Throw e t)"
  by (auto simp: int63_def throw_defs split: option.splits)

lemma updateIOGas_Ok [simp]: "updateIOGas s = Ok t
    \<longleftrightarrow> m_runGas s \<le> m_io_gas s \<and> t = s\<lparr>m_io_gas := m_io_gas s - m_runGas s\<rparr>"
  by (auto simp: updateIOGas_def throw_defs)

lemma addRunGas_Ok [simp]:
  "addRunGas v s = Ok t \<longleftrightarrow> (\<exists>g. v = Some g \<and> t = s\<lparr>m_runGas := m_runGas s + g\<rparr>)"
  by (auto simp: addRunGas_def)

lemma setRunGas_Ok [simp]:
  "setRunGas v s = Ok t \<longleftrightarrow> (\<exists>g. v = Some g \<and> t = s\<lparr>m_runGas := g\<rparr>)"
  by (auto simp: setRunGas_def)

lemma fetchInstruction_Ok:
  "fetchInstruction E s = Ok t \<longleftrightarrow>
     (let i = Instruction (m_code s ! unat (m_PC s)); op = instructionInfo i
      in m_SPP s + info_args op \<le> stackEnd \<and> info_ret op \<le> m_SPP s + info_args op
       \<and> t = s\<lparr>m_OP := i, m_SP := m_SPP s, m_SPP := m_SPP s + info_args op - info_ret op,
              m_runGas := ucast (tierGas E (info_gasPriceTier op)), m_newMemSize := memSize s,
              m_copyMemSize := 0\<rparr>)"
  by (auto simp: fetchInstruction_def c_metrics_def Let_def memSize_def)

section \<open>Facts about memory and its price\<close>

text \<open>The price of a memory of \<open>n\<close> bytes, over the naturals, and the size rounded up to words.\<close>

definition memCost :: "EVMSchedule \<Rightarrow> nat \<Rightarrow> nat" where
  "memCost sch n = unat (memoryGas sch) * (n div 32) + (n div 32) * (n div 32) div unat (quadCoeffDiv sch)"

definition roundUp :: "nat \<Rightarrow> nat" where
  "roundUp n = (n + 31) div 32 * 32"

lemma memCost_mono: "m \<le> n \<Longrightarrow> memCost sch m \<le> memCost sch n"
  by (auto simp: memCost_def intro!: add_mono mult_le_mono div_le_mono)

lemma roundUp_ge: "n \<le> roundUp n"
  by (simp add: roundUp_def)

lemma roundUp_dvd [simp]: "32 dvd roundUp n"
  by (simp add: roundUp_def)

lemma roundUp_least: "32 dvd m \<Longrightarrow> n \<le> m \<Longrightarrow> roundUp n \<le> m"
  by (auto simp: roundUp_def)

lemma unat_512_u64: "unat (ucast (w :: u64) :: u512) = unat w"
  using unat_64_lt [of w, simplified] less_trans [OF unat_64_lt, of "2 ^ 512" w]
  by (simp add: unsigned_ucast_eq take_bit_nat_eq_self)

lemma unat_512_u32: "unat (ucast (w :: u32) :: u512) = unat w"
  using unsigned_less [of w, where ?'a = nat] by (simp add: unsigned_ucast_eq take_bit_nat_eq_self)

lemma gasForMem_value:
  "unat (let s = ucast (x :: u64) div 32
         in ucast (memoryGas sch) * s + s * s div ucast (quadCoeffDiv sch) :: u512)
   = memCost sch (unat x)"
proof -
  let ?s = "ucast x div 32 :: u512" and ?n = "unat x div 32"
  have s: "unat ?s = ?n" by (simp add: unat_div unat_512_u64)
  have n: "?n < 2 ^ 60" by (simp add: div_less_iff_less_mult less_trans [OF unat_64_lt])
  have m: "unat (memoryGas sch) < 2 ^ 32" using unsigned_less [of "memoryGas sch"] by simp
  have nn: "?n * ?n < 2 ^ 60 * 2 ^ 60" using n by (intro mult_strict_mono) auto
  have mn: "unat (memoryGas sch) * ?n \<le> 2 ^ 32 * 2 ^ 60" using n m by (intro mult_mono) auto
  have "unat (?s * ?s) = ?n * ?n"
    using nn by (subst unat_mult_lem [THEN iffD1]) (simp_all add: s)
  then have q: "unat (?s * ?s div ucast (quadCoeffDiv sch)) = ?n * ?n div unat (quadCoeffDiv sch)"
    by (simp add: unat_div unat_512_u32)
  have p: "unat (ucast (memoryGas sch) * ?s) = unat (memoryGas sch) * ?n"
    using mn by (subst unat_mult_lem [THEN iffD1]) (simp_all add: s unat_512_u32)
  have "?n * ?n div unat (quadCoeffDiv sch) \<le> ?n * ?n" by (rule div_le_dividend)
  with nn mn have "unat (memoryGas sch) * ?n + ?n * ?n div unat (quadCoeffDiv sch) < 2 ^ 512"
    by (intro le_less_trans [OF add_mono [OF mn order.trans [OF _ less_imp_le [OF nn]]]]) simp_all
  then show ?thesis
    by (simp add: Let_def memCost_def p q unat_add_lem [THEN iffD1])
qed

lemma gasForMem_Some:
  "gasForMem sch (ucast (x :: u64)) = Some w
     \<longleftrightarrow> memCost sch (unat x) \<le> 0x7FFFFFFFFFFFFFFF \<and> w = of_nat (memCost sch (unat x))"
proof -
  have "toInt63 v = Some w \<longleftrightarrow> n \<le> 0x7FFFFFFFFFFFFFFF \<and> w = of_nat n" if "unat v = n" for v :: u512 and n
    using that by (auto simp: of_nat_unat)
  from this [OF gasForMem_value] show ?thesis by (simp add: gasForMem_def Let_def)
qed

lemma memGas_Some:
  assumes "unat old \<le> unat new"
  shows "memGas sch new old = Some w \<longleftrightarrow> memCost sch (unat new) \<le> 0x7FFFFFFFFFFFFFFF
           \<and> w = of_nat (memCost sch (unat new) - memCost sch (unat old))"
proof -
  have m: "memCost sch (unat old) \<le> memCost sch (unat new)" by (rule memCost_mono [OF assms])
  have "unat (of_nat a - of_nat b :: u64) = a - b" if "a \<le> 0x7FFFFFFFFFFFFFFF" "b \<le> a" for a b
  proof -
    have "(of_nat a - of_nat b :: u64) = of_nat (a - b)" using that by simp
    moreover have "a - b < 2 ^ LENGTH(64)" using that by simp
    ultimately show ?thesis by (simp only: unat_of_nat_lt)
  qed
  with m show ?thesis
    by (auto simp: memGas_def bind_eq_Some_conv gasForMem_Some)
qed

text \<open>
  What \<open>updateMem\<close> does, over the naturals. \<open>smallRun\<close> is the bound on what is charged before
  under which nothing wraps; every caller is inside it.
\<close>

definition memDelta :: "EVMSchedule \<Rightarrow> nat \<Rightarrow> nat \<Rightarrow> nat" where
  "memDelta sch old new = (if old < new then memCost sch new - memCost sch old else 0)"

definition copyCost :: "EVMSchedule \<Rightarrow> u64 \<Rightarrow> nat" where
  "copyCost sch n = unat (copyGas sch) * ((unat n + 31) div 32)"

definition smallRun :: "EVMSchedule \<Rightarrow> 'w vm \<Rightarrow> bool" where
  "smallRun sch s \<longleftrightarrow> unat (m_runGas s) + copyCost sch (m_copyMemSize s) \<le> 2 ^ 63
     \<and> unat (m_copyMemSize s) < 2 ^ 63"

definition mem_fits :: "'w vm \<Rightarrow> bool" where
  "mem_fits s \<longleftrightarrow> 32 dvd length (m_mem s) \<and> length (m_mem s) < 2 ^ 63"

lemma word64_eqI: "unat (x :: u64) = unat y \<Longrightarrow> x = y"
  by (rule unsigned_word_eqI)

lemma unat_add_u64: "unat x + unat y < 2 ^ 64 \<Longrightarrow> unat (x + y :: u64) = unat x + unat y"
  using unat_add_lem [of x y] by simp

lemma unat_mult_u64: "unat x * unat y < 2 ^ 64 \<Longrightarrow> unat (x * y :: u64) = unat x * unat y"
  using unat_mult_lem [of x y] by simp

lemma unat_roundUp:
  assumes "unat n < 2 ^ 64 - 31"
  shows "unat ((n + 31) div 32 * 32 :: u64) = roundUp (unat n)"
proof -
  have a: "unat (n + 31) = unat n + 31"
    using assms by (subst unat_add_u64) simp_all
  then have "unat ((n + 31) div 32) = (unat n + 31) div 32" by (simp add: unat_div)
  moreover have "(unat n + 31) div 32 * 32 < 2 ^ 64"
    using assms by (intro le_less_trans [OF div_mult_self_le]) simp
  ultimately show ?thesis unfolding roundUp_def by (subst unat_mult_u64) simp_all
qed

lemma unat_copyCost:
  assumes "copyCost sch n \<le> 2 ^ 63" and "unat n < 2 ^ 63"
  shows "unat (ucast (copyGas sch) * ((n + 31) div 32) :: u64) = copyCost sch n"
proof -
  have "unat (n + 31) = unat n + 31"
    using assms(2) by (subst unat_add_u64) simp_all
  then have "unat ((n + 31) div 32) = (unat n + 31) div 32" by (simp add: unat_div)
  with assms(1) show ?thesis unfolding copyCost_def by (subst unat_mult_u64) simp_all
qed

lemma unat_memSize: "mem_fits s \<Longrightarrow> unat (memSize s) = length (m_mem s)"
  by (simp add: mem_fits_def memSize_def unat_of_nat_lt)

lemma memDelta_le: "memDelta sch old new \<le> memCost sch new"
  by (simp add: memDelta_def)

lemma of_nat_unat_add: "of_nat (unat (x :: u64) + d + unat y) = x + of_nat d + y"
  by (simp add: of_nat_unat)

lemma less_of_nat_u64: "n < 2 ^ 64 \<Longrightarrow> (x :: u64) < of_nat n \<longleftrightarrow> unat x < n"
  by (simp add: word_less_nat_alt unat_of_nat_lt)

lemma updateGas_Ok:
  fixes s :: "'w vm"
  assumes fits: "mem_fits s" and small: "smallRun sch s"
  defines "new \<equiv> unat (m_newMemSize s)"
  defines "run \<equiv> unat (m_runGas s) + memDelta sch (length (m_mem s)) new + copyCost sch (m_copyMemSize s)"
  shows "updateGas sch s = Ok t \<longleftrightarrow>
     (length (m_mem s) < new \<longrightarrow> memCost sch new < 2 ^ 63)
     \<and> run \<le> unat (m_io_gas s) \<and> t = s\<lparr>m_runGas := of_nat run\<rparr>"
proof -
  let ?d = "memDelta sch (length (m_mem s)) new"
  let ?c = "ucast (copyGas sch) * ((m_copyMemSize s + 31) div 32) :: u64"
  have c: "unat ?c = copyCost sch (m_copyMemSize s)"
    using small by (intro unat_copyCost) (simp_all add: smallRun_def)
  have run: "m_runGas s + of_nat ?d + ?c = of_nat run"
    unfolding run_def c [symmetric] by (rule of_nat_unat_add [symmetric])
  have gas: "m_io_gas s < of_nat run \<longleftrightarrow> unat (m_io_gas s) < run"
    if "?d < 2 ^ 63"
    using small that by (intro less_of_nat_u64) (simp add: smallRun_def run_def)
  show ?thesis
  proof (cases "length (m_mem s) < new")
    case True
    have lt: "memSize s < m_newMemSize s"
      using True by (simp add: word_less_nat_alt unat_memSize [OF fits] new_def)
    have le: "unat (memSize s) \<le> unat (m_newMemSize s)"
      using True by (simp add: unat_memSize [OF fits] new_def)
    have mg: "memGas sch (m_newMemSize s) (memSize s) = Some g
        \<longleftrightarrow> memCost sch new < 2 ^ 63 \<and> g = of_nat ?d" for g
      using memGas_Some [OF le, of sch g] True
      by (auto simp: memDelta_def new_def unat_memSize [OF fits])
    have "?d < 2 ^ 63" if "memCost sch new < 2 ^ 63"
      using that memDelta_le le_less_trans by blast
    with gas have gas': "memCost sch new < 2 ^ 63 \<Longrightarrow> m_io_gas s < of_nat run \<longleftrightarrow> unat (m_io_gas s) < run"
      by blast
    show ?thesis
      using True lt gas' by (auto simp: updateGas_def mg run throw_defs not_less)
  next
    case False
    then have d: "?d = 0" by (simp add: memDelta_def)
    have "\<not> memSize s < m_newMemSize s"
      using False by (simp add: word_less_nat_alt unat_memSize [OF fits] new_def)
    with d gas run False show ?thesis
      by (auto simp: updateGas_def throw_defs not_less)
  qed
qed

lemma updateMem_Ok:
  fixes s :: "'w vm"
  assumes fits: "mem_fits s" and small: "smallRun sch s" and n: "unat n < 2 ^ 64 - 31"
  defines "new \<equiv> roundUp (unat n)"
  defines "run \<equiv> unat (m_runGas s) + memDelta sch (length (m_mem s)) new + copyCost sch (m_copyMemSize s)"
  shows "updateMem sch n s = Ok t \<longleftrightarrow>
     (length (m_mem s) < new \<longrightarrow> memCost sch new < 2 ^ 63)
     \<and> run \<le> unat (m_io_gas s)
     \<and> t = s\<lparr>m_newMemSize := of_nat new, m_runGas := of_nat run,
             m_mem := m_mem s @ replicate (new - length (m_mem s)) 0\<rparr>"
proof -
  let ?n = "(n + 31) div 32 * 32"
  let ?s = "s\<lparr>m_newMemSize := ?n\<rparr>"
  have un: "unat ?n = new" unfolding new_def by (rule unat_roundUp [OF n])
  then have of_new: "of_nat new = ?n" by (metis of_nat_unat ucast_id)
  have fits': "mem_fits ?s" and small': "smallRun sch ?s"
    using fits small by (simp_all add: mem_fits_def smallRun_def)
  have grow: "memSize s < ?n \<longleftrightarrow> length (m_mem s) < new"
    by (simp add: word_less_nat_alt unat_memSize [OF fits] un)
  define grown where "grown t = (if memSize t < m_newMemSize t
       then t\<lparr>m_mem := m_mem t @ replicate (unat (m_newMemSize t) - length (m_mem t)) 0\<rparr> else t)"
    for t :: "'w vm"
  have fin: "grown (?s\<lparr>m_runGas := r\<rparr>) = s\<lparr>m_newMemSize := of_nat new, m_runGas := r,
             m_mem := m_mem s @ replicate (new - length (m_mem s)) 0\<rparr>" for r
    using grow by (auto simp: grown_def un of_new memSize_def)
  have key: "updateGas sch ?s = Ok u \<longleftrightarrow> (length (m_mem s) < new \<longrightarrow> memCost sch new < 2 ^ 63)
     \<and> run \<le> unat (m_io_gas s) \<and> u = ?s\<lparr>m_runGas := of_nat run\<rparr>" for u
    using updateGas_Ok [OF fits' small', of u] unfolding run_def by (simp add: un)
  have "updateMem sch n s = Ok t \<longleftrightarrow> (\<exists>u. updateGas sch ?s = Ok u \<and> t = grown u)"
    by (simp only: updateMem_def seq_Ok upd_Ok seq.simps(1) outcome.inject simp_thms grown_def
          ex_simps conj_commute)
  also have "\<dots> \<longleftrightarrow> (length (m_mem s) < new \<longrightarrow> memCost sch new < 2 ^ 63)
     \<and> run \<le> unat (m_io_gas s) \<and> t = grown (?s\<lparr>m_runGas := of_nat run\<rparr>)"
    by (simp only: key) blast
  finally show ?thesis by (simp only: fin)
qed

end
