(* ===== verification/VMCalls.thy ===== *)
theory VMCalls
  imports VMState
begin

text \<open>
  \<open>libevm/VMCalls.cpp\<close>: copying call data and code into memory, the check of a jump destination, and
  the two cases of the interpreter that leave it for another execution, \<open>caseCreate\<close> and \<open>caseCall\<close>.
\<close>

section \<open>Copying to memory\<close>

text \<open>
  The three stack words are \<open>_sp[0]\<close> to \<open>_sp[2]\<close>; offset and size are cut to 64 bits as the casts do.
\<close>

definition sizeToBeCopied :: "bytes \<Rightarrow> u256 \<Rightarrow> u64 \<Rightarrow> nat" where
  "sizeToBeCopied d bigIndex sz =
     (let index = ucast bigIndex :: u64
      in if length d < unat bigIndex + unat sz
         then (if length d < unat bigIndex then 0 else length d - unat index)
         else unat sz)"

definition copyDataToMemory :: "bytes \<Rightarrow> u256 \<Rightarrow> u256 \<Rightarrow> u256 \<Rightarrow> bytes \<Rightarrow> bytes" where
  "copyDataToMemory d sp0 sp1 sp2 mem =
     (let offset = ucast sp0 :: u64; index = ucast sp1 :: u64; sz = ucast sp2 :: u64;
          n = sizeToBeCopied d sp1 sz;
          mem1 = (if 0 < n then poke (unat offset) (bslice (unat index) n d) mem else mem)
      in if n < unat sz then poke (unat offset + n) (replicate (unat sz - n) 0) mem1 else mem1)"

section \<open>Jump destinations\<close>

text \<open>\<open>std::binary_search\<close> over the table: the first element not below \<open>x\<close>, then a comparison.\<close>

function lower_bound :: "'a::linorder list \<Rightarrow> 'a \<Rightarrow> nat \<Rightarrow> nat \<Rightarrow> nat" where
  "lower_bound xs x first len = (if len = 0 then first
     else let half = len div 2; mid = first + half
          in if xs ! mid < x then lower_bound xs x (mid + 1) (len - half - 1)
             else lower_bound xs x first half)"
  by pat_completeness auto
termination
  by (relation "measure (\<lambda>(xs, x, first, len). len)") auto

declare lower_bound.simps [simp del]

definition binary_search :: "'a::linorder list \<Rightarrow> 'a \<Rightarrow> bool" where
  "binary_search xs x = (let i = lower_bound xs x 0 (length xs) in i < length xs \<and> \<not> x < xs ! i)"

text \<open>\<open>None\<close> is the throw, or -1 when the caller asked for no throw.\<close>

definition verifyJumpDest :: "u64 list \<Rightarrow> u256 \<Rightarrow> u64 option" where
  "verifyJumpDest jumpDests dest =
     (if unat dest \<le> 0x7FFFFFFFFFFFFFFF
      then let pc = ucast dest in if binary_search jumpDests pc then Some pc else None
      else None)"

section \<open>Creating a contract\<close>

definition doCreate :: "'w ext \<Rightarrow> 'w vm \<Rightarrow> 'w vm" where
  "doCreate E s =
     (let endowment = SP s 0;
          initOff = ucast (SP s 1) :: u64;
          initSize = ucast (SP s 2) :: u64
      in if endowment \<le> balance E (myAddress E) (m_ext s) \<and> depth E < 1024
         then let io_gas = ucast (m_io_gas s) :: u256;
                  createGas = (if staticCallDepthLimit (evmSchedule E) then io_gas
                               else io_gas - io_gas div 64);
                  (a, gas, w) = ext_create E endowment createGas
                                  (bslice (unat initOff) (unat initSize) (m_mem s)) (m_ext s)
              in setSPP (fromAddress a)
                   (s\<lparr>m_ext := w, m_io_gas := ucast (io_gas - (createGas - gas))\<rparr>)
         else setSPP 0 s)"

definition run_caseCreate :: "'w ext \<Rightarrow> 'w vm \<Rightarrow> 'w vm outcome" where
  "run_caseCreate E = seq [
     upd (\<lambda>s. s\<lparr>m_bounce := Some interpretCases\<rparr>),
     setRunGas (toInt63 (createGas (evmSchedule E))),
     \<lambda>s. int63 (memNeed (SP s 1) (SP s 2)) (updateMem (evmSchedule E)) s,
     updateIOGas,
     upd (doCreate E),
     upd (\<lambda>s. s\<lparr>m_PC := m_PC s + 1\<rparr>)]"

section \<open>Calling\<close>

text \<open>The static costs of a call: the call itself, a new account, a transfer of value.\<close>

definition callStaticGas :: "'w ext \<Rightarrow> 'w vm \<Rightarrow> 'w vm outcome" where
  "callStaticGas E = seq [
     setRunGas (toInt63 (callGas (evmSchedule E))),
     \<lambda>s. if m_OP s = I_CALL \<and> \<not> account_exists E (asAddress (SP s 1)) (m_ext s)
            \<and> (0 < SP s 2 \<or> zeroValueTransferChargesNewAccountGas (evmSchedule E))
         then addRunGas (toInt63 (callNewAccountGas (evmSchedule E))) s else Ok s,
     \<lambda>s. if m_OP s \<noteq> I_DELEGATECALL \<and> 0 < SP s 2
         then addRunGas (toInt63 (callValueTransferGas (evmSchedule E))) s else Ok s]"

definition callMem :: "EVMSchedule \<Rightarrow> 'w vm \<Rightarrow> 'w vm outcome" where
  "callMem sch s =
     (let sizesOffset = (if m_OP s = I_DELEGATECALL then 2 else 3)
      in int63 (memNeed (SP s sizesOffset) (SP s (sizesOffset + 1))) (\<lambda>inputMemNeed.
         int63 (memNeed (SP s (sizesOffset + 2)) (SP s (sizesOffset + 3))) (\<lambda>outputMemNeed. seq [
           upd (\<lambda>s. s\<lparr>m_newMemSize := max inputMemNeed outputMemNeed\<rparr>),
           \<lambda>s. updateMem sch (m_newMemSize s) s])) s)"

text \<open>The gas passed on: what was asked for, or under EIP150 at most all but one 64th.\<close>

definition callGasAllowance :: "EVMSchedule \<Rightarrow> 'w vm \<Rightarrow> u256" where
  "callGasAllowance sch s =
     (if staticCallDepthLimit sch then SP s 0
      else min (SP s 0) (ucast (m_io_gas s - m_io_gas s div 64)))"

definition callStipendGas :: "EVMSchedule \<Rightarrow> 'w vm \<Rightarrow> u256" where
  "callStipendGas sch s =
     (if m_OP s \<noteq> I_DELEGATECALL \<and> 0 < SP s 2 then ucast (callStipend sch) else 0)"

definition callParams :: "'w ext \<Rightarrow> u256 \<Rightarrow> 'w vm \<Rightarrow> CallParameters" where
  "callParams E gas s =
     (let inOutOffset = (if m_OP s = I_DELEGATECALL then 0 else 1);
          inOff = ucast (SP s (inOutOffset + 2)) :: u64;
          inSize = ucast (SP s (inOutOffset + 3)) :: u64
      in \<lparr>senderAddress = (if m_OP s = I_DELEGATECALL then caller E else myAddress E),
          codeAddress = asAddress (SP s 1),
          receiveAddress = (if m_OP s = I_CALL then asAddress (SP s 1) else myAddress E),
          valueTransfer = (if m_OP s = I_DELEGATECALL then 0 else SP s 2),
          apparentValue = (if m_OP s = I_DELEGATECALL then callvalue E else SP s 2),
          cp_gas = gas,
          cp_data = bslice (unat inOff) (unat inSize) (m_mem s)\<rparr>)"

text \<open>
  \<open>caseCallSetup\<close> goes on with the call parameters and, where the call can be made, the range of
  memory the result is copied to (\<open>None\<close> is its answer \<open>false\<close>).
\<close>

definition callReady :: "'w ext \<Rightarrow> u256 \<Rightarrow>
    (CallParameters \<Rightarrow> (u64 \<times> u64) option \<Rightarrow> 'w vm \<Rightarrow> 'w vm outcome) \<Rightarrow> 'w vm \<Rightarrow> 'w vm outcome" where
  "callReady E gas k s =
     (let p = callParams E (gas + callStipendGas (evmSchedule E) s) s;
          inOutOffset = (if m_OP s = I_DELEGATECALL then 0 else 1);
          outOff = ucast (SP s (inOutOffset + 4));
          outSize = ucast (SP s (inOutOffset + 5))
      in if valueTransfer p \<le> balance E (myAddress E) (m_ext s) \<and> depth E < 1024
         then k p (Some (outOff, outSize)) s else k p None s)"

definition callPass :: "'w ext \<Rightarrow>
    (CallParameters \<Rightarrow> (u64 \<times> u64) option \<Rightarrow> 'w vm \<Rightarrow> 'w vm outcome) \<Rightarrow> 'w vm \<Rightarrow> 'w vm outcome" where
  "callPass E k s = (let gas = callGasAllowance (evmSchedule E) s
     in seq [setRunGas (toInt63 gas), updateIOGas, callReady E gas k] s)"

definition caseCallSetup :: "'w ext \<Rightarrow>
    (CallParameters \<Rightarrow> (u64 \<times> u64) option \<Rightarrow> 'w vm \<Rightarrow> 'w vm outcome) \<Rightarrow> 'w vm \<Rightarrow> 'w vm outcome" where
  "caseCallSetup E k = seq [callStaticGas E, callMem (evmSchedule E), updateIOGas, callPass E k]"

definition doCall :: "'w ext \<Rightarrow> CallParameters \<Rightarrow> (u64 \<times> u64) option \<Rightarrow> 'w vm \<Rightarrow> 'w vm" where
  "doCall E p out s = (case out of
     Some (outOff, outSize) \<Rightarrow>
       (let (ok, output, gas, w) = ext_call E p (m_ext s);
            mem = (if output \<noteq> [] then poke (unat outOff) (take (unat outSize) output) (m_mem s)
                   else m_mem s)
        in setSPP (if ok then 1 else 0)
             (s\<lparr>m_ext := w, m_mem := mem, m_io_gas := m_io_gas s + ucast gas\<rparr>))
   | None \<Rightarrow> setSPP 0 (s\<lparr>m_io_gas := m_io_gas s + ucast (cp_gas p)\<rparr>))"

definition run_caseCall :: "'w ext \<Rightarrow> 'w vm \<Rightarrow> 'w vm outcome" where
  "run_caseCall E = seq [
     upd (\<lambda>s. s\<lparr>m_bounce := Some interpretCases\<rparr>),
     caseCallSetup E (\<lambda>p out. upd (doCall E p out)),
     upd (\<lambda>s. s\<lparr>m_PC := m_PC s + 1\<rparr>)]"

end
