(* ===== verification/VMOpt.thy ===== *)
theory VMOpt
  imports VMCalls
begin

text \<open>
  \<open>libevm/VMOpt.cpp\<close>: the copy of the code with its tail of zeros, the pass that tabulates the jump
  destinations and blanks the synthetic instructions, and exponentiation by squaring. With
  \<open>EVM_OPTIMIZE\<close> off, as \<open>VMConfig.h\<close> sets it, the second pass is not compiled.
\<close>

section \<open>Code and jump destinations\<close>

definition copyCode :: "nat \<Rightarrow> bytes \<Rightarrow> bytes" where
  "copyCode extraBytes c = c @ replicate extraBytes 0"

definition is_synthetic :: "instruction \<Rightarrow> bool" where
  "is_synthetic op \<longleftrightarrow> op = I_PUSHC \<or> op = I_JUMPC \<or> op = I_JUMPCI"

definition is_push :: "instruction \<Rightarrow> bool" where
  "is_push op \<longleftrightarrow> byte_of (I_PUSH 1) \<le> byte_of op \<and> byte_of op \<le> byte_of (I_PUSH 32)"

text \<open>
  One pass of the loop at \<open>pc\<close>: the code and the table as they are after it, and the next \<open>pc\<close>.
\<close>

definition optimize_step :: "nat \<Rightarrow> bytes \<times> u64 list \<Rightarrow> (bytes \<times> u64 list) \<times> nat" where
  "optimize_step pc = (\<lambda>(m_code, jumpDests).
     let op = Instruction (m_code ! pc);
         m_code' = (if is_synthetic op then m_code[pc := byte_of I_BAD] else m_code)
     in if op = I_JUMPDEST then ((m_code', jumpDests @ [of_nat pc]), pc + 1)
        else if is_push op
          then ((m_code', jumpDests), pc + unat (byte_of op - byte_of (I_PUSH 1)) + 1 + 1)
        else ((m_code', jumpDests), pc + 1))"

function optimize_loop :: "nat \<Rightarrow> nat \<Rightarrow> bytes \<times> u64 list \<Rightarrow> bytes \<times> u64 list" where
  "optimize_loop nBytes pc st = (if pc < nBytes
     then (case optimize_step pc st of (st', pc') \<Rightarrow> optimize_loop nBytes pc' st') else st)"
  by pat_completeness auto
termination
  by (relation "measure (\<lambda>(nBytes, pc, st). nBytes - pc)")
    (auto simp: optimize_step_def Let_def split: if_splits prod.splits)

declare optimize_loop.simps [simp del]

definition optimize :: "bytes \<Rightarrow> bytes \<times> u64 list" where
  "optimize c = optimize_loop (length c) 0 (copyCode 33 c, [])"

section \<open>Exponentiation\<close>

function exp256_loop :: "u256 \<Rightarrow> u256 \<Rightarrow> u256 \<Rightarrow> u256" where
  "exp256_loop result base ex = (if ex \<noteq> 0
     then exp256_loop (if (ucast ex AND 1 :: u64) \<noteq> 0 then result * base else result)
            (base * base) (drop_bit 1 ex)
     else result)"
  by pat_completeness auto

lemma drop_bit_1_less: "(i :: u256) \<noteq> 0 \<Longrightarrow> unat (drop_bit 1 i) < unat i"
proof -
  assume "i \<noteq> 0"
  then have "0 < unat i" by (simp add: unat_gt_0)
  then show ?thesis unfolding unat_drop_bit by simp
qed

termination exp256_loop
  by (relation "measure (\<lambda>(r, b, e). unat e)") (auto intro: drop_bit_1_less [unfolded One_nat_def])

declare exp256_loop.simps [simp del]

definition exp256 :: "u256 \<Rightarrow> u256 \<Rightarrow> u256" where
  "exp256 base ex = exp256_loop 1 base ex"

section \<open>Facts: the search\<close>

lemma lower_bound_sorted:
  assumes "sorted xs"
  shows "first + len \<le> length xs \<Longrightarrow> (\<And>i. i < first \<Longrightarrow> xs ! i < x)
    \<Longrightarrow> (\<And>i. first + len \<le> i \<Longrightarrow> i < length xs \<Longrightarrow> \<not> xs ! i < x)
    \<Longrightarrow> (\<forall>i < lower_bound xs x first len. xs ! i < x) \<and> lower_bound xs x first len \<le> length xs
      \<and> (\<forall>i. lower_bound xs x first len \<le> i \<longrightarrow> i < length xs \<longrightarrow> \<not> xs ! i < x)"
  using assms
proof (induction xs x first len rule: lower_bound.induct)
  case (1 xs x first len)
  show ?case
  proof (cases "len = 0")
    case True
    with 1(3-5) show ?thesis by (simp add: lower_bound.simps)
  next
    case False
    let ?half = "len div 2"
    let ?mid = "first + ?half"
    have m: "?mid < length xs" using 1(3) False by linarith
    show ?thesis
    proof (cases "xs ! ?mid < x")
      case True
      have below: "xs ! i < x" if "i < ?mid + 1" for i
        by (rule le_less_trans [OF sorted_nth_mono [OF 1(6) _ m] True]) (use that in simp)
      have "?mid + 1 + (len - ?half - 1) = first + len" using False by simp
      with 1(1) [OF False refl refl True _ below _ 1(6)] 1(3,5) False True show ?thesis
        by (simp add: lower_bound.simps [of xs x first len] Let_def)
    next
      case nlt: False
      have above: "\<not> xs ! i < x" if "?mid \<le> i" "i < length xs" for i
        using nlt sorted_nth_mono [OF 1(6) that(1,2)] by (meson le_less_trans)
      have "?mid \<le> length xs" using m by simp
      with 1(2) [OF False refl refl nlt _ 1(4) above 1(6)] False nlt show ?thesis
        by (simp add: lower_bound.simps [of xs x first len] Let_def)
    qed
  qed
qed

lemma lower_bound_end:
  "(first + len < length xs \<Longrightarrow> \<not> xs ! (first + len) < x) \<Longrightarrow> lower_bound xs x first len < length xs
     \<Longrightarrow> \<not> xs ! lower_bound xs x first len < x"
proof (induction xs x first len rule: lower_bound.induct)
  case (1 xs x first len)
  show ?case
  proof (cases "len = 0")
    case True
    with 1(3,4) show ?thesis by (simp add: lower_bound.simps)
  next
    case False
    let ?half = "len div 2"
    have e: "first + ?half + 1 + (len - ?half - 1) = first + len" using False by simp
    show ?thesis
    proof (cases "xs ! (first + ?half) < x")
      case True
      with False have "lower_bound xs x first len = lower_bound xs x (first + ?half + 1) (len - ?half - 1)"
        by (simp add: lower_bound.simps [of xs x first len] Let_def)
      moreover have "\<not> xs ! lower_bound xs x (first + ?half + 1) (len - ?half - 1) < x"
        using 1(1) [OF False refl refl] True 1(3,4) calculation unfolding e by simp
      ultimately show ?thesis by simp
    next
      case nlt: False
      with False have "lower_bound xs x first len = lower_bound xs x first ?half"
        by (simp add: lower_bound.simps [of xs x first len] Let_def)
      with 1(2) [OF False refl refl] nlt 1(4) show ?thesis by simp
    qed
  qed
qed

text \<open>The search never invents a member; on a sorted table it finds every one.\<close>

lemma binary_search_mem: "binary_search xs x \<Longrightarrow> x \<in> set xs"
  using lower_bound_end [of 0 "length xs" xs x]
  by (auto simp: binary_search_def Let_def) (metis antisym_conv3 nth_mem)

lemma binary_search_iff:
  assumes "sorted xs"
  shows "binary_search xs x \<longleftrightarrow> x \<in> set xs"
proof
  assume "x \<in> set xs"
  then obtain i where i: "i < length xs" "xs ! i = x" by (auto simp: in_set_conv_nth)
  let ?r = "lower_bound xs x 0 (length xs)"
  have r: "\<forall>j < ?r. xs ! j < x" "\<forall>j. ?r \<le> j \<longrightarrow> j < length xs \<longrightarrow> \<not> xs ! j < x"
    using lower_bound_sorted [OF assms, of 0 "length xs" x] by auto
  with i have "?r \<le> i" by (meson less_irrefl not_le)
  with i r sorted_nth_mono [OF assms this i(1)] show "binary_search xs x"
    by (auto simp: binary_search_def Let_def)
qed (rule binary_search_mem)

section \<open>Facts: exponentiation\<close>

lemma odd_low_bit: "(ucast (e :: u256) AND 1 :: u64) \<noteq> 0 \<longleftrightarrow> odd (unat e)"
proof -
  have "(ucast e AND 1 :: u64) = of_bool (bit (ucast e :: u64) 0)"
    by (simp add: and_one_eq bit_0 mod2_eq_if)
  moreover have "bit (ucast e :: u64) 0 = bit e 0" by (simp add: bit_ucast_iff)
  moreover have "bit e 0 = bit (unat e) 0" by (simp add: bit_unsigned_iff)
  moreover have "bit (unat e) 0 = odd (unat e)" by (rule bit_0)
  ultimately show ?thesis by simp
qed

lemma exp256_loop_power: "exp256_loop r b e = r * b ^ unat e"
proof (induction r b e rule: exp256_loop.induct)
  case (1 r b e)
  show ?case
  proof (cases "e = 0")
    case True
    then show ?thesis by (simp add: exp256_loop.simps)
  next
    case False
    let ?n = "unat e div 2"
    have n: "unat (drop_bit 1 e) = ?n" unfolding unat_drop_bit by simp
    have p: "(b * b) ^ ?n = b ^ (2 * ?n)" by (simp add: power_mult power2_eq_square)
    have "exp256_loop r b e = (if odd (unat e) then r * b else r) * b ^ (2 * ?n)"
      using 1 [OF False] False unfolding exp256_loop.simps [of r b e] odd_low_bit
      by (simp only: n p if_True simp_thms)
    also have "\<dots> = r * b ^ unat e"
    proof (cases "odd (unat e)")
      case True
      then have "unat e = Suc (2 * ?n)" by simp
      then have "b ^ unat e = b * b ^ (2 * ?n)" by (metis power_Suc)
      with True show ?thesis by (simp add: mult.assoc)
    qed simp
    finally show ?thesis .
  qed
qed

lemma exp256_power: "exp256 b e = b ^ unat e"
  by (simp add: exp256_def exp256_loop_power)

section \<open>Facts: the table of jump destinations\<close>

text \<open>
  The reference: the positions at which an instruction starts, a push taking its operand with it.
  The pass answers with the starts that hold \<open>JUMPDEST\<close>, and blanks the starts that hold a
  synthetic instruction; operand bytes are never looked at.
\<close>

definition push_len :: "byte \<Rightarrow> nat" where
  "push_len b = (if 0x60 \<le> b \<and> b \<le> 0x7f then unat b - 0x5f else 0)"

function starts :: "bytes \<Rightarrow> nat \<Rightarrow> nat list" where
  "starts c pc = (if pc < length c then pc # starts c (pc + 1 + push_len (c ! pc)) else [])"
  by pat_completeness auto
termination
  by (relation "measure (\<lambda>(c, pc). length c - pc)") auto

declare starts.simps [simp del]

definition is_jumpdest :: "bytes \<Rightarrow> nat \<Rightarrow> bool" where
  "is_jumpdest c pc \<longleftrightarrow> Instruction (c ! pc) = I_JUMPDEST"

lemma starts_bounds: "p \<in> set (starts c pc) \<Longrightarrow> pc \<le> p \<and> p < length c"
proof (induction c pc rule: starts.induct)
  case (1 c pc)
  then show ?case by (fastforce simp: starts.simps [of c pc] split: if_splits)
qed

lemma starts_sorted: "sorted_wrt (<) (starts c pc)"
proof (induction c pc rule: starts.induct)
  case (1 c pc)
  then show ?case
    using starts_bounds [of _ c "pc + 1 + push_len (c ! pc)"]
    by (fastforce simp: starts.simps [of c pc])
qed

lemma is_push_iff: "is_push (Instruction b) \<longleftrightarrow> 0x60 \<le> b \<and> b \<le> 0x7f"
  by (simp add: is_push_def)

lemma push_advance:
  "is_push (Instruction b) \<Longrightarrow> unat (byte_of (Instruction b) - byte_of (I_PUSH 1)) + 1 = push_len b"
  by (auto simp: is_push_iff push_len_def unat_sub word_le_nat_alt)

lemma optimize_step_spec:
  "optimize_step pc (m, js) =
     ((if is_synthetic (Instruction (m ! pc)) then m[pc := byte_of I_BAD] else m,
       if Instruction (m ! pc) = I_JUMPDEST then js @ [of_nat pc] else js), pc + 1 + push_len (m ! pc))"
proof -
  have "push_len (m ! pc) = 0" if "Instruction (m ! pc) = I_JUMPDEST"
  proof -
    have "m ! pc = 0x5b" using byte_of_Instruction [of "m ! pc"] by (simp add: that)
    then show ?thesis by (simp add: push_len_def)
  qed
  moreover have "push_len (m ! pc) = 0" if "\<not> is_push (Instruction (m ! pc))"
    using that by (auto simp: push_len_def is_push_iff)
  ultimately show ?thesis
    using push_advance [of "m ! pc"] by (auto simp: optimize_step_def Let_def)
qed

lemma optimize_loop_spec:
  "length c \<le> length m \<Longrightarrow> (\<And>i. pc \<le> i \<Longrightarrow> i < length c \<Longrightarrow> m ! i = c ! i) \<Longrightarrow>
   snd (optimize_loop (length c) pc (m, js))
      = js @ map of_nat (filter (is_jumpdest c) (starts c pc))
   \<and> length (fst (optimize_loop (length c) pc (m, js))) = length m
   \<and> (\<forall>i < length m. fst (optimize_loop (length c) pc (m, js)) ! i
        = (if i \<in> set (starts c pc) \<and> is_synthetic (Instruction (c ! i)) then byte_of I_BAD else m ! i))"
proof (induction c pc arbitrary: m js rule: starts.induct)
  case (1 c pc)
  show ?case
  proof (cases "pc < length c")
    case False
    then show ?thesis by (simp add: optimize_loop.simps starts.simps)
  next
    case True
    let ?pc = "pc + 1 + push_len (c ! pc)"
    let ?m = "if is_synthetic (Instruction (c ! pc)) then m[pc := byte_of I_BAD] else m"
    let ?js = "if is_jumpdest c pc then js @ [of_nat pc] else js"
    have mc: "m ! pc = c ! pc" using 1(3) True by simp
    have step: "optimize_loop (length c) pc (m, js) = optimize_loop (length c) ?pc (?m, ?js)"
      using True by (subst optimize_loop.simps) (simp add: optimize_step_spec mc is_jumpdest_def)
    have "?m ! i = c ! i" if "?pc \<le> i" "i < length c" for i
      using 1(3) [of i] that by simp
    note IH = 1(1) [OF True, of ?m ?js, OF _ this]
    have notin: "pc \<notin> set (starts c ?pc)" using starts_bounds [of pc c ?pc] by auto
    show ?thesis
      unfolding step using IH 1(2) True notin
      by (auto simp: starts.simps [of c pc] nth_list_update)
  qed
qed

lemma optimize_spec:
  "snd (optimize c) = map of_nat (filter (is_jumpdest c) (starts c 0))"
  "length (fst (optimize c)) = length c + 33"
  "i < length c + 33 \<Longrightarrow> fst (optimize c) ! i
     = (if i \<in> set (starts c 0) \<and> is_synthetic (Instruction (c ! i)) then byte_of I_BAD
        else if i < length c then c ! i else 0)"
proof -
  have "(c @ replicate 33 0) ! j = c ! j" if "j < length c" for j
    using that by (simp add: nth_append)
  note spec = optimize_loop_spec [of c "c @ replicate 33 0" 0 "[]", OF _ this]
  then show "snd (optimize c) = map of_nat (filter (is_jumpdest c) (starts c 0))"
    "length (fst (optimize c)) = length c + 33"
    by (simp_all add: optimize_def copyCode_def)
  show "i < length c + 33 \<Longrightarrow> fst (optimize c) ! i
     = (if i \<in> set (starts c 0) \<and> is_synthetic (Instruction (c ! i)) then byte_of I_BAD
        else if i < length c then c ! i else 0)"
    using spec by (auto simp: optimize_def copyCode_def nth_append)
qed

lemma optimize_dests_sorted:
  assumes "length c < 2 ^ 64"
  shows "sorted (snd (optimize c))"
proof -
  let ?f = "filter (is_jumpdest c) (starts c 0)"
  have s: "sorted_wrt (<) ?f" by (intro sorted_wrt_filter starts_sorted)
  have "of_nat x \<le> (of_nat y :: u64)" if "x \<in> set ?f" "y \<in> set ?f" "x < y" for x y
    using that starts_bounds [of x c 0] starts_bounds [of y c 0] assms
    by (simp add: word_le_nat_alt unat_of_nat_lt)
  then show ?thesis
    unfolding optimize_spec sorted_map by (rule sorted_wrt_mono_rel [OF _ s])
qed

lemma verifyJumpDest_iff:
  assumes "length c < 2 ^ 63"
  shows "verifyJumpDest (snd (optimize c)) d = Some pc
    \<longleftrightarrow> unat d \<in> set (starts c 0) \<and> is_jumpdest c (unat d) \<and> pc = ucast d"
proof -
  have inj: "(of_nat x :: u64) = ucast d \<longleftrightarrow> x = unat d"
    if "x < 2 ^ 63" "unat d \<le> 0x7FFFFFFFFFFFFFFF" for x
    using that by (auto simp: unat_ucast_63 unat_of_nat_lt word_unat_eq_iff)
  have m: "ucast d \<in> set (snd (optimize c)) \<longleftrightarrow> unat d \<in> set (starts c 0) \<and> is_jumpdest c (unat d)"
    if "unat d \<le> 0x7FFFFFFFFFFFFFFF"
  proof -
    have "ucast d \<in> set (snd (optimize c))
        \<longleftrightarrow> (\<exists>x. x \<in> set (starts c 0) \<and> is_jumpdest c x \<and> (of_nat x :: u64) = ucast d)"
      by (auto simp: optimize_spec image_iff)
    also have "\<dots> \<longleftrightarrow> (\<exists>x. x \<in> set (starts c 0) \<and> is_jumpdest c x \<and> x = unat d)"
      using inj [OF _ that] starts_bounds [of _ c 0] assms less_trans by blast
    finally show ?thesis by blast
  qed
  have "sorted (snd (optimize c))" using assms by (intro optimize_dests_sorted) simp
  with m starts_bounds [of "unat d" c 0] assms show ?thesis
    by (auto simp: verifyJumpDest_def Let_def binary_search_iff)
qed

end
