(* ===== verification/Keccak.thy ===== *)
theory Keccak
  imports CommonData
begin

text \<open>
  The Keccak sponge of \<open>libdevcore/SHA3.cpp\<close> (the same text as \<open>libethash/sha3.c\<close>). The state of
  25 64-bit lanes is a list of words; the C code views the same 200 bytes as lanes through a cast,
  which on the little-endian machines it supports is \<open>lanes_of\<close> / \<open>bytes_of\<close> below. The in-place
  loops of \<open>keccakf\<close> are kept: theta and chi, which read a row or the column parities before they
  write, as maps over the positions, rho and pi as the chain of moves the loop makes.
\<close>

section \<open>Constants\<close>

definition keccak_rho :: "nat list" where
  "keccak_rho = [1, 3, 6, 10, 15, 21, 28, 36, 45, 55, 2, 14, 27, 41, 56, 8, 25, 43, 62, 18, 39, 61, 20, 44]"

definition keccak_pi :: "nat list" where
  "keccak_pi = [10, 7, 11, 17, 18, 3, 5, 16, 8, 21, 24, 4, 15, 23, 19, 13, 12, 2, 20, 14, 22, 9, 6, 1]"

definition keccak_RC :: "u64 list" where
  "keccak_RC = [1, 0x8082, 0x800000000000808a, 0x8000000080008000,
    0x808b, 0x80000001, 0x8000000080008081, 0x8000000000008009,
    0x8a, 0x88, 0x80008009, 0x8000000a,
    0x8000808b, 0x800000000000008b, 0x8000000000008089, 0x8000000000008003,
    0x8000000000008002, 0x8000000000000080, 0x800a, 0x800000008000000a,
    0x8000000080008081, 0x8000000000008080, 0x80000001, 0x8000000080008008]"

section \<open>The permutation\<close>

definition rol :: "u64 \<Rightarrow> nat \<Rightarrow> u64" where
  "rol x s = (push_bit s x OR drop_bit (64 - s) x)"

definition keccak_parity :: "u64 list \<Rightarrow> nat \<Rightarrow> u64" where
  "keccak_parity a x = foldl (\<lambda>b y. b XOR a ! (x + y)) 0 [0, 5, 10, 15, 20]"

definition keccak_theta :: "u64 list \<Rightarrow> u64 list" where
  "keccak_theta a =
     (let b = map (keccak_parity a) [0..<5]
      in map (\<lambda>i. a ! i XOR (b ! ((i mod 5 + 4) mod 5) XOR rol (b ! ((i mod 5 + 1) mod 5)) 1)) [0..<25])"

definition keccak_rho_pi_step :: "nat \<Rightarrow> u64 list \<times> u64 \<Rightarrow> u64 list \<times> u64" where
  "keccak_rho_pi_step x = (\<lambda>(a, t).
     let b = a ! (keccak_pi ! x) in (a[keccak_pi ! x := rol t (keccak_rho ! x)], b))"

definition keccak_rho_pi :: "u64 list \<Rightarrow> u64 list" where
  "keccak_rho_pi a = fst (foldl (\<lambda>s x. keccak_rho_pi_step x s) (a, a ! 1) [0..<24])"

definition keccak_chi :: "u64 list \<Rightarrow> u64 list" where
  "keccak_chi a = map (\<lambda>i. let y = i div 5 * 5; x = i mod 5
      in a ! (y + x) XOR (NOT (a ! (y + (x + 1) mod 5)) AND a ! (y + (x + 2) mod 5))) [0..<25]"

definition keccak_iota :: "nat \<Rightarrow> u64 list \<Rightarrow> u64 list" where
  "keccak_iota i a = a[0 := a ! 0 XOR keccak_RC ! i]"

definition keccak_round :: "nat \<Rightarrow> u64 list \<Rightarrow> u64 list" where
  "keccak_round i a = keccak_iota i (keccak_chi (keccak_rho_pi (keccak_theta a)))"

definition keccakf_lanes :: "u64 list \<Rightarrow> u64 list" where
  "keccakf_lanes a = foldl (\<lambda>a i. keccak_round i a) a [0..<24]"

definition lane_of :: "bytes \<Rightarrow> u64" where
  "lane_of bs = fromBigEndian (rev bs)"

definition lanes_of :: "bytes \<Rightarrow> u64 list" where
  "lanes_of bs = map (\<lambda>i. lane_of (bslice (8 * i) 8 bs)) [0..<25]"

definition bytes_of :: "u64 list \<Rightarrow> bytes" where
  "bytes_of a = concat (map (\<lambda>w. rev (toBigEndian 8 w)) a)"

definition keccakf :: "bytes \<Rightarrow> bytes" where
  "keccakf state = bytes_of (keccakf_lanes (lanes_of state))"

section \<open>The sponge\<close>

definition xorin :: "bytes \<Rightarrow> bytes \<Rightarrow> bytes" where
  "xorin dst src = poke 0 (map2 (XOR) (take (length src) dst) src) dst"

text \<open>
  \<open>foldP\<close> over the input: whole blocks are absorbed, what is left is returned with the state. The
  loop of the code needs a positive rate to end; every instance of the file has one, and the model
  stops at a zero rate.
\<close>

function absorb :: "nat \<Rightarrow> bytes \<Rightarrow> bytes \<Rightarrow> bytes \<times> bytes" where
  "absorb rate a inp = (if rate \<le> length inp \<and> rate \<noteq> 0
     then absorb rate (keccakf (xorin a (take rate inp))) (drop rate inp)
     else (a, inp))"
  by pat_completeness auto
termination
  by (relation "measure (\<lambda>(rate, a, inp). length inp)") auto

function squeeze :: "nat \<Rightarrow> bytes \<Rightarrow> nat \<Rightarrow> bytes" where
  "squeeze rate a outlen = (if rate \<le> outlen \<and> rate \<noteq> 0
     then take rate a @ squeeze rate (keccakf a) (outlen - rate)
     else take outlen a)"
  by pat_completeness auto
termination
  by (relation "measure (\<lambda>(rate, a, outlen). outlen)") auto

declare absorb.simps [simp del] squeeze.simps [simp del]

text \<open>\<open>None\<close> is the answer -1 with nothing written; a null pointer does not arise for a list.\<close>

definition keccak_hash :: "nat \<Rightarrow> bytes \<Rightarrow> nat \<Rightarrow> byte \<Rightarrow> bytes option" where
  "keccak_hash outlen inp rate delim =
     (if 200 \<le> rate then None
      else let (a, rest) = absorb rate (replicate 200 0) inp;
               a1 = a[length rest := a ! length rest XOR delim];
               a2 = a1[rate - 1 := a1 ! (rate - 1) XOR 0x80];
               a3 = keccakf (xorin a2 rest)
           in Some (squeeze rate a3 outlen))"

definition defsha3 :: "nat \<Rightarrow> nat \<Rightarrow> bytes \<Rightarrow> bytes option" where
  "defsha3 bits outlen inp = (if bits div 8 < outlen then None
     else keccak_hash outlen inp (200 - bits div 4) 0x01)"

definition defshake :: "nat \<Rightarrow> nat \<Rightarrow> bytes \<Rightarrow> bytes option" where
  "defshake bits outlen inp = keccak_hash outlen inp (200 - bits div 4) 0x1f"

text \<open>\<open>sha3(bytesConstRef, bytesRef)\<close> fails unless the output has 32 bytes; \<open>sha3\<close> is the overload
  that returns the hash.\<close>

definition sha3_into :: "bytes \<Rightarrow> nat \<Rightarrow> bytes option" where
  "sha3_into inp outsize = (if outsize \<noteq> 32 then None else defsha3 256 32 inp)"

definition sha3 :: "bytes \<Rightarrow> bytes" where
  "sha3 inp = (case sha3_into inp 32 of Some h \<Rightarrow> h | None \<Rightarrow> replicate 32 0)"

section \<open>Hashes have 32 bytes\<close>

lemma length_keccakf_lanes: "length a = 25 \<Longrightarrow> length (keccakf_lanes a) = 25"
proof -
  have "length (foldl (\<lambda>a i. keccak_round i a) a is') = 25" if "length a = 25" for a is'
    using that by (induction is' arbitrary: a) (simp_all add: keccak_round_def keccak_iota_def keccak_chi_def)
  then show "length a = 25 \<Longrightarrow> length (keccakf_lanes a) = 25" by (simp add: keccakf_lanes_def)
qed

lemma length_keccakf: "length (keccakf st) = 200"
proof -
  have "length (bytes_of a) = 8 * length a" for a
    by (induction a) (simp_all add: bytes_of_def)
  then show ?thesis by (simp add: keccakf_def length_keccakf_lanes lanes_of_def)
qed

lemma length_sha3 [simp]: "length (sha3 b) = 32"
  by (simp add: sha3_def sha3_into_def defsha3_def keccak_hash_def Let_def case_prod_beta squeeze.simps length_keccakf)

end
