(* ===== verification/VMOps.thy ===== *)
theory VMOps
  imports VMOpt Keccak
begin

text \<open>
  The cases of the interpreter's switch (\<open>libevm/VM.cpp\<close>, lines 192 to 1114), one definition each, in
  the order of the source and named after the instruction. Each body is what runs after
  \<open>fetchInstruction\<close>; the macros \<open>NEXT\<close>, \<open>CONTINUE\<close> and \<open>BREAK\<close> that end a case are the increment
  of the program counter, and nothing for the other two, the loop going round by itself.
\<close>

section \<open>Arithmetic through 512 bits\<close>

definition divWorkaround :: "int \<Rightarrow> int \<Rightarrow> int" where
  "divWorkaround a b = a sdiv b"

definition modWorkaround :: "int \<Rightarrow> int \<Rightarrow> int" where
  "modWorkaround a b = a smod b"

section \<open>Ends of a case\<close>

definition NEXT :: "'w vm \<Rightarrow> 'w vm outcome" where
  "NEXT = upd (\<lambda>s. s\<lparr>m_PC := m_PC s + 1\<rparr>)"

definition setBounce :: "bounce option \<Rightarrow> 'w vm \<Rightarrow> 'w vm outcome" where
  "setBounce b = upd (\<lambda>s. s\<lparr>m_bounce := b\<rparr>)"

definition setPC :: "u64 \<Rightarrow> 'w vm \<Rightarrow> 'w vm outcome" where
  "setPC pc = upd (\<lambda>s. s\<lparr>m_PC := pc\<rparr>)"

text \<open>The bytes of memory named by two stack words cut to 64 bits.\<close>

definition memRange :: "u256 \<Rightarrow> u256 \<Rightarrow> 'w vm \<Rightarrow> bytes" where
  "memRange b sz s = bslice (unat (ucast b :: u64)) (unat (ucast sz :: u64)) (m_mem s)"

definition needMem :: "EVMSchedule \<Rightarrow> nat \<Rightarrow> nat \<Rightarrow> 'w vm \<Rightarrow> 'w vm outcome" where
  "needMem sch i j s = int63 (memNeed (SP s i) (SP s j)) (updateMem sch) s"

section \<open>Calls, returns and stops\<close>

definition op_CREATE :: "'w vm \<Rightarrow> 'w vm outcome" where
  "op_CREATE = setBounce (Some caseCreate)"

definition op_CALL :: "'w vm \<Rightarrow> 'w vm outcome" where
  "op_CALL = setBounce (Some caseCall)"

definition op_DELEGATECALL :: "'w ext \<Rightarrow> 'w vm \<Rightarrow> 'w vm outcome" where
  "op_DELEGATECALL E = seq [
     \<lambda>s. if \<not> haveDelegateCall (evmSchedule E) then throwBadInstruction s else Ok s,
     op_CALL]"

definition op_RETURN :: "'w ext \<Rightarrow> 'w vm \<Rightarrow> 'w vm outcome" where
  "op_RETURN E = seq [
     upd (\<lambda>s. s\<lparr>m_copyMemSize := 0\<rparr>),
     needMem (evmSchedule E) 0 1,
     updateIOGas,
     upd (\<lambda>s. s\<lparr>m_output := memRange (SP s 0) (SP s 1) s, m_mem := []\<rparr>),
     setBounce None]"

definition op_REVERT :: "'w ext \<Rightarrow> 'w vm \<Rightarrow> 'w vm outcome" where
  "op_REVERT E = seq [
     \<lambda>s. if \<not> haveRevert (evmSchedule E) then throwBadInstruction s else Ok s,
     upd (\<lambda>s. s\<lparr>m_copyMemSize := 0\<rparr>),
     needMem (evmSchedule E) 0 1,
     updateIOGas,
     \<lambda>s. throwRevertInstruction (memRange (SP s 0) (SP s 1) s) (s\<lparr>m_mem := []\<rparr>)]"

definition op_SUICIDE :: "'w ext \<Rightarrow> 'w vm \<Rightarrow> 'w vm outcome" where
  "op_SUICIDE E = seq [
     setRunGas (toInt63 (suicideGas (evmSchedule E))),
     upd (\<lambda>s. if (0 < balance E (myAddress E) (m_ext s)
                   \<or> zeroValueTransferChargesNewAccountGas (evmSchedule E))
                 \<and> suicideChargesNewAccountGas (evmSchedule E)
                 \<and> \<not> account_exists E (asAddress (SP s 0)) (m_ext s)
              then s\<lparr>m_runGas := m_runGas s + ucast (callNewAccountGas (evmSchedule E))\<rparr> else s),
     updateIOGas,
     upd (\<lambda>s. s\<lparr>m_ext := ext_suicide E (asAddress (SP s 0)) (m_ext s)\<rparr>),
     setBounce None]"

definition op_STOP :: "'w vm \<Rightarrow> 'w vm outcome" where
  "op_STOP = seq [updateIOGas, setBounce None]"

section \<open>Instructions that may grow the memory\<close>

definition op_MLOAD :: "'w ext \<Rightarrow> 'w vm \<Rightarrow> 'w vm outcome" where
  "op_MLOAD E = seq [
     \<lambda>s. int63 (toInt63 (SP s 0)) (\<lambda>o63. updateMem (evmSchedule E) (o63 + 32)) s,
     updateIOGas,
     upd (\<lambda>s. setSPP (fromBigEndian (bslice (unat (ucast (SP s 0) :: u32)) 32 (m_mem s))) s),
     NEXT]"

definition op_MSTORE :: "'w ext \<Rightarrow> 'w vm \<Rightarrow> 'w vm outcome" where
  "op_MSTORE E = seq [
     \<lambda>s. int63 (toInt63 (SP s 0)) (\<lambda>o63. updateMem (evmSchedule E) (o63 + 32)) s,
     updateIOGas,
     upd (\<lambda>s. s\<lparr>m_mem := poke (unat (ucast (SP s 0) :: u32)) (toBigEndian 32 (SP s 1)) (m_mem s)\<rparr>),
     NEXT]"

definition op_MSTORE8 :: "'w ext \<Rightarrow> 'w vm \<Rightarrow> 'w vm outcome" where
  "op_MSTORE8 E = seq [
     \<lambda>s. int63 (toInt63 (SP s 0)) (\<lambda>o63. updateMem (evmSchedule E) (o63 + 1)) s,
     updateIOGas,
     upd (\<lambda>s. s\<lparr>m_mem := (m_mem s)[unat (ucast (SP s 0) :: u32) := ucast (SP s 1 AND 0xff)]\<rparr>),
     NEXT]"

definition op_SHA3 :: "'w ext \<Rightarrow> 'w vm \<Rightarrow> 'w vm outcome" where
  "op_SHA3 E = seq [
     \<lambda>s. setRunGas (toInt63 (ucast (sha3Gas (evmSchedule E))
            + (ucast (SP s 1) + 31) div 32 * ucast (sha3WordGas (evmSchedule E)) :: u512)) s,
     needMem (evmSchedule E) 0 1,
     updateIOGas,
     upd (\<lambda>s. setSPP (fromBigEndian (sha3 (memRange (SP s 0) (SP s 1) s))) s),
     NEXT]"

text \<open>The five cases differ in the number of topics they take from the stack.\<close>

definition op_LOG :: "nat \<Rightarrow> 'w ext \<Rightarrow> 'w vm \<Rightarrow> 'w vm outcome" where
  "op_LOG n E = seq [
     logGasMem (evmSchedule E),
     updateIOGas,
     upd (\<lambda>s. s\<lparr>m_ext := ext_log E (map (\<lambda>i. SP s (2 + i)) [0..<n])
                            (memRange (SP s 0) (SP s 1) s) (m_ext s)\<rparr>),
     NEXT]"

definition op_EXP :: "'w ext \<Rightarrow> 'w vm \<Rightarrow> 'w vm outcome" where
  "op_EXP E = seq [
     \<lambda>s. setRunGas (toInt63 (expGas (evmSchedule E) + expByteGas (evmSchedule E)
            * (32 - of_nat (firstBitSet (toBigEndian 32 (SP s 1)) div 8)))) s,
     updateIOGas,
     upd (\<lambda>s. setSPP (exp256 (SP s 0) (SP s 1)) s),
     NEXT]"

section \<open>Ordinary instructions\<close>

definition op_ADD :: "'w vm \<Rightarrow> 'w vm outcome" where
  "op_ADD = seq [updateIOGas, upd (\<lambda>s. setSPP (SP s 0 + SP s 1) s), NEXT]"

definition op_MUL :: "'w vm \<Rightarrow> 'w vm outcome" where
  "op_MUL = seq [updateIOGas, upd (\<lambda>s. setSPP (SP s 0 * SP s 1) s), NEXT]"

definition op_SUB :: "'w vm \<Rightarrow> 'w vm outcome" where
  "op_SUB = seq [updateIOGas, upd (\<lambda>s. setSPP (SP s 0 - SP s 1) s), NEXT]"

definition op_DIV :: "'w vm \<Rightarrow> 'w vm outcome" where
  "op_DIV = seq [updateIOGas,
     upd (\<lambda>s. setSPP (if SP s 1 \<noteq> 0
        then word_of_int (divWorkaround (uint (SP s 0)) (uint (SP s 1))) else 0) s),
     NEXT]"

definition op_SDIV :: "'w vm \<Rightarrow> 'w vm outcome" where
  "op_SDIV = seq [updateIOGas,
     upd (\<lambda>s. setSPP (if SP s 1 \<noteq> 0
        then s2u (divWorkaround (u2s (SP s 0)) (u2s (SP s 1))) else 0) s),
     upd (\<lambda>s. s\<lparr>m_SP := m_SP s - 1\<rparr>),
     NEXT]"

definition op_MOD :: "'w vm \<Rightarrow> 'w vm outcome" where
  "op_MOD = seq [updateIOGas,
     upd (\<lambda>s. setSPP (if SP s 1 \<noteq> 0
        then word_of_int (modWorkaround (uint (SP s 0)) (uint (SP s 1))) else 0) s),
     NEXT]"

definition op_SMOD :: "'w vm \<Rightarrow> 'w vm outcome" where
  "op_SMOD = seq [updateIOGas,
     upd (\<lambda>s. setSPP (if SP s 1 \<noteq> 0
        then s2u (modWorkaround (u2s (SP s 0)) (u2s (SP s 1))) else 0) s),
     NEXT]"

definition op_NOT :: "'w vm \<Rightarrow> 'w vm outcome" where
  "op_NOT = seq [updateIOGas, upd (\<lambda>s. setSPP (NOT (SP s 0)) s), NEXT]"

definition op_LT :: "'w vm \<Rightarrow> 'w vm outcome" where
  "op_LT = seq [updateIOGas, upd (\<lambda>s. setSPP (if SP s 0 < SP s 1 then 1 else 0) s), NEXT]"

definition op_GT :: "'w vm \<Rightarrow> 'w vm outcome" where
  "op_GT = seq [updateIOGas, upd (\<lambda>s. setSPP (if SP s 1 < SP s 0 then 1 else 0) s), NEXT]"

definition op_SLT :: "'w vm \<Rightarrow> 'w vm outcome" where
  "op_SLT = seq [updateIOGas, upd (\<lambda>s. setSPP (if u2s (SP s 0) < u2s (SP s 1) then 1 else 0) s), NEXT]"

definition op_SGT :: "'w vm \<Rightarrow> 'w vm outcome" where
  "op_SGT = seq [updateIOGas, upd (\<lambda>s. setSPP (if u2s (SP s 1) < u2s (SP s 0) then 1 else 0) s), NEXT]"

definition op_EQ :: "'w vm \<Rightarrow> 'w vm outcome" where
  "op_EQ = seq [updateIOGas, upd (\<lambda>s. setSPP (if SP s 0 = SP s 1 then 1 else 0) s), NEXT]"

definition op_ISZERO :: "'w vm \<Rightarrow> 'w vm outcome" where
  "op_ISZERO = seq [updateIOGas, upd (\<lambda>s. setSPP (if SP s 0 \<noteq> 0 then 0 else 1) s), NEXT]"

definition op_AND :: "'w vm \<Rightarrow> 'w vm outcome" where
  "op_AND = seq [updateIOGas, upd (\<lambda>s. setSPP (SP s 0 AND SP s 1) s), NEXT]"

definition op_OR :: "'w vm \<Rightarrow> 'w vm outcome" where
  "op_OR = seq [updateIOGas, upd (\<lambda>s. setSPP (SP s 0 OR SP s 1) s), NEXT]"

definition op_XOR :: "'w vm \<Rightarrow> 'w vm outcome" where
  "op_XOR = seq [updateIOGas, upd (\<lambda>s. setSPP (SP s 0 XOR SP s 1) s), NEXT]"

definition op_BYTE :: "'w vm \<Rightarrow> 'w vm outcome" where
  "op_BYTE = seq [updateIOGas,
     upd (\<lambda>s. setSPP (if SP s 0 < 32
        then drop_bit (unat (ucast (8 * (31 - SP s 0)) :: u32)) (SP s 1) AND 0xff else 0) s),
     NEXT]"

definition op_ADDMOD :: "'w vm \<Rightarrow> 'w vm outcome" where
  "op_ADDMOD = seq [updateIOGas,
     upd (\<lambda>s. setSPP (if SP s 2 \<noteq> 0
        then ucast ((ucast (SP s 0) + ucast (SP s 1) :: u512) mod ucast (SP s 2)) else 0) s),
     NEXT]"

definition op_MULMOD :: "'w vm \<Rightarrow> 'w vm outcome" where
  "op_MULMOD = seq [updateIOGas,
     upd (\<lambda>s. setSPP (if SP s 2 \<noteq> 0
        then ucast ((ucast (SP s 0) * ucast (SP s 1) :: u512) mod ucast (SP s 2)) else 0) s),
     NEXT]"

definition signextend :: "u256 \<Rightarrow> u256 \<Rightarrow> u256" where
  "signextend k number =
     (let testBit = unat ((ucast k :: u32) * 8 + 7); msk = push_bit testBit 1 - 1
      in if bit number testBit then number OR NOT msk else number AND msk)"

definition op_SIGNEXTEND :: "'w vm \<Rightarrow> 'w vm outcome" where
  "op_SIGNEXTEND = seq [updateIOGas,
     upd (\<lambda>s. if SP s 0 < 31 then setSP 1 (signextend (SP s 0) (SP s 1)) s else s),
     NEXT]"

section \<open>The environment of the execution\<close>

definition op_ADDRESS :: "'w ext \<Rightarrow> 'w vm \<Rightarrow> 'w vm outcome" where
  "op_ADDRESS E = seq [updateIOGas, upd (\<lambda>s. setSPP (fromAddress (myAddress E)) s), NEXT]"

definition op_ORIGIN :: "'w ext \<Rightarrow> 'w vm \<Rightarrow> 'w vm outcome" where
  "op_ORIGIN E = seq [updateIOGas, upd (\<lambda>s. setSPP (fromAddress (origin E)) s), NEXT]"

definition op_BALANCE :: "'w ext \<Rightarrow> 'w vm \<Rightarrow> 'w vm outcome" where
  "op_BALANCE E = seq [
     setRunGas (toInt63 (balanceGas (evmSchedule E))),
     updateIOGas,
     upd (\<lambda>s. setSPP (balance E (asAddress (SP s 0)) (m_ext s)) s),
     NEXT]"

definition op_CALLER :: "'w ext \<Rightarrow> 'w vm \<Rightarrow> 'w vm outcome" where
  "op_CALLER E = seq [updateIOGas, upd (\<lambda>s. setSPP (fromAddress (caller E)) s), NEXT]"

definition op_CALLVALUE :: "'w ext \<Rightarrow> 'w vm \<Rightarrow> 'w vm outcome" where
  "op_CALLVALUE E = seq [updateIOGas, upd (\<lambda>s. setSPP (callvalue E) s), NEXT]"

text \<open>
  The word of call data at an offset: 32 bytes inside the data, zero past it, and byte by byte with
  zeros after the end where the word straddles it.
\<close>

definition calldata_word :: "bytes \<Rightarrow> u256 \<Rightarrow> u256" where
  "calldata_word d off =
     (if unat off + 31 < length d then fromBigEndian (bslice (unat (ucast off :: u64)) 32 d)
      else if length d \<le> unat off then 0
      else let i0 = unat (ucast off :: u64)
           in fromBigEndian (map (\<lambda>j. if i0 + j < length d then d ! (i0 + j) else 0) [0..<32]))"

definition op_CALLDATALOAD :: "'w ext \<Rightarrow> 'w vm \<Rightarrow> 'w vm outcome" where
  "op_CALLDATALOAD E = seq [updateIOGas,
     upd (\<lambda>s. setSP 0 (calldata_word (calldata E) (SP s 0)) s), NEXT]"

definition op_CALLDATASIZE :: "'w ext \<Rightarrow> 'w vm \<Rightarrow> 'w vm outcome" where
  "op_CALLDATASIZE E = seq [updateIOGas, upd (\<lambda>s. setSPP (of_nat (length (calldata E))) s), NEXT]"

definition op_CODESIZE :: "'w ext \<Rightarrow> 'w vm \<Rightarrow> 'w vm outcome" where
  "op_CODESIZE E = seq [updateIOGas, upd (\<lambda>s. setSPP (of_nat (length (code E))) s), NEXT]"

definition op_EXTCODESIZE :: "'w ext \<Rightarrow> 'w vm \<Rightarrow> 'w vm outcome" where
  "op_EXTCODESIZE E = seq [
     setRunGas (toInt63 (extcodesizeGas (evmSchedule E))),
     updateIOGas,
     upd (\<lambda>s. setSPP (of_nat (codeSizeAt E (asAddress (SP s 0)) (m_ext s))) s),
     NEXT]"

text \<open>The three copying instructions read offset, source index and size from consecutive words.\<close>

definition copyIn :: "bytes \<Rightarrow> nat \<Rightarrow> 'w vm \<Rightarrow> 'w vm" where
  "copyIn d i s = s\<lparr>m_mem := copyDataToMemory d (SP s i) (SP s (i + 1)) (SP s (i + 2)) (m_mem s)\<rparr>"

definition setCopyMemSize :: "u64 option \<Rightarrow> 'w vm \<Rightarrow> 'w vm outcome" where
  "setCopyMemSize v = int63 v (\<lambda>c. upd (\<lambda>s. s\<lparr>m_copyMemSize := c\<rparr>))"

definition op_CALLDATACOPY :: "'w ext \<Rightarrow> 'w vm \<Rightarrow> 'w vm outcome" where
  "op_CALLDATACOPY E = seq [
     \<lambda>s. setCopyMemSize (toInt63 (SP s 2)) s,
     needMem (evmSchedule E) 0 2,
     updateIOGas,
     upd (copyIn (calldata E) 0),
     NEXT]"

definition op_CODECOPY :: "'w ext \<Rightarrow> 'w vm \<Rightarrow> 'w vm outcome" where
  "op_CODECOPY E = seq [
     \<lambda>s. setCopyMemSize (toInt63 (SP s 2)) s,
     needMem (evmSchedule E) 0 2,
     updateIOGas,
     upd (copyIn (code E) 0),
     NEXT]"

definition op_EXTCODECOPY :: "'w ext \<Rightarrow> 'w vm \<Rightarrow> 'w vm outcome" where
  "op_EXTCODECOPY E = seq [
     setRunGas (toInt63 (extcodecopyGas (evmSchedule E))),
     \<lambda>s. setCopyMemSize (toInt63 (SP s 3)) s,
     needMem (evmSchedule E) 1 3,
     updateIOGas,
     upd (\<lambda>s. copyIn (codeAt E (asAddress (SP s 0)) (m_ext s)) 1 s),
     NEXT]"

definition op_GASPRICE :: "'w ext \<Rightarrow> 'w vm \<Rightarrow> 'w vm outcome" where
  "op_GASPRICE E = seq [updateIOGas, upd (\<lambda>s. setSPP (gasPrice E) s), NEXT]"

definition op_BLOCKHASH :: "'w ext \<Rightarrow> 'w vm \<Rightarrow> 'w vm outcome" where
  "op_BLOCKHASH E = seq [updateIOGas,
     upd (\<lambda>s. setSPP (fromBigEndian (blockHash E (SP s 0) (m_ext s))) s), NEXT]"

definition op_COINBASE :: "'w ext \<Rightarrow> 'w vm \<Rightarrow> 'w vm outcome" where
  "op_COINBASE E = seq [updateIOGas, upd (\<lambda>s. setSPP (ucast (author E)) s), NEXT]"

definition op_TIMESTAMP :: "'w ext \<Rightarrow> 'w vm \<Rightarrow> 'w vm outcome" where
  "op_TIMESTAMP E = seq [updateIOGas, upd (\<lambda>s. setSPP (timestamp E) s), NEXT]"

definition op_NUMBER :: "'w ext \<Rightarrow> 'w vm \<Rightarrow> 'w vm outcome" where
  "op_NUMBER E = seq [updateIOGas, upd (\<lambda>s. setSPP (block_number E) s), NEXT]"

definition op_DIFFICULTY :: "'w ext \<Rightarrow> 'w vm \<Rightarrow> 'w vm outcome" where
  "op_DIFFICULTY E = seq [updateIOGas, upd (\<lambda>s. setSPP (difficulty E) s), NEXT]"

definition op_GASLIMIT :: "'w ext \<Rightarrow> 'w vm \<Rightarrow> 'w vm outcome" where
  "op_GASLIMIT E = seq [updateIOGas, upd (\<lambda>s. setSPP (gasLimit E) s), NEXT]"

section \<open>Stack, jumps and storage\<close>

text \<open>The decrement of \<open>m_SP\<close> has no effect: the next fetch sets it from \<open>m_SPP\<close>.\<close>

definition op_POP :: "'w vm \<Rightarrow> 'w vm outcome" where
  "op_POP = seq [updateIOGas, upd (\<lambda>s. s\<lparr>m_SP := m_SP s - 1\<rparr>), NEXT]"

definition op_PUSH1 :: "'w vm \<Rightarrow> 'w vm outcome" where
  "op_PUSH1 = seq [updateIOGas,
     upd (\<lambda>s. s\<lparr>m_PC := m_PC s + 1\<rparr>),
     upd (\<lambda>s. setSPP (ucast (m_code s ! unat (m_PC s))) s),
     upd (\<lambda>s. s\<lparr>m_PC := m_PC s + 1\<rparr>)]"

text \<open>The loop of the longer pushes: shift in the byte at the program counter, go to the next.\<close>

primrec push_loop :: "nat \<Rightarrow> 'w vm \<Rightarrow> 'w vm" where
  "push_loop 0 s = s"
| "push_loop (Suc numBytes) s = push_loop numBytes
     ((setSPP (push_bit 8 (m_stack s (m_SPP s)) OR ucast (m_code s ! unat (m_PC s))) s)
        \<lparr>m_PC := m_PC s + 1\<rparr>)"

definition op_PUSH :: "'w vm \<Rightarrow> 'w vm outcome" where
  "op_PUSH = seq [updateIOGas,
     upd (\<lambda>s. let numBytes = unat (byte_of (m_OP s) - byte_of (I_PUSH 1) + 1)
              in push_loop numBytes (setSPP 0 s\<lparr>m_PC := m_PC s + 1\<rparr>))]"

definition jumpTo :: "u256 \<Rightarrow> 'w vm \<Rightarrow> 'w vm outcome" where
  "jumpTo dest s = (case verifyJumpDest (m_jumpDests s) dest of
     None \<Rightarrow> throwBadJumpDestination s | Some pc \<Rightarrow> setPC pc s)"

definition op_JUMP :: "'w vm \<Rightarrow> 'w vm outcome" where
  "op_JUMP = seq [updateIOGas, \<lambda>s. jumpTo (SP s 0) s]"

definition op_JUMPI :: "'w vm \<Rightarrow> 'w vm outcome" where
  "op_JUMPI = seq [updateIOGas,
     \<lambda>s. if SP s 1 \<noteq> 0 then jumpTo (SP s 0) s else NEXT s]"

definition op_DUP :: "'w vm \<Rightarrow> 'w vm outcome" where
  "op_DUP = seq [updateIOGas,
     upd (\<lambda>s. let n = unat (byte_of (m_OP s) - byte_of (I_DUP 1)) in setSPP (SP s n) s),
     NEXT]"

definition op_SWAP :: "'w vm \<Rightarrow> 'w vm outcome" where
  "op_SWAP = seq [updateIOGas,
     upd (\<lambda>s. let n = unat (byte_of (m_OP s) - byte_of (I_SWAP 1) + 1)
              in setSP 0 (SP s n) (setSP n (SP s 0) s)),
     NEXT]"

definition op_SLOAD :: "'w ext \<Rightarrow> 'w vm \<Rightarrow> 'w vm outcome" where
  "op_SLOAD E = seq [
     setRunGas (toInt63 (sloadGas (evmSchedule E))),
     updateIOGas,
     upd (\<lambda>s. setSPP (store E (SP s 0) (m_ext s)) s),
     NEXT]"

definition op_SSTORE :: "'w ext \<Rightarrow> 'w vm \<Rightarrow> 'w vm outcome" where
  "op_SSTORE E = seq [
     \<lambda>s. if store E (SP s 0) (m_ext s) = 0 \<and> SP s 1 \<noteq> 0
         then setRunGas (toInt63 (sstoreSetGas (evmSchedule E))) s
         else if store E (SP s 0) (m_ext s) \<noteq> 0 \<and> SP s 1 = 0
         then seq [setRunGas (toInt63 (sstoreResetGas (evmSchedule E))),
                   upd (\<lambda>s. s\<lparr>m_ext := addRefund E (sstoreRefundGas (evmSchedule E)) (m_ext s)\<rparr>)] s
         else setRunGas (toInt63 (sstoreResetGas (evmSchedule E))) s,
     updateIOGas,
     upd (\<lambda>s. s\<lparr>m_ext := setStore E (SP s 0) (SP s 1) (m_ext s)\<rparr>),
     NEXT]"

definition op_PC :: "'w vm \<Rightarrow> 'w vm outcome" where
  "op_PC = seq [updateIOGas, upd (\<lambda>s. setSPP (ucast (m_PC s)) s), NEXT]"

definition op_MSIZE :: "'w vm \<Rightarrow> 'w vm outcome" where
  "op_MSIZE = seq [updateIOGas, upd (\<lambda>s. setSPP (of_nat (length (m_mem s))) s), NEXT]"

definition op_GAS :: "'w vm \<Rightarrow> 'w vm outcome" where
  "op_GAS = seq [updateIOGas, upd (\<lambda>s. setSPP (ucast (m_io_gas s)) s), NEXT]"

definition op_JUMPDEST :: "'w vm \<Rightarrow> 'w vm outcome" where
  "op_JUMPDEST = seq [upd (\<lambda>s. s\<lparr>m_runGas := 1\<rparr>), updateIOGas, NEXT]"

text \<open>
  \<open>PUSHC\<close>, \<open>JUMPC\<close> and \<open>JUMPCI\<close> without the optimiser, the subroutine jumps with
  \<open>EVM_JUMPS_AND_SUBS\<close> off, \<open>BEGINSUB\<close>, \<open>BEGINDATA\<close>, \<open>BAD\<close> and the default case.
\<close>

definition op_invalid :: "'w vm \<Rightarrow> 'w vm outcome" where
  "op_invalid = throwBadInstruction"

section \<open>The switch\<close>

primrec switch :: "'w ext \<Rightarrow> instruction \<Rightarrow> 'w vm \<Rightarrow> 'w vm outcome" where
  "switch E I_STOP = op_STOP"
| "switch E I_ADD = op_ADD"
| "switch E I_MUL = op_MUL"
| "switch E I_SUB = op_SUB"
| "switch E I_DIV = op_DIV"
| "switch E I_SDIV = op_SDIV"
| "switch E I_MOD = op_MOD"
| "switch E I_SMOD = op_SMOD"
| "switch E I_ADDMOD = op_ADDMOD"
| "switch E I_MULMOD = op_MULMOD"
| "switch E I_EXP = op_EXP E"
| "switch E I_SIGNEXTEND = op_SIGNEXTEND"
| "switch E I_LT = op_LT"
| "switch E I_GT = op_GT"
| "switch E I_SLT = op_SLT"
| "switch E I_SGT = op_SGT"
| "switch E I_EQ = op_EQ"
| "switch E I_ISZERO = op_ISZERO"
| "switch E I_AND = op_AND"
| "switch E I_OR = op_OR"
| "switch E I_XOR = op_XOR"
| "switch E I_NOT = op_NOT"
| "switch E I_BYTE = op_BYTE"
| "switch E I_SHA3 = op_SHA3 E"
| "switch E I_ADDRESS = op_ADDRESS E"
| "switch E I_BALANCE = op_BALANCE E"
| "switch E I_ORIGIN = op_ORIGIN E"
| "switch E I_CALLER = op_CALLER E"
| "switch E I_CALLVALUE = op_CALLVALUE E"
| "switch E I_CALLDATALOAD = op_CALLDATALOAD E"
| "switch E I_CALLDATASIZE = op_CALLDATASIZE E"
| "switch E I_CALLDATACOPY = op_CALLDATACOPY E"
| "switch E I_CODESIZE = op_CODESIZE E"
| "switch E I_CODECOPY = op_CODECOPY E"
| "switch E I_GASPRICE = op_GASPRICE E"
| "switch E I_EXTCODESIZE = op_EXTCODESIZE E"
| "switch E I_EXTCODECOPY = op_EXTCODECOPY E"
| "switch E I_BLOCKHASH = op_BLOCKHASH E"
| "switch E I_COINBASE = op_COINBASE E"
| "switch E I_TIMESTAMP = op_TIMESTAMP E"
| "switch E I_NUMBER = op_NUMBER E"
| "switch E I_DIFFICULTY = op_DIFFICULTY E"
| "switch E I_GASLIMIT = op_GASLIMIT E"
| "switch E I_JUMPTO = op_invalid"
| "switch E I_JUMPIF = op_invalid"
| "switch E I_JUMPV = op_invalid"
| "switch E I_JUMPSUB = op_invalid"
| "switch E I_JUMPSUBV = op_invalid"
| "switch E I_RETURNSUB = op_invalid"
| "switch E I_POP = op_POP"
| "switch E I_MLOAD = op_MLOAD E"
| "switch E I_MSTORE = op_MSTORE E"
| "switch E I_MSTORE8 = op_MSTORE8 E"
| "switch E I_SLOAD = op_SLOAD E"
| "switch E I_SSTORE = op_SSTORE E"
| "switch E I_JUMP = op_JUMP"
| "switch E I_JUMPI = op_JUMPI"
| "switch E I_PC = op_PC"
| "switch E I_MSIZE = op_MSIZE"
| "switch E I_GAS = op_GAS"
| "switch E I_JUMPDEST = op_JUMPDEST"
| "switch E I_BEGINSUB = op_invalid"
| "switch E I_BEGINDATA = op_invalid"
| "switch E (I_PUSH n) = (if n = 1 then op_PUSH1 else op_PUSH)"
| "switch E (I_DUP n) = op_DUP"
| "switch E (I_SWAP n) = op_SWAP"
| "switch E (I_LOG n) = op_LOG n E"
| "switch E I_PUSHC = op_invalid"
| "switch E I_JUMPC = op_invalid"
| "switch E I_JUMPCI = op_invalid"
| "switch E I_BAD = op_invalid"
| "switch E I_CREATE = op_CREATE"
| "switch E I_CALL = op_CALL"
| "switch E I_CALLCODE = op_CALL"
| "switch E I_RETURN = op_RETURN E"
| "switch E I_DELEGATECALL = op_DELEGATECALL E"
| "switch E I_REVERT = op_REVERT E"
| "switch E I_SUICIDE = op_SUICIDE E"
| "switch E (I_Undefined b) = op_invalid"

end
