(* ===== verification/VMSteps.thy ===== *)
theory VMSteps
  imports VMOps
begin

text \<open>
  What one pass of the interpreter keeps and what it costs. The lemmas follow the operations: memory
  need, growth of memory, then \<open>stepped\<close>, the relation every continuing instruction establishes
  between the state after the fetch and the state after its case.
\<close>

section \<open>Memory need and growth\<close>

lemma memNeed_Some:
  "memNeed off sz = Some w \<longleftrightarrow>
     (if sz = 0 then w = 0 else unat off + unat sz < 2 ^ 63 \<and> w = of_nat (unat off + unat sz))"
proof -
  have u: "unat (ucast (x :: u256) :: u512) = unat x" for x
    using less_trans [OF unat_256_lt, of "2 ^ 512" x] by (simp add: unsigned_ucast_eq take_bit_nat_eq_self)
  have "unat off + unat sz < 2 ^ 512"
    by (rule less_trans [OF add_strict_mono [OF unat_256_lt unat_256_lt]]) simp
  then have s: "unat (ucast off + ucast sz :: u512) = unat off + unat sz"
    using unat_add_lem [of "ucast off :: u512" "ucast sz"] by (simp add: u)
  have "toInt63 v = Some w \<longleftrightarrow> n \<le> 0x7FFFFFFFFFFFFFFF \<and> w = of_nat n" if "unat v = n" for v :: u512 and n
    using that by (auto simp: of_nat_unat)
  from this [OF s] show ?thesis by (auto simp: memNeed_def)
qed

lemma unat_ucast_le: "unat (ucast (w :: 'a::len word) :: 'b::len word) \<le> unat w"
  by (simp add: unsigned_ucast_eq take_bit_nat_def)

lemma memCost_size:
  assumes "memCost sch n < 2 ^ 63" and "quadCoeffDiv sch \<noteq> 0"
  shows "n < 2 ^ 54"
proof (rule ccontr)
  let ?s = "n div 32" and ?q = "unat (quadCoeffDiv sch)"
  assume "\<not> n < 2 ^ 54"
  then have "2 ^ 54 div 32 \<le> ?s" by (intro div_le_mono) simp
  then have s: "2 ^ 49 \<le> ?s" by simp
  have q: "0 < ?q" "?q < 2 ^ 32"
    using assms(2) unsigned_less [of "quadCoeffDiv sch", where ?'a = nat] by (simp_all add: unat_gt_0)
  have "(2 ^ 63 :: nat) * ?q \<le> 2 ^ 63 * 2 ^ 32" using q by simp
  also have "\<dots> \<le> 2 ^ 49 * 2 ^ 49" by simp
  also have "\<dots> \<le> ?s * ?s" using s by (intro mult_le_mono)
  finally have "2 ^ 63 \<le> ?s * ?s div ?q" using q by (simp add: less_eq_div_iff_mult_less_eq)
  with assms(1) show False by (simp add: memCost_def)
qed

text \<open>
  The consequences of \<open>updateMem\<close> the cases use: only the price and the memory change, the memory
  covers what was asked for, and the price of the copy and of the new memory is added to the price so far.
\<close>

definition grew :: "EVMSchedule \<Rightarrow> 'w vm \<Rightarrow> nat \<Rightarrow> 'w vm \<Rightarrow> bool" where
  "grew sch s n t \<longleftrightarrow> (\<exists>new run k. t = s\<lparr>m_newMemSize := new, m_runGas := run, m_mem := m_mem s @ replicate k 0\<rparr>)
     \<and> unat (m_runGas s) + copyCost sch (m_copyMemSize s) + memCost sch (length (m_mem t)) = unat (m_runGas t) + memCost sch (length (m_mem s))
     \<and> m_runGas t \<le> m_io_gas t \<and> mem_fits t \<and> n \<le> length (m_mem t)"

lemma updateMem_grew:
  assumes fits: "mem_fits s" and small: "smallRun sch s" and n: "unat n < 2 ^ 64 - 31"
    and q: "quadCoeffDiv sch \<noteq> 0" and ok: "updateMem sch n s = Ok t"
  shows "grew sch s (unat n) t"
proof -
  let ?new = "roundUp (unat n)" and ?old = "length (m_mem s)"
  let ?run = "unat (m_runGas s) + memDelta sch ?old ?new + copyCost sch (m_copyMemSize s)"
  have c: "?old < ?new \<Longrightarrow> memCost sch ?new < 2 ^ 63" and r: "?run \<le> unat (m_io_gas s)"
    and t: "t = s\<lparr>m_newMemSize := of_nat ?new, m_runGas := of_nat ?run,
             m_mem := m_mem s @ replicate (?new - ?old) 0\<rparr>"
    using ok unfolding updateMem_Ok [OF fits small n] by blast+
  have u: "unat (of_nat ?run :: u64) = ?run"
    using r le_less_trans [OF _ unat_64_lt] by (intro unat_of_nat_lt) simp
  have l: "length (m_mem t) = max ?old ?new" by (simp add: t)
  have "?new < 2 ^ 63" if "?old < ?new"
    using memCost_size [OF c [OF that] q] by simp
  with fits have "mem_fits t" by (cases "?old < ?new") (auto simp: mem_fits_def l max_def)
  moreover have "m_runGas t \<le> m_io_gas t"
    unfolding word_le_nat_alt using r u by (simp add: t)
  moreover have "unat (m_runGas s) + copyCost sch (m_copyMemSize s) + memCost sch (length (m_mem t)) = unat (m_runGas t) + memCost sch ?old"
  proof -
    have "unat (m_runGas t) = ?run" using u by (simp add: t)
    then show ?thesis using memCost_mono [of ?old ?new sch] unfolding l by (simp add: memDelta_def max_def)
  qed
  moreover have "unat n \<le> length (m_mem t)" using roundUp_ge [of "unat n"] by (simp add: l)
  ultimately show ?thesis unfolding grew_def by (auto simp: t)
qed

lemma grew_mono: "grew sch s n t \<Longrightarrow> m \<le> n \<Longrightarrow> grew sch s m t"
  by (auto simp: grew_def)

lemma needMem_grew:
  assumes fits: "mem_fits s" and small: "smallRun sch s" and q: "quadCoeffDiv sch \<noteq> 0"
    and ok: "needMem sch i j s = Ok t"
  shows "grew sch s (if SP s j = 0 then 0 else unat (SP s i) + unat (SP s j)) t"
    and "SP s j = 0 \<or> unat (SP s i) + unat (SP s j) < 2 ^ 63"
proof -
  obtain w where w: "memNeed (SP s i) (SP s j) = Some w" and u: "updateMem sch w s = Ok t"
    using ok by (auto simp: needMem_def)
  show lt: "SP s j = 0 \<or> unat (SP s i) + unat (SP s j) < 2 ^ 63"
    using w by (auto simp: memNeed_Some split: if_splits)
  have uw: "unat w = (if SP s j = 0 then 0 else unat (SP s i) + unat (SP s j))"
    using w lt unat_of_nat_lt [of "unat (SP s i) + unat (SP s j)", where ?'a = 64]
    unfolding memNeed_Some by (cases "SP s j = 0") (simp_all del: of_nat_add)
  then have "unat w < 2 ^ 63" using lt by auto
  then show "grew sch s (if SP s j = 0 then 0 else unat (SP s i) + unat (SP s j)) t"
    using updateMem_grew [OF fits small _ q u] by (simp add: uw)
qed

lemma offset_grew:
  assumes fits: "mem_fits s" and small: "smallRun sch s" and q: "quadCoeffDiv sch \<noteq> 0"
    and ok: "int63 (toInt63 (SP s i)) (\<lambda>o63. updateMem sch (o63 + k)) s = Ok t" and k: "unat k \<le> 32"
  shows "grew sch s (unat (SP s i) + unat k) t"
proof -
  have le: "unat (SP s i) \<le> 0x7FFFFFFFFFFFFFFF" and u: "updateMem sch (ucast (SP s i) + k) s = Ok t"
    using ok by auto
  have "unat (ucast (SP s i) + k :: u64) = unat (SP s i) + unat k"
    using le k by (subst unat_add_u64) (simp_all add: unat_ucast_63)
  with updateMem_grew [OF fits small _ q u] le k show ?thesis by simp
qed

section \<open>Jump destinations are taken from the table\<close>

lemma verifyJumpDest_mem: "verifyJumpDest js d = Some pc \<Longrightarrow> pc \<in> set js \<and> unat pc = unat d"
  by (auto simp: verifyJumpDest_def Let_def unat_ucast_63 dest: binary_search_mem split: if_splits)

section \<open>One continuing instruction\<close>

definition pc_moved :: "'w vm \<Rightarrow> 'w vm \<Rightarrow> bool" where
  "pc_moved s t \<longleftrightarrow> (\<exists>k. 1 \<le> k \<and> k \<le> 33 \<and> m_PC t = m_PC s + of_nat k) \<or> m_PC t \<in> set (m_jumpDests s)"

text \<open>The price of the memory that was added is part of the gas that was deducted.\<close>

definition stepped :: "EVMSchedule \<Rightarrow> 'w vm \<Rightarrow> 'w vm \<Rightarrow> bool" where
  "stepped sch s t \<longleftrightarrow> m_code t = m_code s \<and> m_jumpDests t = m_jumpDests s \<and> m_SPP t = m_SPP s
     \<and> m_bounce t = m_bounce s \<and> mem_fits t \<and> m_io_gas t < m_io_gas s \<and> pc_moved s t
     \<and> unat (m_io_gas t) + memCost sch (length (m_mem t)) \<le> unat (m_io_gas s) + memCost sch (length (m_mem s))"

lemma gas_sub_less: "0 < run \<Longrightarrow> run \<le> io \<Longrightarrow> io - run < (io :: u64)" "run \<le> io \<Longrightarrow> unat (io - run) \<le> unat io"
  by (simp_all add: word_less_nat_alt word_le_nat_alt unat_sub)

lemma pc_next [simp]: "m_PC t = m_PC s + 1 \<Longrightarrow> pc_moved s t"
  unfolding pc_moved_def by (intro disjI1 exI [of _ 1]) simp

lemma setSP_fields [simp]:
  "m_io_gas (setSP i v s) = m_io_gas s" "m_ext (setSP i v s) = m_ext s" "m_mem (setSP i v s) = m_mem s"
  "m_code (setSP i v s) = m_code s" "m_PC (setSP i v s) = m_PC s" "m_SPP (setSP i v s) = m_SPP s"
  "m_SP (setSP i v s) = m_SP s" "m_OP (setSP i v s) = m_OP s"
  "m_jumpDests (setSP i v s) = m_jumpDests s" "m_bounce (setSP i v s) = m_bounce s"
  "m_runGas (setSP i v s) = m_runGas s" "m_output (setSP i v s) = m_output s"
  by (simp_all add: setSP_def)

lemma setSPP_fields [simp]:
  "m_io_gas (setSPP v s) = m_io_gas s" "m_ext (setSPP v s) = m_ext s" "m_mem (setSPP v s) = m_mem s"
  "m_code (setSPP v s) = m_code s" "m_PC (setSPP v s) = m_PC s" "m_SPP (setSPP v s) = m_SPP s"
  "m_SP (setSPP v s) = m_SP s" "m_OP (setSPP v s) = m_OP s"
  "m_jumpDests (setSPP v s) = m_jumpDests s" "m_bounce (setSPP v s) = m_bounce s"
  "m_runGas (setSPP v s) = m_runGas s" "m_output (setSPP v s) = m_output s"
  by (simp_all add: setSPP_def)

lemma NEXT_Ok [simp]: "NEXT s = Ok t \<longleftrightarrow> t = s\<lparr>m_PC := m_PC s + 1\<rparr>"
  by (simp add: NEXT_def)

lemma setBounce_Ok [simp]: "setBounce b s = Ok t \<longleftrightarrow> t = s\<lparr>m_bounce := b\<rparr>"
  by (simp add: setBounce_def)

lemma setPC_Ok [simp]: "setPC pc s = Ok t \<longleftrightarrow> t = s\<lparr>m_PC := pc\<rparr>"
  by (simp add: setPC_def)

lemma setCopyMemSize_Ok [simp]:
  "setCopyMemSize v s = Ok t \<longleftrightarrow> (\<exists>c. v = Some c \<and> t = s\<lparr>m_copyMemSize := c\<rparr>)"
  by (auto simp: setCopyMemSize_def)

lemmas memFits_same = mem_fits_def

text \<open>The cases that pay the price of the tier, write the stack and go on.\<close>

lemmas plain_ops = op_ADD_def op_MUL_def op_SUB_def op_DIV_def op_SDIV_def op_MOD_def op_SMOD_def
  op_NOT_def op_LT_def op_GT_def op_SLT_def op_SGT_def op_EQ_def op_ISZERO_def op_AND_def op_OR_def
  op_XOR_def op_BYTE_def op_ADDMOD_def op_MULMOD_def op_SIGNEXTEND_def op_ADDRESS_def op_ORIGIN_def
  op_CALLER_def op_CALLVALUE_def op_CALLDATALOAD_def op_CALLDATASIZE_def op_CODESIZE_def
  op_GASPRICE_def op_BLOCKHASH_def op_COINBASE_def op_TIMESTAMP_def op_NUMBER_def op_DIFFICULTY_def
  op_GASLIMIT_def op_POP_def op_PC_def op_MSIZE_def op_GAS_def op_DUP_def op_SWAP_def

lemma plain_stepped:
  assumes "seq (updateIOGas # fs) s = Ok t" and "0 < m_runGas s" and "mem_fits s"
    and "\<And>u. seq fs u = Ok t \<Longrightarrow> m_code t = m_code u \<and> m_jumpDests t = m_jumpDests u
       \<and> m_SPP t = m_SPP u \<and> m_bounce t = m_bounce u \<and> m_mem t = m_mem u \<and> m_io_gas t = m_io_gas u
       \<and> m_PC t = m_PC u + 1"
  shows "stepped sch s t"
proof -
  let ?u = "s\<lparr>m_io_gas := m_io_gas s - m_runGas s\<rparr>"
  have "m_runGas s \<le> m_io_gas s" and "seq fs ?u = Ok t" using assms(1) by auto
  with assms(4) [of ?u] assms(2,3) show ?thesis
    by (auto simp: stepped_def mem_fits_def gas_sub_less)
qed

lemma plain_ops_stepped:
  assumes "0 < m_runGas s" and "mem_fits s"
  shows "op_ADD s = Ok t \<Longrightarrow> stepped sch s t" "op_MUL s = Ok t \<Longrightarrow> stepped sch s t"
    "op_SUB s = Ok t \<Longrightarrow> stepped sch s t" "op_DIV s = Ok t \<Longrightarrow> stepped sch s t"
    "op_SDIV s = Ok t \<Longrightarrow> stepped sch s t" "op_MOD s = Ok t \<Longrightarrow> stepped sch s t"
    "op_SMOD s = Ok t \<Longrightarrow> stepped sch s t" "op_NOT s = Ok t \<Longrightarrow> stepped sch s t"
    "op_LT s = Ok t \<Longrightarrow> stepped sch s t" "op_GT s = Ok t \<Longrightarrow> stepped sch s t"
    "op_SLT s = Ok t \<Longrightarrow> stepped sch s t" "op_SGT s = Ok t \<Longrightarrow> stepped sch s t"
    "op_EQ s = Ok t \<Longrightarrow> stepped sch s t" "op_ISZERO s = Ok t \<Longrightarrow> stepped sch s t"
    "op_AND s = Ok t \<Longrightarrow> stepped sch s t" "op_OR s = Ok t \<Longrightarrow> stepped sch s t"
    "op_XOR s = Ok t \<Longrightarrow> stepped sch s t" "op_BYTE s = Ok t \<Longrightarrow> stepped sch s t"
    "op_ADDMOD s = Ok t \<Longrightarrow> stepped sch s t" "op_MULMOD s = Ok t \<Longrightarrow> stepped sch s t"
    "op_SIGNEXTEND s = Ok t \<Longrightarrow> stepped sch s t" "op_ADDRESS E s = Ok t \<Longrightarrow> stepped sch s t"
    "op_ORIGIN E s = Ok t \<Longrightarrow> stepped sch s t" "op_CALLER E s = Ok t \<Longrightarrow> stepped sch s t"
    "op_CALLVALUE E s = Ok t \<Longrightarrow> stepped sch s t" "op_CALLDATALOAD E s = Ok t \<Longrightarrow> stepped sch s t"
    "op_CALLDATASIZE E s = Ok t \<Longrightarrow> stepped sch s t" "op_CODESIZE E s = Ok t \<Longrightarrow> stepped sch s t"
    "op_GASPRICE E s = Ok t \<Longrightarrow> stepped sch s t" "op_BLOCKHASH E s = Ok t \<Longrightarrow> stepped sch s t"
    "op_COINBASE E s = Ok t \<Longrightarrow> stepped sch s t" "op_TIMESTAMP E s = Ok t \<Longrightarrow> stepped sch s t"
    "op_NUMBER E s = Ok t \<Longrightarrow> stepped sch s t" "op_DIFFICULTY E s = Ok t \<Longrightarrow> stepped sch s t"
    "op_GASLIMIT E s = Ok t \<Longrightarrow> stepped sch s t" "op_POP s = Ok t \<Longrightarrow> stepped sch s t"
    "op_PC s = Ok t \<Longrightarrow> stepped sch s t" "op_MSIZE s = Ok t \<Longrightarrow> stepped sch s t"
    "op_GAS s = Ok t \<Longrightarrow> stepped sch s t" "op_DUP s = Ok t \<Longrightarrow> stepped sch s t"
    "op_SWAP s = Ok t \<Longrightarrow> stepped sch s t"
  unfolding plain_ops by (erule plain_stepped [OF _ assms]; auto simp: Let_def)+

text \<open>Cases that set their own price first. \<open>u\<close> is the state once the price is paid.\<close>

lemma ucast_pos: "0 < v \<Longrightarrow> 0 < (ucast (v :: u32) :: u64)"
  by (simp add: word_less_nat_alt)

lemma wellPricedD:
  assumes "wellPriced sch"
  shows "0 < expGas sch" "0 < sha3Gas sch" "0 < sloadGas sch" "0 < sstoreSetGas sch"
    "0 < sstoreResetGas sch" "0 < logGas sch" "0 < createGas sch" "0 < callGas sch"
    "0 < extcodesizeGas sch" "0 < extcodecopyGas sch" "0 < balanceGas sch" "quadCoeffDiv sch \<noteq> 0"
    "unat (expGas sch) + 32 * unat (expByteGas sch) < 2 ^ 32"
    "unat (logGas sch) + 4 * unat (logTopicGas sch) < 2 ^ 32" "unat (copyGas sch) \<le> 16"
    "callStipend sch < callValueTransferGas sch"
  using assms by (auto simp: wellPriced_def)

lemma tierGas_pos:
  assumes "wellPriced (evmSchedule E)" and "1 \<le> tier_index tr" and "tier_index tr \<le> 6"
  shows "0 < tierGas E tr"
proof -
  let ?g = "tierStepGas (evmSchedule E)"
  have l: "length ?g = 8" and a: "list_all (\<lambda>g. 0 < g) (take 6 (tl ?g))"
    using assms(1) by (simp_all add: wellPriced_def)
  have "take 6 (tl ?g) ! (tier_index tr - 1) = ?g ! tier_index tr"
    using assms(2,3) l by (simp add: nth_tl)
  moreover have "0 < take 6 (tl ?g) ! (tier_index tr - 1)"
    using a assms(2,3) l by (simp add: list_all_length)
  ultimately show ?thesis using l assms(3) by (simp add: tierGas_def)
qed

lemma priced_ops_stepped:
  assumes "wellPriced (evmSchedule E)" and "mem_fits s"
  shows "op_BALANCE E s = Ok t \<Longrightarrow> stepped (evmSchedule E) s t" "op_EXTCODESIZE E s = Ok t \<Longrightarrow> stepped (evmSchedule E) s t"
    "op_SLOAD E s = Ok t \<Longrightarrow> stepped (evmSchedule E) s t" "op_SSTORE E s = Ok t \<Longrightarrow> stepped (evmSchedule E) s t"
    "op_JUMPDEST s = Ok t \<Longrightarrow> stepped (evmSchedule E) s t"
  using wellPricedD(3,4,5,9,11) [OF assms(1), THEN ucast_pos] assms(2)
  by (auto simp: op_BALANCE_def op_EXTCODESIZE_def op_SLOAD_def op_SSTORE_def op_JUMPDEST_def
      stepped_def mem_fits_def gas_sub_less split: if_splits)

lemma exp_price:
  assumes "wellPriced sch"
  shows "unat (expGas sch + expByteGas sch * (32 - of_nat (firstBitSet (toBigEndian 32 e) div 8)))
      = unat (expGas sch) + unat (expByteGas sch) * bytesRequired (e :: u256)"
proof -
  let ?f = "firstBitSet (toBigEndian 32 e) div 8"
  have e: "bytesRequired e \<le> 32"
    using less_le_trans [OF unat_256_lt, of "256 ^ 32" e] by (subst bytesRequired_le_iff) simp
  have "?f = length (takeWhile (\<lambda>d. d = 0) (toBigEndian 32 e))"
    by (simp add: firstBitSet_def firstBitSet_from_div)
  then have "?f \<le> 32" using length_takeWhile_le [of _ "toBigEndian 32 e"] by simp
  then have "(32 - of_nat ?f :: u32) = of_nat (32 - ?f)" by simp
  then have b: "unat (32 - of_nat ?f :: u32) = bytesRequired e"
    using e by (simp add: firstBitSet_bytesRequired unat_of_nat_lt)
  have p: "unat (expByteGas sch) * bytesRequired e \<le> 32 * unat (expByteGas sch)"
    using e by (simp add: mult.commute)
  have lt: "unat (expGas sch) + unat (expByteGas sch) * bytesRequired e < 2 ^ 32"
    using p wellPricedD(13) [OF assms] by linarith
  then have "unat (expByteGas sch) * unat (32 - of_nat ?f :: u32) < 2 ^ LENGTH(32)"
    unfolding b by simp
  then have "unat (expByteGas sch * (32 - of_nat ?f)) = unat (expByteGas sch) * unat (32 - of_nat ?f :: u32)"
    by (simp only: unat_mult_lem)
  with lt show ?thesis unfolding b by (subst unat_add_lem [THEN iffD1]) simp_all
qed

lemma op_EXP_stepped:
  assumes "wellPriced (evmSchedule E)" and "mem_fits s" and "op_EXP E s = Ok t"
  shows "stepped (evmSchedule E) s t"
proof -
  have "0 < expGas (evmSchedule E) + expByteGas (evmSchedule E)
      * (32 - of_nat (firstBitSet (toBigEndian 32 (SP s 1)) div 8))"
    using wellPricedD(1) [OF assms(1)] exp_price [OF assms(1), of "SP s 1"]
    by (simp add: word_less_nat_alt)
  from ucast_pos [OF this] assms(2,3) show ?thesis
    by (auto simp: op_EXP_def stepped_def mem_fits_def gas_sub_less)
qed

section \<open>Pushes and jumps\<close>

lemma push_loop_fields:
  "m_code (push_loop n s) = m_code s \<and> m_jumpDests (push_loop n s) = m_jumpDests s
   \<and> m_SPP (push_loop n s) = m_SPP s \<and> m_bounce (push_loop n s) = m_bounce s
   \<and> m_mem (push_loop n s) = m_mem s \<and> m_io_gas (push_loop n s) = m_io_gas s
   \<and> m_PC (push_loop n s) = m_PC s + of_nat n \<and> m_SP (push_loop n s) = m_SP s"
  by (induction n arbitrary: s) simp_all

lemma unat_byte_diff: "n \<le> 32 \<Longrightarrow> 1 \<le> n \<Longrightarrow> unat (byte_of (I_PUSH n) - byte_of (I_PUSH 1) + 1) = n"
  by (simp add: unat_of_nat_lt)

lemma op_PUSH_stepped:
  assumes "0 < m_runGas s" and "mem_fits s" and "m_OP s = I_PUSH n" and "1 \<le> n" and "n \<le> 32"
  shows "op_PUSH s = Ok t \<Longrightarrow> stepped sch s t" and "op_PUSH1 s = Ok t \<Longrightarrow> stepped sch s t"
proof -
  have k: "m_PC s + 1 + of_nat n = m_PC s + of_nat (Suc n)" by simp
  show "op_PUSH s = Ok t \<Longrightarrow> stepped sch s t"
    using assms unat_byte_diff [OF assms(5,4)] k
    by (auto simp: op_PUSH_def stepped_def mem_fits_def gas_sub_less push_loop_fields pc_moved_def Let_def
        simp del: of_nat_Suc byte_of.simps intro!: exI [of _ "Suc n"])
  show "op_PUSH1 s = Ok t \<Longrightarrow> stepped sch s t"
    using assms
    by (auto simp: op_PUSH1_def stepped_def mem_fits_def gas_sub_less pc_moved_def
        intro!: exI [of _ 2])
qed

lemma jumpTo_Ok: "jumpTo d s = Ok t \<longleftrightarrow>
    (\<exists>pc. verifyJumpDest (m_jumpDests s) d = Some pc \<and> t = s\<lparr>m_PC := pc\<rparr>)"
  by (auto simp: jumpTo_def throw_defs split: option.splits)

lemma jumps_stepped:
  assumes "0 < m_runGas s" and "mem_fits s"
  shows "op_JUMP s = Ok t \<Longrightarrow> stepped sch s t" and "op_JUMPI s = Ok t \<Longrightarrow> stepped sch s t"
  using assms
  by (auto simp: op_JUMP_def op_JUMPI_def jumpTo_Ok stepped_def mem_fits_def gas_sub_less
      dest!: verifyJumpDest_mem split: if_splits) (auto simp: pc_moved_def)

section \<open>Instructions that may grow the memory\<close>

lemma SP_upd [simp]:
  "SP (s\<lparr>m_io_gas := a\<rparr>) i = SP s i" "SP (s\<lparr>m_ext := w\<rparr>) i = SP s i"
  "SP (s\<lparr>m_output := bs\<rparr>) i = SP s i" "SP (s\<lparr>m_mem := bs\<rparr>) i = SP s i"
  "SP (s\<lparr>m_PC := a\<rparr>) i = SP s i" "SP (s\<lparr>m_runGas := a\<rparr>) i = SP s i"
  "SP (s\<lparr>m_newMemSize := a\<rparr>) i = SP s i" "SP (s\<lparr>m_copyMemSize := a\<rparr>) i = SP s i"
  "SP (s\<lparr>m_bounce := b\<rparr>) i = SP s i" "SP (s\<lparr>m_SPP := n\<rparr>) i = SP s i"
  by (simp_all add: SP_def)

lemma stepped_upd [simp]:
  "stepped sch (s\<lparr>m_runGas := g\<rparr>) t = stepped sch s t" "stepped sch (s\<lparr>m_copyMemSize := c\<rparr>) t = stepped sch s t"
  "mem_fits (s\<lparr>m_runGas := g\<rparr>) = mem_fits s" "mem_fits (s\<lparr>m_copyMemSize := c\<rparr>) = mem_fits s"
  "mem_fits (s\<lparr>m_bounce := b\<rparr>) = mem_fits s" "mem_fits (s\<lparr>m_newMemSize := c\<rparr>) = mem_fits s"
  by (simp_all add: stepped_def pc_moved_def mem_fits_def)

text \<open>What the fetch leaves: a price of at most 32 bits and nothing to copy.\<close>

definition fresh :: "'w vm \<Rightarrow> bool" where
  "fresh s \<longleftrightarrow> unat (m_runGas s) < 2 ^ 32 \<and> m_copyMemSize s = 0"

lemma copyCost_0 [simp]: "copyCost sch 0 = 0"
  by (simp add: copyCost_def)

lemma smallRun_0: "m_copyMemSize s = 0 \<Longrightarrow> unat (m_runGas s) < 2 ^ 63 \<Longrightarrow> smallRun sch s"
  by (simp add: smallRun_def)

lemma fresh_smallRun: "fresh s \<Longrightarrow> smallRun sch s"
  by (simp add: fresh_def smallRun_def)

lemma copy_smallRun:
  assumes "fresh s" and "unat c < 2 ^ 63" and "wellPriced sch"
  shows "smallRun sch (s\<lparr>m_copyMemSize := c\<rparr>)"
proof -
  have "unat (copyGas sch) * ((unat c + 31) div 32) \<le> 16 * 2 ^ 58"
    using assms(2) wellPricedD(15) [OF assms(3)] by (intro mult_le_mono) simp_all
  with assms(1,2) show ?thesis by (simp add: smallRun_def copyCost_def fresh_def)
qed

lemma grew_stepped:
  assumes "grew sch s n u" and "0 < m_runGas s"
    and "m_code t = m_code u \<and> m_jumpDests t = m_jumpDests u \<and> m_SPP t = m_SPP u
       \<and> m_bounce t = m_bounce u \<and> length (m_mem t) = length (m_mem u)
       \<and> m_io_gas t = m_io_gas u - m_runGas u \<and> m_PC t = m_PC u + 1"
  shows "stepped sch s t"
proof -
  obtain new run k where u: "u = s\<lparr>m_newMemSize := new, m_runGas := run, m_mem := m_mem s @ replicate k 0\<rparr>"
    and r: "unat (m_runGas s) + copyCost sch (m_copyMemSize s) + memCost sch (length (m_mem u)) = unat (m_runGas u) + memCost sch (length (m_mem s))"
    and le: "m_runGas u \<le> m_io_gas u" and f: "mem_fits u"
    using assms(1) by (auto simp: grew_def)
  have m: "memCost sch (length (m_mem s)) \<le> memCost sch (length (m_mem u))" by (intro memCost_mono) (simp add: u)
  with r assms(2) have "0 < m_runGas u" by (simp add: word_less_nat_alt)
  then have "m_io_gas t < m_io_gas s" using assms(3) u le by (simp add: gas_sub_less)
  moreover have "unat (m_io_gas t) + unat (m_runGas u) = unat (m_io_gas s)"
    using assms(3) le by (simp add: u unat_sub word_le_nat_alt)
  ultimately show ?thesis using assms(3) u f r by (simp add: stepped_def mem_fits_def)
qed

lemma grewD:
  assumes "grew sch s n u"
  shows "SP u i = SP s i" and "n \<le> length (m_mem u)" and "m_runGas u \<le> m_io_gas u"
    and "mem_fits u" and "m_OP u = m_OP s" and "m_io_gas u = m_io_gas s" and "m_SP u = m_SP s"
    and "m_ext u = m_ext s" and "m_runGas s \<le> m_runGas u" and "m_code u = m_code s"
    and "m_jumpDests u = m_jumpDests s" and "m_SPP u = m_SPP s" and "m_bounce u = m_bounce s"
    and "m_PC u = m_PC s"
    and "unat (m_runGas s) + copyCost sch (m_copyMemSize s) + memCost sch (length (m_mem u)) = unat (m_runGas u) + memCost sch (length (m_mem s))"
proof -
  have "memCost sch (length (m_mem s)) \<le> memCost sch (length (m_mem u))"
    using assms by (intro memCost_mono) (auto simp: grew_def)
  with assms show "m_runGas s \<le> m_runGas u" by (auto simp: grew_def word_le_nat_alt)
qed (use assms in \<open>auto simp: grew_def\<close>)

lemma word_ops_stepped:
  assumes "wellPriced (evmSchedule E)" and "mem_fits s" and "fresh s" and "0 < m_runGas s"
  shows "op_MLOAD E s = Ok t \<Longrightarrow> stepped (evmSchedule E) s t" and "op_MSTORE E s = Ok t \<Longrightarrow> stepped (evmSchedule E) s t"
    and "op_MSTORE8 E s = Ok t \<Longrightarrow> stepped (evmSchedule E) s t"
proof -
  note g = offset_grew [OF assms(2) fresh_smallRun [OF assms(3)] wellPricedD(12) [OF assms(1)]]
  show "stepped (evmSchedule E) s t" if ok: "op_MLOAD E s = Ok t"
  proof -
    obtain u where "int63 (toInt63 (SP s 0)) (\<lambda>o63. updateMem (evmSchedule E) (o63 + 32)) s = Ok u"
      and t: "seq [updateIOGas, upd (\<lambda>s. setSPP (fromBigEndian (bslice (unat (ucast (SP s 0) :: u32)) 32 (m_mem s))) s), NEXT] u = Ok t"
      using ok unfolding op_MLOAD_def seq_Ok [of _ "_ # _ # _ # _"] by blast
    from g [OF this(1)] show ?thesis
      by (rule grew_stepped [OF _ assms(4)]) (use t in auto)
  qed
  show "stepped (evmSchedule E) s t" if ok: "op_MSTORE E s = Ok t"
  proof -
    obtain u where u: "int63 (toInt63 (SP s 0)) (\<lambda>o63. updateMem (evmSchedule E) (o63 + 32)) s = Ok u"
      and t: "t = u\<lparr>m_io_gas := m_io_gas u - m_runGas u, m_mem := poke (unat (ucast (SP u 0) :: u32)) (toBigEndian 32 (SP u 1)) (m_mem u), m_PC := m_PC u + 1\<rparr>"
      using ok by (auto simp: op_MSTORE_def)
    have gr: "grew (evmSchedule E) s (unat (SP s 0) + 32) u" using g [OF u] by simp
    have "unat (ucast (SP u 0) :: u32) + 32 \<le> length (m_mem u)"
      using grewD(1,2) [OF gr] unat_ucast_le [of "SP s 0", where ?'b = 32] by (simp add: le_trans)
    then show ?thesis
      by (intro grew_stepped [OF gr assms(4)]) (simp add: t)
  qed
  show "stepped (evmSchedule E) s t" if ok: "op_MSTORE8 E s = Ok t"
  proof -
    obtain u where u: "int63 (toInt63 (SP s 0)) (\<lambda>o63. updateMem (evmSchedule E) (o63 + 1)) s = Ok u"
      and t: "t = u\<lparr>m_io_gas := m_io_gas u - m_runGas u, m_mem := (m_mem u)[unat (ucast (SP u 0) :: u32) := ucast (SP u 1 AND 0xff)], m_PC := m_PC u + 1\<rparr>"
      using ok by (auto simp: op_MSTORE8_def)
    have gr: "grew (evmSchedule E) s (unat (SP s 0) + 1) u" using g [OF u] by simp
    show ?thesis
      by (intro grew_stepped [OF gr assms(4)]) (simp add: t)
  qed
qed

section \<open>Prices that depend on the stack\<close>

lemma unat_mult_le: "unat (p * q :: 'a::len word) \<le> unat p * unat q"
  by (simp add: unat_word_ariths)

lemma price_pos:
  assumes "0 < (a :: u32)" and "unat (x :: u512) < 2 ^ 400" and "toInt63 (ucast a + x) = Some g"
  shows "0 < g"
proof -
  have "unat (ucast a + x) = unat a + unat x"
    using assms(2) less_trans [OF unsigned_less [of a, where ?'a = nat], of "2 ^ 400"]
    by (subst unat_add_lem [THEN iffD1]) (simp_all add: unat_512_u32)
  moreover have "0 < unat a" using assms(1) by (simp add: word_less_nat_alt)
  ultimately have "0 < unat g"
    using assms(3) unat_ucast_63 [of "ucast a + x"] by auto
  then show ?thesis by (simp add: word_less_nat_alt)
qed

lemma unat_512_u256: "unat (ucast (w :: u256) :: u512) = unat w"
  using less_trans [OF unat_256_lt, of "2 ^ 512" w] by (simp add: unsigned_ucast_eq take_bit_nat_eq_self)

lemma word_price_bound: "unat ((ucast (v :: u256) + 31) div 32 * ucast (w :: u32) :: u512) < 2 ^ 400"
proof -
  have "unat (ucast v + 31 :: u512) = unat v + 31"
    using less_trans [OF add_strict_right_mono [OF unat_256_lt], of 31 "2 ^ 512" v]
    by (subst unat_add_lem [THEN iffD1]) (simp_all add: unat_512_u256)
  then have "unat ((ucast v + 31) div 32 :: u512) \<le> 2 ^ 256 + 31"
    using unat_256_lt [of v] by (simp add: unat_div less_imp_le div_le_dividend [THEN order.trans])
  moreover have "unat (ucast w :: u512) \<le> 2 ^ 32"
    using unsigned_less [of w, where ?'a = nat] by (simp add: unat_512_u32)
  ultimately have "unat ((ucast v + 31) div 32 :: u512) * unat (ucast w :: u512) \<le> (2 ^ 256 + 31) * 2 ^ 32"
    by (rule mult_le_mono)
  with unat_mult_le have "unat ((ucast v + 31) div 32 * ucast w :: u512) \<le> (2 ^ 256 + 31) * 2 ^ 32"
    by (rule order.trans)
  then show ?thesis by (rule le_less_trans) simp
qed

lemma data_price_bound: "unat (ucast (w :: u32) * ucast (v :: u256) :: u512) < 2 ^ 400"
proof -
  have "unat (ucast w * ucast v :: u512) \<le> unat (ucast w :: u512) * unat (ucast v :: u512)" by (rule unat_mult_le)
  also have "\<dots> \<le> 2 ^ 32 * 2 ^ 256"
    using unsigned_less [of w, where ?'a = nat] unat_256_lt [of v]
    by (intro mult_le_mono) (simp_all add: unat_512_u32 unat_512_u256 less_imp_le)
  finally show ?thesis by (rule le_less_trans) simp
qed

lemma toInt63_lt: "toInt63 v = Some g \<Longrightarrow> unat g < 2 ^ 63"
  by (auto simp: unat_ucast_63)

lemma op_SHA3_stepped:
  assumes wp: "wellPriced (evmSchedule E)" and fits: "mem_fits s" and fr: "m_copyMemSize s = 0"
    and ok: "op_SHA3 E s = Ok t"
  shows "stepped (evmSchedule E) s t"
proof -
  let ?sch = "evmSchedule E"
  obtain g u where g: "toInt63 (ucast (sha3Gas ?sch)
            + (ucast (SP s 1) + 31) div 32 * ucast (sha3WordGas ?sch) :: u512) = Some g"
    and u: "needMem ?sch 0 1 (s\<lparr>m_runGas := g\<rparr>) = Ok u"
    and t: "seq [updateIOGas, upd (\<lambda>s. setSPP (fromBigEndian (sha3 (memRange (SP s 0) (SP s 1) s))) s), NEXT] u = Ok t"
    using ok unfolding op_SHA3_def seq_Ok [of _ "_ # _ # _"] setRunGas_Ok by blast
  have pos: "0 < g" by (rule price_pos [OF wellPricedD(2) [OF wp] word_price_bound g])
  have small: "smallRun ?sch (s\<lparr>m_runGas := g\<rparr>)"
    using toInt63_lt [OF g] fr by (intro smallRun_0) simp_all
  have gr: "grew (evmSchedule E) (s\<lparr>m_runGas := g\<rparr>) (if SP s 1 = 0 then 0 else unat (SP s 0) + unat (SP s 1)) u"
    using needMem_grew(1) [OF _ small wellPricedD(12) [OF wp] u] fits unfolding SP_upd by simp
  have "stepped (evmSchedule E) (s\<lparr>m_runGas := g\<rparr>) t"
    by (rule grew_stepped [OF gr]) (use pos t in auto)
  then show ?thesis by simp
qed

lemma log_topics: "n \<le> 4 \<Longrightarrow> (ucast (byte_of (I_LOG n)) - ucast (byte_of (I_LOG 0)) :: u32) = of_nat n"
proof -
  assume "n \<le> 4"
  then have "n = 0 \<or> n = 1 \<or> n = 2 \<or> n = 3 \<or> n = 4" by linarith
  then show ?thesis by auto
qed

lemma log_base_pos:
  assumes "wellPriced sch" and "n \<le> 4"
  shows "0 < logGas sch + logTopicGas sch * of_nat n"
proof -
  have n: "unat (of_nat n :: u32) = n" using assms(2) by (simp add: unat_of_nat_lt)
  have p: "unat (logTopicGas sch) * n \<le> 4 * unat (logTopicGas sch)" using assms(2) by simp
  have lt: "unat (logGas sch) + unat (logTopicGas sch) * n < 2 ^ 32"
    using p wellPricedD(14) [OF assms(1)] by linarith
  then have "unat (logTopicGas sch) * unat (of_nat n :: u32) < 2 ^ LENGTH(32)" unfolding n by simp
  then have "unat (logTopicGas sch * of_nat n) = unat (logTopicGas sch) * unat (of_nat n :: u32)"
    by (simp only: unat_mult_lem)
  with lt have "unat (logGas sch + logTopicGas sch * of_nat n) = unat (logGas sch) + unat (logTopicGas sch) * n"
    unfolding n by (subst unat_add_lem [THEN iffD1]) simp_all
  with wellPricedD(6) [OF assms(1)] show ?thesis by (simp add: word_less_nat_alt)
qed

lemma op_LOG_stepped:
  assumes wp: "wellPriced (evmSchedule E)" and fits: "mem_fits s" and fr: "m_copyMemSize s = 0"
    and n: "m_OP s = I_LOG n" "n \<le> 4" and ok: "op_LOG n E s = Ok t"
  shows "stepped (evmSchedule E) s t"
proof -
  let ?sch = "evmSchedule E"
  obtain u where u: "logGasMem ?sch s = Ok u"
    and t: "seq [updateIOGas, upd (\<lambda>s. s\<lparr>m_ext := ext_log E (map (\<lambda>i. SP s (2 + i)) [0..<n])
                            (memRange (SP s 0) (SP s 1) s) (m_ext s)\<rparr>), NEXT] u = Ok t"
    using ok unfolding op_LOG_def by (subst (asm) seq_Ok) blast
  obtain g where g: "toInt63 (ucast (logGas ?sch + logTopicGas ?sch * of_nat n)
            + ucast (logDataGas ?sch) * ucast (SP s 1) :: u512) = Some g"
    and u': "needMem ?sch 0 1 (s\<lparr>m_runGas := g\<rparr>) = Ok u"
    using u unfolding logGasMem_def seq_Ok Let_def setRunGas_Ok n(1) log_topics [OF n(2)]
    by (auto simp: needMem_def)
  have pos: "0 < g" by (rule price_pos [OF log_base_pos [OF wp n(2)] data_price_bound g])
  have small: "smallRun ?sch (s\<lparr>m_runGas := g\<rparr>)"
    using toInt63_lt [OF g] fr by (intro smallRun_0) simp_all
  have gr: "grew (evmSchedule E) (s\<lparr>m_runGas := g\<rparr>) (if SP s 1 = 0 then 0 else unat (SP s 0) + unat (SP s 1)) u"
    using needMem_grew(1) [OF _ small wellPricedD(12) [OF wp] u'] fits unfolding SP_upd by simp
  have "stepped (evmSchedule E) (s\<lparr>m_runGas := g\<rparr>) t"
    by (rule grew_stepped [OF gr]) (use pos t in auto)
  then show ?thesis by simp
qed

section \<open>Copies into memory\<close>

lemma sizeToBeCopied_le:
  assumes "length d < 2 ^ 64"
  shows "sizeToBeCopied d i sz \<le> unat sz"
    and "0 < sizeToBeCopied d i sz \<Longrightarrow> unat (ucast i :: u64) = unat i
           \<and> unat i + sizeToBeCopied d i sz \<le> length d"
proof -
  have "unat (ucast i :: u64) = unat i" if "unat i \<le> length d"
    using that assms by (simp add: unsigned_ucast_eq take_bit_nat_eq_self)
  then show "sizeToBeCopied d i sz \<le> unat sz"
    and "0 < sizeToBeCopied d i sz \<Longrightarrow> unat (ucast i :: u64) = unat i
           \<and> unat i + sizeToBeCopied d i sz \<le> length d"
    by (auto simp: sizeToBeCopied_def Let_def split: if_splits)
qed

lemma length_copyDataToMemory:
  assumes "length d < 2 ^ 64"
    and "unat (ucast sp2 :: u64) = 0 \<or> unat (ucast sp0 :: u64) + unat (ucast sp2 :: u64) \<le> length mem"
  shows "length (copyDataToMemory d sp0 sp1 sp2 mem) = length mem"
proof -
  let ?n = "sizeToBeCopied d sp1 (ucast sp2)"
  have n: "?n \<le> unat (ucast sp2 :: u64)" by (rule sizeToBeCopied_le(1) [OF assms(1)])
  have "unat (ucast sp1 :: u64) + ?n \<le> length d" if "0 < ?n"
    using sizeToBeCopied_le(2) [OF assms(1) that] by simp
  then have l: "length (bslice (unat (ucast sp1 :: u64)) ?n d) = ?n" if "0 < ?n"
    using that by simp
  show ?thesis
  proof (cases "unat (ucast sp2 :: u64) = 0")
    case True
    with n show ?thesis by (simp add: copyDataToMemory_def Let_def)
  next
    case False
    with assms(2) n l show ?thesis by (auto simp: copyDataToMemory_def Let_def)
  qed
qed

lemma range_in_memory:
  assumes "grew sch s (if SP s j = 0 then 0 else unat (SP s i) + unat (SP s j)) u"
    and "SP s j = 0 \<or> unat (SP s i) + unat (SP s j) < 2 ^ 63"
  shows "unat (ucast (SP u j) :: u64) = 0
    \<or> unat (ucast (SP u i) :: u64) + unat (ucast (SP u j) :: u64) \<le> length (m_mem u)"
  using grewD(1,2) [OF assms(1)] unat_ucast_le [of "SP s i", where ?'b = 64]
    unat_ucast_le [of "SP s j", where ?'b = 64]
  by (cases "SP s j = 0") auto

lemma copy_stepped:
  assumes wp: "wellPriced (evmSchedule E)" and fits: "mem_fits s" and fr: "fresh s"
    and pos: "0 < m_runGas s" and c: "toInt63 (SP s j) = Some c"
    and u: "needMem (evmSchedule E) i j (s\<lparr>m_copyMemSize := c\<rparr>) = Ok u"
    and d: "length d < 2 ^ 64"
    and t: "t = (u\<lparr>m_io_gas := m_io_gas u - m_runGas u,
        m_mem := copyDataToMemory d (SP u i) x (SP u j) (m_mem u), m_PC := m_PC u + 1\<rparr>)"
  shows "stepped (evmSchedule E) s t"
proof -
  let ?s = "s\<lparr>m_copyMemSize := c\<rparr>"
  have small: "smallRun (evmSchedule E) ?s"
    using copy_smallRun [OF fr toInt63_lt [OF c] wp] .
  have f: "mem_fits ?s" using fits by simp
  note gr = needMem_grew [OF f small wellPricedD(12) [OF wp] u]
  have "length (copyDataToMemory d (SP u i) x (SP u j) (m_mem u)) = length (m_mem u)"
    by (rule length_copyDataToMemory [OF d range_in_memory [OF gr]])
  then have "stepped (evmSchedule E) ?s t"
    by (intro grew_stepped [OF gr(1)]) (simp_all add: t pos)
  then show ?thesis by simp
qed

definition env_ok :: "'w ext \<Rightarrow> bool" where
  "env_ok E \<longleftrightarrow> wellPriced (evmSchedule E) \<and> ext_gas_ok E \<and> length (code E) < 2 ^ 62
     \<and> length (calldata E) < 2 ^ 64 \<and> (\<forall>a w. length (codeAt E a w) < 2 ^ 64)"

lemma copies_stepped:
  assumes env: "env_ok E" and fits: "mem_fits s" and fr: "fresh s"
  shows "0 < m_runGas s \<Longrightarrow> op_CALLDATACOPY E s = Ok t \<Longrightarrow> stepped (evmSchedule E) s t"
    and "0 < m_runGas s \<Longrightarrow> op_CODECOPY E s = Ok t \<Longrightarrow> stepped (evmSchedule E) s t"
    and "op_EXTCODECOPY E s = Ok t \<Longrightarrow> stepped (evmSchedule E) s t"
proof -
  have wp: "wellPriced (evmSchedule E)" and l: "length (calldata E) < 2 ^ 64" "length (code E) < 2 ^ 64"
    "\<And>a w. length (codeAt E a w) < 2 ^ 64"
    using env by (auto simp: env_ok_def)
  note copy = copy_stepped [OF wp]
  show "stepped (evmSchedule E) s t" if "0 < m_runGas s" "op_CALLDATACOPY E s = Ok t"
    using that by (auto simp: op_CALLDATACOPY_def copyIn_def numeral_2_eq_2 intro!: copy [OF fits fr _ _ _ l(1)])
  show "stepped (evmSchedule E) s t" if "0 < m_runGas s" "op_CODECOPY E s = Ok t"
    using that by (auto simp: op_CODECOPY_def copyIn_def numeral_2_eq_2 intro!: copy [OF fits fr _ _ _ l(2)])
  show "stepped (evmSchedule E) s t" if ok: "op_EXTCODECOPY E s = Ok t"
  proof -
    let ?s = "s\<lparr>m_runGas := ucast (extcodecopyGas (evmSchedule E))\<rparr>"
    have f: "mem_fits ?s" "fresh ?s"
      using fits fr unsigned_less [of "extcodecopyGas (evmSchedule E)", where ?'a = nat]
      by (simp_all add: fresh_def)
    have "stepped (evmSchedule E) ?s t"
      using ok ucast_pos [OF wellPricedD(10) [OF wp]]
      by (auto simp: op_EXTCODECOPY_def copyIn_def numeral_2_eq_2 numeral_3_eq_3
          simp del: stepped_upd(1)
          intro!: copy [OF f _ _ _ l(3)])
    then show ?thesis by simp
  qed
qed

section \<open>Create and call\<close>

text \<open>The gas handed back never exceeds what was held back for the callee.\<close>

lemma create_gas_le:
  fixes g :: u64 and c r :: u256
  assumes "r \<le> c" and "c \<le> ucast g"
  shows "(ucast (ucast g - (c - r)) :: u64) \<le> g"
proof -
  have ug: "unat (ucast g :: u256) = unat g"
    using less_trans [OF unat_64_lt, of "2 ^ 256" g] by (simp add: unsigned_ucast_eq take_bit_nat_eq_self)
  have "c - r \<le> ucast g"
    using assms by (simp add: word_le_nat_alt unat_sub)
  then have "unat (ucast g - (c - r)) \<le> unat g"
    by (simp add: unat_sub ug word_le_nat_alt)
  then show ?thesis
    using unat_ucast_le [of "ucast g - (c - r)", where ?'b = 64] by (simp add: word_le_nat_alt)
qed

lemma doCreate_fields:
  "m_code (doCreate E s) = m_code s" "m_jumpDests (doCreate E s) = m_jumpDests s"
  "m_SPP (doCreate E s) = m_SPP s" "m_bounce (doCreate E s) = m_bounce s"
  "m_mem (doCreate E s) = m_mem s" "m_PC (doCreate E s) = m_PC s"
  by (simp_all add: doCreate_def Let_def split: prod.splits)

lemma doCreate_gas:
  assumes "ext_gas_ok E"
  shows "m_io_gas (doCreate E s) \<le> m_io_gas s"
proof -
  have div: "x - x div 64 \<le> x" for x :: u256
    by (simp add: word_le_nat_alt unat_sub unat_div)
  have "gas \<le> c" if "ext_create E v c init w = (a, gas, w')" for v c init w a gas w'
    using assms that unfolding ext_gas_ok_def by (metis fst_conv snd_conv)
  then have r: "gas \<le> c" if "ext_create E v c init w = (a, gas, w')" for v c init w a gas w'
    using that by blast
  define c where "c = (if staticCallDepthLimit (evmSchedule E) then ucast (m_io_gas s)
    else ucast (m_io_gas s) - ucast (m_io_gas s) div 64 :: u256)"
  have c: "c \<le> ucast (m_io_gas s)" using div by (simp add: c_def)
  obtain a gas w where x: "ext_create E (SP s 0) c (bslice (unat (ucast (SP s 1) :: u64))
      (unat (ucast (SP s 2) :: u64)) (m_mem s)) (m_ext s) = (a, gas, w)"
    by (metis prod_cases3)
  have "(ucast (ucast (m_io_gas s) - (c - gas)) :: u64) \<le> m_io_gas s"
    by (rule create_gas_le [OF r [OF x] c])
  then show ?thesis
    unfolding doCreate_def Let_def c_def [symmetric] by (simp only: x split: if_split) simp
qed

lemma run_caseCreate_stepped:
  assumes env: "env_ok E" and fits: "mem_fits s" and c0: "m_copyMemSize s = 0"
    and ok: "run_caseCreate E s = Ok t"
  shows "stepped (evmSchedule E) (s\<lparr>m_bounce := Some interpretCases\<rparr>) t"
proof -
  have wp: "wellPriced (evmSchedule E)" and ext: "ext_gas_ok E" using env by (simp_all add: env_ok_def)
  define g where "g = (ucast (createGas (evmSchedule E)) :: u64)"
  let ?s = "s\<lparr>m_bounce := Some interpretCases, m_runGas := g\<rparr>"
  have g: "0 < g" "unat g < 2 ^ 32"
    using ucast_pos [OF wellPricedD(7) [OF wp]]
      unsigned_less [of "createGas (evmSchedule E)", where ?'a = nat]
    by (simp_all add: g_def)
  obtain u where u: "needMem (evmSchedule E) 1 2 ?s = Ok u"
    and t: "t = (doCreate E (u\<lparr>m_io_gas := m_io_gas u - m_runGas u\<rparr>))\<lparr>m_PC := m_PC u + 1\<rparr>"
    using ok by (auto simp: run_caseCreate_def needMem_def doCreate_fields g_def)
  have f: "mem_fits ?s" and small: "smallRun (evmSchedule E) ?s"
    using fits c0 g by (simp_all add: mem_fits_def smallRun_0)
  note gr = needMem_grew(1) [OF f small wellPricedD(12) [OF wp] u]
  let ?v = "u\<lparr>m_io_gas := m_io_gas u - m_runGas u\<rparr>"
  have "stepped (evmSchedule E) ?s (?v\<lparr>m_PC := m_PC u + 1\<rparr>)"
    by (rule grew_stepped [OF gr]) (simp_all add: g)
  moreover have "m_io_gas t \<le> m_io_gas ?v" using doCreate_gas [OF ext, of ?v] by (simp add: t)
  ultimately have "stepped (evmSchedule E) ?s t"
    by (auto simp: stepped_def pc_moved_def mem_fits_def t doCreate_fields word_le_nat_alt word_less_nat_alt)
  then show ?thesis by (simp add: stepped_def pc_moved_def)
qed

lemma addRunGas_if: "(if c then addRunGas (toInt63 (v :: u32)) s else Ok s) = Ok t
    \<longleftrightarrow> t = s\<lparr>m_runGas := m_runGas s + ucast (if c then v else 0)\<rparr>"
  by (cases c) auto

text \<open>The static price of a call, over the naturals.\<close>

definition call_static :: "'w ext \<Rightarrow> 'w vm \<Rightarrow> nat" where
  "call_static E s = unat (callGas (evmSchedule E))
     + (if m_OP s = I_CALL \<and> \<not> account_exists E (asAddress (SP s 1)) (m_ext s)
          \<and> (0 < SP s 2 \<or> zeroValueTransferChargesNewAccountGas (evmSchedule E))
        then unat (callNewAccountGas (evmSchedule E)) else 0)
     + (if m_OP s \<noteq> I_DELEGATECALL \<and> 0 < SP s 2 then unat (callValueTransferGas (evmSchedule E)) else 0)"

lemma callStaticGas_Ok:
  assumes "callStaticGas E s = Ok u"
  shows "\<exists>g. u = s\<lparr>m_runGas := g\<rparr> \<and> unat g < 2 ^ 34 \<and> unat g = call_static E s"
proof -
  have b: "unat (v :: u32) < 2 ^ 32" for v
    using unsigned_less [of v, where ?'a = nat] by simp
  have two: "unat (ucast (a :: u32) + ucast (c :: u32) :: u64) = unat a + unat c" for a c
    using b [of a] b [of c] by (subst unat_add_u64) simp_all
  have three: "unat (ucast (a :: u32) + ucast (c :: u32) + ucast (d :: u32) :: u64) = unat a + unat c + unat d" for a c d
    using b [of a] b [of c] b [of d] by (subst unat_add_u64) (simp_all add: two)
  define new where "new = (if m_OP s = I_CALL \<and> \<not> account_exists E (asAddress (SP s 1)) (m_ext s)
      \<and> (0 < SP s 2 \<or> zeroValueTransferChargesNewAccountGas (evmSchedule E))
    then callNewAccountGas (evmSchedule E) else 0)"
  define val where "val = (if m_OP s \<noteq> I_DELEGATECALL \<and> 0 < SP s 2
    then callValueTransferGas (evmSchedule E) else 0)"
  have "u = s\<lparr>m_runGas := ucast (callGas (evmSchedule E)) + ucast new + ucast val\<rparr>"
    using assms unfolding callStaticGas_def seq_Ok addRunGas_if setRunGas_Ok
    by (clarsimp simp: new_def val_def)
  moreover have "unat (ucast (callGas (evmSchedule E)) + ucast new + ucast val :: u64)
      = unat (callGas (evmSchedule E)) + unat new + unat val" by (rule three)
  moreover have "\<dots> < 2 ^ 34"
    using b [of "callGas (evmSchedule E)"] b [of new] b [of val] by simp
  moreover have "call_static E s = unat (callGas (evmSchedule E)) + unat new + unat val"
    by (simp add: call_static_def new_def val_def)
  ultimately show ?thesis by (intro exI) auto
qed

lemma callMem_grew:
  assumes fits: "mem_fits s" and small: "smallRun sch s" and q: "quadCoeffDiv sch \<noteq> 0"
    and ok: "callMem sch s = Ok u"
  defines "o' \<equiv> (if m_OP s = I_DELEGATECALL then 4 else 5)"
  shows "grew sch s (if SP s (o' + 1) = 0 then 0 else unat (SP s o') + unat (SP s (o' + 1))) u"
    and "SP s (o' + 1) = 0 \<or> unat (SP s o') + unat (SP s (o' + 1)) < 2 ^ 63"
proof -
  obtain i w where i: "memNeed (SP s (o' - 2)) (SP s (o' - 1)) = Some i"
    and w: "memNeed (SP s o') (SP s (o' + 1)) = Some w"
    and u: "updateMem sch (max i w) (s\<lparr>m_newMemSize := max i w\<rparr>) = Ok u"
    using ok by (auto simp: callMem_def Let_def o'_def split: if_splits)
  have bound: "unat x < 2 ^ 63 \<and> unat x = (if b = 0 then 0 else unat a + unat b)"
    if "memNeed a b = Some x" for a b x
    using that unat_of_nat_lt [of "unat a + unat b", where ?'a = 64] by (auto simp: memNeed_Some simp del: of_nat_add split: if_splits)
  show "SP s (o' + 1) = 0 \<or> unat (SP s o') + unat (SP s (o' + 1)) < 2 ^ 63"
    using bound [OF w] by (cases "SP s (o' + 1) = 0") simp_all
  have e: "unat w = (if SP s (o' + 1) = 0 then 0 else unat (SP s o') + unat (SP s (o' + 1)))"
    using bound [OF w] by blast
  have m: "unat (max i w) < 2 ^ 63" "unat w \<le> unat (max i w)"
    using bound [OF i] bound [OF w] by (auto simp: max_def word_le_nat_alt)
  have small': "smallRun sch (s\<lparr>m_newMemSize := max i w\<rparr>)" using small by (simp add: smallRun_def)
  have "grew sch (s\<lparr>m_newMemSize := max i w\<rparr>) (unat (max i w)) u"
    using updateMem_grew [OF _ small' _ q u] fits m by simp
  then have "grew sch s (unat (max i w)) u" by (auto simp: grew_def)
  then show "grew sch s (if SP s (o' + 1) = 0 then 0 else unat (SP s o') + unat (SP s (o' + 1))) u"
    using grew_mono [OF _ m(2)] unfolding e by blast
qed

lemma callGasAllowance_le:
  assumes "\<not> staticCallDepthLimit sch"
  shows "unat (callGasAllowance sch s) \<le> unat (m_io_gas s) - unat (m_io_gas s) div 64"
proof -
  have "unat (ucast (m_io_gas s - m_io_gas s div 64) :: u256) \<le> unat (m_io_gas s - m_io_gas s div 64)"
    by (rule unat_ucast_le)
  also have "\<dots> = unat (m_io_gas s) - unat (m_io_gas s) div 64"
    by (simp add: unat_sub unat_div word_le_nat_alt)
  finally show ?thesis
    using assms by (simp add: callGasAllowance_def word_le_nat_alt min_def)
qed

text \<open>
  What the call returns with its gas: the state before the callee runs has paid the static costs and
  the gas passed on, and the gas that comes back is at most that plus the stipend.
\<close>

lemma doCall_gas:
  assumes ext: "ext_gas_ok E" and p: "unat (cp_gas p) < 2 ^ 64"
    and room: "unat (m_io_gas s) + unat (cp_gas p) < 2 ^ 64"
  shows "unat (m_io_gas (doCall E p out s)) \<le> unat (m_io_gas s) + unat (cp_gas p)"
proof -
  have r: "unat (m_io_gas s + ucast g) \<le> unat (m_io_gas s) + unat (cp_gas p)"
    if "g \<le> cp_gas p" for g :: u256
  proof -
    have "unat (ucast g :: u64) \<le> unat (cp_gas p)"
      using that unat_ucast_le [of g, where ?'b = 64] by (simp add: word_le_nat_alt)
    then show ?thesis using room by (subst unat_add_u64) simp_all
  qed
  show ?thesis
  proof (cases out)
    case None
    then show ?thesis using r [of "cp_gas p"] by (simp add: doCall_def)
  next
    case (Some o')
    obtain ok outp gas w where x: "ext_call E p (m_ext s) = (ok, outp, gas, w)"
      by (metis prod_cases4)
    have "gas \<le> cp_gas p" using ext unfolding ext_gas_ok_def by (metis x fst_conv snd_conv)
    with r [of gas] Some show ?thesis by (simp add: doCall_def x Let_def split: prod.splits)
  qed
qed

lemma doCall_fields:
  "m_code (doCall E p out s) = m_code s" "m_jumpDests (doCall E p out s) = m_jumpDests s"
  "m_SPP (doCall E p out s) = m_SPP s" "m_bounce (doCall E p out s) = m_bounce s"
  "m_PC (doCall E p out s) = m_PC s"
  by (simp_all add: doCall_def Let_def split: prod.splits option.splits)

lemma doCall_mem:
  assumes "\<And>b n. out = Some (b, n) \<Longrightarrow> unat n = 0 \<or> unat b + unat n \<le> length (m_mem s)"
  shows "length (m_mem (doCall E p out s)) = length (m_mem s)"
proof (cases out)
  case (Some o')
  obtain b n where o: "o' = (b, n)" by (cases o')
  have "length (poke (unat b) (take (unat n) xs) (m_mem s)) = length (m_mem s)" for xs
    using assms [of b n] Some o by (cases "unat n = 0") simp_all
  with Some o show ?thesis by (simp add: doCall_def Let_def split: prod.splits)
qed (simp add: doCall_def)

lemma unat_callStipendGas: "unat (callStipendGas sch s) =
    (if m_OP s \<noteq> I_DELEGATECALL \<and> 0 < SP s 2 then unat (callStipend sch) else 0)"
  using unsigned_less [of "callStipend sch", where ?'a = nat]
  by (simp add: callStipendGas_def unsigned_ucast_eq take_bit_nat_eq_self)

lemma cp_gas_callParams [simp]: "cp_gas (callParams E g s) = g"
  by (simp add: callParams_def Let_def)

lemma callReady_Ok:
  assumes "callReady E gas (\<lambda>p out. upd (doCall E p out)) s = Ok t"
  defines "o' \<equiv> (if m_OP s = I_DELEGATECALL then 4 else 5)"
    and "p \<equiv> callParams E (gas + callStipendGas (evmSchedule E) s) s"
  shows "t = doCall E p (if valueTransfer p \<le> balance E (myAddress E) (m_ext s) \<and> depth E < 1024
    then Some (ucast (SP s o'), ucast (SP s (o' + 1))) else None) s"
  using assms(1) by (auto simp: callReady_def Let_def o'_def p_def)

text \<open>
  The account of a call that goes on: \<open>x\<close> is the state in which the callee is entered, with the static price and
  the price of the memory paid, \<open>io\<close> being what they leave, and the gas that is passed on taken off.
\<close>

definition call_entered :: "'w ext \<Rightarrow> 'w vm \<Rightarrow> u64 \<Rightarrow> u256 \<Rightarrow> 'w vm \<Rightarrow> bool" where
  "call_entered E s io gas x \<longleftrightarrow> (\<exists>n k. x = s\<lparr>m_bounce := Some interpretCases, m_newMemSize := n, m_mem := m_mem s @ replicate k 0,
        m_runGas := ucast gas, m_io_gas := io - ucast gas\<rparr>)
     \<and> unat io + call_static E s + memCost (evmSchedule E) (length (m_mem x)) = unat (m_io_gas s) + memCost (evmSchedule E) (length (m_mem s))
     \<and> gas = callGasAllowance (evmSchedule E) (s\<lparr>m_io_gas := io\<rparr>) \<and> unat gas \<le> unat io \<and> mem_fits x"

definition call_settled :: "'w ext \<Rightarrow> u256 \<Rightarrow> 'w vm \<Rightarrow> 'w vm" where
  "call_settled E gas x = (let o' = (if m_OP x = I_DELEGATECALL then 4 else 5); p = callParams E (gas + callStipendGas (evmSchedule E) x) x
     in doCall E p (if valueTransfer p \<le> balance E (myAddress E) (m_ext x) \<and> depth E < 1024
       then Some (ucast (SP x o'), ucast (SP x (o' + 1))) else None) x)"

lemma run_caseCall_entered:
  assumes env: "env_ok E" and fits: "mem_fits s" and c0: "m_copyMemSize s = 0"
    and ok: "run_caseCall E s = Ok t"
  obtains io gas x where "call_entered E s io gas x" "t = (call_settled E gas x)\<lparr>m_PC := m_PC s + 1\<rparr>"
    "length (m_mem (call_settled E gas x)) = length (m_mem x)"
proof -
  let ?sch = "evmSchedule E" and ?s = "s\<lparr>m_bounce := Some interpretCases\<rparr>"
  have wp: "wellPriced ?sch" using env by (simp add: env_ok_def)
  obtain u v y where u: "callStaticGas E ?s = Ok u" and v: "callMem ?sch u = Ok v"
    and le: "m_runGas v \<le> m_io_gas v"
    and y: "callPass E (\<lambda>p out. upd (doCall E p out)) (v\<lparr>m_io_gas := m_io_gas v - m_runGas v\<rparr>) = Ok y"
    and t: "t = y\<lparr>m_PC := m_PC y + 1\<rparr>"
    using ok unfolding run_caseCall_def caseCallSetup_def by auto
  define io where "io = m_io_gas v - m_runGas v"
  define gas where "gas = callGasAllowance ?sch (v\<lparr>m_io_gas := io\<rparr>)"
  define x where "x = v\<lparr>m_runGas := ucast gas, m_io_gas := io - ucast gas\<rparr>"
  have g63: "unat gas \<le> 0x7FFFFFFFFFFFFFFF" and gle: "ucast gas \<le> io"
    and r: "callReady E gas (\<lambda>p out. upd (doCall E p out)) x = Ok y"
    using y unfolding callPass_def Let_def io_def [symmetric] gas_def [symmetric] x_def by auto
  have yo: "y = call_settled E gas x" using callReady_Ok [OF r] by (simp add: call_settled_def Let_def)
  obtain g where ug: "u = ?s\<lparr>m_runGas := g\<rparr>" and g34: "unat g < 2 ^ 34" and static: "unat g = call_static E s"
    using callStaticGas_Ok [OF u] by (auto simp: call_static_def)
  have fits': "mem_fits u" and small: "smallRun ?sch u"
    using fits c0 g34 by (simp_all add: ug mem_fits_def smallRun_0)
  note gr = callMem_grew [OF fits' small wellPricedD(12) [OF wp] v]
  note grd = grewD [OF gr(1)]
  obtain n run k where vx: "v = u\<lparr>m_newMemSize := n, m_runGas := run, m_mem := m_mem u @ replicate k 0\<rparr>"
    using gr(1) by (auto simp: grew_def)
  have uio: "unat io + unat (m_runGas v) = unat (m_io_gas s)"
    using le by (simp add: io_def grd ug unat_sub word_le_nat_alt)
  have "unat gas \<le> unat io" using gle unat_ucast_63 [OF g63] by (simp add: word_le_nat_alt)
  moreover have "gas = callGasAllowance ?sch (s\<lparr>m_io_gas := io\<rparr>)"
    by (simp add: gas_def callGasAllowance_def vx ug)
  moreover have "x = s\<lparr>m_bounce := Some interpretCases, m_newMemSize := n, m_mem := m_mem s @ replicate k 0,
        m_runGas := ucast gas, m_io_gas := io - ucast gas\<rparr>" by (simp add: x_def vx ug)
  moreover have "mem_fits x" using grd(4) by (simp add: x_def mem_fits_def)
  moreover have "unat io + call_static E s + memCost ?sch (length (m_mem x)) = unat (m_io_gas s) + memCost ?sch (length (m_mem s))"
    using grd(15) uio static c0 by (simp add: x_def ug)
  ultimately have e: "call_entered E s io gas x" unfolding call_entered_def by blast
  have "length (m_mem y) = length (m_mem x)"
    unfolding yo call_settled_def Let_def
  proof (rule doCall_mem)
    fix b n :: u64
    assume o: "(if valueTransfer (callParams E (gas + callStipendGas ?sch x) x) \<le> balance E (myAddress E) (m_ext x) \<and> depth E < 1024
       then Some (ucast (SP x (if m_OP x = I_DELEGATECALL then 4 else 5)), ucast (SP x ((if m_OP x = I_DELEGATECALL then 4 else 5) + 1))) else None) = Some (b, n)"
    have "m_OP x = m_OP u" "SP x i = SP v i" "m_mem x = m_mem v" for i by (simp_all add: x_def grd)
    with o range_in_memory [OF gr] show "unat n = 0 \<or> unat b + unat n \<le> length (m_mem x)"
      by (auto split: if_splits)
  qed
  moreover have "m_PC y = m_PC s" unfolding yo call_settled_def Let_def by (simp add: doCall_fields x_def vx ug)
  ultimately show ?thesis using that [OF e] t yo by simp
qed

text \<open>What comes back is at most what was passed on and the stipend, and the stipend is less than the price of a transfer.\<close>

lemma call_entered_gas:
  assumes env: "env_ok E" and e: "call_entered E s io gas x"
  defines "st \<equiv> unat (callStipendGas (evmSchedule E) s)"
  shows "unat (m_io_gas x) + unat gas = unat io" "unat (gas + callStipendGas (evmSchedule E) s) = unat gas + st"
    "st < call_static E s" "unat (m_io_gas x) + unat gas + st < unat (m_io_gas s)" "unat (ucast gas :: u64) = unat gas"
    "unat (ucast (gas + callStipendGas (evmSchedule E) s) :: u64) = unat gas + st"
    "memCost (evmSchedule E) (length (m_mem s)) \<le> memCost (evmSchedule E) (length (m_mem x))"
proof -
  let ?sch = "evmSchedule E"
  have wp: "wellPriced ?sch" using env by (simp add: env_ok_def)
  obtain n k where x: "x = s\<lparr>m_bounce := Some interpretCases, m_newMemSize := n, m_mem := m_mem s @ replicate k 0,
        m_runGas := ucast gas, m_io_gas := io - ucast gas\<rparr>"
    and paid: "unat io + call_static E s + memCost ?sch (length (m_mem x)) = unat (m_io_gas s) + memCost ?sch (length (m_mem s))"
    and le: "unat gas \<le> unat io" using e by (auto simp: call_entered_def)
  show m: "memCost ?sch (length (m_mem s)) \<le> memCost ?sch (length (m_mem x))" by (rule memCost_mono) (simp add: x)
  have g64: "unat gas < 2 ^ 64" using le_less_trans [OF le unat_64_lt] by simp
  show ugas: "unat (ucast gas :: u64) = unat gas" using g64 by (simp add: unsigned_ucast_eq take_bit_nat_eq_self)
  show ux: "unat (m_io_gas x) + unat gas = unat io"
    using le by (simp add: x unat_sub ugas word_le_nat_alt)
  have st: "st = (if m_OP s \<noteq> I_DELEGATECALL \<and> 0 < SP s 2 then unat (callStipend ?sch) else 0)"
    unfolding st_def by (rule unat_callStipendGas)
  show below: "st < call_static E s"
    using wellPricedD(8,16) [OF wp] by (auto simp: st call_static_def word_less_nat_alt)
  show room: "unat (m_io_gas x) + unat gas + st < unat (m_io_gas s)" using ux below paid m by linarith
  then have "unat gas + st < 2 ^ 64" using less_trans [OF room unat_64_lt] by simp
  then show cp: "unat (gas + callStipendGas ?sch s) = unat gas + st"
    by (simp add: st_def unat_add_lem [THEN iffD1])
  then show "unat (ucast (gas + callStipendGas ?sch s) :: u64) = unat gas + st"
    using \<open>unat gas + st < 2 ^ 64\<close> by (simp add: unsigned_ucast_eq take_bit_nat_eq_self)
qed

lemma run_caseCall_stepped:
  assumes env: "env_ok E" and fits: "mem_fits s" and c0: "m_copyMemSize s = 0"
    and ok: "run_caseCall E s = Ok t"
  shows "stepped (evmSchedule E) (s\<lparr>m_bounce := Some interpretCases\<rparr>) t"
proof -
  obtain io gas x where e: "call_entered E s io gas x" and t: "t = (call_settled E gas x)\<lparr>m_PC := m_PC s + 1\<rparr>"
    and len: "length (m_mem (call_settled E gas x)) = length (m_mem x)"
    using run_caseCall_entered [OF assms] .
  note g = call_entered_gas [OF env e]
  obtain n k where x: "x = s\<lparr>m_bounce := Some interpretCases, m_newMemSize := n, m_mem := m_mem s @ replicate k 0,
        m_runGas := ucast gas, m_io_gas := io - ucast gas\<rparr>"
    and paid: "unat io + call_static E s + memCost (evmSchedule E) (length (m_mem x)) = unat (m_io_gas s) + memCost (evmSchedule E) (length (m_mem s))"
    and fx: "mem_fits x" using e by (auto simp: call_entered_def)
  have st: "callStipendGas (evmSchedule E) x = callStipendGas (evmSchedule E) s" by (simp add: x callStipendGas_def)
  have small: "unat (m_io_gas x) + unat gas + unat (callStipendGas (evmSchedule E) s) < 2 ^ 64"
    using less_trans [OF g(4) unat_64_lt] by simp
  have "unat (m_io_gas (call_settled E gas x)) \<le> unat (m_io_gas x) + unat (cp_gas (callParams E (gas + callStipendGas (evmSchedule E) s) x))"
    unfolding call_settled_def Let_def st using env small
    by (intro doCall_gas) (simp_all add: env_ok_def g(2))
  then have y: "unat (m_io_gas (call_settled E gas x)) \<le> unat (m_io_gas x) + unat gas + unat (callStipendGas (evmSchedule E) s)"
    by (simp add: g(2))
  have "m_io_gas (call_settled E gas x) < m_io_gas s" using y g(4) by (simp add: word_less_nat_alt)
  moreover have "unat (m_io_gas (call_settled E gas x)) + memCost (evmSchedule E) (length (m_mem x)) \<le> unat (m_io_gas s) + memCost (evmSchedule E) (length (m_mem s))"
    using y g(1,3) paid by linarith
  moreover have "m_code (call_settled E gas x) = m_code s" "m_jumpDests (call_settled E gas x) = m_jumpDests s"
    "m_SPP (call_settled E gas x) = m_SPP s" "m_bounce (call_settled E gas x) = Some interpretCases"
    by (simp_all add: call_settled_def Let_def doCall_fields x)
  ultimately show ?thesis using fx len by (simp add: stepped_def t mem_fits_def)
qed

section \<open>Leaving the interpreter, and the whole switch\<close>

definition left :: "'w vm \<Rightarrow> 'w vm \<Rightarrow> bool" where
  "left s t \<longleftrightarrow> m_bounce t = None \<and> m_io_gas t \<le> m_io_gas s"

definition bounced :: "'w vm \<Rightarrow> 'w vm \<Rightarrow> bool" where
  "bounced s t \<longleftrightarrow> t = s\<lparr>m_bounce := Some caseCreate\<rparr> \<or> t = s\<lparr>m_bounce := Some caseCall\<rparr>"

lemma gas_sub_le: "run \<le> io \<Longrightarrow> io - run \<le> (io :: u64)"
  by (simp add: word_le_nat_alt unat_sub)

lemma op_RETURN_left:
  assumes "env_ok E" and "mem_fits s" and "fresh s" and "op_RETURN E s = Ok t"
  shows "left s t"
proof -
  have wp: "wellPriced (evmSchedule E)" using assms(1) by (simp add: env_ok_def)
  obtain u where u: "needMem (evmSchedule E) 0 1 (s\<lparr>m_copyMemSize := 0\<rparr>) = Ok u"
    and le: "m_runGas u \<le> m_io_gas u"
    and t: "m_bounce t = None" "m_io_gas t = m_io_gas u - m_runGas u"
    using assms(4) by (auto simp: op_RETURN_def)
  have "mem_fits (s\<lparr>m_copyMemSize := 0\<rparr>)" "smallRun (evmSchedule E) (s\<lparr>m_copyMemSize := 0\<rparr>)"
    using assms(2,3) by (simp_all add: fresh_def smallRun_0)
  from grewD(6) [OF needMem_grew(1) [OF this wellPricedD(12) [OF wp] u]] le t show ?thesis
    by (simp add: left_def gas_sub_le)
qed

lemma other_left:
  "op_STOP s = Ok t \<Longrightarrow> left s t" "op_SUICIDE E s = Ok t \<Longrightarrow> left s t"
  "op_REVERT E s = Ok t \<Longrightarrow> False" "op_invalid s = Ok t \<Longrightarrow> False"
  by (auto simp: left_def op_STOP_def op_SUICIDE_def op_REVERT_def op_invalid_def throw_defs gas_sub_le
      split: if_splits)

lemma other_bounced:
  "op_CREATE s = Ok t \<Longrightarrow> bounced s t" "op_CALL s = Ok t \<Longrightarrow> bounced s t"
  "op_DELEGATECALL E s = Ok t \<Longrightarrow> bounced s t"
  by (auto simp: bounced_def op_CREATE_def op_CALL_def op_DELEGATECALL_def throw_defs split: if_splits)

lemma switch_Ok:
  assumes env: "env_ok E" and fits: "mem_fits s" and fr: "fresh s" and i: "m_OP s = i"
    and run: "m_runGas s = ucast (tierGas E (info_gasPriceTier (instructionInfo i)))"
    and wf: "wf_instruction i" and ok: "switch E i s = Ok t"
  shows "left s t \<or> (i \<noteq> I_STOP \<and> (stepped (evmSchedule E) s t \<or> bounced s t))"
proof -
  have wp: "wellPriced (evmSchedule E)" using env by (simp add: env_ok_def)
  have c0: "m_copyMemSize s = 0" using fr by (simp add: fresh_def)
  have pos: "0 < m_runGas s" if "tier_index (info_gasPriceTier (instructionInfo i)) \<in> {1..6}"
    using that ucast_pos [OF tierGas_pos [OF wp]] by (simp add: run)
  note cases = plain_ops_stepped [OF _ fits] priced_ops_stepped [OF wp fits] op_EXP_stepped [OF wp fits]
    jumps_stepped [OF _ fits] word_ops_stepped [OF wp fits fr] op_SHA3_stepped [OF wp fits c0]
    copies_stepped [OF env fits fr] op_RETURN_left [OF env fits fr] other_bounced other_left(1,2)
  show ?thesis
  proof (cases i)
    case (I_PUSH n)
    have n: "1 \<le> n" "n \<le> 32" using wf unfolding I_PUSH wf_instruction_def by simp_all
    from I_PUSH n have "0 < m_runGas s" by (intro pos) (simp add: instructionInfo_def)
    from op_PUSH_stepped [OF this fits i [unfolded I_PUSH] n] ok I_PUSH show ?thesis
      by (auto split: if_splits)
  next
    case (I_DUP n)
    have "1 \<le> n" "n \<le> 16" using wf unfolding I_DUP wf_instruction_def by simp_all
    then have "0 < m_runGas s" by (intro pos) (simp add: instructionInfo_def I_DUP)
    with plain_ops_stepped(40) [OF _ fits] ok I_DUP show ?thesis by simp
  next
    case (I_SWAP n)
    have "1 \<le> n" "n \<le> 16" using wf unfolding I_SWAP wf_instruction_def by simp_all
    then have "0 < m_runGas s" by (intro pos) (simp add: instructionInfo_def I_SWAP)
    with plain_ops_stepped(41) [OF _ fits] ok I_SWAP show ?thesis by simp
  next
    case (I_LOG n)
    have n: "n \<le> 4" using wf unfolding I_LOG wf_instruction_def by simp
    from op_LOG_stepped [OF wp fits c0 i [unfolded I_LOG] n] ok I_LOG show ?thesis by auto
  qed (use ok pos in \<open>simp_all add: instructionInfo_def\<close>; blast intro: cases dest: other_left(3,4))+
qed

end
