(* ===== verification/VMExec.thy ===== *)
theory VMExec
  imports VMSteps
begin

text \<open>
  The interpreter as a whole: \<open>VM::exec\<close>, its trampoline over \<open>m_bounce\<close>, \<open>initEntry\<close> and the loop of
  \<open>interpretCases\<close>. One call of \<open>vm_body\<close> is one pass: the first bounce, one instruction, or one
  create or call. The inner \<open>for(;;)\<close> and the outer \<open>do ... while (m_bounce)\<close> are one loop here: the
  inner one is left only by a \<open>return\<close> after \<open>m_bounce\<close> has been set, and entered again as soon as
  \<open>m_bounce\<close> is \<open>interpretCases\<close>.

  The theory proves the invariant \<open>vm_ok\<close> for every pass, a measure (twice the gas left, plus the
  stage of the bounce) that every pass decreases, and through the interface \<open>metered_loop\<close> that
  \<open>exec\<close> always returns or throws within the fuel it computes from the gas.
\<close>

section \<open>The trampoline\<close>

definition run_initEntry :: "'w ext \<Rightarrow> 'w vm \<Rightarrow> 'w vm outcome" where
  "run_initEntry E = upd (\<lambda>s.
     let (c, dests) = optimize (code E)
     in s\<lparr>m_bounce := Some interpretCases, m_PC := 0, m_code := c, m_jumpDests := m_jumpDests s @ dests\<rparr>)"

definition run_interpretCases :: "'w ext \<Rightarrow> 'w vm \<Rightarrow> 'w vm outcome" where
  "run_interpretCases E = seq [fetchInstruction E, \<lambda>s. switch E (m_OP s) s]"

definition run_bounce :: "'w ext \<Rightarrow> 'w vm \<Rightarrow> 'w vm outcome" where
  "run_bounce E s = (case m_bounce s of
     None \<Rightarrow> Ok s
   | Some initEntry \<Rightarrow> run_initEntry E s
   | Some interpretCases \<Rightarrow> run_interpretCases E s
   | Some caseCreate \<Rightarrow> run_caseCreate E s
   | Some caseCall \<Rightarrow> run_caseCall E s)"

text \<open>The loop leaves with the exception, or \<open>None\<close>, and the state it leaves from.\<close>

definition vm_body :: "'w ext \<Rightarrow> 'w vm \<Rightarrow> (vm_exception option \<times> 'w vm) + 'w vm" where
  "vm_body E s = (case run_bounce E s of
     Throw e t \<Rightarrow> Inl (Some e, t)
   | Ok t \<Rightarrow> if m_bounce t = None then Inl (None, t) else Inr t)"

text \<open>A machine as the constructor leaves it, entered by \<open>exec\<close> with the gas cut to 64 bits.\<close>

definition vm_entry :: "u256 \<Rightarrow> 'w \<Rightarrow> 'w vm" where
  "vm_entry io_gas w = \<lparr>m_io_gas = ucast io_gas, m_ext = w, m_output = [], m_mem = [], m_code = [],
     m_stack = (\<lambda>_. 0), m_OP = I_STOP, m_PC = 0, m_SP = stackEnd, m_SPP = stackEnd, m_runGas = 0,
     m_newMemSize = 0, m_copyMemSize = 0, m_jumpDests = [], m_bounce = Some initEntry\<rparr>"

text \<open>The result: an exception or the output, the gas written back, and the world.\<close>

definition exec_fuel :: "nat \<Rightarrow> 'w ext \<Rightarrow> u256 \<Rightarrow> 'w \<Rightarrow> ((vm_exception + bytes) \<times> u256 \<times> 'w) option" where
  "exec_fuel n E io_gas w = map_option (\<lambda>(e, s).
     (case e of Some x \<Rightarrow> Inl x | None \<Rightarrow> Inr (m_output s), ucast (m_io_gas s), m_ext s))
     (loop_fuel (vm_body E) n (vm_entry io_gas w))"

section \<open>The invariant\<close>

definition bounce_rank :: "bounce option \<Rightarrow> nat" where
  "bounce_rank b = (case b of Some initEntry \<Rightarrow> 2 | Some interpretCases \<Rightarrow> 1 | _ \<Rightarrow> 0)"

definition fuel_of :: "'w vm \<Rightarrow> nat" where
  "fuel_of s = 2 * unat (m_io_gas s) + bounce_rank (m_bounce s)"

definition vm_ok :: "'w ext \<Rightarrow> 'w vm \<Rightarrow> bool" where
  "vm_ok E s \<longleftrightarrow> mem_fits s \<and> m_SPP s \<le> stackEnd \<and>
     (case m_bounce s of
        Some initEntry \<Rightarrow> m_jumpDests s = []
      | Some interpretCases \<Rightarrow> (m_code s, m_jumpDests s) = optimize (code E)
          \<and> unat (m_PC s) \<le> length (code E) + 32
      | Some _ \<Rightarrow> (m_code s, m_jumpDests s) = optimize (code E)
          \<and> unat (m_PC s) < length (code E) \<and> m_copyMemSize s = 0
      | None \<Rightarrow> True)"

text \<open>The gas left, with the price of the memory that was bought.\<close>

definition funds :: "'w ext \<Rightarrow> 'w vm \<Rightarrow> nat" where
  "funds E s = unat (m_io_gas s) + memCost (evmSchedule E) (length (m_mem s))"

lemma stepped_funds: "stepped (evmSchedule E) s t \<Longrightarrow> funds E t \<le> funds E s"
  by (simp add: stepped_def funds_def)

lemma pc_moved_range:
  assumes "pc_moved s t" and "unat (m_PC s) < length c" and "m_jumpDests s = snd (optimize c)"
    and "length c < 2 ^ 62"
  shows "unat (m_PC t) \<le> length c + 32"
proof -
  have "unat (m_PC s + of_nat k) \<le> length c + 32" if "k \<le> 33" for k
  proof -
    have "unat (of_nat k :: u64) = k" using that by (simp add: unat_of_nat_lt)
    with that assms(2,4) show ?thesis by (subst unat_add_u64) simp_all
  qed
  moreover have "unat (of_nat x :: u64) = x" if "x \<in> set (starts c 0)" for x
    using starts_bounds [OF that] assms(4) by (simp add: unat_of_nat_lt)
  ultimately show ?thesis
    using assms(1) starts_bounds [of _ c 0] unfolding pc_moved_def assms(3) optimize_spec
    by (auto intro: less_imp_le [THEN trans_le_add1])
qed

text \<open>Past the end of the code there are only zeros, and zero is \<open>STOP\<close>.\<close>

lemma optimize_code_nth:
  "i < length c + 33 \<Longrightarrow> length c \<le> i \<Longrightarrow> fst (optimize c) ! i = 0"
  using starts_bounds [of i c 0] by (auto simp: optimize_spec(3))

lemma Instruction_0: "Instruction 0 = I_STOP"
  by (simp add: Instruction_def enum_rows_def)

lemma fetched:
  assumes "fetchInstruction E s = Ok u" and "mem_fits s" and "m_SPP s \<le> stackEnd"
  shows "mem_fits u" and "fresh u" and "wf_instruction (m_OP u)"
    and "m_runGas u = ucast (tierGas E (info_gasPriceTier (instructionInfo (m_OP u))))"
    and "m_SPP u \<le> stackEnd" and "m_code u = m_code s" and "m_jumpDests u = m_jumpDests s"
    and "m_PC u = m_PC s" and "m_io_gas u = m_io_gas s" and "m_bounce u = m_bounce s"
    and "m_OP u = Instruction (m_code s ! unat (m_PC s))" and "m_copyMemSize u = 0" and "m_mem u = m_mem s"
  using assms unsigned_less [of "tierGas E t" for t, where ?'a = nat]
  by (auto simp: fetchInstruction_Ok Let_def fresh_def mem_fits_def)

lemma interpret_round:
  assumes env: "env_ok E" and ok: "vm_ok E s" and b: "m_bounce s = Some interpretCases"
    and r: "run_interpretCases E s = Ok t" and nn: "m_bounce t \<noteq> None"
  shows "vm_ok E t \<and> fuel_of t < fuel_of s \<and> funds E t \<le> funds E s"
proof -
  obtain u where u: "fetchInstruction E s = Ok u" and t: "switch E (m_OP u) u = Ok t"
    using r by (auto simp: run_interpretCases_def)
  have fits: "mem_fits s" and spp: "m_SPP s \<le> stackEnd"
    and c: "(m_code s, m_jumpDests s) = optimize (code E)" and pc: "unat (m_PC s) \<le> length (code E) + 32"
    using ok b by (simp_all add: vm_ok_def)
  note f = fetched [OF u fits spp]
  have len: "length (code E) < 2 ^ 62" using env by (simp add: env_ok_def)
  have cs: "m_code s = fst (optimize (code E))" "m_jumpDests s = snd (optimize (code E))"
    using c by (metis fst_conv snd_conv)+
  have lt: "unat (m_PC s) < length (code E)" if "m_OP u \<noteq> I_STOP"
    using that f(11) optimize_code_nth [of "unat (m_PC s)" "code E"] pc Instruction_0
    by (fastforce simp: cs not_less)
  from switch_Ok [OF env f(1,2) refl f(4,3) t] nn
  have ns: "m_OP u \<noteq> I_STOP" and d: "stepped (evmSchedule E) u t \<or> bounced u t" by (auto simp: left_def)
  from d show ?thesis
  proof
    assume st: "stepped (evmSchedule E) u t"
    then have "pc_moved s t" by (simp add: stepped_def pc_moved_def f)
    from pc_moved_range [OF this lt [OF ns] cs(2) len] st stepped_funds [OF st] f b c
    show ?thesis
      by (simp add: stepped_def vm_ok_def fuel_of_def word_less_nat_alt funds_def)
  next
    assume "bounced u t"
    with f b c lt [OF ns] show ?thesis
      by (auto simp: bounced_def vm_ok_def fuel_of_def bounce_rank_def funds_def)
  qed
qed

lemma bounced_round:
  assumes env: "env_ok E" and ok: "vm_ok E s" and b: "m_bounce s = Some caseCreate \<or> m_bounce s = Some caseCall"
    and st: "stepped (evmSchedule E) (s\<lparr>m_bounce := Some interpretCases\<rparr>) t"
  shows "vm_ok E t \<and> fuel_of t < fuel_of s \<and> funds E t \<le> funds E s"
proof -
  have c: "(m_code s, m_jumpDests s) = optimize (code E)" and pc: "unat (m_PC s) < length (code E)"
    and spp: "m_SPP s \<le> stackEnd" and r: "bounce_rank (m_bounce s) = 0"
    using ok b by (auto simp: vm_ok_def bounce_rank_def)
  have "m_jumpDests s = snd (optimize (code E))" using c by (metis snd_conv)
  moreover have "pc_moved s t" using st by (simp add: stepped_def pc_moved_def)
  ultimately have "unat (m_PC t) \<le> length (code E) + 32"
    using pc_moved_range [OF _ pc] env by (simp add: env_ok_def)
  with st stepped_funds [OF st] c spp r show ?thesis
    by (simp add: stepped_def vm_ok_def fuel_of_def word_less_nat_alt bounce_rank_def funds_def)
qed

lemma vm_round:
  assumes env: "env_ok E" and ok: "vm_ok E s" and r: "vm_body E s = Inr t"
  shows "vm_ok E t \<and> fuel_of t < fuel_of s \<and> funds E t \<le> funds E s"
proof -
  have rb: "run_bounce E s = Ok t" and nn: "m_bounce t \<noteq> None"
    using r by (auto simp: vm_body_def split: outcome.splits if_splits)
  have fits: "mem_fits s" using ok by (simp add: vm_ok_def)
  show ?thesis
  proof (cases "m_bounce s")
    case None
    with rb nn show ?thesis by (simp add: run_bounce_def)
  next
    case (Some b)
    show ?thesis
    proof (cases b)
      case initEntry
      with Some rb ok show ?thesis
        by (auto simp: run_bounce_def run_initEntry_def vm_ok_def mem_fits_def fuel_of_def bounce_rank_def funds_def
            split: prod.splits)
    next
      case interpretCases
      with interpret_round [OF env ok _ _ nn] Some rb show ?thesis by (simp add: run_bounce_def)
    next
      case caseCreate
      then have "m_copyMemSize s = 0" using ok Some by (simp add: vm_ok_def)
      from run_caseCreate_stepped [OF env fits this] bounced_round [OF env ok] Some caseCreate rb
      show ?thesis by (simp add: run_bounce_def)
    next
      case caseCall
      then have "m_copyMemSize s = 0" using ok Some by (simp add: vm_ok_def)
      from run_caseCall_stepped [OF env fits this] bounced_round [OF env ok] Some caseCall rb
      show ?thesis by (simp add: run_bounce_def)
    qed
  qed
qed

lemma vm_entry_ok: "vm_ok E (vm_entry g w)"
  by (simp add: vm_ok_def vm_entry_def mem_fits_def)

text \<open>The invariant carries the environment along, so that the interface has closed laws.\<close>

interpretation vml: metered_loop "vm_body E" "\<lambda>s. env_ok E \<and> vm_ok E s" fuel_of for E :: "'w ext"
  by unfold_locales (auto dest: vm_round)

text \<open>The machine with the fuel its gas pays for.\<close>

definition exec :: "'w ext \<Rightarrow> u256 \<Rightarrow> 'w \<Rightarrow> ((vm_exception + bytes) \<times> u256 \<times> 'w) option" where
  "exec E io_gas w = exec_fuel (2 * unat (ucast io_gas :: u64) + 3) E io_gas w"

lemma fuel_of_entry: "fuel_of (vm_entry g w) = 2 * unat (ucast g :: u64) + 2"
  by (simp add: fuel_of_def vm_entry_def bounce_rank_def)

lemma exec_fuel_terminates:
  assumes "env_ok E" and "2 * unat (ucast g :: u64) + 2 < n"
  shows "\<exists>r. exec_fuel n E g w = Some r"
proof -
  have "\<exists>r. loop_fuel (vm_body E) n (vm_entry g w) = Some r"
    using assms by (intro vml.terminates) (simp_all add: vm_entry_ok fuel_of_entry)
  then show ?thesis by (auto simp: exec_fuel_def)
qed

section \<open>Gas on the way out\<close>

text \<open>
  Whatever way an operation ends, it does not leave more gas than it found. \<open>down r g\<close> says that the
  outcome \<open>r\<close> has at most \<open>g\<close>; the rules follow the shape of the operations.
\<close>

definition down :: "'w vm outcome \<Rightarrow> u64 \<Rightarrow> bool" where
  "down r g \<longleftrightarrow> (case r of Throw e t \<Rightarrow> m_io_gas t \<le> g | Ok t \<Rightarrow> m_io_gas t \<le> g)"

named_theorems down_intros

lemma down_Ok [down_intros]: "m_io_gas s \<le> g \<Longrightarrow> down (Ok s) g"
  by (simp add: down_def)

lemma down_Nil [down_intros]: "m_io_gas s \<le> g \<Longrightarrow> down (seq [] s) g"
  by (simp add: down_def)

lemma down_Cons [down_intros]:
  assumes "down (f s) g" and "\<And>t. m_io_gas t \<le> g \<Longrightarrow> down (seq fs t) g"
  shows "down (seq (f # fs) s) g"
proof (cases "f s")
  case (Ok t)
  then have "m_io_gas t \<le> g" using assms(1) by (simp add: down_def)
  with assms(2) Ok show ?thesis by (simp add: seq.simps(2))
qed (use assms(1) in \<open>simp add: down_def seq.simps(2)\<close>)

lemma down_upd [down_intros]: "m_io_gas (f s) \<le> g \<Longrightarrow> down (upd f s) g"
  by (simp add: down_def upd_def)

lemma down_if [down_intros]: "(c \<Longrightarrow> down a g) \<Longrightarrow> (\<not> c \<Longrightarrow> down b g) \<Longrightarrow> down (if c then a else b) g"
  by simp

lemma down_throw [down_intros]:
  "m_io_gas s \<le> g \<Longrightarrow> down (throwBadInstruction s) g" "m_io_gas s \<le> g \<Longrightarrow> down (throwOutOfGas s) g"
  "m_io_gas s \<le> g \<Longrightarrow> down (throwBadJumpDestination s) g"
  "m_io_gas s \<le> g \<Longrightarrow> down (throwRevertInstruction bs s) g"
  "m_io_gas s \<le> g \<Longrightarrow> down (throwBadStack i a b s) g"
  by (simp_all add: down_def throw_defs throwBadStack_def Let_def)

lemma down_int63 [down_intros]:
  "m_io_gas s \<le> g \<Longrightarrow> (\<And>w. down (k w s) g) \<Longrightarrow> down (int63 v k s) g"
  by (auto simp: int63_def intro: down_throw split: option.splits)

lemma down_prims [down_intros]:
  "m_io_gas s \<le> g \<Longrightarrow> down (setRunGas v s) g" "m_io_gas s \<le> g \<Longrightarrow> down (addRunGas v s) g"
  "m_io_gas s \<le> g \<Longrightarrow> down (setCopyMemSize v s) g" "m_io_gas s \<le> g \<Longrightarrow> down (setBounce b s) g"
  "m_io_gas s \<le> g \<Longrightarrow> down (NEXT s) g" "m_io_gas s \<le> g \<Longrightarrow> down (setPC pc s) g"
  by (auto simp: setRunGas_def addRunGas_def setCopyMemSize_def setBounce_def NEXT_def setPC_def
      intro!: down_intros)

lemma down_updateIOGas [down_intros]: "m_io_gas s \<le> g \<Longrightarrow> down (updateIOGas s) g"
  by (auto simp: updateIOGas_def not_less intro!: down_intros intro: order.trans [OF gas_sub_le])

lemma down_updateMem [down_intros]: "m_io_gas s \<le> g \<Longrightarrow> down (updateMem sch n s) g"
  by (auto simp: updateMem_def updateGas_def intro!: down_intros)

lemma down_mem [down_intros]:
  "m_io_gas s \<le> g \<Longrightarrow> down (needMem sch i j s) g" "m_io_gas s \<le> g \<Longrightarrow> down (logGasMem sch s) g"
  "m_io_gas s \<le> g \<Longrightarrow> down (jumpTo d s) g" "m_io_gas s \<le> g \<Longrightarrow> down (callMem sch s) g"
  "m_io_gas s \<le> g \<Longrightarrow> down (callStaticGas E s) g" "m_io_gas s \<le> g \<Longrightarrow> down (fetchInstruction E s) g"
  by (auto simp: needMem_def logGasMem_def jumpTo_def callMem_def callStaticGas_def fetchInstruction_def
      adjustStack_def c_metrics_def Let_def intro!: down_intros split: option.splits)

lemmas switch_defs = plain_ops op_STOP_def op_EXP_def op_SHA3_def op_BALANCE_def op_CALLDATACOPY_def
  op_CODECOPY_def op_EXTCODESIZE_def op_EXTCODECOPY_def op_MLOAD_def op_MSTORE_def op_MSTORE8_def
  op_SLOAD_def op_SSTORE_def op_JUMP_def op_JUMPI_def op_JUMPDEST_def op_PUSH1_def op_PUSH_def
  op_LOG_def op_CREATE_def op_CALL_def op_DELEGATECALL_def op_RETURN_def op_REVERT_def op_SUICIDE_def
  op_invalid_def

lemma down_switch: "m_io_gas s \<le> g \<Longrightarrow> down (switch E i s) g"
  by (cases i; simp add: switch_defs; auto simp: Let_def push_loop_fields copyIn_def intro!: down_intros)

text \<open>A call may only throw before the callee runs.\<close>

lemma callReady_no_throw: "callReady E gas (\<lambda>p out. upd (doCall E p out)) s \<noteq> Throw e t"
  by (simp add: callReady_def Let_def)

lemma caseCall_throw:
  assumes "run_caseCall E s = Throw e t"
  shows "m_io_gas t \<le> m_io_gas s"
proof -
  let ?k = "\<lambda>p out. upd (doCall E p out)"
  have st: "m_io_gas t \<le> g" if "r = Throw e t" "down r g" for r g
    using that by (simp add: down_def)
  have ok: "m_io_gas v \<le> g" if "r = Ok v" "down r g" for r v g
    using that by (simp add: down_def)
  have pass: "m_io_gas t \<le> g" if "callPass E ?k u = Throw e t" "m_io_gas u \<le> g" for u g
  proof -
    let ?gas = "callGasAllowance (evmSchedule E) u"
    have "(\<exists>v. seq [setRunGas (toInt63 ?gas), updateIOGas] u = Ok v \<and> callReady E ?gas ?k v = Throw e t)
        \<or> seq [setRunGas (toInt63 ?gas), updateIOGas] u = Throw e t"
      using that(1) by (auto simp: callPass_def Let_def seq_Throw)
    then have "seq [setRunGas (toInt63 ?gas), updateIOGas] u = Throw e t"
      using callReady_no_throw by blast
    from st [OF this] that(2) show ?thesis by (auto intro!: down_intros)
  qed
  let ?s = "s\<lparr>m_bounce := Some interpretCases\<rparr>"
  let ?pre = "seq [callStaticGas E, callMem (evmSchedule E), updateIOGas]"
  have "?pre ?s = Throw e t \<or> (\<exists>u. ?pre ?s = Ok u \<and> callPass E ?k u = Throw e t)"
    using assms by (auto simp: run_caseCall_def caseCallSetup_def seq_Throw)
  moreover have "down (?pre ?s) (m_io_gas s)" by (auto intro!: down_intros)
  ultimately show ?thesis using st ok pass by metis
qed

lemma down_bounce:
  assumes env: "env_ok E" and ok: "vm_ok E s"
  shows "down (run_bounce E s) (m_io_gas s)"
proof (cases "m_bounce s")
  case None
  then show ?thesis by (simp add: run_bounce_def down_def)
next
  case (Some b)
  have ext: "ext_gas_ok E" and fits: "mem_fits s" using env ok by (simp_all add: env_ok_def vm_ok_def)
  show ?thesis
  proof (cases b)
    case initEntry
    with Some show ?thesis
      by (auto simp: run_bounce_def run_initEntry_def split: prod.splits intro!: down_intros)
  next
    case interpretCases
    with Some show ?thesis
      by (auto simp: run_bounce_def run_interpretCases_def intro!: down_intros down_switch)
  next
    case caseCreate
    with Some show ?thesis
      by (auto simp: run_bounce_def run_caseCreate_def intro!: down_intros
          intro: order.trans [OF doCreate_gas [OF ext]])
  next
    case caseCall
    then have c0: "m_copyMemSize s = 0" using ok Some by (simp add: vm_ok_def)
    show ?thesis
    proof (cases "run_caseCall E s")
      case (Throw e t)
      with caseCall_throw [OF Throw] Some caseCall show ?thesis by (simp add: run_bounce_def down_def)
    next
      case (Ok t)
      with run_caseCall_stepped [OF env fits c0 Ok] Some caseCall show ?thesis
        by (simp add: run_bounce_def down_def stepped_def less_imp_le)
    qed
  qed
qed

lemma reach_gas:
  assumes env: "env_ok E"
  shows "loop_reach (vm_body E) s t \<Longrightarrow> vm_ok E s \<Longrightarrow> vm_ok E t \<and> m_io_gas t \<le> m_io_gas s"
proof (induction rule: loop_reach.induct)
  case (loop_round t u)
  then have t: "vm_ok E t" "m_io_gas t \<le> m_io_gas s" by blast+
  have "run_bounce E t = Ok u" using loop_round(2) by (auto simp: vm_body_def split: outcome.splits if_splits)
  with down_bounce [OF env t(1)] have "m_io_gas u \<le> m_io_gas t" by (simp add: down_def)
  with t(2) vm_round [OF env t(1) loop_round(2)] show ?case by auto
qed simp

text \<open>No state that is reached has more memory than the gas deducted so far has paid for.\<close>

lemma reach_funds:
  assumes env: "env_ok E"
  shows "loop_reach (vm_body E) s t \<Longrightarrow> vm_ok E s \<Longrightarrow> vm_ok E t \<and> funds E t \<le> funds E s"
proof (induction rule: loop_reach.induct)
  case (loop_round t u)
  then show ?case using vm_round [OF env _ loop_round(2)] by fastforce
qed simp

lemma exit_gas:
  assumes env: "env_ok E" and ok: "vm_ok E s" and r: "loop_fuel (vm_body E) n s = Some (e, t)"
  shows "m_io_gas t \<le> m_io_gas s"
proof -
  obtain u where u: "loop_reach (vm_body E) s u" "vm_body E u = Inl (e, t)"
    using loop_fuel_exit [OF r] by blast
  have "run_bounce E u = Ok t \<or> (\<exists>x. run_bounce E u = Throw x t)"
    using u(2) by (auto simp: vm_body_def split: outcome.splits if_splits)
  with down_bounce [OF env] reach_gas [OF env u(1) ok] show ?thesis
    by (auto simp: down_def dest!: spec) (metis down_def order.trans outcome.simps(5,6))+
qed

lemma exec_gas_le:
  assumes "env_ok E" and "exec E g w = Some (r, g', w')"
  shows "unat g' \<le> unat (ucast g :: u64)"
proof -
  obtain n e t where x: "loop_fuel (vm_body E) n (vm_entry g w) = Some (e, t)" and g': "g' = ucast (m_io_gas t)"
    using assms(2) by (auto simp: exec_def exec_fuel_def)
  have "m_io_gas t \<le> ucast g"
    using exit_gas [OF assms(1) vm_entry_ok x] by (simp add: vm_entry_def)
  then show ?thesis
    using unat_ucast_le [of "m_io_gas t", where ?'b = 256] unfolding g' word_le_nat_alt by simp
qed

lemma exec_returns:
  assumes "env_ok E"
  shows "\<exists>r g' w'. exec E g w = Some (r, g', w')"
  using exec_fuel_terminates [OF assms, of g "2 * unat (ucast g :: u64) + 3" w] by (auto simp: exec_def)

section \<open>A concrete environment\<close>

text \<open>Used only to show that hypotheses on the environment can hold.\<close>

definition sample_ext :: "bytes \<Rightarrow> 'w ext" where
  "sample_ext c = \<lparr>evmSchedule = EIP158Schedule, oob_tierGas = 10, myAddress = 7, caller = 8,
     origin = 9, callvalue = 1, gasPrice = 2, calldata = [1, 2, 3], code = c, depth = 0, author = 11,
     timestamp = 12, block_number = 13, difficulty = 14, gasLimit = 15, store = (\<lambda>k w. 0),
     setStore = (\<lambda>k v w. w), balance = (\<lambda>a w. 100), account_exists = (\<lambda>a w. True),
     codeAt = (\<lambda>a w. []), codeSizeAt = (\<lambda>a w. 0), blockHash = (\<lambda>n w. []), ext_log = (\<lambda>ts d w. w),
     ext_suicide = (\<lambda>a w. w), addRefund = (\<lambda>r w. w), ext_create = (\<lambda>v g i w. (0, g, w)),
     ext_call = (\<lambda>p w. (True, [42], cp_gas p, w))\<rparr>"

lemma sample_env_ok: "length c < 2 ^ 62 \<Longrightarrow> env_ok (sample_ext c)"
  by (simp add: env_ok_def sample_ext_def wellPriced_schedules ext_gas_ok_def)

end
