(* ===== verification/VMSpec.thy ===== *)
theory VMSpec
  imports VMExec
begin

text \<open>
  An abstract reading of the machine's instructions, over the stack as a list: \<open>alu\<close> gives the value
  an instruction computes from the items it takes, in terms of natural numbers, integers and byte
  strings. The detailed cases of \<open>VM.cpp\<close>, which work in place on an array through two pointers, are
  proved to implement it. The lemmas about memory, copies and calls follow.
\<close>

section \<open>The arithmetic of the cases\<close>

lemma uint_pos: "uint a \<noteq> 0 \<Longrightarrow> 0 < uint a"
  using uint_ge_0 [of a] by linarith

lemma divWorkaround_uint: "word_of_int (divWorkaround (uint a) (uint b)) = (a div b :: u256)"
proof -
  have "uint a sdiv uint b = uint a div uint b"
    by (cases "uint a = 0"; cases "uint b = 0") (auto simp: signed_divide_int_def uint_pos)
  then show ?thesis by (simp add: divWorkaround_def word_div_def)
qed

lemma modWorkaround_uint: "word_of_int (modWorkaround (uint a) (uint b)) = (a mod b :: u256)"
proof -
  have "uint a smod uint b = uint a mod uint b"
    by (cases "uint a = 0"; cases "uint b = 0") (auto simp: signed_modulo_int_def uint_pos)
  then show ?thesis by (simp add: modWorkaround_def word_mod_def)
qed

lemma signed_value:
  "s2u (divWorkaround (sint a) (sint b)) = word_of_int (sint a sdiv sint b)"
  "s2u (modWorkaround (sint a) (sint b)) = word_of_int (sint a smod sint b)"
  by (simp_all add: divWorkaround_def modWorkaround_def s2u_of_int)

lemma ucast_512_add: "unat (ucast (a :: u256) + ucast (b :: u256) :: u512) = unat a + unat b"
proof -
  have "unat a + unat b < 2 ^ 512"
    by (rule less_trans [OF add_strict_mono [OF unat_256_lt unat_256_lt]]) simp
  then show ?thesis using unat_add_lem [of "ucast a :: u512" "ucast b"] by (simp add: unat_512_u256)
qed

lemma ucast_512_mult: "unat (ucast (a :: u256) * ucast (b :: u256) :: u512) = unat a * unat b"
proof -
  have "unat a * unat b < 2 ^ 256 * 2 ^ 256"
    using unsigned_less [of a, where ?'a = nat] unsigned_less [of b, where ?'a = nat]
    by (intro mult_strict_mono) (simp_all del: unat_256_lt)
  then show ?thesis using unat_mult_lem [of "ucast a :: u512" "ucast b"] by (simp add: unat_512_u256)
qed

lemma mod_512: "(ucast ((x :: u512) mod ucast (c :: u256)) :: u256) = of_nat (unat x mod unat c)"
proof -
  have "unat (x mod ucast c) = unat x mod unat c" by (simp add: unat_mod unat_512_u256)
  then show ?thesis by (metis of_nat_unat)
qed

lemma addmod_value:
  "(ucast ((ucast (a :: u256) + ucast (b :: u256) :: u512) mod ucast (c :: u256)) :: u256) = of_nat ((unat a + unat b) mod unat c)"
  by (simp only: mod_512 ucast_512_add)

lemma mulmod_value:
  "(ucast ((ucast (a :: u256) * ucast (b :: u256) :: u512) mod ucast (c :: u256)) :: u256) = of_nat ((unat a * unat b) mod unat c)"
  by (simp only: mod_512 ucast_512_mult)

lemma nth_toBigEndian: "i < n \<Longrightarrow> toBigEndian n v ! i = ucast (drop_bit (8 * (n - 1 - i)) v AND 0xff)"
proof (induction n arbitrary: v)
  case (Suc n)
  show ?case
  proof (cases "i < n")
    case True
    then have "8 + 8 * (n - 1 - i) = 8 * (n - i)" by (simp add: diff_mult_distrib2)
    with Suc.IH [OF True, of "drop_bit 8 v"] True show ?thesis
      by (simp add: nth_append drop_bit_drop_bit add.commute)
  next
    case False
    with Suc.prems have "i = n" by simp
    then show ?thesis by (simp add: nth_append)
  qed
qed simp

text \<open>\<open>BYTE\<close> is the indexed byte of the big-endian string.\<close>

lemma byte_value:
  assumes "a < 32"
  shows "drop_bit (unat (ucast (8 * (31 - a)) :: u32)) (b :: u256) AND 0xff = ucast (toBigEndian 32 b ! unat (a :: u256))"
proof -
  have a: "unat a < 32" using assms by (simp add: word_less_nat_alt)
  have "unat (31 - a) = 31 - unat a" using a by (subst unat_sub) (simp_all add: word_le_nat_alt)
  then have m: "unat (8 * (31 - a)) = 8 * (31 - unat a)" using a
    by (subst unat_mult_lem [THEN iffD1]) simp_all
  then have "unat (ucast (8 * (31 - a)) :: u32) = 8 * (31 - unat a)"
    by (simp add: unsigned_ucast_eq take_bit_nat_eq_self)
  moreover have "(ucast (ucast (w AND 0xff) :: byte) :: u256) = (w AND 0xff)" for w :: u256
    unfolding byte_low by (simp add: and_0xff)
  ultimately show ?thesis using a by (simp add: nth_toBigEndian)
qed

text \<open>\<open>SIGNEXTEND\<close> is the sign extension of the low \<open>k + 1\<close> bytes.\<close>

lemma signextend_value:
  assumes "k < 31"
  shows "signextend k b = signed_take_bit (8 * unat k + 7) b"
proof -
  have k: "unat k < 31" using assms by (simp add: word_less_nat_alt)
  have c: "unat (ucast k :: u32) = unat k"
    using k by (simp add: unsigned_ucast_eq take_bit_nat_eq_self)
  then have m: "unat ((ucast k :: u32) * 8) = 8 * unat k"
    using k by (subst unat_mult_lem [THEN iffD1]) simp_all
  then have t: "unat ((ucast k :: u32) * 8 + 7) = 8 * unat k + 7"
    using k by (subst unat_add_lem [THEN iffD1]) simp_all
  let ?n = "8 * unat k + 7"
  have msk: "push_bit ?n 1 - 1 = (mask ?n :: u256)" by (simp add: mask_eq_exp_minus_1 push_bit_of_1)
  show ?thesis
    unfolding signextend_def t Let_def msk
    by (rule bit_word_eqI) (use k in \<open>auto simp: bit_simps min_def\<close>)
qed

text \<open>Call data is read with zeros past its end.\<close>

definition padded :: "bytes \<Rightarrow> nat \<Rightarrow> bytes" where
  "padded d i = map (\<lambda>j. if i + j < length d then d ! (i + j) else 0) [0..<32]"

lemma fromBigEndian_zeros: "fromBigEndian (replicate n 0) = 0"
  by (induction n) (simp_all add: fromBigEndian_def fromBigEndian_step_def)

lemma calldata_word_padded:
  assumes "length d < 2 ^ 64"
  shows "calldata_word d off = fromBigEndian (padded d (unat off))"
proof -
  have u: "unat (ucast off :: u64) = unat off" if "unat off < length d"
    using that assms by (simp add: unsigned_ucast_eq take_bit_nat_eq_self)
  consider "unat off + 31 < length d" | "length d \<le> unat off" | "unat off < length d" "length d \<le> unat off + 31"
    by linarith
  then show ?thesis
  proof cases
    case 1
    then have "bslice (unat off) 32 d = padded d (unat off)"
      by (intro nth_equalityI) (simp_all add: bslice_def padded_def)
    with 1 u show ?thesis by (simp add: calldata_word_def)
  next
    case 2
    then have "padded d (unat off) = replicate 32 0"
      by (intro nth_equalityI) (simp_all add: padded_def)
    with 2 show ?thesis by (simp add: calldata_word_def fromBigEndian_zeros)
  next
    case 3
    with u show ?thesis by (simp add: calldata_word_def padded_def Let_def)
  qed
qed

section \<open>The abstract machine on the stack\<close>

text \<open>
  The value of an instruction that takes items off the stack and pushes one. \<open>None\<close> where the
  instruction is not of this kind.
\<close>

primrec truth :: "bool \<Rightarrow> u256" where
  "truth True = 1"
| "truth False = 0"

definition alu :: "'w ext \<Rightarrow> instruction \<Rightarrow> u256 list \<Rightarrow> u256 option" where
  "alu E i st = (let a = st ! 0; b = st ! 1; c = st ! 2 in case i of
     I_ADD \<Rightarrow> Some (a + b) | I_MUL \<Rightarrow> Some (a * b) | I_SUB \<Rightarrow> Some (a - b)
   | I_DIV \<Rightarrow> Some (if b = 0 then 0 else a div b)
   | I_SDIV \<Rightarrow> Some (if b = 0 then 0 else word_of_int (sint a sdiv sint b))
   | I_MOD \<Rightarrow> Some (if b = 0 then 0 else a mod b)
   | I_SMOD \<Rightarrow> Some (if b = 0 then 0 else word_of_int (sint a smod sint b))
   | I_ADDMOD \<Rightarrow> Some (if c = 0 then 0 else of_nat ((unat a + unat b) mod unat c))
   | I_MULMOD \<Rightarrow> Some (if c = 0 then 0 else of_nat ((unat a * unat b) mod unat c))
   | I_SIGNEXTEND \<Rightarrow> Some (if a < 31 then signed_take_bit (8 * unat a + 7) b else b)
   | I_LT \<Rightarrow> Some (truth (a < b)) | I_GT \<Rightarrow> Some (truth (b < a))
   | I_SLT \<Rightarrow> Some (truth (sint a < sint b)) | I_SGT \<Rightarrow> Some (truth (sint b < sint a))
   | I_EQ \<Rightarrow> Some (truth (a = b)) | I_ISZERO \<Rightarrow> Some (truth (a = 0))
   | I_AND \<Rightarrow> Some (a AND b) | I_OR \<Rightarrow> Some (a OR b) | I_XOR \<Rightarrow> Some (a XOR b)
   | I_NOT \<Rightarrow> Some (NOT a)
   | I_BYTE \<Rightarrow> Some (if a < 32 then ucast (toBigEndian 32 b ! unat a) else 0)
   | I_ADDRESS \<Rightarrow> Some (ucast (myAddress E)) | I_ORIGIN \<Rightarrow> Some (ucast (origin E))
   | I_CALLER \<Rightarrow> Some (ucast (caller E)) | I_CALLVALUE \<Rightarrow> Some (callvalue E)
   | I_CALLDATALOAD \<Rightarrow> Some (fromBigEndian (padded (calldata E) (unat a)))
   | I_CALLDATASIZE \<Rightarrow> Some (of_nat (length (calldata E)))
   | I_CODESIZE \<Rightarrow> Some (of_nat (length (code E)))
   | I_GASPRICE \<Rightarrow> Some (gasPrice E) | I_COINBASE \<Rightarrow> Some (ucast (author E))
   | I_TIMESTAMP \<Rightarrow> Some (timestamp E) | I_NUMBER \<Rightarrow> Some (block_number E)
   | I_DIFFICULTY \<Rightarrow> Some (difficulty E) | I_GASLIMIT \<Rightarrow> Some (gasLimit E)
   | _ \<Rightarrow> None)"

text \<open>How the pointers show on the list, after the fetch and after the result is written.\<close>

lemma SP_fetched: "m_SP u = m_SPP s \<Longrightarrow> m_stack u = m_stack s \<Longrightarrow> m_SPP s + i < stackEnd
    \<Longrightarrow> SP u i = stack_of s ! i"
  by (simp add: SP_def nth_stack_of)

lemma stack_of_write:
  assumes "m_SPP u + 1 = k" and "k \<le> stackEnd"
  shows "map ((m_stack u)(m_SPP u := v)) [m_SPP u..<stackEnd] = v # map (m_stack u) [k..<stackEnd]"
proof -
  have "[m_SPP u..<stackEnd] = m_SPP u # [k..<stackEnd]"
    using assms by (simp add: upt_conv_Cons)
  moreover have "map ((m_stack u)(m_SPP u := v)) [k..<stackEnd] = map (m_stack u) [k..<stackEnd]"
    using assms(1) by (intro map_cong) auto
  ultimately show ?thesis by simp
qed

lemma drop_stack_of: "drop n (stack_of s) = map (m_stack s) [m_SPP s + n..<stackEnd]"
  by (simp add: stack_of_def drop_map)

text \<open>
  What a pass over a value instruction does: one word in place of the items taken, the price of the
  tier, and nothing else.
\<close>

definition value_step :: "'w ext \<Rightarrow> instruction \<Rightarrow> 'w vm \<Rightarrow> u256 \<Rightarrow> 'w vm \<Rightarrow> bool" where
  "value_step E i s v t \<longleftrightarrow>
     stack_of t = v # drop (info_args (instructionInfo i)) (stack_of s)
   \<and> m_mem t = m_mem s \<and> m_ext t = m_ext s \<and> m_PC t = m_PC s + 1 \<and> m_bounce t = m_bounce s
   \<and> m_io_gas t = m_io_gas s - ucast (tierGas E (info_gasPriceTier (instructionInfo i)))"

lemma value_stepI:
  assumes u: "fetchInstruction E s = Ok u" and i: "i = Instruction (m_code s ! unat (m_PC s))"
    and ret: "info_ret (instructionInfo i) = 1"
    and t: "t = u\<lparr>m_io_gas := m_io_gas u - m_runGas u, m_stack := (m_stack u)(m_SPP u := v),
                 m_SP := sp, m_PC := m_PC u + 1\<rparr>"
  shows "value_step E i s v t"
proof -
  let ?k = "m_SPP s + info_args (instructionInfo i)"
  have k: "?k \<le> stackEnd" "1 \<le> ?k" "m_SPP u = ?k - 1" "m_stack u = m_stack s"
    using u ret by (auto simp: fetchInstruction_Ok Let_def i)
  have "stack_of t = v # map (m_stack u) [?k..<stackEnd]"
    unfolding t by (simp add: stack_of_def) (use k in \<open>intro stack_of_write; simp\<close>)
  with u ret show ?thesis
    by (auto simp: value_step_def drop_stack_of k(4) t fetchInstruction_Ok Let_def i)
qed

lemma value_op:
  assumes u: "fetchInstruction E s = Ok u" and i: "i = Instruction (m_code s ! unat (m_PC s))"
    and ok: "seq [updateIOGas, upd (\<lambda>s. setSPP (f s) s), NEXT] u = Ok t"
    and ret: "info_ret (instructionInfo i) = 1"
    and f: "f (u\<lparr>m_io_gas := m_io_gas u - m_runGas u\<rparr>) = v"
  shows "value_step E i s v t"
  by (rule value_stepI [OF u i ret, where sp = "m_SP u"]) (use ok f in \<open>auto simp: setSPP_def\<close>)

lemma alu_step:
  assumes env: "length (calldata E) < 2 ^ 64"
    and v: "alu E i (stack_of s) = Some v" and i: "i = Instruction (m_code s ! unat (m_PC s))"
    and r: "run_interpretCases E s = Ok t"
  shows "value_step E i s v t"
proof -
  obtain u where u: "fetchInstruction E s = Ok u" and ok: "switch E i u = Ok t"
    using r by (auto simp: run_interpretCases_def i fetchInstruction_Ok Let_def)
  have fe: "m_SPP s + info_args (instructionInfo i) \<le> stackEnd"
    "m_SPP u = m_SPP s + info_args (instructionInfo i) - info_ret (instructionInfo i)"
    "m_SP u = m_SPP s" "m_stack u = m_stack s"
    using u by (auto simp: fetchInstruction_Ok Let_def i)
  have sp: "SP u k = stack_of s ! k" if "k < info_args (instructionInfo i)" for k
    using that fe by (intro SP_fetched) simp_all
  define P where "P = value_step E i s v"
  have val: "P t" if "seq [updateIOGas, upd (\<lambda>s. setSPP (f s) s), NEXT] u = Ok t"
      and "info_ret (instructionInfo i) = 1" and "f (u\<lparr>m_io_gas := m_io_gas u - m_runGas u\<rparr>) = v" for f
    unfolding P_def by (rule value_op [OF u i that])
  have "P t"
  proof (cases i)
    case I_SDIV
    with ok v sp show ?thesis unfolding P_def
      by (intro value_stepI [OF u i, where sp = "m_SP u - 1"])
        (auto simp: op_SDIV_def setSPP_def alu_def instructionInfo_def Let_def u2s_sint signed_value)
  next
    case I_SIGNEXTEND
    have "(m_stack u)(m_SPP u := SP u 1) = m_stack u"
      using fe I_SIGNEXTEND by (auto simp: SP_def instructionInfo_def)
    with I_SIGNEXTEND ok v sp fe show ?thesis unfolding P_def
      by (intro value_stepI [OF u i, where sp = "m_SP u"])
        (auto simp: op_SIGNEXTEND_def setSP_def alu_def instructionInfo_def Let_def signextend_value)
  next
    case I_CALLDATALOAD
    with ok v sp fe show ?thesis unfolding P_def
      by (intro value_stepI [OF u i, where sp = "m_SP u"])
        (auto simp: op_CALLDATALOAD_def setSP_def alu_def instructionInfo_def Let_def
          calldata_word_padded [OF env])
  qed (use ok v sp in \<open>simp_all add: alu_def plain_ops instructionInfo_def Let_def del: seq_Ok upd_Ok\<close>;
      erule val; force simp: instructionInfo_def divWorkaround_uint modWorkaround_uint signed_value u2s_sint
         addmod_value mulmod_value byte_value [simplified] fromAddress_def)+
  then show ?thesis by (simp add: P_def)
qed

end
