(* ===== verification/VMProps.thy ===== *)
theory VMProps
  imports VMSpec
begin

text \<open>
  The properties of the virtual machine: what \<open>exec\<close> guarantees of termination and gas, what holds in
  every state it reaches, and what single instructions do. \<open>sample_vm\<close> is a concrete machine over
  the environment \<open>sample_ext\<close>, used only to show that the hypotheses can hold.
\<close>

section \<open>A concrete machine\<close>

definition sample_vm :: "bytes \<Rightarrow> u256 list \<Rightarrow> unit vm" where
  "sample_vm c st = (vm_entry 1000 ())
     \<lparr>m_code := c @ replicate 33 0, m_stack := (\<lambda>i. st ! (i - (stackEnd - length st))),
      m_SP := stackEnd - length st, m_SPP := stackEnd - length st, m_bounce := Some interpretCases\<rparr>"

lemma sample_fits: "mem_fits (sample_vm c st)"
  by (simp add: sample_vm_def vm_entry_def mem_fits_def)

lemmas sample_simps = run_interpretCases_def fetchInstruction_Ok Let_def sample_vm_def sample_ext_def vm_entry_def
  stackEnd_def instructionInfo_def Instruction_def enum_rows_def memSize_def tierGas_def schedule_defs
  env_ok_def

lemma interpreted: "run_interpretCases E s = Ok t \<Longrightarrow> m_bounce s = Some interpretCases \<Longrightarrow> m_bounce t \<noteq> None \<Longrightarrow> vm_body E s = Inr t"
  by (simp add: vm_body_def run_bounce_def)

text \<open>A program that pushes the size of its data, 3, and loads the word there: the memory grows to two words.\<close>

definition grow_code :: bytes where
  "grow_code = [0x36, 0x51]"

lemma optimize_grow: "optimize grow_code = (grow_code @ replicate 33 0, [])"
proof -
  have "starts grow_code 0 = [0, 1]" by (simp add: starts.simps push_len_def grow_code_def)
  then show ?thesis
    by (intro prod_eqI nth_equalityI)
      (auto simp: optimize_spec is_jumpdest_def is_synthetic_def Instruction_def enum_rows_def nth_Cons' grow_code_def)
qed

lemma grow_reached: "\<exists>s. loop_reach (vm_body (sample_ext grow_code)) (vm_entry 1000 ()) s \<and> m_bounce s = Some interpretCases
  \<and> length (m_mem s) = 64"
proof -
  let ?E = "sample_ext grow_code"
  define s where "s = (sample_vm grow_code [])\<lparr>m_stack := \<lambda>_. 0\<rparr>"
  have 1: "vm_body ?E (vm_entry 1000 ()) = Inr s"
    by (simp add: vm_body_def run_bounce_def run_initEntry_def vm_entry_def s_def sample_vm_def upd_def) (simp add: sample_ext_def optimize_grow)
  define t where "t = s\<lparr>m_OP := I_CALLDATASIZE, m_PC := 1, m_io_gas := 998, m_runGas := 2, m_stack := (\<lambda>_. 0)(1023 := 3), m_SPP := 1023\<rparr>"
  have "run_interpretCases ?E s = Ok t"
    by (simp add: s_def t_def sample_simps op_CALLDATASIZE_def setSPP_def grow_code_def)
  then have 2: "vm_body ?E s = Inr t" by (rule interpreted) (simp_all add: s_def t_def sample_vm_def)
  define u where "u = t\<lparr>m_OP := I_MLOAD, m_SP := 1023, m_runGas := 3, m_newMemSize := 0, m_copyMemSize := 0\<rparr>"
  have f: "fetchInstruction ?E t = Ok u"
    by (simp add: s_def t_def u_def sample_simps grow_code_def)
  have sp: "SP u 0 = 3" "m_OP u = I_MLOAD" "m_bounce u = Some interpretCases" by (simp_all add: SP_def u_def t_def s_def sample_vm_def)
  have fits: "mem_fits u" and small: "smallRun (evmSchedule ?E) u"
    by (simp_all add: mem_fits_def smallRun_def u_def t_def s_def sample_vm_def vm_entry_def)
  have m: "updateMem (evmSchedule ?E) 35 u = Ok (u\<lparr>m_newMemSize := 64, m_runGas := 9, m_mem := replicate 64 0\<rparr>)"
    using updateMem_Ok [OF fits small, of 35]
    by (simp add: u_def t_def s_def sample_vm_def vm_entry_def roundUp_def memDelta_def memCost_def copyCost_def schedule_defs sample_ext_def)
  have o: "toInt63 (3 :: u256) = Some 3" by simp
  obtain v where v: "op_MLOAD ?E u = Ok v" "length (m_mem v) = 64" "m_bounce v = Some interpretCases"
    by (auto simp: op_MLOAD_def sp o m) (simp add: u_def t_def setSPP_def)
  then have "run_interpretCases ?E t = Ok v" using f sp(2) by (simp add: run_interpretCases_def)
  then have 3: "vm_body ?E t = Inr v" by (rule interpreted) (simp_all add: v(3) t_def s_def sample_vm_def)
  have "loop_reach (vm_body ?E) (vm_entry 1000 ()) v" using loop_round 1 2 3 loop_start by metis
  with v(2,3) show ?thesis by blast
qed

section \<open>The machine as a whole\<close>

text \<open>C1: execution always ends. Whatever the code and the world, \<open>exec\<close> returns or throws: the fuel
  twice the gas plus three is enough, and more fuel does not change the result.\<close>

theorem exec_terminates:
  assumes "env_ok E" and "2 * unat (ucast g :: u64) + 3 \<le> n"
  shows "exec_fuel n E g w = exec E g w \<and> exec E g w \<noteq> None"
proof -
  obtain r where r: "exec E g w = Some r"
    using exec_fuel_terminates [OF assms(1)] unfolding exec_def by fastforce
  then obtain z where z: "loop_fuel (vm_body E) (2 * unat (ucast g :: u64) + 3) (vm_entry g w) = Some z"
    by (auto simp: exec_def exec_fuel_def)
  with r loop_fuel_more [OF z assms(2)] have "exec_fuel n E g w = Some r"
    by (simp add: exec_def exec_fuel_def)
  with r show ?thesis by simp
qed

theorem exec_terminates_witness:
  "env_ok (sample_ext [0x5b, 0x60, 0, 0x56]) \<and> exec (sample_ext [0x5b, 0x60, 0, 0x56]) 1000 () \<noteq> None"
  using exec_terminates [OF sample_env_ok [of "[0x5b, 0x60, 0, 0x56]"] order.refl, of 1000 "()"]
    sample_env_ok [of "[0x5b, 0x60, 0, 0x56]"] by simp

text \<open>C13: the gas left when execution ends, by return or by exception, is at most the gas it was
  started with, calls and creations included, as long as callees give back no more than they were given.\<close>

theorem exec_gas_bound:
  assumes "env_ok E" and "exec E g w = Some (r, g', w')"
  shows "unat g' \<le> unat (ucast g :: u64)"
  using assms by (rule exec_gas_le)

text \<open>C8: in every state the interpreter reaches, the stack pointer is inside the array, the memory is
  a whole number of words, below the sizes that wrap and paid for (the gas left and the quadratic price of the
  memory make at most the gas the machine was started with), and once the code is prepared the program
  counter is inside the code with its tail of zeros and the code and jump table are those of \<open>optimize\<close>.\<close>

theorem reachable_state_safe:
  assumes "env_ok E" and "loop_reach (vm_body E) (vm_entry g w) s" and "m_bounce s \<noteq> None"
  shows "m_SPP s \<le> 1024 \<and> 32 dvd length (m_mem s) \<and> length (m_mem s) < 2 ^ 63 \<and>
    unat (m_io_gas s) + memCost (evmSchedule E) (length (m_mem s)) \<le> unat (ucast g :: u64) \<and>
    (m_bounce s \<noteq> Some initEntry \<longrightarrow> unat (m_PC s) < length (m_code s)
       \<and> (m_code s, m_jumpDests s) = optimize (code E))"
proof -
  have ok: "vm_ok E s"
    using vml.reach_inv [OF assms(2)] vm_entry_ok [of E g w] assms(1) by blast
  have "length (m_code s) = length (code E) + 33" if "(m_code s, m_jumpDests s) = optimize (code E)"
    using optimize_spec(2) that by (metis fst_conv)
  moreover have "funds E s \<le> unat (ucast g :: u64)"
    using reach_funds [OF assms(1,2) vm_entry_ok] by (simp add: funds_def vm_entry_def memCost_def)
  ultimately show ?thesis using ok assms(3)
    by (auto simp: vm_ok_def mem_fits_def stackEnd_def funds_def split: option.splits bounce.splits)
qed

theorem reachable_state_safe_witness:
  "\<exists>s. loop_reach (vm_body (sample_ext grow_code)) (vm_entry 1000 ()) s \<and> length (m_mem s) = 64
     \<and> unat (m_io_gas s) \<le> 994 \<and> unat (m_PC s) < 35"
proof -
  obtain s where s: "loop_reach (vm_body (sample_ext grow_code)) (vm_entry 1000 ()) s"
      "m_bounce s = Some interpretCases" "length (m_mem s) = 64"
    using grow_reached by blast
  have e: "code (sample_ext grow_code :: unit ext) = grow_code" "evmSchedule (sample_ext grow_code :: unit ext) = EIP158Schedule"
    "length grow_code = 2" by (simp_all add: sample_ext_def grow_code_def)
  have "env_ok (sample_ext grow_code :: unit ext)" by (rule sample_env_ok) (simp add: grow_code_def)
  from reachable_state_safe [OF this s(1)] s(2,3)
  have "unat (m_io_gas s) + 6 \<le> 1000" "unat (m_PC s) < 35"
    by (auto simp: e optimize_grow memCost_def schedule_defs)
  with s(1,3) show ?thesis by auto
qed

text \<open>C21: every pass that goes on with another instruction has paid for it: the gas strictly
  decreases, over an instruction, a creation and a call alike. No sequence of instructions runs for free.\<close>

theorem pass_costs_gas:
  assumes "env_ok E" and "vm_ok E s" and "m_bounce s \<noteq> Some initEntry"
    and "vm_body E s = Inr t" and "m_bounce t = Some interpretCases"
  shows "unat (m_io_gas t) < unat (m_io_gas s)"
proof -
  have "fuel_of t < fuel_of s" using vm_round [OF assms(1,2,4)] by simp
  moreover have "bounce_rank (m_bounce s) \<le> 1"
    using assms(3) by (auto simp: bounce_rank_def split: option.splits bounce.splits)
  ultimately show ?thesis using assms(5) by (simp add: fuel_of_def bounce_rank_def)
qed

section \<open>Code and jumps\<close>

text \<open>C23: a jump is accepted exactly when its destination is the start of an instruction, outside
  every operand of a push, and holds \<open>JUMPDEST\<close>; the binary search decides this on the table.\<close>

theorem jump_accepted_iff:
  assumes "length c < 2 ^ 63"
  shows "verifyJumpDest (snd (optimize c)) d = Some pc
    \<longleftrightarrow> unat d \<in> set (starts c 0) \<and> Instruction (c ! unat d) = I_JUMPDEST \<and> unat pc = unat d"
proof -
  have "pc = ucast d \<longleftrightarrow> unat pc = unat d" if "unat d \<in> set (starts c 0)"
    using starts_bounds [OF that] assms by (auto simp: unat_ucast_63 word_unat_eq_iff)
  then show ?thesis unfolding verifyJumpDest_iff [OF assms] is_jumpdest_def by blast
qed

theorem jump_accepted_iff_witness:
  "verifyJumpDest (snd (optimize [0x60, 0x5b, 0x5b])) 1 \<noteq> Some 1"
  using jump_accepted_iff [of "[0x60, 0x5b, 0x5b]" 1 1]
  by (simp add: starts.simps [of "[0x60, 0x5b, 0x5b]"] push_len_def)

text \<open>C24: the pass over the code lists the jump destinations in increasing order, replaces the
  instructions the user must not write by \<open>BAD\<close>, leaves operands and everything else as they were,
  and extends the code by 33 zeros.\<close>

theorem optimize_table:
  "snd (optimize c) = map of_nat (filter (\<lambda>p. Instruction (c ! p) = I_JUMPDEST) (starts c 0))
   \<and> fst (optimize c) = map (\<lambda>p. if p \<in> set (starts c 0)
         \<and> (Instruction (c ! p) = I_PUSHC \<or> Instruction (c ! p) = I_JUMPC \<or> Instruction (c ! p) = I_JUMPCI)
       then byte_of I_BAD else (c @ replicate 33 0) ! p) [0..<length c + 33]"
proof
  show "snd (optimize c) = map of_nat (filter (\<lambda>p. Instruction (c ! p) = I_JUMPDEST) (starts c 0))"
    unfolding optimize_spec(1) is_jumpdest_def ..
  show "fst (optimize c) = map (\<lambda>p. if p \<in> set (starts c 0)
         \<and> (Instruction (c ! p) = I_PUSHC \<or> Instruction (c ! p) = I_JUMPC \<or> Instruction (c ! p) = I_JUMPCI)
       then byte_of I_BAD else (c @ replicate 33 0) ! p) [0..<length c + 33]"
    by (rule nth_equalityI) (auto simp: optimize_spec(2,3) is_synthetic_def nth_append)
qed

section \<open>Stack and memory\<close>

text \<open>C35: the stack check is exact. Taking more than the stack holds is \<open>StackUnderflow\<close>, ending above
  1024 items is \<open>OutOfStack\<close>, and otherwise the height changes by what the instruction table says.\<close>

theorem stack_check_exact:
  assumes "m_SPP s \<le> stackEnd"
    and "op = instructionInfo (Instruction (m_code s ! unat (m_PC s)))"
  shows "case fetchInstruction E s of
      Throw e _ \<Rightarrow> (e = StackUnderflow \<and> length (stack_of s) < info_args op)
        \<or> (e = OutOfStack \<and> info_args op \<le> length (stack_of s)
             \<and> 1024 < length (stack_of s) - info_args op + info_ret op)
    | Ok t \<Rightarrow> info_args op \<le> length (stack_of s)
        \<and> length (stack_of t) = length (stack_of s) - info_args op + info_ret op
        \<and> length (stack_of t) \<le> 1024"
proof -
  have args: "info_args op \<le> stackEnd"
    using info_bounds(1) [of "Instruction (m_code s ! unat (m_PC s))"] by (simp add: assms(2) stackEnd_def)
  show ?thesis
  proof (cases "fetchInstruction E s")
    case (Ok t)
    then have "info_args op \<le> length (stack_of s) \<and> length (stack_of t) \<le> 1024
        \<and> length (stack_of t) = length (stack_of s) - info_args op + info_ret op"
      using assms by (auto simp: fetchInstruction_Ok Let_def stackEnd_def)
    with Ok show ?thesis by simp
  next
    case (Throw e t)
    then have "m_SPP (s\<lparr>m_OP := Instruction (m_code s ! unat (m_PC s))\<rparr>) = m_SPP s
        \<and> adjustStack (info_args op) (info_ret op) (s\<lparr>m_OP := Instruction (m_code s ! unat (m_PC s))\<rparr>) = Throw e t"
      by (auto simp: fetchInstruction_def c_metrics_def seq_Throw setRunGas_def int63_def Let_def assms(2)
          split: option.splits)
    then obtain u where u: "m_SPP u = m_SPP s" "adjustStack (info_args op) (info_ret op) u = Throw e t" by blast
    with adjustStack_cases [of u "info_args op" "info_ret op"] args assms(1) Throw show ?thesis
      by (auto simp: stackEnd_def split: vm_exception.splits)
  qed
qed

theorem stack_check_exact_witness:
  "length (stack_of (sample_vm [0x01] [5])) < 2
   \<and> (case fetchInstruction (sample_ext [0x01]) (sample_vm [0x01] [5]) of Throw e _ \<Rightarrow> e = StackUnderflow | Ok _ \<Rightarrow> False)"
  using stack_check_exact [of "sample_vm [0x01] [5]" _ "sample_ext [0x01]", OF _ refl]
  by (simp add: sample_vm_def vm_entry_def stackEnd_def instructionInfo_def Instruction_def enum_rows_def
      stack_of_def split: outcome.splits)

text \<open>C25: growing the memory charges exactly the difference of the quadratic price of the two sizes,
  rounded up to words, on top of the price so far and of the words copied; it throws \<open>OutOfGas\<close> when
  that is more than the gas left or than 63 bits, and otherwise only appends zeros.\<close>

theorem memory_growth_price:
  assumes "mem_fits s" and "smallRun sch s" and "unat n < 2 ^ 64 - 31"
    and "new = roundUp (unat n)" and "old = length (m_mem s)"
    and "run = unat (m_runGas s) + (if old < new then memCost sch new - memCost sch old else 0)
               + unat (copyGas sch) * ((unat (m_copyMemSize s) + 31) div 32)"
  shows "updateMem sch n s = Ok t \<longleftrightarrow>
     (old < new \<longrightarrow> memCost sch new < 2 ^ 63) \<and> run \<le> unat (m_io_gas s)
     \<and> t = s\<lparr>m_newMemSize := of_nat new, m_runGas := of_nat run,
             m_mem := m_mem s @ replicate (new - old) 0\<rparr>"
  unfolding assms(4-6) using updateMem_Ok [OF assms(1-3)] by (simp only: memDelta_def copyCost_def)

theorem memory_growth_price_witness:
  "updateMem DefaultSchedule 40 (sample_vm [] []) = Ok ((sample_vm [] [])
     \<lparr>m_newMemSize := 64, m_runGas := 6, m_mem := replicate 64 0\<rparr>)"
proof -
  have s: "smallRun DefaultSchedule (sample_vm [] [])"
    by (simp add: smallRun_def sample_vm_def vm_entry_def)
  show ?thesis
    by (subst memory_growth_price [OF sample_fits s _ refl refl refl])
      (simp_all add: sample_vm_def vm_entry_def roundUp_def memCost_def schedule_defs)
qed

text \<open>A store of a word puts its 32 bytes, most significant first, at the offset cut to 32 bits,
  and changes no other byte; the memory it is charged for reaches to the uncut offset plus 32. Where
  the offset is below \<open>2 ^ 32\<close> the two agree and a load gives the word back.\<close>

theorem mstore_lands:
  assumes "wellPriced (evmSchedule E)" and "mem_fits s" and "fresh s" and "op_MSTORE E s = Ok t"
  shows "fromBigEndian (bslice (unat (SP s 0) mod 2 ^ 32) 32 (m_mem t)) = SP s 1
    \<and> unat (SP s 0) + 32 \<le> length (m_mem t)
    \<and> (\<forall>i < length (m_mem t). i < unat (SP s 0) mod 2 ^ 32 \<or> unat (SP s 0) mod 2 ^ 32 + 32 \<le> i
         \<longrightarrow> m_mem t ! i = (if i < length (m_mem s) then m_mem s ! i else 0))"
proof -
  let ?o = "unat (ucast (SP s 0) :: u32)"
  have o: "unat (SP s 0) mod 2 ^ 32 = ?o" by (simp add: unsigned_ucast_eq take_bit_nat_def)
  obtain u where u: "int63 (toInt63 (SP s 0)) (\<lambda>o63. updateMem (evmSchedule E) (o63 + 32)) s = Ok u"
    and t: "m_mem t = poke (unat (ucast (SP u 0) :: u32)) (toBigEndian 32 (SP u 1)) (m_mem u)"
    using assms(4) by (auto simp: op_MSTORE_def)
  have gr: "grew (evmSchedule E) s (unat (SP s 0) + 32) u"
    using offset_grew [OF assms(2) fresh_smallRun [OF assms(3)] wellPricedD(12) [OF assms(1)] u] by simp
  then obtain k where k: "m_mem u = m_mem s @ replicate k 0" by (auto simp: grew_def)
  note g = grewD [OF gr]
  have le: "?o + 32 \<le> length (m_mem u)"
    using g(2) unat_ucast_le [of "SP s 0", where ?'b = 32] by simp
  have m: "m_mem t = poke ?o (toBigEndian 32 (SP s 1)) (m_mem u)" using t by (simp add: g(1))
  have l: "length (m_mem t) = length (m_mem u)" using le by (simp add: m)
  have b: "bslice ?o 32 (m_mem t) = toBigEndian 32 (SP s 1)"
    using bslice_poke_same [of ?o "toBigEndian 32 (SP s 1)" "m_mem u"] le by (simp add: m)
  have "m_mem t ! i = (if i < length (m_mem s) then m_mem s ! i else 0)"
    if "i < length (m_mem t)" "i < ?o \<or> ?o + 32 \<le> i" for i
    using that le l k by (auto simp: m nth_poke nth_append)
  then show ?thesis unfolding o b using g(2) l by (simp add: from_toBigEndian_id)
qed

theorem mstore_lands_witness:
  "fromBigEndian (bslice 3 32 (m_mem ((sample_vm [] [3, 77]) \<lparr>m_mem := poke 3 (toBigEndian 32 (77 :: u256)) (replicate 64 0)\<rparr>)))
     = (77 :: u256)"
proof -
  let ?s = "sample_vm [] [3, 77]"
  have fr: "fresh ?s" by (simp add: fresh_def sample_vm_def vm_entry_def)
  have small: "smallRun (evmSchedule (sample_ext [] :: unit ext)) ?s"
    by (simp add: smallRun_def sample_vm_def vm_entry_def)
  have sp: "SP ?s 0 = 3" "SP ?s 1 = 77" by (simp_all add: SP_def sample_vm_def vm_entry_def stackEnd_def)
  have "updateMem (evmSchedule (sample_ext [] :: unit ext)) 35 ?s
      = Ok (?s\<lparr>m_newMemSize := 64, m_runGas := 6, m_mem := replicate 64 0\<rparr>)"
    using updateMem_Ok [OF sample_fits small, of 35]
    by (simp add: sample_vm_def vm_entry_def roundUp_def memDelta_def memCost_def copyCost_def schedule_defs sample_ext_def)
  then obtain t where t: "op_MSTORE (sample_ext []) ?s = Ok t"
    and m: "m_mem t = poke 3 (toBigEndian 32 (77 :: u256)) (replicate 64 0)"
    by (auto simp: op_MSTORE_def sp int63_def toInt63_def seq.simps(2) updateIOGas_def upd_def NEXT_def
        sample_vm_def vm_entry_def SP_def stackEnd_def)
  show ?thesis
    using mstore_lands [OF _ sample_fits fr t] by (simp add: sp sp(2) [unfolded One_nat_def] m sample_ext_def wellPriced_schedules)
qed

text \<open>Copying data to memory writes, over the whole range asked for, the data at the source index
  and zeros past its end, whatever the 256-bit index is, and leaves every other byte alone.\<close>

theorem copyDataToMemory_bytes:
  assumes "length d < 2 ^ 64" and "unat off < 2 ^ 64" and "unat sz < 2 ^ 64"
    and "sz = 0 \<or> unat off + unat sz \<le> length mem" and "i < length mem"
  shows "copyDataToMemory d off idx sz mem ! i =
    (if unat off \<le> i \<and> i < unat off + unat sz
     then (if unat idx + (i - unat off) < length d then d ! (unat idx + (i - unat off)) else 0)
     else mem ! i)"
proof -
  have o: "unat (ucast off :: u64) = unat off" and z: "unat (ucast sz :: u64) = unat sz"
    using assms(2,3) by (simp_all add: unsigned_ucast_eq take_bit_nat_eq_self)
  let ?n = "sizeToBeCopied d idx (ucast sz)"
  have n: "?n \<le> unat sz" using sizeToBeCopied_le(1) [OF assms(1)] z by metis
  have pos: "unat (ucast idx :: u64) = unat idx \<and> unat idx + ?n \<le> length d" if "0 < ?n"
    using sizeToBeCopied_le(2) [OF assms(1) that] .
  have u: "unat (ucast idx :: u64) = unat idx" if "unat idx \<le> length d"
    using that assms(1) by (simp add: unsigned_ucast_eq take_bit_nat_eq_self)
  have short: "j < ?n \<longleftrightarrow> unat idx + j < length d" if "j < unat sz" for j
  proof (cases "unat idx \<le> length d")
    case True
    then show ?thesis using that unfolding sizeToBeCopied_def Let_def z u [OF True] by auto
  next
    case False
    then show ?thesis using that unfolding sizeToBeCopied_def Let_def z by auto
  qed
  show ?thesis
  proof (cases "sz = 0")
    case True
    then have "unat sz = 0" by simp
    with n True show ?thesis by (auto simp: copyDataToMemory_def Let_def o)
  next
    case False
    with assms(4) have range: "unat off + unat sz \<le> length mem" by simp
    let ?m1 = "if 0 < ?n then poke (unat off) (bslice (unat (ucast idx :: u64)) ?n d) mem else mem"
    have m1: "?m1 ! i = (if unat off \<le> i \<and> i < unat off + ?n then d ! (unat idx + (i - unat off)) else mem ! i)"
      and l1: "length ?m1 = length mem"
      using pos range n assms(5) by (auto simp: nth_poke bslice_def min_def)
    have "copyDataToMemory d off idx sz mem ! i = (if unat off + ?n \<le> i \<and> i < unat off + unat sz then 0 else ?m1 ! i)"
      using range n l1 assms(5) by (auto simp: copyDataToMemory_def Let_def o z nth_poke)
    also have "\<dots> = (if unat off \<le> i \<and> i < unat off + unat sz
     then (if unat idx + (i - unat off) < length d then d ! (unat idx + (i - unat off)) else 0)
     else mem ! i)"
    proof (cases "unat off \<le> i \<and> i < unat off + unat sz")
      case True
      then obtain j where "i = unat off + j" "j < unat sz" by (metis add_less_cancel_left le_iff_add)
      with short [of j] n show ?thesis unfolding m1 by (auto simp: not_less)
    next
      case False
      with n show ?thesis unfolding m1 by auto
    qed
    finally show ?thesis .
  qed
qed

theorem copyDataToMemory_bytes_witness:
  "copyDataToMemory [7, 8, 9] 1 2 4 (replicate 8 5) ! 1 = 9 \<and> copyDataToMemory [7, 8, 9] 1 2 4 (replicate 8 5) ! 4 = 0"
  using copyDataToMemory_bytes [of "[7, 8, 9]" 1 4 "replicate 8 5" 1 2]
    copyDataToMemory_bytes [of "[7, 8, 9]" 1 4 "replicate 8 5" 4 2] by simp

section \<open>Instructions\<close>

text \<open>C12: every value instruction does on the array of slots what the abstract instruction does on the
  list of items: the value \<open>alu\<close> computes (division and remainder rounding towards zero, additions and
  products modulo without overflow, sign extension, the indexed byte, call data with zeros past its
  end) replaces the items taken, the price of the tier is paid, and memory, world and the rest of the
  stack are as before.\<close>

theorem alu_refines:
  assumes "length (calldata E) < 2 ^ 64" and "i = Instruction (m_code s ! unat (m_PC s))"
    and "alu E i (stack_of s) = Some v" and "run_interpretCases E s = Ok t"
  shows "stack_of t = v # drop (info_args (instructionInfo i)) (stack_of s)
    \<and> m_mem t = m_mem s \<and> m_ext t = m_ext s \<and> m_PC t = m_PC s + 1 \<and> m_bounce t = m_bounce s
    \<and> m_io_gas t = m_io_gas s - ucast (tierGas E (info_gasPriceTier (instructionInfo i)))"
  using alu_step [OF assms(1,3,2,4)] unfolding value_step_def .

text \<open>Exponentiation by squaring is exponentiation modulo \<open>2 ^ 256\<close>.\<close>

theorem exp256_is_power: "exp256 base ex = base ^ unat ex"
  by (rule exp256_power)

text \<open>The price of \<open>EXP\<close>, computed from the position of the first bit set, is the base price plus
  the byte price for each byte the exponent needs, without wrapping in 32 bits.\<close>

theorem exp_gas_per_byte:
  assumes "wellPriced sch"
  shows "unat (expGas sch + expByteGas sch * (32 - of_nat (firstBitSet (toBigEndian 32 e) div 8)))
    = unat (expGas sch) + unat (expByteGas sch) * bytesRequired (e :: u256)"
  by (rule exp_price [OF assms])

theorem exp_gas_per_byte_witness:
  "unat (expGas EIP158Schedule + expByteGas EIP158Schedule * (32 - of_nat (firstBitSet (toBigEndian 32 (256 :: u256)) div 8))) = 110"
proof -
  have "bytesRequired (256 :: u256) = 2"
    using bytesRequired_le_iff [of "256 :: u256" 2] bytesRequired_le_iff [of "256 :: u256" 1] by simp
  then show ?thesis
    using exp_gas_per_byte [OF wellPriced_schedules(5), of 256] by (simp add: schedule_defs)
qed

lemma push_loop_value:
  "unat (m_PC s) + n \<le> length (m_code s) \<Longrightarrow> length (m_code s) < 2 ^ 64 \<Longrightarrow>
   m_stack (push_loop n s) = (m_stack s)(m_SPP s :=
     foldl fromBigEndian_step (m_stack s (m_SPP s)) (bslice (unat (m_PC s)) n (m_code s)))"
proof (induction n arbitrary: s)
  case (Suc n)
  let ?s = "(setSPP (push_bit 8 (m_stack s (m_SPP s)) OR ucast (m_code s ! unat (m_PC s))) s)
        \<lparr>m_PC := m_PC s + 1\<rparr>"
  have pc: "unat (m_PC ?s) = unat (m_PC s) + 1" using Suc.prems by (simp add: unat_add_u64)
  have sl: "bslice (unat (m_PC s)) (Suc n) (m_code s)
      = m_code s ! unat (m_PC s) # bslice (unat (m_PC s) + 1) n (m_code s)"
    using Suc.prems by (simp add: bslice_def Cons_nth_drop_Suc [symmetric])
  have "m_stack (push_loop n ?s) = (m_stack ?s)(m_SPP ?s :=
     foldl fromBigEndian_step (m_stack ?s (m_SPP ?s)) (bslice (unat (m_PC ?s)) n (m_code ?s)))"
    using Suc.prems pc by (intro Suc.IH) simp_all
  then have "m_stack (push_loop n ?s) = (m_stack s)(m_SPP s := foldl fromBigEndian_step
      (fromBigEndian_step (m_stack s (m_SPP s)) (m_code s ! unat (m_PC s)))
      (bslice (unat (m_PC s) + 1) n (m_code s)))"
    unfolding pc by (simp add: setSPP_def fromBigEndian_step_def [of "m_stack s (m_SPP s)"])
  then show ?case by (simp add: sl)
qed simp

text \<open>C27: a push of \<open>n\<close> bytes pushes the number their big-endian reading denotes, read through the
  zeros after the code where the operand runs past its end, and moves to the next instruction.\<close>

theorem push_value:
  assumes "Instruction (m_code s ! unat (m_PC s)) = I_PUSH n" and "1 \<le> n" and "n \<le> 32"
    and "unat (m_PC s) + 1 + n \<le> length (m_code s)" and "length (m_code s) < 2 ^ 64"
    and "run_interpretCases E s = Ok t"
  shows "stack_of t = fromBigEndian (bslice (unat (m_PC s) + 1) n (m_code s)) # stack_of s
    \<and> unat (m_PC t) = unat (m_PC s) + 1 + n \<and> m_mem t = m_mem s"
proof -
  obtain u where u: "fetchInstruction E s = Ok u" and ok: "switch E (I_PUSH n) u = Ok t"
    using assms(1,6) by (auto simp: run_interpretCases_def fetchInstruction_Ok Let_def)
  have f: "1 \<le> m_SPP s" "m_SPP s \<le> stackEnd" "m_SPP u = m_SPP s - 1" "m_stack u = m_stack s"
    "m_PC u = m_PC s" "m_code u = m_code s" "m_OP u = I_PUSH n" "m_mem u = m_mem s"
    using u assms(1-3) by (auto simp: fetchInstruction_Ok Let_def instructionInfo_def)
  let ?v = "fromBigEndian (bslice (unat (m_PC s) + 1) n (m_code s)) :: u256"
  have pc1: "unat (m_PC s + 1) = unat (m_PC s) + 1"
    using assms(3-5) by (subst unat_add_u64) simp_all
  have upd: "m_stack t = (m_stack u)(m_SPP u := ?v) \<and> m_PC t = m_PC s + of_nat (Suc n)
      \<and> m_SPP t = m_SPP u \<and> m_mem t = m_mem s"
  proof (cases "n = 1")
    case True
    have "bslice (unat (m_PC s) + 1) 1 (m_code s) = [m_code s ! (unat (m_PC s) + 1)]"
      using assms(4) True by (simp add: bslice_def take_Suc hd_drop_conv_nth)
    then have "?v = ucast (m_code s ! unat (m_PC s + 1))"
      unfolding pc1 True by (simp add: fromBigEndian_def fromBigEndian_step_def)
    with True ok f show ?thesis
      by (auto simp: op_PUSH1_def setSPP_def)
  next
    case False
    let ?w = "setSPP 0 (u\<lparr>m_io_gas := m_io_gas u - m_runGas u\<rparr>)\<lparr>m_PC := m_PC u + 1\<rparr>"
    have t: "t = push_loop n ?w"
      using ok False f unat_byte_diff [OF assms(3,2)]
      by (auto simp: op_PUSH_def Let_def simp del: byte_of.simps)
    have pw: "unat (m_PC ?w) = unat (m_PC s) + 1" using f pc1 by simp
    have "m_stack t = (m_stack ?w)(m_SPP ?w :=
       foldl fromBigEndian_step (m_stack ?w (m_SPP ?w)) (bslice (unat (m_PC ?w)) n (m_code ?w)))"
      unfolding t by (rule push_loop_value) (use assms(4,5) f pw in simp_all)
    then have "m_stack t = (m_stack u)(m_SPP u := ?v)"
      unfolding pw using f by (simp add: setSPP_def fromBigEndian_def)
    moreover have "m_PC t = m_PC s + of_nat (Suc n) \<and> m_SPP t = m_SPP u \<and> m_mem t = m_mem s"
      unfolding t using push_loop_fields [of n ?w] f by simp
    ultimately show ?thesis by blast
  qed
  have "stack_of t = ?v # map (m_stack u) [m_SPP s..<stackEnd]"
    unfolding stack_of_def using upd f by (metis stack_of_write le_add_diff_inverse2)
  moreover have "unat (m_PC s + of_nat (Suc n)) = unat (m_PC s) + 1 + n"
  proof -
    have "unat (of_nat (Suc n) :: u64) = Suc n" using assms(3) by (intro unat_of_nat_lt) simp
    then show ?thesis using assms(4,5) by (subst unat_add_u64) simp_all
  qed
  ultimately show ?thesis using upd f by (simp add: stack_of_def)
qed

text \<open>A pass over one instruction of the sample machine, computed.\<close>

theorem push_value_witness:
  "\<exists>t. run_interpretCases (sample_ext [0x61, 7]) (sample_vm [0x61, 7] []) = Ok t
     \<and> stack_of t = [fromBigEndian [7, 0]]"
proof -
  let ?E = "sample_ext [0x61, 7]" and ?s = "sample_vm [0x61, 7] []"
  have i: "Instruction (m_code ?s ! unat (m_PC ?s)) = I_PUSH 2"
    by (simp add: sample_simps)
  obtain t where t: "run_interpretCases ?E ?s = Ok t"
    by (simp add: sample_simps op_PUSH_def)
  have "bslice (unat (m_PC ?s) + 1) 2 (m_code ?s) = [7, 0]" and "stack_of ?s = []"
    by (simp_all add: sample_simps bslice_def stack_of_def numeral_eq_Suc)
  moreover have "unat (m_PC ?s) + 1 + 2 \<le> length (m_code ?s)" "length (m_code ?s) < 2 ^ 64"
    by (simp_all add: sample_simps)
  ultimately show ?thesis
    using push_value [OF i _ _ _ _ t] t by auto
qed

theorem alu_refines_witness:
  "\<exists>t. run_interpretCases (sample_ext [0x03]) (sample_vm [0x03] [9, 4, 1]) = Ok t \<and> stack_of t = [5, 1]"
proof -
  let ?E = "sample_ext [0x03]" and ?s = "sample_vm [0x03] [9, 4, 1]"
  have i: "I_SUB = Instruction (m_code ?s ! unat (m_PC ?s))" by (simp add: sample_simps)
  have st: "stack_of ?s = [9, 4, 1]"
    by (simp add: sample_simps stack_of_def upt_rec)
  obtain t where t: "run_interpretCases ?E ?s = Ok t"
    by (simp add: sample_simps op_SUB_def)
  have v: "alu ?E I_SUB (stack_of ?s) = Some 5" by (simp add: st alu_def)
  have "length (calldata ?E) < 2 ^ 64" by (simp add: sample_ext_def)
  from alu_refines [OF this i v t] t show ?thesis
    by (auto simp: st instructionInfo_def)
qed

theorem pass_costs_gas_witness:
  "\<exists>t. run_interpretCases (sample_ext [0x5b]) (sample_vm [0x5b] []) = Ok t \<and> unat (m_io_gas t) < 1000"
proof -
  let ?E = "sample_ext [0x5b]" and ?s = "sample_vm [0x5b] []"
  have "starts [0x5b] 0 = [0]" by (simp add: starts.simps push_len_def)
  then have "optimize [0x5b] = (0x5b # replicate 33 0, [0])"
    by (intro prod_eqI nth_equalityI)
      (auto simp: optimize_spec is_jumpdest_def is_synthetic_def Instruction_def enum_rows_def nth_Cons')
  then have ok: "vm_ok ?E (?s\<lparr>m_jumpDests := [0]\<rparr>)"
    by (simp add: vm_ok_def sample_simps mem_fits_def)
  have "\<exists>t. run_interpretCases ?E (?s\<lparr>m_jumpDests := [0]\<rparr>) = Ok t \<and> m_bounce t = Some interpretCases
      \<and> run_interpretCases ?E ?s = Ok (t\<lparr>m_jumpDests := []\<rparr>)"
    by (simp add: sample_simps op_JUMPDEST_def)
  then obtain t where t: "run_interpretCases ?E (?s\<lparr>m_jumpDests := [0]\<rparr>) = Ok t" "m_bounce t = Some interpretCases"
    and r: "run_interpretCases ?E ?s = Ok (t\<lparr>m_jumpDests := []\<rparr>)" by blast
  have "m_bounce (?s\<lparr>m_jumpDests := [0]\<rparr>) = Some interpretCases" by (simp add: sample_simps)
  moreover from this t have "vm_body ?E (?s\<lparr>m_jumpDests := [0]\<rparr>) = Inr t"
    by (simp add: vm_body_def run_bounce_def)
  ultimately show ?thesis using pass_costs_gas [OF sample_env_ok ok _ _ t(2)] r
    by (auto simp: sample_simps)
qed

theorem exec_gas_bound_witness:
  "\<exists>r g' w'. exec (sample_ext []) 5 () = Some (r, g', w') \<and> unat g' \<le> 5"
proof -
  obtain r g' w' where x: "exec (sample_ext []) 5 () = Some (r, g', w')"
    using exec_fuel_terminates [OF sample_env_ok, of "[]" 5 "2 * unat (ucast (5 :: u256) :: u64) + 3" "()"]
    by (auto simp: exec_def)
  with exec_gas_bound [OF sample_env_ok x] show ?thesis by auto
qed

section \<open>Calls\<close>

lemma callParams_entered: "callParams E g (s\<lparr>m_bounce := b, m_newMemSize := n, m_mem := m, m_runGas := r, m_io_gas := i\<rparr>) = callParams E g (s\<lparr>m_mem := m\<rparr>)"
  by (simp add: callParams_def)

lemma allowance_value: "unat (callGasAllowance sch (s\<lparr>m_io_gas := io\<rparr>)) = (if staticCallDepthLimit sch then unat (SP s 0)
    else min (unat (SP s 0)) (unat io - unat io div 64))"
proof -
  have "unat (io - io div 64) = unat io - unat io div 64" by (simp add: unat_sub unat_div word_le_nat_alt)
  moreover have "unat (ucast (x :: u64) :: u256) = unat x" for x
    using less_trans [OF unat_64_lt, of "2 ^ 256" x] by (simp add: unsigned_ucast_eq take_bit_nat_eq_self)
  ultimately show ?thesis by (simp add: callGasAllowance_def min_def word_le_nat_alt)
qed

lemma call_outcome:
  assumes env: "env_ok E" and e: "call_entered E s io gas x"
  defines "st \<equiv> callStipendGas (evmSchedule E) s"
    and "p \<equiv> callParams E (gas + callStipendGas (evmSchedule E) x) x"
  shows "valueTransfer p \<le> balance E (myAddress E) (m_ext s) \<and> depth E < 1024 \<Longrightarrow>
      \<exists>ok out b. ext_call E p (m_ext s) = (ok, out, b, m_ext (call_settled E gas x))
        \<and> m_stack (call_settled E gas x) (m_SPP s) = (if ok then 1 else 0) \<and> unat b \<le> unat gas + unat st
        \<and> unat (m_io_gas (call_settled E gas x)) = unat io - unat gas + unat b" (is "?made \<Longrightarrow> _")
    and "\<not> (valueTransfer p \<le> balance E (myAddress E) (m_ext s) \<and> depth E < 1024) \<Longrightarrow>
      m_ext (call_settled E gas x) = m_ext s \<and> m_stack (call_settled E gas x) (m_SPP s) = 0
        \<and> unat (m_io_gas (call_settled E gas x)) = unat io + unat st"
proof -
  note g = call_entered_gas [OF env e]
  have x: "m_ext x = m_ext s" "m_SPP x = m_SPP s" "callStipendGas (evmSchedule E) x = st"
    using e by (auto simp: call_entered_def st_def callStipendGas_def)
  have p: "cp_gas p = gas + st" by (simp add: p_def x)
  have added: "unat (m_io_gas x + ucast b) = unat (m_io_gas x) + unat b" if "unat b \<le> unat gas + unat st" for b :: u256
  proof -
    have "unat (m_io_gas x) + unat b < 2 ^ 64" using that less_trans [OF g(4) unat_64_lt] by (simp add: st_def)
    moreover from this have "unat (ucast b :: u64) = unat b" by (simp add: unsigned_ucast_eq take_bit_nat_eq_self)
    ultimately show ?thesis by (subst unat_add_u64) simp_all
  qed
  {
    assume made: ?made
    obtain ok out b w where c: "ext_call E p (m_ext s) = (ok, out, b, w)" by (metis prod_cases4)
    have "b \<le> cp_gas p" using env c unfolding env_ok_def ext_gas_ok_def by (metis fst_conv snd_conv)
    then have le: "unat b \<le> unat gas + unat st" using g(2) by (simp add: p st_def word_le_nat_alt)
    have "m_ext (call_settled E gas x) = w" "m_stack (call_settled E gas x) (m_SPP s) = (if ok then 1 else 0)"
      "m_io_gas (call_settled E gas x) = m_io_gas x + ucast b"
      using made c by (simp_all add: call_settled_def Let_def p_def [symmetric] doCall_def x(1,2) setSPP_def)
    with c le added [OF le] g(1) show "\<exists>ok out b. ext_call E p (m_ext s) = (ok, out, b, m_ext (call_settled E gas x))
        \<and> m_stack (call_settled E gas x) (m_SPP s) = (if ok then 1 else 0) \<and> unat b \<le> unat gas + unat st
        \<and> unat (m_io_gas (call_settled E gas x)) = unat io - unat gas + unat b" by simp
  next
    assume "\<not> ?made"
    then have "call_settled E gas x = setSPP 0 (x\<lparr>m_io_gas := m_io_gas x + ucast (gas + st)\<rparr>)"
      by (auto simp: call_settled_def Let_def p_def [symmetric] doCall_def x(1) p)
    with added [of "gas + st"] g(1,2) show "m_ext (call_settled E gas x) = m_ext s \<and> m_stack (call_settled E gas x) (m_SPP s) = 0
        \<and> unat (m_io_gas (call_settled E gas x)) = unat io + unat st" by (simp add: x st_def setSPP_def)
  }
qed

text \<open>C34: the account of a call that goes on. The static price and the price of the memory leave \<open>io\<close>; what is passed on is what was
  asked for, under the EIP150 rules at most all but one 64th of \<open>io\<close>, and never more than \<open>io\<close>; the callee gets this and the stipend of
  a transfer. If the call is made, the caller ends with \<open>io\<close> less what was passed on plus exactly what the callee gives back, the callee's
  world and its success on the stack; if it is refused, for lack of balance or at the depth limit, with \<open>io\<close> and the stipend, its own world
  and 0. The gas is the exact sum in each case: nothing wraps.\<close>

theorem call_gas_settled:
  assumes "env_ok E" and "mem_fits s" and "m_copyMemSize s = 0" and "run_caseCall E s = Ok t"
  shows "\<exists>io gas k. io + call_static E s + memCost (evmSchedule E) (length (m_mem t)) = unat (m_io_gas s) + memCost (evmSchedule E) (length (m_mem s))
    \<and> gas = (if staticCallDepthLimit (evmSchedule E) then unat (SP s 0) else min (unat (SP s 0)) (io - io div 64)) \<and> gas \<le> io
    \<and> (let stipend = (if m_OP s \<noteq> I_DELEGATECALL \<and> 0 < SP s 2 then unat (callStipend (evmSchedule E)) else 0);
          p = callParams E (of_nat (gas + stipend)) (s\<lparr>m_mem := m_mem s @ replicate k 0\<rparr>)
        in if valueTransfer p \<le> balance E (myAddress E) (m_ext s) \<and> depth E < 1024
           then \<exists>ok out b. ext_call E p (m_ext s) = (ok, out, b, m_ext t) \<and> m_stack t (m_SPP s) = (if ok then 1 else 0)
             \<and> unat b \<le> gas + stipend \<and> unat (m_io_gas t) = io - gas + unat b
           else m_ext t = m_ext s \<and> m_stack t (m_SPP s) = 0 \<and> unat (m_io_gas t) = io + stipend)"
proof -
  let ?sch = "evmSchedule E"
  obtain io gas x where e: "call_entered E s io gas x" and t: "t = (call_settled E gas x)\<lparr>m_PC := m_PC s + 1\<rparr>"
    and len: "length (m_mem (call_settled E gas x)) = length (m_mem x)"
    using run_caseCall_entered [OF assms] .
  obtain n k where x: "x = s\<lparr>m_bounce := Some interpretCases, m_newMemSize := n, m_mem := m_mem s @ replicate k 0,
        m_runGas := ucast gas, m_io_gas := io - ucast gas\<rparr>"
    and paid: "unat io + call_static E s + memCost ?sch (length (m_mem x)) = unat (m_io_gas s) + memCost ?sch (length (m_mem s))"
    and gas: "gas = callGasAllowance ?sch (s\<lparr>m_io_gas := io\<rparr>)" "unat gas \<le> unat io" using e by (auto simp: call_entered_def)
  let ?st = "callStipendGas ?sch s"
  have st: "of_nat (unat gas + (if m_OP s \<noteq> I_DELEGATECALL \<and> 0 < SP s 2 then unat (callStipend ?sch) else 0)) = gas + ?st"
    unfolding unat_callStipendGas [symmetric] by simp
  have p: "callParams E (gas + callStipendGas ?sch x) x = callParams E (gas + ?st) (s\<lparr>m_mem := m_mem s @ replicate k 0\<rparr>)"
    by (simp add: x callParams_entered callStipendGas_def)
  define stip where "stip = (if m_OP s \<noteq> I_DELEGATECALL \<and> 0 < SP s 2 then unat (callStipend ?sch) else 0)"
  have all: "unat gas = (if staticCallDepthLimit ?sch then unat (SP s 0) else min (unat (SP s 0)) (unat io - unat io div 64))"
    unfolding gas(1) by (rule allowance_value)
  have out: "let p = callParams E (of_nat (unat gas + stip)) (s\<lparr>m_mem := m_mem s @ replicate k 0\<rparr>)
      in if valueTransfer p \<le> balance E (myAddress E) (m_ext s) \<and> depth E < 1024
         then \<exists>ok out b. ext_call E p (m_ext s) = (ok, out, b, m_ext t) \<and> m_stack t (m_SPP s) = (if ok then 1 else 0)
           \<and> unat b \<le> unat gas + stip \<and> unat (m_io_gas t) = unat io - unat gas + unat b
         else m_ext t = m_ext s \<and> m_stack t (m_SPP s) = 0 \<and> unat (m_io_gas t) = unat io + stip"
    using call_outcome [OF assms(1) e] unfolding Let_def stip_def st p unat_callStipendGas t by simp
  have io: "unat io + call_static E s + memCost ?sch (length (m_mem t)) = unat (m_io_gas s) + memCost ?sch (length (m_mem s))"
    using paid len by (simp add: t)
  show ?thesis unfolding stip_def [symmetric] Let_def [of stip] using io all gas(2) out by blast
qed

definition sample_call :: "unit vm" where
  "sample_call = (sample_vm [] [5000, 7, 3, 0, 0, 0, 32])\<lparr>m_io_gas := 20000, m_OP := I_CALL, m_SPP := 1023, m_bounce := Some caseCall\<rparr>"

lemma sample_call_runs: "\<exists>t. run_caseCall (sample_ext []) sample_call = Ok t \<and> length (m_mem t) = 32"
proof -
  let ?E = "sample_ext [] :: unit ext"
  define u where "u = sample_call\<lparr>m_bounce := Some interpretCases, m_runGas := 9700\<rparr>"
  have sp: "SP u i = [5000, 7, 3, 0, 0, 0, 32] ! i" "m_OP u = I_CALL" if "i < 7" for i using that
    by (simp_all add: u_def sample_call_def sample_vm_def SP_def stackEnd_def)
  have s: "callStaticGas ?E (sample_call\<lparr>m_bounce := Some interpretCases\<rparr>) = Ok u"
    by (simp add: callStaticGas_def u_def sample_call_def sample_ext_def schedule_defs sample_vm_def vm_entry_def SP_def stackEnd_def)
  have fits: "mem_fits (u\<lparr>m_newMemSize := 32\<rparr>)" and small: "smallRun (evmSchedule ?E) (u\<lparr>m_newMemSize := 32\<rparr>)"
    by (simp_all add: mem_fits_def smallRun_def u_def sample_call_def sample_vm_def vm_entry_def)
  define v where "v = u\<lparr>m_newMemSize := 32, m_runGas := 9703, m_mem := replicate 32 0\<rparr>"
  have "updateMem (evmSchedule ?E) 32 (u\<lparr>m_newMemSize := 32\<rparr>) = Ok v"
    using updateMem_Ok [OF fits small, of 32]
    by (simp add: v_def u_def sample_call_def sample_vm_def vm_entry_def roundUp_def memDelta_def memCost_def copyCost_def schedule_defs sample_ext_def)
  then have m: "callMem (evmSchedule ?E) u = Ok v" by (simp add: callMem_def sp sp(2) [of 0] memNeed_Some)
  have sv: "SP v i = SP u i" "m_OP v = I_CALL" for i by (simp_all add: v_def sp(2) [of 0])
  have g: "callGasAllowance (evmSchedule ?E) (v\<lparr>m_io_gas := 10297\<rparr>) = 5000"
    by (simp add: callGasAllowance_def sv sp sample_ext_def schedule_defs staticCallDepthLimit_def)
  let ?x = "v\<lparr>m_runGas := 5000, m_io_gas := 5297\<rparr>"
  have "\<exists>y. callReady ?E 5000 (\<lambda>p out. upd (doCall ?E p out)) ?x = Ok y" by (simp add: callReady_def Let_def upd_def)
  then obtain y where r: "callReady ?E 5000 (\<lambda>p out. upd (doCall ?E p out)) ?x = Ok y" ..
  then have y: "callPass ?E (\<lambda>p out. upd (doCall ?E p out)) (v\<lparr>m_io_gas := 10297\<rparr>) = Ok y"
    using g by (simp add: callPass_def Let_def)
  have l: "length (m_mem y) = length (m_mem ?x)" unfolding callReady_Ok [OF r]
    by (rule doCall_mem) (auto simp: sv sp v_def split: if_splits)
  then have l: "length (m_mem y) = 32" by (simp add: v_def)
  have "m_runGas v = 9703" "m_io_gas v = 20000" by (simp_all add: v_def u_def sample_call_def)
  with s m y have "run_caseCall ?E sample_call = Ok (y\<lparr>m_PC := m_PC y + 1\<rparr>)"
    by (simp add: run_caseCall_def caseCallSetup_def)
  with l show ?thesis by auto
qed

theorem call_gas_settled_witness:
  "\<exists>t. run_caseCall (sample_ext []) sample_call = Ok t \<and> unat (m_io_gas t) = 12597"
proof -
  obtain t where t: "run_caseCall (sample_ext []) sample_call = Ok t" "length (m_mem t) = 32" using sample_call_runs by blast
  have s: "mem_fits sample_call" "m_copyMemSize sample_call = 0" "m_io_gas sample_call = 20000" "m_mem sample_call = []"
    "m_OP sample_call = I_CALL" "SP sample_call 0 = 5000" "SP sample_call 2 = 3"
    by (simp_all add: mem_fits_def sample_call_def sample_vm_def vm_entry_def SP_def stackEnd_def)
  have e: "evmSchedule (sample_ext [] :: unit ext) = EIP158Schedule" "balance (sample_ext [] :: unit ext) a w = 100" "depth (sample_ext [] :: unit ext) = 0"
    "ext_call (sample_ext [] :: unit ext) p w = (True, [42], cp_gas p, w)" "account_exists (sample_ext [] :: unit ext) a w" for a w p
    by (simp_all add: sample_ext_def)
  have v: "valueTransfer (callParams (sample_ext []) g (sample_call\<lparr>m_mem := m\<rparr>)) = 3" for g m
    by (simp add: callParams_def Let_def s)
  have st: "call_static (sample_ext []) sample_call = 9700" by (simp add: call_static_def s e schedule_defs)
  from call_gas_settled [OF sample_env_ok s(1,2) t(1)] t(2)
  show ?thesis using t(1) by (auto simp: s e v st schedule_defs memCost_def staticCallDepthLimit_def Let_def)
qed

text \<open>A creation that cannot be made, for lack of balance or at the depth limit, leaves the world
  and the gas alone and pushes zero.\<close>

theorem create_refused:
  assumes "balance E (myAddress E) (m_ext s) < SP s 0 \<or> 1024 \<le> depth E"
  shows "doCreate E s = s\<lparr>m_stack := (m_stack s)(m_SPP s := 0)\<rparr>"
  using assms by (auto simp: doCreate_def Let_def setSPP_def not_le)

theorem create_refused_witness:
  "doCreate (sample_ext []) (sample_vm [] [101, 0, 0]) = setSPP 0 (sample_vm [] [101, 0, 0])"
  by (subst create_refused) (simp_all add: setSPP_def sample_ext_def sample_vm_def vm_entry_def SP_def stackEnd_def)

end
