(* ===== verification/VMDispatch.thy ===== *)
theory VMDispatch
  imports Instruction
begin

text \<open>
  The label table of the indirect-threaded interpreter in \<open>libevm/VMConfig.h\<close>, the alternative to the
  loop and switch that \<open>EVM_JUMP_DISPATCH\<close> selects (it is off in the file). \<open>None\<close> is the label
  \<open>INVALID\<close>, that is the default case. The table is compared with the enumeration the switch uses.
\<close>

definition jumpTable_low :: "instruction option list list" where
  "jumpTable_low = [
     [Some I_STOP, Some I_ADD, Some I_MUL, Some I_SUB, Some I_DIV, Some I_SDIV, Some I_MOD,
      Some I_SMOD, Some I_ADDMOD, Some I_MULMOD, Some I_EXP, Some I_SIGNEXTEND, None, None,
      None, None],
     [Some I_LT, Some I_GT, Some I_SLT, Some I_SGT, Some I_EQ, Some I_ISZERO, Some I_AND,
      Some I_OR, Some I_XOR, Some I_NOT, Some I_BYTE, None, None, None, None, None],
     [Some I_SHA3, None, None, None, None, None, None, None, None, None, None, None, None,
      None, None, None],
     [Some I_ADDRESS, Some I_BALANCE, Some I_ORIGIN, Some I_CALLER, Some I_CALLVALUE,
      Some I_CALLDATALOAD, Some I_CALLDATASIZE, Some I_CALLDATACOPY, Some I_CODESIZE,
      Some I_CODECOPY, Some I_GASPRICE, Some I_EXTCODESIZE, Some I_EXTCODECOPY, None, None, None],
     [Some I_BLOCKHASH, Some I_COINBASE, Some I_TIMESTAMP, Some I_NUMBER, Some I_DIFFICULTY,
      Some I_GASLIMIT, Some I_JUMPTO, Some I_JUMPIF, Some I_JUMPV, Some I_JUMPSUB,
      Some I_JUMPSUBV, Some I_RETURNSUB, Some I_BEGINSUB, Some I_BEGINDATA, None, None],
     [Some I_POP, Some I_MLOAD, Some I_MSTORE, Some I_MSTORE8, Some I_SLOAD, Some I_SSTORE,
      Some I_JUMP, Some I_JUMPI, Some I_PC, Some I_MSIZE, Some I_GAS, Some I_JUMPDEST,
      Some I_BEGINDATA, Some I_BEGINSUB, None, None],
     [Some (I_PUSH 1), Some (I_PUSH 2), Some (I_PUSH 3), Some (I_PUSH 4), Some (I_PUSH 5),
      Some (I_PUSH 6), Some (I_PUSH 7), Some (I_PUSH 8), Some (I_PUSH 9), Some (I_PUSH 10),
      Some (I_PUSH 11), Some (I_PUSH 12), Some (I_PUSH 13), Some (I_PUSH 14), Some (I_PUSH 15),
      Some (I_PUSH 16)],
     [Some (I_PUSH 17), Some (I_PUSH 18), Some (I_PUSH 19), Some (I_PUSH 20), Some (I_PUSH 21),
      Some (I_PUSH 22), Some (I_PUSH 23), Some (I_PUSH 24), Some (I_PUSH 25), Some (I_PUSH 26),
      Some (I_PUSH 27), Some (I_PUSH 28), Some (I_PUSH 29), Some (I_PUSH 30), Some (I_PUSH 31),
      Some (I_PUSH 32)]]"

definition jumpTable_high :: "instruction option list list" where
  "jumpTable_high = [
     [Some (I_DUP 1), Some (I_DUP 2), Some (I_DUP 3), Some (I_DUP 4), Some (I_DUP 5),
      Some (I_DUP 6), Some (I_DUP 7), Some (I_DUP 8), Some (I_DUP 9), Some (I_DUP 10),
      Some (I_DUP 11), Some (I_DUP 12), Some (I_DUP 13), Some (I_DUP 14), Some (I_DUP 15),
      Some (I_DUP 16)],
     [Some (I_SWAP 1), Some (I_SWAP 2), Some (I_SWAP 3), Some (I_SWAP 4), Some (I_SWAP 5),
      Some (I_SWAP 6), Some (I_SWAP 7), Some (I_SWAP 8), Some (I_SWAP 9), Some (I_SWAP 10),
      Some (I_SWAP 11), Some (I_SWAP 12), Some (I_SWAP 13), Some (I_SWAP 14), Some (I_SWAP 15),
      Some (I_SWAP 16)],
     [Some (I_LOG 0), Some (I_LOG 1), Some (I_LOG 2), Some (I_LOG 3), Some (I_LOG 4), None,
      None, None, None, None, None, None, Some I_PUSHC, Some I_JUMPC, Some I_JUMPCI, Some I_BAD],
     [None, None, None, None, None, None, None, None, None, None, None, None, None, None, None,
      None],
     [None, None, None, None, None, None, None, None, None, None, None, None, None, None, None,
      None],
     [None, None, None, None, None, None, None, None, None, None, None, None, None, None, None,
      None],
     [None, None, None, None, None, None, None, None, None, None, None, None, None, None, None,
      None],
     [Some I_CREATE, Some I_CALL, Some I_CALLCODE, Some I_RETURN, Some I_DELEGATECALL, None,
      None, None, None, None, None, None, None, None, None, Some I_SUICIDE]]"

definition jumpTable :: "byte \<Rightarrow> instruction option" where
  "jumpTable op = (jumpTable_low @ jumpTable_high) ! (unat op div 16) ! (unat op mod 16)"

text \<open>The case the switch takes for a byte: the default case for one that is no enumerator.\<close>

definition switchLabel :: "instruction \<Rightarrow> instruction option" where
  "switchLabel i = (case i of I_Undefined b \<Rightarrow> None | _ \<Rightarrow> Some i)"

section \<open>Comparing the two\<close>

lemma nth_concat_rows:
  "(\<forall>r \<in> set xss. length r = k) \<Longrightarrow> i < k * length xss
     \<Longrightarrow> concat xss ! i = xss ! (i div k) ! (i mod k)"
proof (induction xss arbitrary: i)
  case (Cons r xss)
  then have k: "length r = k" "0 < k" by (auto intro: ccontr)
  show ?case
  proof (cases "i < k")
    case False
    then have "i div k = Suc ((i - k) div k)" "i mod k = (i - k) mod k"
      using k by (simp_all add: le_div_geq le_mod_geq)
    with Cons False k show ?thesis by (simp add: nth_append)
  qed (use k in \<open>simp add: nth_append\<close>)
qed simp

fun differing :: "nat \<Rightarrow> 'a list \<Rightarrow> 'a list \<Rightarrow> nat list" where
  "differing n (x # xs) (y # ys) = (if x = y then differing (n + 1) xs ys else n # differing (n + 1) xs ys)"
| "differing n _ _ = []"

lemma set_differing: "length xs = length ys \<Longrightarrow> n + i \<in> set (differing n xs ys) \<longleftrightarrow> i < length xs \<and> xs ! i \<noteq> ys ! i"
proof (induction n xs ys arbitrary: i rule: differing.induct)
  case (1 n x xs y ys)
  have low: "n + 1 \<le> m" if "m \<in> set (differing (n + 1) xs ys)" for m
    using that by (induction "n + 1" xs ys arbitrary: n rule: differing.induct) (fastforce split: if_splits)+
  from 1 low show ?case
    by (cases i) (fastforce split: if_splits)+
qed simp_all

lemma label_rows_shape:
  "\<forall>r \<in> set (jumpTable_low @ jumpTable_high). length r = 16" "length (jumpTable_low @ jumpTable_high) = 16"
  by (simp_all add: jumpTable_low_def jumpTable_high_def)

lemma dispatch_differing:
  "differing 0 (concat (jumpTable_low @ jumpTable_high)) (map switchLabel (concat enum_rows))
    = [70, 71, 72, 73, 74, 75, 76, 77, 78, 79, 92, 93, 253]"
  by (simp add: jumpTable_low_def jumpTable_high_def switchLabel_def enum_rows_def)

text \<open>The jump table and the switch disagree on exactly thirteen bytes. The subroutine jumps sit
  four places too early in the table (0x46 to 0x4f), \<open>BEGINSUB\<close> and \<open>BEGINDATA\<close> are exchanged (0x5c,
  0x5d) and \<open>REVERT\<close> (0xfd) is invalid.\<close>

theorem jump_table_mismatches:
  "jumpTable b \<noteq> switchLabel (Instruction b)
     \<longleftrightarrow> unat b \<in> {70, 71, 72, 73, 74, 75, 76, 77, 78, 79, 92, 93, 253}"
proof -
  let ?t = "concat (jumpTable_low @ jumpTable_high)" and ?e = "concat enum_rows"
  have b: "unat b < 256" using unsigned_less [of b, where ?'a = nat] by simp
  have l: "length ?t = 256" "length ?e = 256"
    using label_rows_shape enum_rows_shape by (simp_all add: length_concat sum_list_triv cong: map_cong)
  have j: "jumpTable b = ?t ! unat b" "Instruction b = ?e ! unat b"
    using nth_concat_rows [OF label_rows_shape(1), of "unat b"] nth_concat_rows [OF enum_rows_shape(2), of "unat b"]
      b label_rows_shape(2) enum_rows_shape(1)
    by (simp_all only: jumpTable_def Instruction_def)
  have "jumpTable b \<noteq> switchLabel (Instruction b) \<longleftrightarrow> unat b \<in> set (differing 0 ?t (map switchLabel ?e))"
    using set_differing [of ?t "map switchLabel ?e" 0 "unat b"] b l j by simp
  then show ?thesis unfolding dispatch_differing by simp
qed

end
