(* ===== verification/RangeMask.thy ===== *)
theory RangeMask
  imports Prelude
begin

text \<open>
  \<open>libdevcore/RangeMask.h\<close>: a set of numbers kept as disjoint ranges inside a ground range. The
  \<open>std::map\<close> from the begin to the end of each range is a list sorted by begin; \<open>upper_bound\<close> splits
  it in two. Numbers (C++ \<open>unsigned\<close>, or the \<open>T\<close> of the template) are natural numbers: every sum of
  the code stays at or below the end of the ground range, or one above the element it is given.

  The loop of \<open>unionWith\<close> advances only on ranges that are in order, so it is a partial function with
  \<open>None\<close> for not returning. \<open>mask_ok\<close> is the representation invariant, \<open>elems\<close> the set a mask denotes:
  every operation keeps the one and acts on the other as its name says.
\<close>

section \<open>The map of ranges\<close>

type_synonym range = "nat \<times> nat"

record RangeMask =
  m_all :: range
  m_ranges :: "range list"

definition at_most :: "nat \<Rightarrow> range list \<Rightarrow> range list" where
  "at_most k rs = takeWhile (\<lambda>r. fst r \<le> k) rs"

definition upper_bound :: "nat \<Rightarrow> range list \<Rightarrow> range list" where
  "upper_bound k rs = dropWhile (\<lambda>r. fst r \<le> k) rs"

fun rset :: "nat \<Rightarrow> nat \<Rightarrow> range list \<Rightarrow> range list" where
  "rset k v [] = [(k, v)]"
| "rset k v ((a, b) # rs) = (if k < a then (k, v) # (a, b) # rs
     else if k = a then (a, v) # rs else (a, b) # rset k v rs)"

definition rerase :: "nat \<Rightarrow> range list \<Rightarrow> range list" where
  "rerase k rs = filter (\<lambda>r. fst r \<noteq> k) rs"

section \<open>Operations\<close>

definition RangeMask_of :: "nat \<Rightarrow> nat \<Rightarrow> RangeMask" where
  "RangeMask_of b e = \<lparr>m_all = (b, e), m_ranges = []\<rparr>"

fun lowest_ranges :: "nat \<Rightarrow> range list \<Rightarrow> range list" where
  "lowest_ranges n [] = []"
| "lowest_ranges n ((a, b) # rs) = (if n = 0 then []
     else let c = min (a + n) b in (a, c) # lowest_ranges (n - (c - a)) rs)"

definition lowest :: "nat \<Rightarrow> RangeMask \<Rightarrow> RangeMask" where
  "lowest n m = m\<lparr>m_ranges := lowest_ranges n (m_ranges m)\<rparr>"

fun inverted_ranges :: "nat \<Rightarrow> nat \<Rightarrow> range list \<Rightarrow> range list" where
  "inverted_ranges lst hi [] = (if lst \<noteq> hi then [(lst, hi)] else [])"
| "inverted_ranges lst hi ((a, b) # rs) =
     (if a \<noteq> lst then (lst, a) # inverted_ranges b hi rs else inverted_ranges b hi rs)"

definition inverted :: "RangeMask \<Rightarrow> RangeMask" where
  "inverted m = m\<lparr>m_ranges := inverted_ranges (fst (m_all m)) (snd (m_all m)) (m_ranges m)\<rparr>"

text \<open>The loop of \<open>unionWith(Range)\<close>; \<open>i\<close> is the next number to cover, \<open>e\<close> the end of the range.\<close>

partial_function (option) union_loop :: "range list \<Rightarrow> nat \<Rightarrow> nat \<Rightarrow> range list option" where
  "union_loop rs i e =
     (if i < e
      then let before = at_most i rs; after = upper_bound i rs
           in if before = [] \<or> snd (last before) < i
              then if after = [] \<or> e < fst (hd after) then Some (rset i e rs)
                   else if fst (hd after) = i then union_loop rs (snd (hd after)) e
                   else union_loop (rerase (fst (hd after)) (rset i (snd (hd after)) rs)) (snd (hd after)) e
              else if snd (last before) = i
              then if after = [] \<or> e < fst (hd after) then Some (rset (fst (last before)) e rs)
                   else union_loop (rerase (fst (hd after)) (rset (fst (last before)) (snd (hd after)) rs))
                     (snd (hd after)) e
              else union_loop rs (snd (last before)) e
      else Some rs)"

definition unionWith_range :: "range \<Rightarrow> RangeMask \<Rightarrow> RangeMask option" where
  "unionWith_range r m = map_option (\<lambda>rs. m\<lparr>m_ranges := rs\<rparr>) (union_loop (m_ranges m) (fst r) (snd r))"

definition unionWith_elem :: "nat \<Rightarrow> RangeMask \<Rightarrow> RangeMask option" where
  "unionWith_elem i m = unionWith_range (i, i + 1) m"

fun unionWith_ranges :: "range list \<Rightarrow> RangeMask \<Rightarrow> RangeMask option" where
  "unionWith_ranges [] m = Some m"
| "unionWith_ranges (r # rs) m = (case unionWith_range r m of
     None \<Rightarrow> None | Some m' \<Rightarrow> unionWith_ranges rs m')"

definition unionWith :: "RangeMask \<Rightarrow> RangeMask \<Rightarrow> RangeMask option" where
  "unionWith n m = unionWith_ranges (m_ranges n)
     (m\<lparr>m_all := (min (fst (m_all n)) (fst (m_all m)), max (snd (m_all n)) (snd (m_all m)))\<rparr>)"

text \<open>\<open>operator-=\<close> on a range and on a mask: invert, unite, invert.\<close>

definition minus_range :: "range \<Rightarrow> RangeMask \<Rightarrow> RangeMask option" where
  "minus_range r m = map_option inverted (unionWith_range r (inverted m))"

definition minus_mask :: "RangeMask \<Rightarrow> RangeMask \<Rightarrow> RangeMask option" where
  "minus_mask n m = map_option inverted (unionWith n (inverted m))"

definition mask_contains :: "RangeMask \<Rightarrow> nat \<Rightarrow> bool" where
  "mask_contains m i = (let before = at_most i (m_ranges m)
     in if before = [] then False else i < snd (last before))"

definition mask_empty :: "RangeMask \<Rightarrow> bool" where
  "mask_empty m \<longleftrightarrow> m_ranges m = []"

definition mask_full :: "RangeMask \<Rightarrow> bool" where
  "mask_full m \<longleftrightarrow> fst (m_all m) = snd (m_all m) \<or> m_ranges m = [m_all m]"

definition mask_clear :: "RangeMask \<Rightarrow> RangeMask" where
  "mask_clear m = m\<lparr>m_ranges := []\<rparr>"

definition mask_reset :: "RangeMask \<Rightarrow> RangeMask" where
  "mask_reset m = m\<lparr>m_ranges := [], m_all := (0, 0)\<rparr>"

definition extendAll :: "nat \<Rightarrow> RangeMask \<Rightarrow> RangeMask" where
  "extendAll i m = m\<lparr>m_all := (min (fst (m_all m)) i, max (snd (m_all m)) (i + 1))\<rparr>"

definition mask_next :: "RangeMask \<Rightarrow> nat \<Rightarrow> nat" where
  "mask_next m t0 = (let t = t0 + 1; before = at_most t (m_ranges m); after = upper_bound t (m_ranges m)
     in if before \<noteq> [] \<and> fst (last before) \<le> t \<and> t < snd (last before) then t
        else if after = [] then snd (m_all m) else fst (hd after))"

definition mask_begin :: "RangeMask \<Rightarrow> nat" where
  "mask_begin m = (if m_ranges m = [] then snd (m_all m) else fst (hd (m_ranges m)))"

definition mask_size :: "RangeMask \<Rightarrow> nat" where
  "mask_size m = foldl (\<lambda>c r. c + (snd r - fst r)) 0 (m_ranges m)"

definition firstOut :: "RangeMask \<Rightarrow> nat" where
  "firstOut m = (case map_of (m_ranges m) (fst (m_all m)) of None \<Rightarrow> fst (m_all m) | Some e \<Rightarrow> e)"

definition lastIn :: "RangeMask \<Rightarrow> nat" where
  "lastIn m = (if m_ranges m = [] then fst (m_all m) else snd (last (m_ranges m)) - 1)"

section \<open>The invariant and the set\<close>

text \<open>Ranges in order, none empty, none touching the next, all between \<open>lo\<close> and \<open>hi\<close>.\<close>

fun ranges_ok :: "nat \<Rightarrow> nat \<Rightarrow> range list \<Rightarrow> bool" where
  "ranges_ok lo hi [] \<longleftrightarrow> True"
| "ranges_ok lo hi ((a, b) # rs) \<longleftrightarrow> lo \<le> a \<and> a < b \<and> b \<le> hi \<and> ranges_ok (b + 1) hi rs"

definition mask_ok :: "RangeMask \<Rightarrow> bool" where
  "mask_ok m \<longleftrightarrow> fst (m_all m) \<le> snd (m_all m) \<and> ranges_ok (fst (m_all m)) (snd (m_all m)) (m_ranges m)"

definition covers :: "range list \<Rightarrow> nat set" where
  "covers rs = (\<Union>r\<in>set rs. {fst r..<snd r})"

definition elems :: "RangeMask \<Rightarrow> nat set" where
  "elems m = covers (m_ranges m)"

definition ground :: "RangeMask \<Rightarrow> nat set" where
  "ground m = {fst (m_all m)..<snd (m_all m)}"

lemma covers_simps [simp]:
  "covers [] = {}" "covers (r # rs) = {fst r..<snd r} \<union> covers rs" "covers (xs @ ys) = covers xs \<union> covers ys"
  by (auto simp: covers_def)

lemma ranges_ok_mono: "ranges_ok lo hi rs \<Longrightarrow> lo' \<le> lo \<Longrightarrow> hi \<le> hi' \<Longrightarrow> ranges_ok lo' hi' rs"
  by (induction lo hi rs arbitrary: lo' rule: ranges_ok.induct) auto

lemma ranges_ok_set: "ranges_ok lo hi rs \<Longrightarrow> r \<in> set rs \<Longrightarrow> lo \<le> fst r \<and> fst r < snd r \<and> snd r \<le> hi"
  by (induction lo hi rs rule: ranges_ok.induct) fastforce+

lemma ranges_ok_bounds: "ranges_ok lo hi rs \<Longrightarrow> x \<in> covers rs \<Longrightarrow> lo \<le> x \<and> x < hi"
  using ranges_ok_set by (fastforce simp: covers_def)

lemma ranges_ok_append [simp]:
  "ranges_ok lo hi (xs @ ys) \<longleftrightarrow> ranges_ok lo hi xs \<and> ranges_ok (if xs = [] then lo else snd (last xs) + 1) hi ys"
  by (induction lo hi xs rule: ranges_ok.induct) auto

lemma elems_ground: "mask_ok m \<Longrightarrow> elems m \<subseteq> ground m"
  unfolding mask_ok_def elems_def ground_def using ranges_ok_bounds by fastforce

lemma finite_covers [simp]: "finite (covers rs)"
  by (simp add: covers_def)

text \<open>A search for \<open>i\<close> splits the ranges; \<open>i\<close> can only be covered by the last range before the split.\<close>

lemma split_ranges: "at_most i rs @ upper_bound i rs = rs"
  by (simp add: at_most_def upper_bound_def)

lemma at_most_before: "r \<in> set (at_most i rs) \<Longrightarrow> fst r \<le> i"
  by (auto simp: at_most_def dest: set_takeWhileD)

lemma upper_bound_after: "ranges_ok lo hi rs \<Longrightarrow> r \<in> set (upper_bound i rs) \<Longrightarrow> i < fst r"
proof (induction lo hi rs rule: ranges_ok.induct)
  case (2 lo hi a b rs)
  then show ?case using ranges_ok_set [of "b + 1" hi rs r]
    by (auto simp: upper_bound_def split: if_splits)
qed (simp add: upper_bound_def)

lemma search_cases:
  assumes "ranges_ok lo hi rs"
  obtains (none) after where "at_most i rs = []" "upper_bound i rs = after" "rs = after"
      "\<forall>r\<in>set after. i < fst r"
  | (some) pre a b after where "at_most i rs = pre @ [(a, b)]" "upper_bound i rs = after"
      "rs = pre @ (a, b) # after" "a \<le> i" "\<forall>r\<in>set after. i < fst r"
proof (cases "at_most i rs" rule: rev_cases)
  case Nil
  then have "rs = upper_bound i rs" using split_ranges [of i rs] by simp
  with Nil none upper_bound_after [OF assms] show ?thesis by blast
next
  case (snoc pre r)
  obtain a b where "r = (a, b)" by force
  with snoc have "rs = pre @ (a, b) # upper_bound i rs" using split_ranges [of i rs] by simp
  moreover have "a \<le> i" using at_most_before [of "(a, b)" i rs] snoc \<open>r = (a, b)\<close> by simp
  ultimately show ?thesis using some upper_bound_after [OF assms] snoc \<open>r = (a, b)\<close> by blast
qed

lemma rset_new: "\<forall>r\<in>set xs. fst r < k \<Longrightarrow> \<forall>r\<in>set ys. k < fst r \<Longrightarrow> rset k v (xs @ ys) = xs @ (k, v) # ys"
proof (induction xs)
  case Nil
  then show ?case by (cases ys) auto
qed auto

lemma rset_old: "\<forall>r\<in>set xs. fst r < k \<Longrightarrow> rset k v (xs @ (k, u) # ys) = xs @ (k, v) # ys"
  by (induction xs) auto

lemma rerase_here: "\<forall>r\<in>set xs. fst r < k \<Longrightarrow> \<forall>r\<in>set ys. k < fst r \<Longrightarrow> rerase k (xs @ (k, u) # ys) = xs @ ys"
  by (induction xs) (auto simp: rerase_def intro!: filter_True)

lemma ranges_ok_split:
  assumes "ranges_ok lo hi (pre @ (a, b) # after)"
  shows "r \<in> set pre \<Longrightarrow> snd r < a" "r \<in> set after \<Longrightarrow> b < fst r" "a < b"
    and "r \<in> set pre \<Longrightarrow> fst r < a"
proof -
  from assms show pre: "r \<in> set pre \<Longrightarrow> snd r < a"
  proof (induction pre arbitrary: lo)
    case (Cons p pre)
    then have "ranges_ok (snd p + 1) hi (pre @ (a, b) # after)" by (cases p) (simp del: ranges_ok_append)
    with Cons ranges_ok_set [OF this, of "(a, b)"] show ?case by auto
  qed simp
  from assms have "ranges_ok (b + 1) hi after" by simp
  then show "r \<in> set after \<Longrightarrow> b < fst r" using ranges_ok_set by fastforce
  from assms show "a < b" by simp
  from assms pre show "r \<in> set pre \<Longrightarrow> fst r < a" using ranges_ok_set [of lo hi pre r] by auto
qed

lemma contains_iff:
  assumes "mask_ok m"
  shows "mask_contains m i \<longleftrightarrow> i \<in> elems m"
proof -
  from assms have ok: "ranges_ok (fst (m_all m)) (snd (m_all m)) (m_ranges m)" by (simp add: mask_ok_def)
  then show ?thesis
  proof (cases rule: search_cases [where i = i])
    case (none after)
    then show ?thesis by (auto simp: mask_contains_def elems_def covers_def)
  next
    case (some pre a b after)
    have "snd r < a" if "r \<in> set pre" for r
      using ranges_ok_split(1) [of _ _ pre a b after] ok that unfolding some by blast
    with some have "i \<notin> covers pre" "i \<notin> covers after" by (fastforce simp: covers_def)+
    with some show ?thesis by (simp add: mask_contains_def elems_def)
  qed
qed

section \<open>Union\<close>

text \<open>One step of the loop either ends with the whole range covered or makes a list that is in order
  again, covers what it covered and the numbers up to the new \<open>i\<close>, and goes on from there.\<close>

definition union_step :: "nat \<Rightarrow> nat \<Rightarrow> range list \<Rightarrow> nat \<Rightarrow> nat \<Rightarrow> bool" where
  "union_step lo hi rs i e \<longleftrightarrow>
     (\<exists>rs'. union_loop rs i e = Some rs' \<and> ranges_ok lo hi rs' \<and> covers rs' = covers rs \<union> {i..<e})
   \<or> (\<exists>qs j. union_loop rs i e = union_loop qs j e \<and> i < j \<and> ranges_ok lo hi qs
        \<and> covers qs \<union> {j..<e} = covers rs \<union> {i..<e})"

lemma covers_merge: "i \<le> c \<Longrightarrow> c \<le> d \<Longrightarrow> c \<le> e \<Longrightarrow> {i..<d} \<union> {d..<e} = {c..<d} \<union> {i..<e :: nat}"
  by auto

lemma union_step_gap:
  assumes at: "at_most i rs = before" "upper_bound i rs = after" and rs: "rs = before @ after"
    and before: "\<forall>r\<in>set before. fst r < i" "before = [] \<or> snd (last before) < i"
    and after: "\<forall>r\<in>set after. i < fst r"
    and ok: "ranges_ok lo hi rs" "lo \<le> i" "i < e" "e \<le> hi"
  shows "union_step lo hi rs i e"
proof -
  have set': "rset i v rs = before @ (i, v) # after" for v
    using rset_new [OF before(1) after] rs by simp
  show ?thesis
  proof (cases "after = [] \<or> e < fst (hd after)")
    case True
    then have "union_loop rs i e = Some (before @ (i, e) # after)"
      using at before ok set' by (subst union_loop.simps) auto
    moreover have "ranges_ok lo hi (before @ (i, e) # after)"
      using True before ok rs by (cases after) auto
    ultimately show ?thesis unfolding union_step_def rs by auto
  next
    case False
    then obtain c d after' where a: "after = (c, d) # after'" by (cases after) auto
    from ok(1) rs a ranges_ok_split [of lo hi before c d after']
    have d: "c < d" "\<forall>r\<in>set after'. d < fst r" by auto
    have c: "i < c" "c \<le> e" using False after a by auto
    have "rerase c (rset i d rs) = before @ (i, d) # after'"
      using rerase_here [of "before @ [(i, d)]" c after' d] before c d unfolding set' a by fastforce
    then have "union_loop rs i e = union_loop (before @ (i, d) # after') d e"
      using at before ok False c a by (subst union_loop.simps) auto
    moreover have "ranges_ok lo hi (before @ (i, d) # after')" using ok before rs a c d by auto
    moreover have "covers (before @ (i, d) # after') \<union> {d..<e} = covers rs \<union> {i..<e}"
      using covers_merge [of i c d e] c d unfolding rs a by auto
    ultimately show ?thesis unfolding union_step_def using c d less_trans by blast
  qed
qed

lemma union_step_touch:
  assumes at: "at_most i rs = pre @ [(a, i)]" "upper_bound i rs = after" and rs: "rs = pre @ (a, i) # after"
    and after: "\<forall>r\<in>set after. i < fst r"
    and ok: "ranges_ok lo hi rs" "lo \<le> i" "i < e" "e \<le> hi"
  shows "union_step lo hi rs i e"
proof -
  from ok(1) have pre: "\<forall>r\<in>set pre. fst r < a" and ai: "a < i"
    using ranges_ok_split(3,4) [of lo hi pre a i after] rs by auto
  have set': "rset a v rs = pre @ (a, v) # after" for v using rset_old [OF pre] rs by simp
  show ?thesis
  proof (cases "after = [] \<or> e < fst (hd after)")
    case True
    then have "union_loop rs i e = Some (pre @ (a, e) # after)"
      using at ok set' by (subst union_loop.simps) auto
    moreover have "ranges_ok lo hi (pre @ (a, e) # after)" using True ok rs ai by (cases after) auto
    moreover have "{a..<e} = {a..<i} \<union> {i..<e}" using ai ok by auto
    ultimately show ?thesis unfolding union_step_def rs by auto
  next
    case False
    then obtain c d after' where a': "after = (c, d) # after'" by (cases after) auto
    from ok(1) rs a' ranges_ok_split [of lo hi "pre @ [(a, i)]" c d after']
    have d: "c < d" "\<forall>r\<in>set after'. d < fst r" by auto
    have c: "i < c" "c \<le> e" using False after a' by auto
    have "rerase c (rset a d rs) = pre @ (a, d) # after'"
      using rerase_here [of "pre @ [(a, d)]" c after' d] pre ai c d unfolding set' a' by fastforce
    then have "union_loop rs i e = union_loop (pre @ (a, d) # after') d e"
      using at ok False c a' by (subst union_loop.simps) auto
    moreover have "ranges_ok lo hi (pre @ (a, d) # after')" using ok rs a' ai c d by auto
    moreover have "{a..<d} = {a..<i} \<union> {i..<d}" using ai c d by auto
    then have "covers (pre @ (a, d) # after') \<union> {d..<e} = covers rs \<union> {i..<e}"
      using covers_merge [of i c d e] c d unfolding rs a' by auto
    ultimately show ?thesis unfolding union_step_def using c d less_trans by blast
  qed
qed

lemma union_step_ok:
  assumes ok: "ranges_ok lo hi rs" "lo \<le> i" "i < e" "e \<le> hi"
  shows "union_step lo hi rs i e"
  using ok(1)
proof (cases rule: search_cases [where i = i])
  case none
  then show ?thesis using union_step_gap [of i rs "[]" rs] ok by simp
next
  case (some pre a b after)
  with ok(1) have pre: "\<forall>r\<in>set pre. fst r < a" and ab: "a < b"
    using ranges_ok_split(3,4) [of lo hi pre a b after] by auto
  consider "b < i" | "b = i" | "i < b" by linarith
  then show ?thesis
  proof cases
    case 1
    then show ?thesis using union_step_gap [of i rs "pre @ [(a, b)]" after] some pre ab ok by fastforce
  next
    case 2
    then show ?thesis using union_step_touch [of i rs pre a after] some ok by simp
  next
    case 3
    with some ok have "union_loop rs i e = union_loop rs b e" by (subst union_loop.simps) simp
    moreover have "covers rs \<union> {b..<e} = covers rs \<union> {i..<e}" using 3 some by auto
    ultimately show ?thesis unfolding union_step_def using 3 ok by blast
  qed
qed

lemma union_loop_covers:
  "ranges_ok lo hi rs \<Longrightarrow> lo \<le> i \<Longrightarrow> e \<le> hi \<Longrightarrow>
    \<exists>rs'. union_loop rs i e = Some rs' \<and> ranges_ok lo hi rs' \<and> covers rs' = covers rs \<union> {i..<e}"
proof (induction "e - i" arbitrary: rs i rule: less_induct)
  case less
  show ?case
  proof (cases "i < e")
    case False
    with less show ?thesis by (subst union_loop.simps) auto
  next
    case True
    with less.prems union_step_ok [of lo hi rs i e] have "union_step lo hi rs i e" by simp
    then show ?thesis unfolding union_step_def
    proof (elim disjE exE conjE)
      fix qs j assume "union_loop rs i e = union_loop qs j e" "i < j" "ranges_ok lo hi qs"
        "covers qs \<union> {j..<e} = covers rs \<union> {i..<e}"
      with less True show ?thesis by (metis diff_less_mono2 order.trans nat_less_le)
    qed blast
  qed
qed

lemma unionWith_range_ok:
  assumes "mask_ok m" "fst (m_all m) \<le> fst r" "snd r \<le> snd (m_all m)"
  shows "\<exists>m'. unionWith_range r m = Some m' \<and> mask_ok m' \<and> m_all m' = m_all m
    \<and> elems m' = elems m \<union> {fst r..<snd r}"
  using union_loop_covers [of "fst (m_all m)" "snd (m_all m)" "m_ranges m" "fst r" "snd r"] assms
  by (auto simp: unionWith_range_def mask_ok_def elems_def)

lemma unionWith_ranges_ok:
  assumes "mask_ok m" "ranges_ok (fst (m_all m)) (snd (m_all m)) rs"
  shows "\<exists>m'. unionWith_ranges rs m = Some m' \<and> mask_ok m' \<and> m_all m' = m_all m
    \<and> elems m' = elems m \<union> covers rs"
  using assms
proof (induction rs arbitrary: m)
  case (Cons r rs)
  obtain a b where r: "r = (a, b)" by force
  with Cons unionWith_range_ok [of m r] obtain m' where m': "unionWith_range r m = Some m'" "mask_ok m'"
    "m_all m' = m_all m" "elems m' = elems m \<union> {a..<b}" by auto
  moreover have "ranges_ok (fst (m_all m')) (snd (m_all m')) rs"
    using Cons.prems r m' ranges_ok_mono [of "b + 1" _ rs] by auto
  ultimately show ?case using Cons.IH [of m'] r by (auto simp: Un_assoc)
qed simp

lemma unionWith_ok:
  assumes "mask_ok m" "mask_ok n"
  shows "\<exists>m'. unionWith n m = Some m' \<and> mask_ok m' \<and> elems m' = elems m \<union> elems n
    \<and> m_all m' = (min (fst (m_all n)) (fst (m_all m)), max (snd (m_all n)) (snd (m_all m)))"
proof -
  let ?a = "(min (fst (m_all n)) (fst (m_all m)), max (snd (m_all n)) (snd (m_all m)))"
  have "mask_ok (m\<lparr>m_all := ?a\<rparr>)" "ranges_ok (fst ?a) (snd ?a) (m_ranges n)"
    using assms by (auto simp: mask_ok_def elim!: ranges_ok_mono)
  then show ?thesis
    using unionWith_ranges_ok [of "m\<lparr>m_all := ?a\<rparr>" "m_ranges n"] by (auto simp: unionWith_def elems_def)
qed

section \<open>Complement and difference\<close>

lemma inverted_ranges_ok:
  "ranges_ok (lo + k) hi rs \<Longrightarrow> lo \<le> hi \<Longrightarrow> k \<le> 1 \<Longrightarrow>
     ranges_ok lo hi (inverted_ranges lo hi rs) \<and> covers (inverted_ranges lo hi rs) = {lo..<hi} - covers rs"
proof (induction lo hi rs arbitrary: k rule: inverted_ranges.induct)
  case (2 lst hi a b rs)
  then have ab: "lst \<le> a" "a < b" "b \<le> hi" "ranges_ok (b + 1) hi rs" by auto
  then have IH: "ranges_ok b hi (inverted_ranges b hi rs)" "covers (inverted_ranges b hi rs) = {b..<hi} - covers rs"
    using 2 by (cases "a = lst"; fastforce)+
  have "ranges_ok (a + 1) hi (inverted_ranges b hi rs)" using IH(1) ab by (auto elim: ranges_ok_mono)
  moreover have "x \<notin> covers rs" if "x < b" for x using ab(4) ranges_ok_bounds that by fastforce
  ultimately show ?case using ab IH by (auto elim: ranges_ok_mono)
qed auto

lemma inverted_ok:
  assumes "mask_ok m"
  shows "mask_ok (inverted m)" "elems (inverted m) = ground m - elems m" "m_all (inverted m) = m_all m"
  using inverted_ranges_ok [of "fst (m_all m)" 0 "snd (m_all m)" "m_ranges m"] assms
  by (simp_all add: mask_ok_def inverted_def elems_def ground_def)

lemma minus_range_ok:
  assumes "mask_ok m" "fst (m_all m) \<le> fst r" "snd r \<le> snd (m_all m)"
  shows "\<exists>m'. minus_range r m = Some m' \<and> mask_ok m' \<and> m_all m' = m_all m
    \<and> elems m' = elems m - {fst r..<snd r}"
proof -
  from assms unionWith_range_ok [of "inverted m" r] inverted_ok [OF assms(1)] obtain m' where
    "unionWith_range r (inverted m) = Some m'" "mask_ok m'" "m_all m' = m_all m"
    "elems m' = ground m - elems m \<union> {fst r..<snd r}" by auto
  with inverted_ok [of m'] elems_ground [OF assms(1)] show ?thesis
    by (auto simp: minus_range_def ground_def)
qed

section \<open>Queries\<close>

lemma foldl_sizes: "foldl (\<lambda>c r. c + (snd r - fst r)) c rs = c + sum_list (map (\<lambda>r. snd r - fst (r :: range)) rs)"
  by (induction rs arbitrary: c) auto

lemma card_covers: "ranges_ok lo hi rs \<Longrightarrow> card (covers rs) = sum_list (map (\<lambda>r. snd r - fst r) rs)"
proof (induction lo hi rs rule: ranges_ok.induct)
  case (2 lo hi a b rs)
  then have "{a..<b} \<inter> covers rs = {}" using ranges_ok_bounds [of "b + 1" hi rs] by fastforce
  with 2 show ?case by (simp add: card_Un_disjoint)
qed simp

lemma size_card: "mask_ok m \<Longrightarrow> mask_size m = card (elems m)"
  using card_covers [of "fst (m_all m)" "snd (m_all m)" "m_ranges m"]
  by (simp add: mask_size_def foldl_sizes elems_def mask_ok_def)

lemma next_Min:
  assumes "mask_ok m"
  shows "mask_next m t = (if {x \<in> elems m. t < x} = {} then snd (m_all m) else Min {x \<in> elems m. t < x})"
proof -
  from assms have ok: "ranges_ok (fst (m_all m)) (snd (m_all m)) (m_ranges m)" by (simp add: mask_ok_def)
  have least: "mask_next m t = (if {x \<in> elems m. t < x} = {} then snd (m_all m) else Min {x \<in> elems m. t < x})"
    if "mask_next m t = y" "y \<in> elems m" "t < y" "\<forall>x\<in>elems m. t < x \<longrightarrow> y \<le> x" for y
  proof -
    from that have "Min {x \<in> elems m. t < x} = y" by (intro Min_eqI) (auto simp: elems_def)
    with that show ?thesis by auto
  qed
  have after: ?thesis
    if at: "upper_bound (t + 1) (m_ranges m) = after" "at_most (t + 1) (m_ranges m) = before"
      and rs: "m_ranges m = before @ after" and low: "\<forall>x\<in>covers before. x \<le> t"
      and no: "before = [] \<or> \<not> t + 1 < snd (last before)" for before after
  proof (cases after)
    case Nil
    with that have "mask_next m t = snd (m_all m)" by (auto simp: mask_next_def)
    moreover have "\<forall>x\<in>elems m. x \<le> t" using low rs Nil by (simp add: elems_def)
    ultimately show ?thesis by (auto simp: not_less)
  next
    case (Cons r after')
    obtain a b where r: "r = (a, b)" by force
    from ok rs Cons r have s: "a < b" "ranges_ok (b + 1) (snd (m_all m)) after'" by auto
    have "t + 1 < a" using upper_bound_after [OF ok, of r "t + 1"] at Cons r by auto
    moreover from s have "\<forall>x\<in>covers after'. b < x" using ranges_ok_bounds by fastforce
    moreover have "mask_next m t = a" using no at Cons r by (auto simp: mask_next_def)
    moreover have "a \<in> elems m" using rs Cons r s by (simp add: elems_def)
    moreover have "\<forall>x\<in>elems m. t < x \<longrightarrow> a \<le> x"
      using low s \<open>\<forall>x\<in>covers after'. b < x\<close> unfolding elems_def rs Cons r by fastforce
    ultimately show ?thesis using least [of a] by simp
  qed
  from ok show ?thesis
  proof (cases rule: search_cases [where i = "t + 1"])
    case none
    then show ?thesis using after by auto
  next
    case (some pre a b after')
    have pre: "\<forall>x\<in>covers pre. x < a"
      using ok some(3) ranges_ok_split(1) [of _ _ pre a b after'] by (fastforce simp: covers_def)
    show ?thesis
    proof (cases "t + 1 < b")
      case True
      with some pre show ?thesis
        by (intro least [of "t + 1"]) (auto simp: mask_next_def elems_def)
    next
      case False
      with some pre show ?thesis by (intro after [of after' "pre @ [(a, b)]"]) auto
    qed
  qed
qed

lemma lowest_ranges_0 [simp]: "lowest_ranges 0 rs = []"
  by (cases rs) auto

lemma lowest_ranges_ok:
  "ranges_ok lo hi rs \<Longrightarrow> ranges_ok lo hi (lowest_ranges n rs)
    \<and> covers (lowest_ranges n rs) \<subseteq> covers rs
    \<and> card (covers (lowest_ranges n rs)) = min n (card (covers rs))
    \<and> (\<forall>x \<in> covers (lowest_ranges n rs). \<forall>y \<in> covers rs - covers (lowest_ranges n rs). x < y)"
proof (induction n rs arbitrary: lo rule: lowest_ranges.induct)
  case (2 n a b rs)
  note IH' = "2.IH" and ok = "2.prems"
  then have ab: "a < b" "b \<le> hi" "ranges_ok (b + 1) hi rs" by auto
  have out: "b < x" if "x \<in> covers rs" for x using ab(3) ranges_ok_bounds that by fastforce
  then have dis: "{a..<b} \<inter> covers rs = {}" by fastforce
  consider "n = 0" | "n \<noteq> 0" "n \<le> b - a" | "b - a < n" by linarith
  then show ?case
  proof cases
    case 2
    then have l: "lowest_ranges n ((a, b) # rs) = [(a, a + n)]" using ab by (simp add: Let_def min_def)
    have "n \<le> card (covers ((a, b) # rs))" using 2 dis by (simp add: card_Un_disjoint)
    with l 2 ab ok show ?thesis using out by fastforce
  next
    case 3
    let ?r = "lowest_ranges (n - (b - a)) rs"
    have m: "min (a + n) b = b" using ab 3 by simp
    then have l: "lowest_ranges n ((a, b) # rs) = (a, b) # ?r" using 3 by simp
    have IH: "ranges_ok (b + 1) hi ?r" "covers ?r \<subseteq> covers rs"
      "card (covers ?r) = min (n - (b - a)) (card (covers rs))"
      "\<forall>x \<in> covers ?r. \<forall>y \<in> covers rs - covers ?r. x < y"
      using IH' [OF _ refl, of "b + 1"] 3 ab unfolding m by auto
    have "{a..<b} \<inter> covers ?r = {}" using dis IH(2) by blast
    then have "card (covers ((a, b) # ?r)) = min n (card (covers ((a, b) # rs)))"
      using dis IH(3) 3 ab by (simp add: card_Un_disjoint)
    moreover have "\<forall>x \<in> covers ((a, b) # ?r). \<forall>y \<in> covers ((a, b) # rs) - covers ((a, b) # ?r). x < y"
      using IH(4) out by fastforce
    ultimately show ?thesis using IH(1,2) ab ok unfolding l by auto
  qed simp
qed simp

lemma firstOut_Least:
  assumes "mask_ok m"
  shows "firstOut m = (LEAST x. fst (m_all m) \<le> x \<and> x \<notin> elems m)"
proof -
  obtain lo hi rs where m: "m = \<lparr>m_all = (lo, hi), m_ranges = rs\<rparr>" by (cases m) auto
  have ok: "ranges_ok lo hi rs" using assms unfolding m by (simp add: mask_ok_def)
  show ?thesis
  proof (cases "\<exists>b rs'. rs = (lo, b) # rs'")
    case True
    then obtain b rs' where rs: "rs = (lo, b) # rs'" by blast
    then have "b \<notin> covers rs'" using ok ranges_ok_bounds [of "b + 1" hi rs' b] by auto
    then have "(LEAST x. lo \<le> x \<and> x \<notin> covers rs) = b" using ok rs by (intro Least_equality) auto
    then show ?thesis unfolding m by (simp add: firstOut_def elems_def rs)
  next
    case False
    have low: "lo < fst r" if "r \<in> set rs" for r
    proof -
      from that ok False obtain a b rs' where rs: "rs = (a, b) # rs'" "lo < a" "ranges_ok (b + 1) hi rs'" "a < b"
        by (cases rs) force+
      then show ?thesis using that ranges_ok_set [of "b + 1" hi rs' r] by auto
    qed
    then have "map_of rs lo = None" by (force simp: map_of_eq_None_iff)
    moreover from low have "lo \<notin> covers rs" by (force simp: covers_def)
    then have "(LEAST x. lo \<le> x \<and> x \<notin> covers rs) = lo" by (intro Least_equality) auto
    ultimately show ?thesis unfolding m by (simp add: firstOut_def elems_def)
  qed
qed

lemma lastIn_Max:
  assumes "mask_ok m" "m_ranges m \<noteq> []"
  shows "lastIn m = Max (elems m)"
proof (rule Max_eqI [symmetric])
  obtain pre a b where rs: "m_ranges m = pre @ [(a, b)]" using assms(2) by (metis rev_exhaust surj_pair)
  with assms ranges_ok_split [of "fst (m_all m)" "snd (m_all m)" pre a b "[]"]
  have ab: "a < b" "\<forall>r\<in>set pre. snd r < a" by (auto simp: mask_ok_def)
  with rs show "lastIn m \<in> elems m" by (auto simp: lastIn_def elems_def)
  from ab rs show "\<And>y. y \<in> elems m \<Longrightarrow> y \<le> lastIn m" by (fastforce simp: lastIn_def elems_def covers_def)
qed (simp add: elems_def)

lemma full_iff:
  assumes "mask_ok m"
  shows "mask_full m \<longleftrightarrow> elems m = ground m"
proof -
  obtain lo hi rs where m: "m = \<lparr>m_all = (lo, hi), m_ranges = rs\<rparr>" by (cases m) auto
  have "rs = [(lo, hi)]" if "lo < hi" "covers rs = {lo..<hi}" "ranges_ok lo hi rs"
  proof -
    from that obtain a b rs' where rs: "rs = (a, b) # rs'" by (cases rs) auto
    with that have ok: "a < b" "ranges_ok (b + 1) hi rs'" "lo \<le> a" "b \<le> hi" by auto
    from that(1,2) rs have "lo \<in> {a..<b} \<union> covers rs'" by auto
    with ok have "a = lo" using ranges_ok_bounds [of "b + 1" hi rs' lo] by auto
    moreover have "b = hi"
    proof (rule ccontr)
      assume "b \<noteq> hi"
      with ok that have "b \<in> covers rs" by simp
      with ok rs show False using ranges_ok_bounds [of "b + 1" hi rs' b] by auto
    qed
    moreover have "rs' = []" using ok \<open>b = hi\<close> by (cases rs') auto
    ultimately show ?thesis using rs by simp
  qed
  with assms show ?thesis unfolding m
    by (auto simp: mask_full_def elems_def ground_def mask_ok_def dest: ranges_ok_bounds)
qed

section \<open>Properties\<close>

text \<open>C38: uniting a mask with a range of its ground, or with another mask, returns, keeps the ranges
  ordered, apart and inside the ground, and denotes exactly the union of the sets.\<close>

theorem mask_union:
  assumes "mask_ok m" "mask_ok n" "fst (m_all m) \<le> b" "e \<le> snd (m_all m)"
  shows "(\<exists>m'. unionWith_range (b, e) m = Some m' \<and> mask_ok m' \<and> elems m' = elems m \<union> {b..<e}
      \<and> m_all m' = m_all m)
    \<and> (\<exists>m'. unionWith n m = Some m' \<and> mask_ok m' \<and> elems m' = elems m \<union> elems n
      \<and> m_all m' = (min (fst (m_all n)) (fst (m_all m)), max (snd (m_all n)) (snd (m_all m))))"
  using unionWith_range_ok [of m "(b, e)"] unionWith_ok [of m n] assms by auto

definition sample_mask :: RangeMask where
  "sample_mask = \<lparr>m_all = (0, 20), m_ranges = [(2, 4), (6, 9), (12, 13)]\<rparr>"

lemma mask_union_witness:
  "\<exists>m'. unionWith_range (3, 7) sample_mask = Some m' \<and> elems m' = elems sample_mask \<union> {3..<7}"
  using mask_union [of sample_mask sample_mask 3 7] by (auto simp: sample_mask_def mask_ok_def)

text \<open>Inverting a mask gives the complement inside the ground range, and subtracting a range, done
  by inverting, uniting and inverting again, is set difference.\<close>

theorem mask_difference:
  assumes "mask_ok m" "fst (m_all m) \<le> b" "e \<le> snd (m_all m)"
  shows "mask_ok (inverted m) \<and> elems (inverted m) = ground m - elems m
    \<and> (\<exists>m'. minus_range (b, e) m = Some m' \<and> mask_ok m' \<and> elems m' = elems m - {b..<e})"
  using inverted_ok [of m] minus_range_ok [of m "(b, e)"] assms by auto

lemma mask_difference_witness:
  "\<exists>m'. minus_range (3, 7) sample_mask = Some m' \<and> elems m' = elems sample_mask - {3..<7}"
  using mask_difference [of sample_mask 3 7] by (auto simp: sample_mask_def mask_ok_def)

text \<open>The queries answer for the set: membership, number of elements, fullness, the next element
  after a number (or the end of the ground), and the first number of the ground that is missing.\<close>

theorem mask_queries:
  assumes "mask_ok m"
  shows "mask_contains m i = (i \<in> elems m) \<and> mask_size m = card (elems m)
    \<and> mask_full m = (elems m = ground m)
    \<and> mask_next m i = (if {x \<in> elems m. i < x} = {} then snd (m_all m) else Min {x \<in> elems m. i < x})
    \<and> firstOut m = (LEAST x. fst (m_all m) \<le> x \<and> x \<notin> elems m)"
  using contains_iff [OF assms] size_card [OF assms] full_iff [OF assms] next_Min [OF assms]
    firstOut_Least [OF assms] by simp

lemma mask_queries_witness: "mask_size sample_mask = card (elems sample_mask) \<and> 7 \<in> elems sample_mask"
  using mask_queries [of sample_mask 7]
  by (simp add: sample_mask_def mask_ok_def mask_contains_def at_most_def)

text \<open>\<open>lowest\<close> keeps the given number of elements, or all when there are fewer, and every element
  it keeps is below every one it drops.\<close>

theorem mask_lowest:
  assumes "mask_ok m"
  shows "mask_ok (lowest n m) \<and> elems (lowest n m) \<subseteq> elems m
    \<and> card (elems (lowest n m)) = min n (card (elems m))
    \<and> (\<forall>x \<in> elems (lowest n m). \<forall>y \<in> elems m - elems (lowest n m). x < y)"
  using lowest_ranges_ok [of "fst (m_all m)" "snd (m_all m)" "m_ranges m" n] assms
  by (simp add: mask_ok_def lowest_def elems_def)

lemma mask_lowest_witness: "card (elems (lowest 3 sample_mask)) = min 3 (card (elems sample_mask))"
  using mask_lowest [of sample_mask 3] by (simp add: sample_mask_def mask_ok_def)

end
