(* ===== verification/MemoryDB.thy ===== *)
theory MemoryDB
  imports Prelude "HOL-Library.AList"
begin

text \<open>
  \<open>libdevcore/MemoryDB.h\<close> and \<open>MemoryDB.cpp\<close>: the reference-counted store of trie nodes. The two
  \<open>unordered_map\<close>s are association lists with distinct keys, whose order stands for the order of
  iteration; the reference count is a C++ \<open>unsigned\<close>, 32 bits with wrap-around. The locks
  (\<open>DEV_GUARDED_DB\<close>) are left out: an operation is one step.

  The interface \<open>node_store\<close> is what the tries rely on: what has been inserted is found again, as long
  as the count of the key has room. Its lemmas hold for any sequence of insertions; it is interpreted
  here on \<open>MemoryDB\<close> and in \<open>OverlayDB\<close> on the store with a database under it.
\<close>

section \<open>State\<close>

record MemoryDB =
  m_main :: "(h256 \<times> bytes \<times> u32) list"
  m_aux :: "(h256 \<times> bytes \<times> bool) list"
  m_enforceRefs :: bool

definition MemoryDB_new :: MemoryDB where
  "MemoryDB_new = \<lparr>m_main = [], m_aux = [], m_enforceRefs = False\<rparr>"

section \<open>Operations\<close>

definition mdb_clear :: "'a MemoryDB_scheme \<Rightarrow> 'a MemoryDB_scheme" where
  "mdb_clear s = s\<lparr>m_main := [], m_aux := []\<rparr>"

text \<open>The assignment copies the two maps and keeps its own \<open>m_enforceRefs\<close>.\<close>

definition mdb_assign :: "'a MemoryDB_scheme \<Rightarrow> 'a MemoryDB_scheme \<Rightarrow> 'a MemoryDB_scheme" where
  "mdb_assign c s = s\<lparr>m_main := m_main c, m_aux := m_aux c\<rparr>"

definition mdb_get :: "'a MemoryDB_scheme \<Rightarrow> (h256 \<times> bytes) list" where
  "mdb_get s = map (\<lambda>(k, v, r). (k, v)) (filter (\<lambda>(k, v, r). \<not> m_enforceRefs s \<or> 0 < r) (m_main s))"

definition mdb_lookup :: "'a MemoryDB_scheme \<Rightarrow> h256 \<Rightarrow> bytes" where
  "mdb_lookup s h = (case map_of (m_main s) h of
     Some (v, r) \<Rightarrow> if \<not> m_enforceRefs s \<or> 0 < r then v else []
   | None \<Rightarrow> [])"

definition mdb_exists :: "'a MemoryDB_scheme \<Rightarrow> h256 \<Rightarrow> bool" where
  "mdb_exists s h = (case map_of (m_main s) h of
     Some (v, r) \<Rightarrow> \<not> m_enforceRefs s \<or> 0 < r
   | None \<Rightarrow> False)"

definition mdb_insert :: "h256 \<Rightarrow> bytes \<Rightarrow> 'a MemoryDB_scheme \<Rightarrow> 'a MemoryDB_scheme" where
  "mdb_insert h v s = (case map_of (m_main s) h of
     Some (u, r) \<Rightarrow> s\<lparr>m_main := AList.update h (v, r + 1) (m_main s)\<rparr>
   | None \<Rightarrow> s\<lparr>m_main := AList.update h (v, 1) (m_main s)\<rparr>)"

definition mdb_kill :: "h256 \<Rightarrow> 'a MemoryDB_scheme \<Rightarrow> bool \<times> 'a MemoryDB_scheme" where
  "mdb_kill h s = (case map_of (m_main s) h of
     Some (v, r) \<Rightarrow> if 0 < r then (True, s\<lparr>m_main := AList.update h (v, r - 1) (m_main s)\<rparr>) else (False, s)
   | None \<Rightarrow> (False, s))"

definition mdb_lookupAux :: "'a MemoryDB_scheme \<Rightarrow> h256 \<Rightarrow> bytes" where
  "mdb_lookupAux s h = (case map_of (m_aux s) h of
     Some (v, present) \<Rightarrow> if \<not> m_enforceRefs s \<or> present then v else []
   | None \<Rightarrow> [])"

text \<open>\<open>m_aux[_h]\<close> makes an empty entry when there is none.\<close>

definition mdb_removeAux :: "h256 \<Rightarrow> 'a MemoryDB_scheme \<Rightarrow> 'a MemoryDB_scheme" where
  "mdb_removeAux h s = (let v = (case map_of (m_aux s) h of Some (v, p) \<Rightarrow> v | None \<Rightarrow> [])
     in s\<lparr>m_aux := AList.update h (v, False) (m_aux s)\<rparr>)"

definition mdb_insertAux :: "h256 \<Rightarrow> bytes \<Rightarrow> 'a MemoryDB_scheme \<Rightarrow> 'a MemoryDB_scheme" where
  "mdb_insertAux h v s = s\<lparr>m_aux := AList.update h (v, True) (m_aux s)\<rparr>"

definition mdb_purge :: "'a MemoryDB_scheme \<Rightarrow> 'a MemoryDB_scheme" where
  "mdb_purge s = s\<lparr>m_main := filter (\<lambda>(k, v, r). r \<noteq> 0) (m_main s),
                   m_aux := filter (\<lambda>(k, v, p). p) (m_aux s)\<rparr>"

definition mdb_keys :: "'a MemoryDB_scheme \<Rightarrow> h256 list" where
  "mdb_keys s = map fst (filter (\<lambda>(k, v, r). r \<noteq> 0) (m_main s))"

text \<open>\<open>EnforceRefs\<close> sets the flag for the lifetime of the guard, here around an operation.\<close>

definition with_EnforceRefs :: "bool \<Rightarrow> ('a MemoryDB_scheme \<Rightarrow> 'b) \<Rightarrow> 'a MemoryDB_scheme \<Rightarrow> 'b" where
  "with_EnforceRefs r f s = f (s\<lparr>m_enforceRefs := r\<rparr>)"

section \<open>The interface of a node store\<close>

locale node_store =
  fixes look :: "'s \<Rightarrow> h256 \<Rightarrow> bytes" and ins :: "h256 \<Rightarrow> bytes \<Rightarrow> 's \<Rightarrow> 's"
    and room :: "nat \<Rightarrow> 's \<Rightarrow> h256 \<Rightarrow> bool"
  assumes look_same: "room 1 s h \<Longrightarrow> v \<noteq> [] \<Longrightarrow> look (ins h v s) h = v"
    and look_other: "h \<noteq> k \<Longrightarrow> look (ins h v s) k = look s k"
    and room_ins: "room (Suc n) s k \<Longrightarrow> room n (ins h v s) k"
    and room_less: "room (Suc n) s k \<Longrightarrow> room n s k"
begin

definition ins_all :: "(h256 \<times> bytes) list \<Rightarrow> 's \<Rightarrow> 's" where
  "ins_all kvs s = fold (\<lambda>(k, v). ins k v) kvs s"

lemma room_fewer: "room n s k \<Longrightarrow> m \<le> n \<Longrightarrow> room m s k"
  by (induction n) (auto simp: le_Suc_eq dest: room_less)

lemma ins_all_room: "room (length kvs + n) s k \<Longrightarrow> room n (ins_all kvs s) k"
  unfolding ins_all_def by (induction kvs arbitrary: s) (auto dest: room_ins)

lemma ins_all_other: "k \<notin> fst ` set kvs \<Longrightarrow> look (ins_all kvs s) k = look s k"
  unfolding ins_all_def by (induction kvs arbitrary: s) (auto simp: look_other)

text \<open>The last value inserted under a key is found, whatever is inserted in between.\<close>

lemma ins_all_last:
  assumes "map_of (rev kvs) k = Some v" "v \<noteq> []" "room (length kvs) s k"
  shows "look (ins_all kvs s) k = v"
  using assms
proof (induction kvs arbitrary: s)
  case (Cons kv kvs)
  obtain h w where kv: "kv = (h, w)" by force
  have r: "room (length kvs) (ins h w s) k" using Cons.prems(3) by (simp add: room_ins)
  have last: "map_of (rev (kv # kvs)) k
      = (case map_of (rev kvs) k of None \<Rightarrow> if k = h then Some w else None | Some x \<Rightarrow> Some x)"
    by (simp add: kv map_add_def split: option.split)
  show ?case
  proof (cases "map_of (rev kvs) k")
    case None
    then have "k \<notin> fst ` set kvs" by (simp add: map_of_eq_None_iff)
    moreover have "h = k" "w = v" using Cons.prems(1) None unfolding last by (simp_all split: if_splits)
    moreover have "room 1 s k" using Cons.prems(3) room_fewer [of "Suc (length kvs)" s k 1] by simp
    ultimately show ?thesis
      using ins_all_other [of k kvs "ins h w s"] look_same Cons.prems(2) by (simp add: kv ins_all_def)
  next
    case (Some x)
    with Cons.prems(1) have "map_of (rev kvs) k = Some v" unfolding last by simp
    then show ?thesis using Cons.IH [of "ins h w s"] Cons.prems(2) r by (simp add: ins_all_def kv)
  qed
qed simp

text \<open>Content addressing: with keys that are the hash of what they name, every node inserted stays readable.\<close>

lemma content_addressed:
  assumes "\<forall>(k, v) \<in> set kvs. k = H v \<and> v \<noteq> []" "inj_on H (snd ` set kvs)"
    and "(k, v) \<in> set kvs" "room (length kvs) s k"
  shows "look (ins_all kvs s) k = v"
proof -
  from assms(3) obtain w where w: "map_of (rev kvs) k = Some w"
    using weak_map_of_SomeI [of k v "rev kvs"] by auto
  then have "(k, w) \<in> set kvs" by (auto dest: map_of_SomeD)
  then have "k = H w" "k = H v" "v \<noteq> []" using assms(1,3) by blast+
  moreover have "v \<in> snd ` set kvs" "w \<in> snd ` set kvs"
    using assms(3) \<open>(k, w) \<in> set kvs\<close> image_eqI [of _ snd] by (metis snd_conv)+
  ultimately have "w = v" using assms(2) by (metis inj_onD)
  then show ?thesis using w assms(4) \<open>v \<noteq> []\<close> by (intro ins_all_last) simp_all
qed

end

section \<open>The memory store is a node store\<close>

definition refs :: "'a MemoryDB_scheme \<Rightarrow> h256 \<Rightarrow> u32" where
  "refs s h = (case map_of (m_main s) h of Some (v, r) \<Rightarrow> r | None \<Rightarrow> 0)"

text \<open>Room for \<open>n\<close> more references to a key: its count does not wrap.\<close>

definition mdb_room :: "nat \<Rightarrow> 'a MemoryDB_scheme \<Rightarrow> h256 \<Rightarrow> bool" where
  "mdb_room n s h \<longleftrightarrow> unat (refs s h) + n < 2 ^ 32"

lemma map_of_insert: "map_of (m_main (mdb_insert h v s)) k
    = (if k = h then Some (v, refs s h + 1) else map_of (m_main s) k)"
  by (auto simp: mdb_insert_def refs_def update_conv split: option.splits)

lemma insert_frame [simp]: "m_aux (mdb_insert h v s) = m_aux s" "m_enforceRefs (mdb_insert h v s) = m_enforceRefs s"
  by (auto simp: mdb_insert_def split: option.splits)

lemma refs_insert: "refs (mdb_insert h v s) k = (if k = h then refs s h + 1 else refs s k)"
  by (simp add: refs_def [of "mdb_insert h v s"] map_of_insert) (simp add: refs_def)

lemma unat_inc: "unat (r :: u32) + 1 < 2 ^ 32 \<Longrightarrow> unat (r + 1) = unat r + 1"
  by (simp add: unat_word_ariths)

interpretation mdb: node_store mdb_lookup mdb_insert mdb_room
proof
  fix s h and v :: bytes assume "mdb_room 1 s h" "v \<noteq> []"
  then have "0 < refs s h + 1" using unat_inc [of "refs s h"] by (simp add: mdb_room_def word_less_nat_alt)
  then show "mdb_lookup (mdb_insert h v s) h = v" by (simp add: mdb_lookup_def map_of_insert split: option.split)
next
  fix h k :: h256 and v s assume "h \<noteq> k"
  then show "mdb_lookup (mdb_insert h v s) k = mdb_lookup s k" by (simp add: mdb_lookup_def map_of_insert split: option.split)
next
  fix n s h v k assume "mdb_room (Suc n) s k"
  then show "mdb_room n (mdb_insert h v s) k"
    using unat_inc [of "refs s k"] by (auto simp: mdb_room_def refs_insert)
qed (simp add: mdb_room_def)

section \<open>Counting references\<close>

text \<open>The operations a trie issues, and what the count of a key should be after them.\<close>

datatype node_op = Ins h256 bytes | Kill h256

fun run_op :: "node_op \<Rightarrow> 'a MemoryDB_scheme \<Rightarrow> 'a MemoryDB_scheme" where
  "run_op (Ins h v) s = mdb_insert h v s"
| "run_op (Kill h) s = snd (mdb_kill h s)"

fun count_op :: "h256 \<Rightarrow> node_op \<Rightarrow> nat \<Rightarrow> nat" where
  "count_op h (Ins k v) n = (if k = h then n + 1 else n)"
| "count_op h (Kill k) n = (if k = h then n - 1 else n)"

fun value_op :: "h256 \<Rightarrow> node_op \<Rightarrow> bytes \<Rightarrow> bytes" where
  "value_op h (Ins k v) u = (if k = h then v else u)"
| "value_op h (Kill k) u = u"

definition stored :: "'a MemoryDB_scheme \<Rightarrow> h256 \<Rightarrow> bytes" where
  "stored s h = (case map_of (m_main s) h of Some (v, r) \<Rightarrow> v | None \<Rightarrow> [])"

lemma kill_frame [simp]: "m_aux (snd (mdb_kill h s)) = m_aux s" "m_enforceRefs (snd (mdb_kill h s)) = m_enforceRefs s"
  by (auto simp: mdb_kill_def split: option.splits)

lemma refs_kill: "refs (snd (mdb_kill h s)) k = (if k = h \<and> 0 < refs s h then refs s h - 1 else refs s k)"
  by (auto simp: mdb_kill_def refs_def update_conv split: option.splits)

lemma stored_kill: "stored (snd (mdb_kill h s)) k = stored s k"
  by (auto simp: mdb_kill_def stored_def update_conv split: option.splits)

lemma stored_insert: "stored (mdb_insert h v s) k = (if k = h then v else stored s k)"
  by (auto simp: stored_def map_of_insert)

lemma kill_result: "fst (mdb_kill h s) \<longleftrightarrow> 0 < refs s h"
  by (auto simp: mdb_kill_def refs_def split: option.splits)

lemma lookup_enforced: "m_enforceRefs s \<Longrightarrow> mdb_lookup s h = (if 0 < refs s h then stored s h else [])"
  by (auto simp: mdb_lookup_def refs_def stored_def split: option.splits)

lemma run_op_frame: "m_enforceRefs (run_op p s) = m_enforceRefs s" "m_aux (run_op p s) = m_aux s"
  by (cases p; simp)+

lemma count_op_step:
  "unat (refs s h) + 1 < 2 ^ 32 \<Longrightarrow> unat (refs (run_op p s) h) = count_op h p (unat (refs s h))"
  by (cases p) (auto simp: refs_insert refs_kill unat_inc word_less_nat_alt unat_sub_if')

lemma count_op_le: "count_op h p n \<le> n + 1"
  by (cases p) auto

lemma run_counts:
  "unat (refs s h) + length ps < 2 ^ 32 \<Longrightarrow>
     unat (refs (fold run_op ps s) h) = fold (count_op h) ps (unat (refs s h))"
proof (induction ps arbitrary: s)
  case (Cons p ps)
  have "unat (refs (run_op p s) h) = count_op h p (unat (refs s h))"
    using Cons.prems by (intro count_op_step) simp
  with Cons count_op_le [of h p "unat (refs s h)"] show ?case by simp
qed simp

lemma run_stored: "stored (fold run_op ps s) h = fold (value_op h) ps (stored s h)"
proof (induction ps arbitrary: s)
  case (Cons p ps)
  then show ?case by (cases p) (simp_all add: stored_insert stored_kill)
qed simp

lemma fold_frame: "m_enforceRefs (fold run_op ps s) = m_enforceRefs s"
  by (induction ps arbitrary: s) (simp_all add: run_op_frame)

section \<open>Distinct keys\<close>

definition mdb_ok :: "'a MemoryDB_scheme \<Rightarrow> bool" where
  "mdb_ok s \<longleftrightarrow> distinct (map fst (m_main s)) \<and> distinct (map fst (m_aux s))"

lemma mdb_ok_ops:
  "mdb_ok MemoryDB_new" "mdb_ok s \<Longrightarrow> mdb_ok (mdb_insert h v s)" "mdb_ok s \<Longrightarrow> mdb_ok (snd (mdb_kill h s))"
  "mdb_ok s \<Longrightarrow> mdb_ok (mdb_insertAux h v s)" "mdb_ok s \<Longrightarrow> mdb_ok (mdb_removeAux h s)"
  by (auto simp: mdb_ok_def MemoryDB_new_def mdb_insert_def mdb_kill_def mdb_insertAux_def mdb_removeAux_def
      Let_def distinct_update split: option.splits)

lemma map_of_filter:
  "distinct (map fst xs) \<Longrightarrow> map_of (filter P xs) k
     = (case map_of xs k of Some v \<Rightarrow> if P (k, v) then Some v else None | None \<Rightarrow> None)"
proof (induction xs)
  case (Cons x xs)
  then have "fst x = k \<Longrightarrow> k \<notin> fst ` set (filter P xs)" by auto
  then have "fst x = k \<Longrightarrow> map_of (filter P xs) k = None" by (simp only: map_of_eq_None_iff not_False_eq_True)
  with Cons show ?case by (cases x) (auto split: option.splits)
qed simp

lemma mdb_ok_purge: "mdb_ok s \<Longrightarrow> mdb_ok (mdb_purge s)"
  by (simp add: mdb_ok_def mdb_purge_def distinct_map_filter)

section \<open>Properties\<close>

lemma run_present: "map_of (m_main (fold run_op ps s)) h = None \<longleftrightarrow> map_of (m_main s) h = None \<and> (\<forall>v. Ins h v \<notin> set ps)"
proof (induction ps arbitrary: s)
  case (Cons p ps)
  have "map_of (m_main (run_op p s)) h = None \<longleftrightarrow> map_of (m_main s) h = None \<and> (\<forall>v. p \<noteq> Ins h v)"
    by (cases p) (auto simp: map_of_insert mdb_kill_def update_conv split: option.splits)
  with Cons show ?case by auto
qed simp

text \<open>C40: the reference counts are exact, in both modes of the store. After any run of fewer than \<open>2 ^ 32\<close> insertions and kills from
  an empty store, the count of a key is what counting up at every insertion and down at every kill that finds a
  reference gives. A store that enforces references answers with the last value inserted if that count is positive and
  with nothing otherwise; one that does not, which is the default, keeps answering with the last value inserted after the
  last reference is gone, and still says that the key exists.\<close>

theorem refcount_exact:
  assumes "length ps < 2 ^ 32"
  shows "let s = fold run_op ps (MemoryDB_new\<lparr>m_enforceRefs := enforce\<rparr>) in
     unat (refs s h) = fold (count_op h) ps 0
   \<and> mdb_lookup s h = (if 0 < fold (count_op h) ps 0 then fold (value_op h) ps [] else if enforce then [] else fold (value_op h) ps [])
   \<and> mdb_exists s h = (if enforce then 0 < fold (count_op h) ps 0 else h \<in> {k. \<exists>v. Ins k v \<in> set ps})"
proof -
  let ?e = "MemoryDB_new\<lparr>m_enforceRefs := enforce\<rparr>"
  let ?s = "fold run_op ps ?e"
  have e: "refs ?e h = 0" "stored ?e h = []" "map_of (m_main ?e) h = None" by (simp_all add: refs_def stored_def MemoryDB_new_def)
  then have r: "unat (refs ?s h) = fold (count_op h) ps 0" using run_counts [of ?e h ps] assms by simp
  have enf: "m_enforceRefs ?s = enforce" by (simp add: fold_frame)
  have "mdb_exists ?s h = (if enforce then 0 < refs ?s h else map_of (m_main ?s) h \<noteq> None)"
    using enf by (auto simp: mdb_exists_def refs_def split: option.splits)
  moreover have "mdb_lookup ?s h = (if enforce then (if 0 < refs ?s h then stored ?s h else []) else stored ?s h)"
    using enf by (auto simp: mdb_lookup_def refs_def stored_def split: option.splits)
  ultimately show ?thesis using r run_stored [of ps ?e h] run_present [of ps ?e h] e(2,3)
    by (cases enforce) (simp_all add: Let_def word_less_nat_alt del: not_None_eq)
qed

lemma refcount_exact_witness:
  "mdb_lookup (fold run_op [Ins [1] [7], Ins [1] [8], Kill [1]] (MemoryDB_new\<lparr>m_enforceRefs := True\<rparr>)) [1] = [8]
   \<and> mdb_lookup (fold run_op [Ins [1] [7], Kill [1]] (MemoryDB_new\<lparr>m_enforceRefs := True\<rparr>)) [1] = []
   \<and> mdb_lookup (fold run_op [Ins [1] [7], Kill [1]] (MemoryDB_new\<lparr>m_enforceRefs := False\<rparr>)) [1] = [7]"
  using refcount_exact [of "[Ins [1] [7], Ins [1] [8], Kill [1]]" True "[1]"] refcount_exact [of "[Ins [1] [7], Kill [1]]" True "[1]"]
    refcount_exact [of "[Ins [1] [7], Kill [1]]" False "[1]"] by (simp add: Let_def)

text \<open>A purge drops exactly the dead entries: afterwards every entry has a reference, and a store that
  enforces references answers every lookup, existence test and auxiliary lookup as before.\<close>

theorem purge_keeps:
  assumes "mdb_ok s" "m_enforceRefs s"
  shows "mdb_lookup (mdb_purge s) h = mdb_lookup s h \<and> mdb_exists (mdb_purge s) h = mdb_exists s h
    \<and> mdb_lookupAux (mdb_purge s) h = mdb_lookupAux s h
    \<and> map fst (m_main (mdb_purge s)) = mdb_keys s \<and> set (mdb_keys s) = {k. 0 < refs s k}"
proof -
  have main: "map_of (m_main (mdb_purge s)) h
      = (case map_of (m_main s) h of Some (v, r) \<Rightarrow> if r \<noteq> 0 then Some (v, r) else None | None \<Rightarrow> None)"
    using assms(1) by (auto simp: mdb_purge_def mdb_ok_def map_of_filter split: option.split)
  have aux: "map_of (m_aux (mdb_purge s)) h
      = (case map_of (m_aux s) h of Some (v, p) \<Rightarrow> if p then Some (v, p) else None | None \<Rightarrow> None)"
    using assms(1) by (auto simp: mdb_purge_def mdb_ok_def map_of_filter split: option.split)
  have "m_enforceRefs (mdb_purge s)" using assms(2) by (simp add: mdb_purge_def)
  moreover have "set (mdb_keys s) = {k. 0 < refs s k}"
  proof -
    have "k \<in> set (mdb_keys s) \<longleftrightarrow> (\<exists>v r. map_of (m_main s) k = Some (v, r) \<and> r \<noteq> 0)" for k
      using assms(1) by (force simp: mdb_keys_def mdb_ok_def)
    then show ?thesis by (auto simp: refs_def word_neq_0_conv split: option.splits)
  qed
  moreover have "map fst (m_main (mdb_purge s)) = mdb_keys s" by (simp add: mdb_purge_def mdb_keys_def)
  ultimately show ?thesis using assms(2) main aux
    by (auto simp: mdb_lookup_def mdb_exists_def mdb_lookupAux_def word_neq_0_conv split: option.split)
qed

definition sample_db :: MemoryDB where
  "sample_db = \<lparr>m_main = [([1], [7], 2), ([2], [9], 0)], m_aux = [([3], [5], True)], m_enforceRefs = True\<rparr>"

lemma purge_keeps_witness: "mdb_lookup (mdb_purge sample_db) [1] = [7] \<and> m_main (mdb_purge sample_db) = [([1], [7], 2)]"
  using purge_keeps [of sample_db "[1]"]
  by (simp add: sample_db_def mdb_ok_def) (simp add: mdb_lookup_def mdb_purge_def)

end
