(* ===== verification/OverlayDB.thy ===== *)
theory OverlayDB
  imports MemoryDB
begin

text \<open>
  \<open>libdevcore/OverlayDB.h\<close> and \<open>OverlayDB.cpp\<close>: the memory store over a database. The database (leveldb
  or rocksdb, no part of the repository) is a record of functions on a state \<open>'d\<close>; \<open>ldb_ok\<close> is its
  documented behaviour: a write of a batch that reports success applies its puts in order, a failed
  one changes nothing, and likewise for a deletion. \<open>OverlayDB\<close> extends the record \<open>MemoryDB\<close> as the
  class extends the class; \<open>None\<close> is the null pointer.

  A process that ends (\<open>exit(-1)\<close> after the tenth failed write) and the use of a null database are
  \<open>None\<close>. Warnings and sleeping are left out.
\<close>

section \<open>The database\<close>

record 'd ldb =
  ldb_get :: "'d \<Rightarrow> bytes \<Rightarrow> bytes option"
  ldb_write :: "(bytes \<times> bytes) list \<Rightarrow> 'd \<Rightarrow> bool \<times> 'd"
  ldb_delete :: "bytes \<Rightarrow> 'd \<Rightarrow> bool \<times> 'd"

definition ldb_ok :: "'d ldb \<Rightarrow> bool" where
  "ldb_ok L \<longleftrightarrow>
     (\<forall>b d k. ldb_get L (snd (ldb_write L b d)) k
        = (if fst (ldb_write L b d) then (case map_of (rev b) k of Some v \<Rightarrow> Some v | None \<Rightarrow> ldb_get L d k)
           else ldb_get L d k))
   \<and> (\<forall>h d k. ldb_get L (snd (ldb_delete L h d)) k
        = (if fst (ldb_delete L h d) \<and> k = h then None else ldb_get L d k))"

record 'd OverlayDB = MemoryDB +
  m_db :: "'d option"

section \<open>Operations\<close>

text \<open>A read leaves the string it is given empty when there is no such key, or no database.\<close>

definition db_read :: "'d ldb \<Rightarrow> 'd OverlayDB \<Rightarrow> bytes \<Rightarrow> bytes" where
  "db_read L s k = (case m_db s of None \<Rightarrow> [] | Some d \<Rightarrow>
     (case ldb_get L d k of Some v \<Rightarrow> v | None \<Rightarrow> []))"

definition aux_key :: "h256 \<Rightarrow> bytes" where
  "aux_key h = h @ [255]"

definition commit_batch :: "'a MemoryDB_scheme \<Rightarrow> (bytes \<times> bytes) list" where
  "commit_batch s = map (\<lambda>(k, v, r). (k, v)) (filter (\<lambda>(k, v, r). r \<noteq> 0) (m_main s))
     @ map (\<lambda>(k, v, p). (aux_key k, v)) (filter (\<lambda>(k, v, p). p) (m_aux s))"

primrec try_write :: "'d ldb \<Rightarrow> (bytes \<times> bytes) list \<Rightarrow> nat \<Rightarrow> 'd \<Rightarrow> 'd option" where
  "try_write L batch 0 d = None"
| "try_write L batch (Suc n) d = (let (ok, d') = ldb_write L batch d
     in if ok then Some d' else try_write L batch n d')"

definition commit :: "'d ldb \<Rightarrow> 'd OverlayDB \<Rightarrow> 'd OverlayDB option" where
  "commit L s = (case m_db s of None \<Rightarrow> Some s | Some d \<Rightarrow>
     map_option (\<lambda>d'. s\<lparr>m_main := [], m_aux := [], m_db := Some d'\<rparr>) (try_write L (commit_batch s) 10 d))"

definition odb_lookupAux :: "'d ldb \<Rightarrow> 'd OverlayDB \<Rightarrow> h256 \<Rightarrow> bytes" where
  "odb_lookupAux L s h = (let ret = mdb_lookupAux s h
     in if ret \<noteq> [] \<or> m_db s = None then ret else db_read L s (aux_key h))"

definition rollback :: "'d OverlayDB \<Rightarrow> 'd OverlayDB" where
  "rollback s = s\<lparr>m_main := []\<rparr>"

definition odb_lookup :: "'d ldb \<Rightarrow> 'd OverlayDB \<Rightarrow> h256 \<Rightarrow> bytes" where
  "odb_lookup L s h = (let ret = mdb_lookup s h
     in if ret = [] \<and> m_db s \<noteq> None then db_read L s h else ret)"

definition odb_exists :: "'d ldb \<Rightarrow> 'd OverlayDB \<Rightarrow> h256 \<Rightarrow> bool" where
  "odb_exists L s h = (if mdb_exists s h then True else db_read L s h \<noteq> [])"

definition odb_kill :: "h256 \<Rightarrow> 'd OverlayDB \<Rightarrow> 'd OverlayDB" where
  "odb_kill h s = snd (mdb_kill h s)"

definition deepkill :: "'d ldb \<Rightarrow> h256 \<Rightarrow> 'd OverlayDB \<Rightarrow> (bool \<times> 'd OverlayDB) option" where
  "deepkill L h s = (let s' = odb_kill h s in case m_db s' of None \<Rightarrow> None | Some d \<Rightarrow>
     let (ok, d') = ldb_delete L h d in Some (ok, s'\<lparr>m_db := Some d'\<rparr>))"

section \<open>The overlay is a node store\<close>

lemma m_db_insert [simp]: "m_db (mdb_insert h v s) = m_db s"
  by (auto simp: mdb_insert_def split: option.splits)

lemma m_db_kill [simp]: "m_db (snd (mdb_kill h s)) = m_db s"
  by (auto simp: mdb_kill_def split: option.splits)

interpretation odb: node_store "odb_lookup L" mdb_insert mdb_room for L :: "'d ldb"
proof
  fix s :: "'d OverlayDB" and h and v :: bytes
  assume "mdb_room 1 s h" "v \<noteq> []"
  then show "odb_lookup L (mdb_insert h v s) h = v"
    by (simp add: odb_lookup_def mdb.look_same)
next
  fix s :: "'d OverlayDB" and h k :: h256 and v
  assume "h \<noteq> k"
  then show "odb_lookup L (mdb_insert h v s) k = odb_lookup L s k"
    by (simp add: odb_lookup_def mdb.look_other db_read_def cong: if_cong)
qed (auto dest: mdb.room_ins mdb.room_less)

section \<open>Writing the batch\<close>

lemma try_write_Some:
  assumes "ldb_ok L"
  shows "try_write L b n d = Some d' \<Longrightarrow> ldb_get L d' k
    = (case map_of (rev b) k of Some v \<Rightarrow> Some v | None \<Rightarrow> ldb_get L d k)"
proof (induction n arbitrary: d)
  case (Suc n)
  obtain ok e where w: "ldb_write L b d = (ok, e)" by force
  with assms have "ldb_get L e k = (if ok then (case map_of (rev b) k of Some v \<Rightarrow> Some v | None \<Rightarrow> ldb_get L d k)
      else ldb_get L d k)"
    unfolding ldb_ok_def by (metis fst_conv snd_conv)
  with Suc w show ?case by (auto split: if_splits option.splits)
qed simp

lemma try_write_None:
  "try_write L b n d = None \<longleftrightarrow> (\<forall>i<n. \<not> fst (ldb_write L b (((\<lambda>d. snd (ldb_write L b d)) ^^ i) d)))"
proof (induction n arbitrary: d)
  case (Suc n)
  obtain ok e where w: "ldb_write L b d = (ok, e)" by force
  then have "try_write L b (Suc n) d = None \<longleftrightarrow> \<not> ok \<and> try_write L b n e = None" by auto
  also have "\<dots> \<longleftrightarrow> (\<forall>i<Suc n. \<not> fst (ldb_write L b (((\<lambda>d. snd (ldb_write L b d)) ^^ i) d)))"
    unfolding Suc using w by (auto simp: less_Suc_eq_0_disj funpow_Suc_right simp del: funpow.simps(2))
  finally show ?case .
qed simp

definition keys_ok :: "'a MemoryDB_scheme \<Rightarrow> bool" where
  "keys_ok s \<longleftrightarrow> (\<forall>k \<in> fst ` set (m_main s). length k = 32) \<and> (\<forall>k \<in> fst ` set (m_aux s). length k = 32)"

lemma aux_key_inj [simp]: "aux_key h = aux_key k \<longleftrightarrow> h = k"
  by (simp add: aux_key_def)

lemma length_aux_key [simp]: "length (aux_key h) = Suc (length h)"
  by (simp add: aux_key_def)

lemma map_of_rev_distinct: "distinct (map fst xs) \<Longrightarrow> map_of (rev xs) k = map_of xs k"
proof -
  assume d: "distinct (map fst xs)"
  then have "distinct (map fst (rev xs))" by (simp flip: rev_map)
  then have "map_of (rev xs) k = Some v \<longleftrightarrow> map_of xs k = Some v" for v
    using d by (simp only: map_of_eq_Some_iff set_rev)
  then show ?thesis by (metis option.exhaust)
qed

lemma map_of_values: "map_of (map (\<lambda>(k, v, r). (k, v)) xs) h = map_option fst (map_of xs h)"
  by (induction xs) auto

lemma map_of_aux_values: "map_of (map (\<lambda>(k, v, r). (aux_key k, v)) xs) (aux_key h) = map_option fst (map_of xs h)"
  by (induction xs) auto

text \<open>What the database holds after a commit, under the keys of nodes and of auxiliary values.\<close>

lemma batch_distinct:
  assumes "mdb_ok s" "keys_ok s"
  shows "distinct (map fst (commit_batch s))"
proof -
  let ?A = "filter (\<lambda>(k, v, r). r \<noteq> 0) (m_main s)" and ?B = "filter (\<lambda>(k, v, p). p) (m_aux s)"
  have "distinct (map fst ?A)" "distinct (map fst ?B)" using assms(1) by (simp_all add: mdb_ok_def distinct_map_filter)
  moreover from this have "distinct (map (aux_key \<circ> fst) ?B)"
    by (simp add: distinct_map comp_inj_on_iff [symmetric] inj_on_def)
  moreover have "length k = 32" if "k \<in> fst ` set ?A" for k using that assms(2) unfolding keys_ok_def by force
  moreover have "length k = 33" if "k \<in> (aux_key \<circ> fst) ` set ?B" for k
  proof -
    from that obtain p where "p \<in> set (m_aux s)" "k = aux_key (fst p)" by auto
    with assms(2) show ?thesis unfolding keys_ok_def by force
  qed
  moreover have "map fst (commit_batch s) = map fst ?A @ map (aux_key \<circ> fst) ?B"
    by (auto simp: commit_batch_def)
  ultimately show ?thesis by fastforce
qed

lemma batch_main:
  assumes "mdb_ok s" "keys_ok s" "length h = 32"
  shows "map_of (rev (commit_batch s)) h
    = (case map_of (m_main s) h of Some (v, r) \<Rightarrow> if r \<noteq> 0 then Some v else None | None \<Rightarrow> None)"
proof -
  have "h \<notin> fst ` set (map (\<lambda>(k, v, p). (aux_key k, v)) (filter (\<lambda>(k, v, p). p) (m_aux s)))"
    using assms(2,3) unfolding keys_ok_def by force
  then have "map_of (map (\<lambda>(k, v, p). (aux_key k, v)) (filter (\<lambda>(k, v, p). p) (m_aux s))) h = None"
    by (simp only: map_of_eq_None_iff not_False_eq_True)
  with assms show ?thesis unfolding map_of_rev_distinct [OF batch_distinct [OF assms(1,2)]]
    by (auto simp: commit_batch_def map_add_def map_of_values map_of_filter mdb_ok_def split: option.split)
qed

lemma batch_aux:
  assumes "mdb_ok s" "keys_ok s" "length h = 32"
  shows "map_of (rev (commit_batch s)) (aux_key h)
    = (case map_of (m_aux s) h of Some (v, p) \<Rightarrow> if p then Some v else None | None \<Rightarrow> None)"
proof -
  have "aux_key h \<notin> fst ` set (map (\<lambda>(k, v, r). (k, v)) (filter (\<lambda>(k, v, r). r \<noteq> 0) (m_main s)))"
    using assms(2,3) unfolding keys_ok_def by force
  then have "map_of (map (\<lambda>(k, v, r). (k, v)) (filter (\<lambda>(k, v, r). r \<noteq> 0) (m_main s))) (aux_key h) = None"
    by (simp only: map_of_eq_None_iff not_False_eq_True)
  with assms show ?thesis unfolding map_of_rev_distinct [OF batch_distinct [OF assms(1,2)]]
    by (auto simp: commit_batch_def map_add_def map_of_aux_values map_of_filter mdb_ok_def split: option.split)
qed

text \<open>Every live entry has a value: an empty string is how the code says that there is none.\<close>

definition values_ok :: "'a MemoryDB_scheme \<Rightarrow> bool" where
  "values_ok s \<longleftrightarrow> (\<forall>(k, v, r) \<in> set (m_main s). r \<noteq> 0 \<longrightarrow> v \<noteq> [])
     \<and> (\<forall>(k, v, p) \<in> set (m_aux s). p \<longrightarrow> v \<noteq> [])"

lemma commit_reads:
  assumes "ldb_ok L" "mdb_ok s" "keys_ok s" "commit L s = Some s'" "m_db s = Some d" "length h = 32"
  shows "db_read L s' h = (case map_of (m_main s) h of Some (v, r) \<Rightarrow> if r \<noteq> 0 then v else db_read L s h
      | None \<Rightarrow> db_read L s h)"
    "db_read L s' (aux_key h) = (case map_of (m_aux s) h of Some (v, p) \<Rightarrow> if p then v else db_read L s (aux_key h)
      | None \<Rightarrow> db_read L s (aux_key h))"
    "m_main s' = []" "m_aux s' = []" "m_db s' \<noteq> None"
proof -
  from assms(4,5) obtain d' where d': "try_write L (commit_batch s) 10 d = Some d'"
    "s' = s\<lparr>m_main := [], m_aux := [], m_db := Some d'\<rparr>" by (auto simp: commit_def)
  note get = try_write_Some [OF assms(1) d'(1)]
  show "db_read L s' h = (case map_of (m_main s) h of Some (v, r) \<Rightarrow> if r \<noteq> 0 then v else db_read L s h
      | None \<Rightarrow> db_read L s h)"
    using get [of h] batch_main [OF assms(2,3,6)] assms(5) by (auto simp: db_read_def d'(2) split: option.split)
  show "db_read L s' (aux_key h) = (case map_of (m_aux s) h of Some (v, p) \<Rightarrow> if p then v else db_read L s (aux_key h)
      | None \<Rightarrow> db_read L s (aux_key h))"
    using get [of "aux_key h"] batch_aux [OF assms(2,3,6)] assms(5)
    by (auto simp: db_read_def d'(2) split: option.split)
  show "m_main s' = []" "m_aux s' = []" "m_db s' \<noteq> None" by (simp_all add: d'(2))
qed

lemma values_main: "values_ok s \<Longrightarrow> map_of (m_main s) h = Some (v, r) \<Longrightarrow> r \<noteq> 0 \<Longrightarrow> v \<noteq> []"
  unfolding values_ok_def by (auto dest: map_of_SomeD)

lemma values_aux: "values_ok s \<Longrightarrow> map_of (m_aux s) h = Some (v, True) \<Longrightarrow> v \<noteq> []"
  unfolding values_ok_def by (auto dest: map_of_SomeD)

section \<open>Properties\<close>

text \<open>No entry under a key is dead.\<close>

definition no_dead :: "'a MemoryDB_scheme \<Rightarrow> h256 \<Rightarrow> bool" where
  "no_dead s h \<longleftrightarrow> (\<forall>v. map_of (m_main s) h \<noteq> Some (v, 0)) \<and> (\<forall>v. map_of (m_aux s) h \<noteq> Some (v, False))"

text \<open>C39: a commit moves the live entries to the database, with an empty memory afterwards, and changes no answer under a key
  unless the store does not enforce references, as by default, and holds a dead entry under it (no reference left, or an auxiliary value that
  was removed): in that mode a dead entry is read until the commit and dropped by it. In every other case a lookup, an
  existence test and an auxiliary lookup answer as before. The keys of
  nodes (32 bytes) and of auxiliary values (33 bytes) never meet.\<close>

theorem commit_transparent:
  assumes "ldb_ok L" "mdb_ok s" "keys_ok s" "values_ok s" "m_enforceRefs s \<or> no_dead s h"
    and "m_db s = Some d" "commit L s = Some s'" "length h = 32"
  shows "m_main s' = [] \<and> m_aux s' = [] \<and> odb_lookup L s' h = odb_lookup L s h
    \<and> odb_exists L s' h = odb_exists L s h \<and> odb_lookupAux L s' h = odb_lookupAux L s h"
proof -
  note c = commit_reads [OF assms(1-3,7,6,8)]
  have look: "odb_lookup L s' h = odb_lookup L s h"
    using c values_main [OF assms(4), of h] assms(5,6) no_dead_def [of s h]
    by (auto simp: odb_lookup_def mdb_lookup_def word_neq_0_conv split: option.split)
  moreover have "odb_exists L s' h = odb_exists L s h"
    using c values_main [OF assms(4), of h] assms(5) no_dead_def [of s h]
    by (auto simp: odb_exists_def mdb_exists_def word_neq_0_conv split: option.split)
  moreover have "odb_lookupAux L s' h = odb_lookupAux L s h"
    using c values_aux [OF assms(4), of h] assms(5,6) no_dead_def [of s h]
    by (auto simp: odb_lookupAux_def mdb_lookupAux_def split: option.split)
  ultimately show ?thesis using c by simp
qed

text \<open>A database that keeps its puts in a list and accepts every write.\<close>

definition list_db :: "(bytes \<times> bytes) list ldb" where
  "list_db = \<lparr>ldb_get = map_of, ldb_write = (\<lambda>b d. (True, rev b @ d)),
     ldb_delete = (\<lambda>h d. (True, filter (\<lambda>p. fst p \<noteq> h) d))\<rparr>"

lemma list_db_ok: "ldb_ok list_db"
proof -
  have "map_of (filter (\<lambda>p. fst p \<noteq> h) d) k = (if k = h then None else map_of d k)"
    for d :: "(bytes \<times> bytes) list" and h k
    by (induction d) auto
  then show ?thesis by (auto simp: ldb_ok_def list_db_def map_add_def split: option.split)
qed

definition sample_odb :: "(bytes \<times> bytes) list OverlayDB" where
  "sample_odb = \<lparr>m_main = [(replicate 32 1, [7], 1)], m_aux = [(replicate 32 1, [8], True)],
     m_enforceRefs = True, m_db = Some []\<rparr>"

lemma commit_transparent_witness:
  "\<exists>s'. commit list_db sample_odb = Some s' \<and> m_main s' = [] \<and> odb_lookup list_db s' (replicate 32 1) = [7]"
proof -
  have "mdb_ok sample_odb" "keys_ok sample_odb" "values_ok sample_odb" "m_enforceRefs sample_odb"
    "m_db sample_odb = Some []"
    by (simp_all add: sample_odb_def mdb_ok_def keys_ok_def values_ok_def)
  moreover obtain s' where "commit list_db sample_odb = Some s'"
    by (simp add: commit_def sample_odb_def list_db_def numeral_eq_Suc)
  moreover have "odb_lookup list_db sample_odb (replicate 32 1) = [7]"
    by (simp add: odb_lookup_def mdb_lookup_def sample_odb_def)
  ultimately show ?thesis
    using commit_transparent [OF list_db_ok, of sample_odb "replicate 32 1" "[]" s'] by auto
qed

text \<open>A commit gives up, ending the process, exactly when ten writes in a row fail; a store without a
  database commits to nothing and keeps what it holds.\<close>

theorem commit_gives_up:
  "(m_db s = None \<longrightarrow> commit L s = Some s)
   \<and> (m_db s = Some d \<longrightarrow> commit L s = None \<longleftrightarrow>
       (\<forall>i<10. \<not> fst (ldb_write L (commit_batch s) (((\<lambda>d. snd (ldb_write L (commit_batch s) d)) ^^ i) d))))"
  using try_write_None [of L "commit_batch s" 10 d] by (simp add: commit_def)

definition failing_db :: "unit ldb" where
  "failing_db = \<lparr>ldb_get = (\<lambda>d k. None), ldb_write = (\<lambda>b d. (False, d)), ldb_delete = (\<lambda>h d. (False, d))\<rparr>"

lemma commit_gives_up_witness:
  "commit failing_db \<lparr>m_main = [], m_aux = [], m_enforceRefs = False, m_db = Some ()\<rparr> = None"
  using commit_gives_up [of "\<lparr>m_main = [], m_aux = [], m_enforceRefs = False, m_db = Some ()\<rparr>" failing_db "()"]
  by (simp add: failing_db_def)

text \<open>A rollback forgets the nodes, so that a lookup answers what the database holds, but not the
  auxiliary values: those inserted since the last commit stay readable and are written by the next
  one.\<close>

theorem rollback_keeps_aux:
  "odb_lookup L (rollback s) h = db_read L s h
   \<and> odb_lookupAux L (rollback s) h = odb_lookupAux L s h
   \<and> commit_batch (rollback s) = map (\<lambda>(k, v, p). (aux_key k, v)) (filter (\<lambda>(k, v, p). p) (m_aux s))"
proof -
  have r: "mdb_lookupAux (rollback s) h = mdb_lookupAux s h" "mdb_lookup (rollback s) h = []"
    "db_read L (rollback s) k = db_read L s k" "m_db (rollback s) = m_db s" for k
    by (simp_all add: rollback_def mdb_lookupAux_def mdb_lookup_def db_read_def split: option.split)
  have "odb_lookup L (rollback s) h = db_read L s h"
    by (auto simp: odb_lookup_def Let_def r) (simp add: db_read_def)
  moreover have "odb_lookupAux L (rollback s) h = odb_lookupAux L s h"
    unfolding odb_lookupAux_def r ..
  ultimately show ?thesis by (simp add: commit_batch_def) (simp add: rollback_def)
qed

text \<open>Nodes stored under the hash of their bytes can all be read back: after inserting any such list
  of nodes, on top of whatever the store and its database hold, the lookup of each key gives the node.\<close>

theorem nodes_readable:
  assumes "\<forall>(k, v) \<in> set kvs. k = H v \<and> v \<noteq> []" "inj_on H (snd ` set kvs)" "(k, v) \<in> set kvs"
    and "unat (refs s k) + length kvs < 2 ^ 32"
  shows "odb_lookup L (fold (\<lambda>(k, v). mdb_insert k v) kvs s) k = v"
  using odb.content_addressed [of kvs H k v s L] assms by (simp add: odb.ins_all_def mdb_room_def)

lemma nodes_readable_witness:
  "odb_lookup list_db (fold (\<lambda>(k, v). mdb_insert k v) [([1], [1]), ([2], [2]), ([1], [1])] sample_odb) [1] = [1]"
  using nodes_readable [of "[([1], [1]), ([2], [2]), ([1], [1])]" "\<lambda>v. v" "[1]" "[1]" sample_odb list_db]
  by (simp add: sample_odb_def refs_def)

end
