(* ===== verification/Hex.thy ===== *)
theory Hex
  imports CommonData
begin

text \<open>
  The rest of \<open>libdevcore/CommonData.h\<close>, \<open>CommonData.cpp\<close> and \<open>Common.h\<close> that computes: hexadecimal
  strings, escaping, common prefixes, the bounded logarithm, and the queue without duplicates. A
  \<open>std::string\<close> is a list of characters; \<open>char\<close> is signed, so a character above 127 is below a space.
\<close>

section \<open>Hexadecimal strings\<close>

datatype WhenError = DontThrow | ThrowError
datatype HexPrefix = DontAdd | AddPrefix
datatype hex_error = BadHexCharacter

text \<open>A byte in at least \<open>w\<close> digits, filled with zeros; the width applies to the first element, the
  others have two digits.\<close>

definition hex_fill :: "nat \<Rightarrow> byte \<Rightarrow> string" where
  "hex_fill w b = (let d = hex_digits (unat b) in replicate (w - length d) (CHR ''0'') @ d)"

definition toHex :: "bytes \<Rightarrow> nat \<Rightarrow> HexPrefix \<Rightarrow> string" where
  "toHex d w pre = (let ret = (case d of [] \<Rightarrow> [] | b # bs \<Rightarrow> hex_fill w b @ concat (map (hex_fill 2) bs))
     in if pre = AddPrefix then ''0x'' @ ret else ret)"

definition toHex_u256 :: "u256 \<Rightarrow> HexPrefix \<Rightarrow> string" where
  "toHex_u256 val pre = (let str = toHex (toBigEndian 32 val) 2 DontAdd
     in if pre = AddPrefix then ''0x'' @ str else str)"

definition toCompactHex :: "u256 \<Rightarrow> HexPrefix \<Rightarrow> nat \<Rightarrow> string" where
  "toCompactHex val pre mn = (let str = toHex (toCompactBigEndian val mn) 2 DontAdd
     in if pre = AddPrefix then ''0x'' @ str else str)"

definition code_of :: "char \<Rightarrow> int" where
  "code_of c = of_char c"

definition fromHexChar :: "char \<Rightarrow> int" where
  "fromHexChar i =
     (if code_of CHR ''0'' \<le> code_of i \<and> code_of i \<le> code_of CHR ''9'' then code_of i - code_of CHR ''0''
      else if code_of CHR ''a'' \<le> code_of i \<and> code_of i \<le> code_of CHR ''f'' then code_of i - code_of CHR ''a'' + 10
      else if code_of CHR ''A'' \<le> code_of i \<and> code_of i \<le> code_of CHR ''F'' then code_of i - code_of CHR ''A'' + 10
      else - 1)"

definition isHex :: "string \<Rightarrow> bool" where
  "isHex s = list_all (\<lambda>c. fromHexChar c \<noteq> - 1) (if take 2 s = ''0x'' then drop 2 s else s)"

definition isHash :: "nat \<Rightarrow> string \<Rightarrow> bool" where
  "isHash sz h \<longleftrightarrow> (length h = sz * 2 \<or> (length h = sz * 2 + 2 \<and> take 2 h = ''0x'')) \<and> isHex h"

text \<open>The loop over pairs of digits; \<open>None\<close> is a bad character. A pair cut off by the end of the string
  reads the terminating zero, which is no digit.\<close>

fun hex_pairs :: "string \<Rightarrow> bytes \<Rightarrow> bytes option" where
  "hex_pairs [] ret = Some ret"
| "hex_pairs [h] ret = None"
| "hex_pairs (h # l # cs) ret = (if fromHexChar h \<noteq> - 1 \<and> fromHexChar l \<noteq> - 1
     then hex_pairs cs (ret @ [word_of_int (fromHexChar h * 16 + fromHexChar l)]) else None)"

definition fromHex :: "string \<Rightarrow> WhenError \<Rightarrow> hex_error + bytes" where
  "fromHex s w =
     (let t = drop (if 2 \<le> length s \<and> take 2 s = ''0x'' then 2 else 0) s;
          ret = (if length s mod 2 \<noteq> 0
                 then (if fromHexChar (hd t) \<noteq> - 1 then hex_pairs (tl t) [word_of_int (fromHexChar (hd t))]
                       else None)
                 else hex_pairs t [])
      in case ret of Some b \<Rightarrow> Inr b | None \<Rightarrow> if w = ThrowError then Inl BadHexCharacter else Inr [])"

section \<open>Escaping\<close>

definition prettyEscapes :: "(char \<times> char) list" where
  "prettyEscapes = [(CHR 0x0D, CHR ''r''), (CHR 0x0A, CHR ''n''), (CHR 0x09, CHR ''t''), (CHR 0x0B, CHR ''v'')]"

definition hex_digit :: "nat \<Rightarrow> char" where
  "hex_digit i = ''0123456789abcdef'' ! i"

definition escape_char :: "bool \<Rightarrow> char \<Rightarrow> string" where
  "escape_char all' i =
     (if i = CHR 0x22 \<and> \<not> all' then [CHR 0x5C, CHR 0x22]
      else if i = CHR 0x5C \<and> \<not> all' then [CHR 0x5C, CHR 0x5C]
      else if map_of prettyEscapes i \<noteq> None \<and> \<not> all' then [CHR 0x5C, the (map_of prettyEscapes i)]
      else if (of_char i < (32 :: nat) \<or> 127 < (of_char i :: nat)) \<or> all'
      then [CHR 0x5C, CHR ''x'', hex_digit (of_char i div 16), hex_digit (of_char i mod 16)]
      else [i])"

definition escaped :: "string \<Rightarrow> bool \<Rightarrow> string" where
  "escaped s all' = CHR 0x22 # concat (map (escape_char all') s) @ [CHR 0x22]"

section \<open>Collections and numbers\<close>

fun commonPrefix :: "'a list \<Rightarrow> 'a list \<Rightarrow> nat" where
  "commonPrefix (x # xs) (y # ys) = (if x \<noteq> y then 0 else Suc (commonPrefix xs ys))"
| "commonPrefix _ _ = 0"

definition trimFront :: "nat \<Rightarrow> 'a list \<Rightarrow> 'a list" where
  "trimFront elements t = take (length t - elements) (drop elements t)"

definition pushFront :: "'a \<Rightarrow> 'a list \<Rightarrow> 'a list" where
  "pushFront e t = (let t1 = t @ [e]; t2 = poke 1 (take (length t1 - 1) t1) t1 in t2[0 := e])"

function toLog2 :: "u256 \<Rightarrow> nat" where
  "toLog2 x = (let y = drop_bit 1 x in if y \<noteq> 0 then Suc (toLog2 y) else 0)"
  by pat_completeness auto
termination
proof (relation "measure unat", simp, goal_cases)
  case (1 x y)
  then have "unat y = unat x div 2" "y \<noteq> 0" by (simp_all add: unat_drop_bit)
  then show ?case by (simp add: unat_gt_0 [symmetric] del: unat_gt_0)
qed

declare toLog2.simps [simp del]

primrec exp10 :: "nat \<Rightarrow> u256" where
  "exp10 0 = 1"
| "exp10 (Suc n) = exp10 n * 10"

definition diff_of :: "'a::{linorder, minus} \<Rightarrow> 'a \<Rightarrow> 'a" where
  "diff_of a b = max a b - min a b"

section \<open>A queue without duplicates\<close>

text \<open>\<open>QueueSet\<close>: the queue gives the order, the set answers membership.\<close>

record 'a QueueSet =
  q_set :: "'a list"
  q_queue :: "'a list"

definition qs_new :: "'a QueueSet" where
  "qs_new = \<lparr>q_set = [], q_queue = []\<rparr>"

definition qs_exist :: "'a \<Rightarrow> 'a QueueSet \<Rightarrow> bool" where
  "qs_exist t q \<longleftrightarrow> t \<in> set (q_set q)"

definition qs_push :: "'a \<Rightarrow> 'a QueueSet \<Rightarrow> bool \<times> 'a QueueSet" where
  "qs_push t q = (if \<not> qs_exist t q
     then (True, q\<lparr>q_set := t # q_set q, q_queue := q_queue q @ [t]\<rparr>) else (False, q))"

definition qs_pop :: "'a QueueSet \<Rightarrow> bool \<times> 'a QueueSet" where
  "qs_pop q = (case q_queue q of [] \<Rightarrow> (False, q)
     | t # ts \<Rightarrow> (True, q\<lparr>q_queue := ts, q_set := removeAll t (q_set q)\<rparr>))"

definition qs_count :: "'a \<Rightarrow> 'a QueueSet \<Rightarrow> nat" where
  "qs_count t q = (if qs_exist t q then 1 else 0)"

definition qs_size :: "'a QueueSet \<Rightarrow> nat" where
  "qs_size q = length (q_set q)"

definition qs_clear :: "'a QueueSet \<Rightarrow> 'a QueueSet" where
  "qs_clear q = q\<lparr>q_set := [], q_queue := []\<rparr>"

definition qs_ok :: "'a QueueSet \<Rightarrow> bool" where
  "qs_ok q \<longleftrightarrow> distinct (q_queue q) \<and> distinct (q_set q) \<and> set (q_set q) = set (q_queue q)"

section \<open>Digits\<close>

lemma hex_digits_byte: "unat (b :: byte) < 16 \<Longrightarrow> hex_digits (unat b) = [hex_digit (unat b)]"
  "\<not> unat (b :: byte) < 16 \<Longrightarrow> hex_digits (unat b) = [hex_digit (unat b div 16), hex_digit (unat b mod 16)]"
  using unsigned_less [of b, where ?'a = nat]
  by (simp_all add: hex_digits.simps [of "unat b"] hex_digits.simps [of "unat b div 16"] hex_digit_def Let_def
      div_less_iff_less_mult)

lemma hex_fill_2: "hex_fill 2 b = [hex_digit (unat b div 16), hex_digit (unat b mod 16)]"
  by (cases "unat b < 16") (simp_all add: hex_fill_def hex_digits_byte, simp add: hex_digit_def)

lemma all_hex_digits: "list_all (\<lambda>i. fromHexChar (hex_digit i) = int i \<and> hex_digit i \<noteq> CHR ''x'') [0..<16]"
  by code_simp

lemma fromHexChar_digit: "i < 16 \<Longrightarrow> fromHexChar (hex_digit i) = int i" "i < 16 \<Longrightarrow> hex_digit i \<noteq> CHR ''x''"
  using all_hex_digits by (auto simp: list_all_iff)

section \<open>Reading what was written\<close>

abbreviation hex_ok :: "char \<Rightarrow> bool" where
  "hex_ok c \<equiv> fromHexChar c \<noteq> - 1"

lemma byte_of_digits:
  "word_of_int (int (unat (b :: byte) div 16) * 16 + int (unat b mod 16)) = b"
proof -
  have "int (unat b div 16) * 16 + int (unat b mod 16) = int (unat b div 16 * 16 + unat b mod 16)"
    by (simp only: of_nat_add of_nat_mult of_nat_numeral)
  also have "\<dots> = int (unat b)" by (simp only: div_mult_mod_eq)
  finally show ?thesis by simp
qed

lemma hex_digit_pair:
  "hex_ok (hex_digit (unat (b :: byte) div 16))" "hex_ok (hex_digit (unat b mod 16))"
  "word_of_int (fromHexChar (hex_digit (unat b div 16)) * 16 + fromHexChar (hex_digit (unat b mod 16))) = b"
  using unsigned_less [of b, where ?'a = nat] byte_of_digits [of b]
  by (simp_all add: fromHexChar_digit div_less_iff_less_mult)

lemma hex_pairs_digits: "hex_pairs (concat (map (hex_fill 2) bs)) acc = Some (acc @ bs)"
proof (induction bs arbitrary: acc)
  case (Cons b bs)
  have "concat (map (hex_fill 2) (b # bs)) =
      hex_digit (unat b div 16) # hex_digit (unat b mod 16) # concat (map (hex_fill 2) bs)"
    by (simp add: hex_fill_2)
  then show ?case
    by (simp only: hex_pairs.simps hex_digit_pair if_True simp_thms Cons.IH append_assoc append.simps)
qed simp

lemma toHex_2: "toHex bs 2 pre = (if pre = AddPrefix then ''0x'' else []) @ concat (map (hex_fill 2) bs)"
  by (simp add: toHex_def split: list.split)

lemma length_hex: "length (concat (map (hex_fill 2) bs)) = 2 * length bs"
  by (induction bs) (simp_all add: hex_fill_2)

lemma hex_no_prefix: "take 2 (concat (map (hex_fill 2) bs)) \<noteq> ''0x''"
proof (cases bs)
  case (Cons b cs)
  have "hex_digit (unat b mod 16) \<noteq> CHR ''x''" by (simp add: fromHexChar_digit)
  then show ?thesis by (simp add: Cons hex_fill_2)
qed simp

text \<open>\<open>fromHex\<close> gives back the bytes written by \<open>toHex\<close>, with or without the \<open>0x\<close> prefix and in
  either error mode.\<close>

theorem hex_roundtrip: "fromHex (toHex bs 2 pre) w = Inr bs"
  using hex_no_prefix [of bs]
  by (cases pre) (simp_all add: fromHex_def toHex_2 length_hex hex_pairs_digits)

lemma hex_pairs_None: "even (length cs) \<Longrightarrow> hex_pairs cs acc = None \<longleftrightarrow> \<not> list_all hex_ok cs"
  by (induction cs acc rule: hex_pairs.induct) auto

lemma hex_pairs_length: "hex_pairs cs acc = Some bs \<Longrightarrow> length bs = length acc + length cs div 2"
  by (induction cs acc rule: hex_pairs.induct) (auto split: if_splits)

definition hex_body :: "string \<Rightarrow> string" where
  "hex_body s = (if take 2 s = ''0x'' then drop 2 s else s)"

lemma fromHex_body:
  "fromHex s w = (let t = hex_body s in
     case (if odd (length t) then (if hex_ok (hd t) then hex_pairs (tl t) [word_of_int (fromHexChar (hd t))]
       else None) else hex_pairs t []) of
       Some b \<Rightarrow> Inr b | None \<Rightarrow> if w = ThrowError then Inl BadHexCharacter else Inr [])"
proof (cases "take 2 s = ''0x''")
  case True
  then have "length (take 2 s) = 2" by simp
  then have "2 \<le> length s" by simp
  moreover from this have "length s mod 2 = length (drop 2 s) mod 2" by (simp add: le_mod_geq)
  ultimately show ?thesis using True
    by (simp only: fromHex_def hex_body_def Let_def odd_iff_mod_2_eq_one if_True simp_thms) (simp add: mod_2_eq_odd)
next
  case False
  then show ?thesis
    by (simp only: fromHex_def hex_body_def Let_def if_False simp_thms) (simp add: mod_2_eq_odd)
qed

text \<open>\<open>fromHex\<close> rejects exactly the strings that \<open>isHex\<close> rejects, by the exception or by the empty
  result, and an accepted string of \<open>n\<close> digits gives \<open>(n + 1) div 2\<close> bytes.\<close>

theorem fromHex_accepts:
  "(fromHex s ThrowError = Inl BadHexCharacter \<longleftrightarrow> \<not> isHex s) \<and>
   (fromHex s DontThrow = (if isHex s then fromHex s ThrowError else Inr [])) \<and>
   (\<exists>bs. fromHex s DontThrow = Inr bs \<and> length bs = (if isHex s then (length (hex_body s) + 1) div 2 else 0))"
proof -
  let ?t = "hex_body s"
  let ?r = "if odd (length ?t) then (if hex_ok (hd ?t) then hex_pairs (tl ?t) [word_of_int (fromHexChar (hd ?t))]
       else None) else hex_pairs ?t []"
  have h: "isHex s \<longleftrightarrow> list_all hex_ok ?t" by (simp add: isHex_def hex_body_def)
  have n: "?r = None \<longleftrightarrow> \<not> list_all hex_ok ?t"
    by (cases ?t) (auto simp: hex_pairs_None)
  have l: "length bs = (length ?t + 1) div 2" if "?r = Some bs" for bs
    using that by (cases ?t) (auto dest: hex_pairs_length split: if_splits)
  show ?thesis
  proof (cases ?r)
    case None
    then show ?thesis using n h by (simp add: fromHex_body Let_def)
  next
    case (Some bs)
    then show ?thesis using n h l [of bs] by (simp add: fromHex_body Let_def)
  qed
qed

section \<open>The logarithm and the queue\<close>

text \<open>\<open>toLog2\<close> is the position of the highest bit: the largest \<open>n\<close> with \<open>2 ^ n\<close> at most \<open>x\<close>, and 0 for
  0. (Its comment promises the smallest \<open>n\<close> with \<open>2 ^ n\<close> at least \<open>x\<close>.)\<close>

theorem toLog2_floor:
  "(if x = 0 then toLog2 x = 0 else 2 ^ toLog2 x \<le> unat x \<and> unat x < 2 * 2 ^ toLog2 x) \<and> toLog2 3 = 1 \<and> \<not> 3 \<le> (2 ^ toLog2 3 :: nat)"
proof -
  have "2 ^ toLog2 x \<le> unat x \<and> unat x < 2 * 2 ^ toLog2 x" if "x \<noteq> 0" for x
    using that
  proof (induction x rule: toLog2.induct)
    case (1 x)
    let ?y = "drop_bit 1 x"
    have u: "unat ?y = unat x div 2" by (simp add: unat_drop_bit)
    show ?case
    proof (cases "?y = 0")
      case True
      then have "unat x div 2 = 0" using u by simp
      then show ?thesis using True 1(2) by (simp add: toLog2.simps [of x] Let_def unat_gt_0 Suc_leI)
    next
      case False
      then show ?thesis using 1(1) [OF refl False] False u
        by (simp add: toLog2.simps [of x] Let_def) linarith
    qed
  qed
  moreover have "toLog2 0 = 0" by (simp add: toLog2.simps)
  moreover have "toLog2 3 = 1"
    by (simp add: toLog2.simps [of 3] toLog2.simps [of 1] drop_bit_Suc Let_def)
  ultimately show ?thesis by simp
qed

datatype 'a qs_op = QPush 'a | QPop | QClear

fun qs_step :: "'a qs_op \<Rightarrow> 'a QueueSet \<Rightarrow> 'a QueueSet" where
  "qs_step (QPush t) q = snd (qs_push t q)"
| "qs_step QPop q = snd (qs_pop q)"
| "qs_step QClear q = qs_clear q"

fun qs_abs :: "'a qs_op \<Rightarrow> 'a list \<Rightarrow> 'a list" where
  "qs_abs (QPush t) ts = (if t \<in> set ts then ts else ts @ [t])"
| "qs_abs QPop ts = tl ts"
| "qs_abs QClear ts = []"

lemma qs_exist_set: "qs_exist t q \<longleftrightarrow> t \<in> set (q_set q)"
  by (simp add: qs_exist_def)

lemma qs_step_ok: "qs_ok q \<Longrightarrow> qs_ok (qs_step op q) \<and> q_queue (qs_step op q) = qs_abs op (q_queue q)"
  by (cases op) (auto simp: qs_ok_def qs_push_def qs_pop_def qs_clear_def qs_exist_set distinct_removeAll
      split: list.split)

text \<open>\<open>QueueSet\<close> is a first-in first-out queue without duplicates: after any operations the queue is
  that of the abstract list, the set agrees with it, and \<open>push\<close>, \<open>pop\<close>, \<open>exist\<close> and \<open>size\<close> answer from it.\<close>

theorem queue_set_refines:
  "let q = fold qs_step ops qs_new; ts = fold qs_abs ops [] in
   qs_ok q \<and> q_queue q = ts \<and> distinct ts \<and> qs_size q = length ts \<and>
   (qs_exist t q \<longleftrightarrow> t \<in> set ts) \<and> (fst (qs_push t q) \<longleftrightarrow> t \<notin> set ts) \<and> (fst (qs_pop q) \<longleftrightarrow> ts \<noteq> [])"
proof -
  have run: "qs_ok (fold qs_step ops q) \<and> q_queue (fold qs_step ops q) = fold qs_abs ops (q_queue q)"
    if "qs_ok q" for q :: "'a QueueSet"
    using that by (induction ops arbitrary: q) (simp_all add: qs_step_ok)
  have "qs_ok (qs_new :: 'a QueueSet)" by (simp add: qs_ok_def qs_new_def)
  from run [OF this] obtain q where q: "q = fold qs_step ops qs_new" "qs_ok q" "q_queue q = fold qs_abs ops []"
    by (simp add: qs_new_def)
  then have "qs_size q = length (q_queue q)"
    by (metis distinct_card qs_ok_def qs_size_def)
  with q show ?thesis
    by (simp add: Let_def qs_ok_def qs_exist_set qs_push_def qs_pop_def flip: q(1) split: list.split)
qed

end
