(* ===== verification/RlpFace.thy ===== *)
theory RlpFace
  imports CommonData
begin

text \<open>
  What the code reads of \<open>dev::RLP\<close> and appends to \<open>dev::RLPStream\<close> (\<open>libdevcore/RLP.h\<close>, no part of
  the repository): a record of functions over the type \<open>'i\<close> of items. The readers that throw on a
  malformed item give \<open>None\<close>. \<open>rlp_ok\<close> is the documented behaviour the round trips rely on: an item
  built by the stream reads back as what was appended.

  The theory also holds the small calculus of throwing used by the execution layer: a result is
  \<open>Inl\<close> of an exception or \<open>Inr\<close> of a value.
\<close>

section \<open>Throwing\<close>

definition andThen :: "'e + 'a \<Rightarrow> ('a \<Rightarrow> 'e + 'b) \<Rightarrow> 'e + 'b" where
  "andThen r f = (case r of Inl e \<Rightarrow> Inl e | Inr x \<Rightarrow> f x)"

definition ensure :: "bool \<Rightarrow> 'e \<Rightarrow> 'e + unit" where
  "ensure c e = (if c then Inr () else Inl e)"

definition need :: "'e \<Rightarrow> 'a option \<Rightarrow> 'e + 'a" where
  "need e r = (case r of None \<Rightarrow> Inl e | Some x \<Rightarrow> Inr x)"

lemma andThen_simps [simp]: "andThen (Inl e) f = Inl e" "andThen (Inr x) f = f x"
  by (simp_all add: andThen_def)

lemma andThen_Inr: "andThen r f = Inr y \<longleftrightarrow> (\<exists>x. r = Inr x \<and> f x = Inr y)"
  by (cases r) simp_all

lemma andThen_Inl: "andThen r f = Inl e \<longleftrightarrow> r = Inl e \<or> (\<exists>x. r = Inr x \<and> f x = Inl e)"
  by (cases r) auto

lemma ensure_simps [simp]: "ensure c e = Inr u \<longleftrightarrow> c" "ensure c e = Inl d \<longleftrightarrow> \<not> c \<and> d = e"
  "ensure True e = Inr ()" "ensure False e = Inl e"
  by (auto simp: ensure_def)

lemma need_simps [simp]: "need e r = Inr x \<longleftrightarrow> r = Some x" "need e r = Inl d \<longleftrightarrow> r = None \<and> d = e"
  "need e (Some x) = Inr x" "need e None = Inl e"
  by (auto simp: need_def split: option.split)

section \<open>Items\<close>

record 'i rlp =
  rlp_isList :: "'i \<Rightarrow> bool"
  rlp_items :: "'i \<Rightarrow> 'i list"
  rlp_null :: 'i
  rlp_isEmpty :: "'i \<Rightarrow> bool"
  rlp_isData :: "'i \<Rightarrow> bool"
  rlp_payload :: "'i \<Rightarrow> bytes"
  rlp_toBytes :: "'i \<Rightarrow> bytes"
  rlp_toU256 :: "'i \<Rightarrow> u256 option"
  rlp_toByte :: "'i \<Rightarrow> byte option"
  rlp_toHash :: "nat \<Rightarrow> 'i \<Rightarrow> bytes option"
  rlp_data :: "'i \<Rightarrow> bytes"
  rlp_parse :: "bytes \<Rightarrow> 'i"
  rlp_int :: "int \<Rightarrow> 'i"
  rlp_bytes :: "bytes \<Rightarrow> 'i"
  rlp_list :: "'i list \<Rightarrow> 'i"

text \<open>\<open>operator[]\<close>: the null item past the end. \<open>itemCount\<close> is 0 for what is no list.\<close>

definition rlp_at :: "'i rlp \<Rightarrow> 'i \<Rightarrow> nat \<Rightarrow> 'i" where
  "rlp_at R it i = (if i < length (rlp_items R it) then rlp_items R it ! i else rlp_null R)"

definition rlp_itemCount :: "'i rlp \<Rightarrow> 'i \<Rightarrow> nat" where
  "rlp_itemCount R it = (if rlp_isList R it then length (rlp_items R it) else 0)"

text \<open>What the stream builds: lists of items other than the null item, and byte strings.\<close>

definition rlp_ok :: "'i rlp \<Rightarrow> bool" where
  "rlp_ok R \<longleftrightarrow>
     (\<forall>xs. rlp_null R \<notin> set xs \<longrightarrow> rlp_isList R (rlp_list R xs) \<and> rlp_items R (rlp_list R xs) = xs
        \<and> \<not> rlp_isData R (rlp_list R xs) \<and> (rlp_isEmpty R (rlp_list R xs) \<longleftrightarrow> xs = [])
        \<and> rlp_parse R (rlp_data R (rlp_list R xs)) = rlp_list R xs)
   \<and> (\<forall>n. 0 \<le> n \<and> n < 2 ^ 256 \<longrightarrow> rlp_toU256 R (rlp_int R n) = Some (word_of_int n))
   \<and> (\<forall>n. 0 \<le> n \<and> n < 256 \<longrightarrow> rlp_toByte R (rlp_int R n) = Some (word_of_int n))
   \<and> (\<forall>b. rlp_isData R (rlp_bytes R b) \<and> \<not> rlp_isList R (rlp_bytes R b) \<and> rlp_toBytes R (rlp_bytes R b) = b
        \<and> rlp_payload R (rlp_bytes R b) = b
        \<and> (rlp_isEmpty R (rlp_bytes R b) \<longleftrightarrow> b = []) \<and> rlp_toHash R (length b) (rlp_bytes R b) = Some b
        \<and> rlp_parse R (rlp_data R (rlp_bytes R b)) = rlp_bytes R b)
   \<and> (\<forall>xs b n. rlp_null R \<noteq> rlp_list R xs \<and> rlp_null R \<noteq> rlp_bytes R b \<and> rlp_null R \<noteq> rlp_int R n)
   \<and> (\<forall>it. rlp_data R it = [] \<longleftrightarrow> it = rlp_null R) \<and> rlp_parse R [] = rlp_null R
   \<and> rlp_data R (rlp_bytes R []) = [0x80] \<and> \<not> rlp_isEmpty R (rlp_null R)"

lemma rlp_okD:
  assumes "rlp_ok R"
  shows "rlp_null R \<notin> set xs \<Longrightarrow> rlp_isList R (rlp_list R xs)" "rlp_null R \<notin> set xs \<Longrightarrow> rlp_items R (rlp_list R xs) = xs"
    "rlp_toU256 R (rlp_int R (uint (w :: u256))) = Some w"
    "0 \<le> n \<Longrightarrow> n < 256 \<Longrightarrow> rlp_toByte R (rlp_int R n) = Some (word_of_int n)"
    "rlp_isData R (rlp_bytes R b)" "rlp_toBytes R (rlp_bytes R b) = b"
    "rlp_isEmpty R (rlp_bytes R b) \<longleftrightarrow> b = []" "length b = m \<Longrightarrow> rlp_toHash R m (rlp_bytes R b) = Some b"
    "rlp_null R \<noteq> rlp_list R xs" "rlp_null R \<noteq> rlp_bytes R b" "rlp_null R \<noteq> rlp_int R n"
  using assms uint_lt2p [of w] by (auto simp: rlp_ok_def)

lemma rlp_ok_views:
  assumes "rlp_ok R"
  shows "rlp_null R \<notin> set xs \<Longrightarrow> \<not> rlp_isData R (rlp_list R xs)"
    "rlp_null R \<notin> set xs \<Longrightarrow> rlp_isEmpty R (rlp_list R xs) \<longleftrightarrow> xs = []"
    "\<not> rlp_isList R (rlp_bytes R b)" "rlp_payload R (rlp_bytes R b) = b"
    "rlp_null R \<notin> set xs \<Longrightarrow> rlp_parse R (rlp_data R (rlp_list R xs)) = rlp_list R xs"
    "rlp_parse R (rlp_data R (rlp_bytes R b)) = rlp_bytes R b" "rlp_parse R [] = rlp_null R"
    "rlp_data R it = [] \<longleftrightarrow> it = rlp_null R" "rlp_data R (rlp_bytes R []) = [0x80]" "\<not> rlp_isEmpty R (rlp_null R)"
  using assms by (auto simp: rlp_ok_def)

section \<open>Items as trees\<close>

text \<open>Trees satisfy the laws, with a serialisation in which every byte is preceded by a mark.\<close>

datatype item = INull | IInt int | IBytes bytes | IList "item list"

definition esc :: "bytes \<Rightarrow> bytes" where
  "esc bs = concat (map (\<lambda>b. [1, b]) bs) @ [0]"

fun unesc :: "bytes \<Rightarrow> bytes \<times> bytes" where
  "unesc (m # b # bs) = (if m = 0 then ([], b # bs) else (b # fst (unesc bs), snd (unesc bs)))"
| "unesc bs = ([], tl bs)"

fun item_enc :: "item \<Rightarrow> bytes" where
  "item_enc INull = [1]"
| "item_enc (IInt n) = (if n < 0 then 2 else 3) # esc (replicate (nat \<bar>n\<bar>) 0)"
| "item_enc (IBytes b) = (if b = [] then [0x80] else 0x81 # esc b)"
| "item_enc (IList xs) = 0xc0 # concat (map (\<lambda>x. 1 # item_enc x) xs) @ [0]"

fun item_dec :: "nat \<Rightarrow> bytes \<Rightarrow> item \<times> bytes" and items_dec :: "nat \<Rightarrow> bytes \<Rightarrow> item list \<times> bytes" where
  "item_dec (Suc n) (t # bs) =
     (if t = 1 then (INull, bs)
      else if t = 2 then (IInt (- int (length (fst (unesc bs)))), snd (unesc bs))
      else if t = 3 then (IInt (int (length (fst (unesc bs)))), snd (unesc bs))
      else if t = 0x80 then (IBytes [], bs)
      else if t = 0x81 then (IBytes (fst (unesc bs)), snd (unesc bs))
      else (let (xs, r) = items_dec n bs in (IList xs, r)))"
| "item_dec n bs = (INull, [])"
| "items_dec (Suc n) (t # bs) = (if t = 0 then ([], bs)
     else let (x, r) = item_dec n bs; (xs, r') = items_dec n r in (x # xs, r'))"
| "items_dec n bs = ([], [])"

lemma unesc_esc: "unesc (esc bs @ r) = (bs, r)"
proof (induction bs)
  case Nil
  then show ?case by (cases r) (simp_all add: esc_def)
qed (simp_all add: esc_def)

lemma items_dec_enc:
  assumes "\<And>x n r. x \<in> set xs \<Longrightarrow> length (item_enc x) \<le> n \<Longrightarrow> item_dec n (item_enc x @ r) = (x, r)"
    and "length (concat (map (\<lambda>x. 1 # item_enc x) xs)) < n"
  shows "items_dec n (concat (map (\<lambda>x. 1 # item_enc x) xs) @ 0 # r) = (xs, r)"
  using assms
proof (induction xs arbitrary: n)
  case Nil
  then show ?case by (cases n) simp_all
next
  case (Cons x xs)
  then obtain m where n: "n = Suc m" by (cases n) simp_all
  have "item_dec m (item_enc x @ s) = (x, s)" for s using Cons.prems n by (intro Cons.prems(1)) simp_all
  moreover have "items_dec m (concat (map (\<lambda>x. 1 # item_enc x) xs) @ 0 # r) = (xs, r)"
    using Cons.prems n by (intro Cons.IH) simp_all
  ultimately show ?case using n by simp
qed

lemma item_dec_enc: "length (item_enc it) \<le> n \<Longrightarrow> item_dec n (item_enc it @ r) = (it, r)"
proof (induction it arbitrary: n r)
  case (IList xs)
  then obtain m where n: "n = Suc m" by (cases n) simp_all
  have "items_dec m (concat (map (\<lambda>x. 1 # item_enc x) xs) @ 0 # r) = (xs, r)"
    using IList n by (intro items_dec_enc) simp_all
  then show ?case using n by simp
next
  case (IInt i)
  then show ?case by (cases n) (simp_all add: unesc_esc)
next
  case (IBytes b)
  then show ?case by (cases n) (simp_all add: unesc_esc split: if_splits)
next
  case INull
  then show ?case by (cases n) simp_all
qed

definition tree_rlp :: "item rlp" where
  "tree_rlp = \<lparr>rlp_isList = (\<lambda>i. case i of IList _ \<Rightarrow> True | _ \<Rightarrow> False),
     rlp_items = (\<lambda>i. case i of IList xs \<Rightarrow> xs | _ \<Rightarrow> []), rlp_null = INull,
     rlp_isEmpty = (\<lambda>i. i = IBytes [] \<or> i = IList []),
     rlp_isData = (\<lambda>i. case i of IBytes _ \<Rightarrow> True | IInt _ \<Rightarrow> True | _ \<Rightarrow> False),
     rlp_payload = (\<lambda>i. case i of IBytes b \<Rightarrow> b | _ \<Rightarrow> []),
     rlp_toBytes = (\<lambda>i. case i of IBytes b \<Rightarrow> b | _ \<Rightarrow> []),
     rlp_toU256 = (\<lambda>i. case i of IInt n \<Rightarrow> if 0 \<le> n \<and> n < 2 ^ 256 then Some (word_of_int n) else None | _ \<Rightarrow> None),
     rlp_toByte = (\<lambda>i. case i of IInt n \<Rightarrow> if 0 \<le> n \<and> n < 256 then Some (word_of_int n) else None | _ \<Rightarrow> None),
     rlp_toHash = (\<lambda>n i. case i of IBytes b \<Rightarrow> if length b = n then Some b else None | _ \<Rightarrow> None),
     rlp_data = (\<lambda>i. if i = INull then [] else item_enc i),
     rlp_parse = (\<lambda>b. if b = [] then INull else fst (item_dec (length b) b)),
     rlp_int = IInt, rlp_bytes = IBytes, rlp_list = IList\<rparr>"

lemma item_enc_Nil: "item_enc it \<noteq> []"
  by (cases it) simp_all

lemma tree_rlp_ok: "rlp_ok tree_rlp"
proof -
  have "item_dec (length (item_enc it)) (item_enc it) = (it, [])" for it
    using item_dec_enc [of it "length (item_enc it)" "[]"] by simp
  then show ?thesis by (auto simp: rlp_ok_def tree_rlp_def item_enc_Nil simp del: item_enc.simps(3,4)) simp
qed

end
