(* ===== verification/Transaction.thy ===== *)
theory Transaction
  imports RlpFace Keccak VMState
begin

text \<open>
  Transactions: \<open>libethcore/Transaction.h\<close> and \<open>Transaction.cpp\<close>, the exceptions of
  \<open>libethcore/Exceptions.h\<close> and their codes (\<open>libethereum/Transaction.h\<close>, \<open>Transaction.cpp\<close>), and the
  signature check of \<open>libdevcrypto/Common.cpp\<close>. Recovery and signing call secp256k1, which is no part
  of the repository: they are the record \<open>crypto\<close>. The two halves \<open>r\<close> and \<open>s\<close> of a signature are
  numbers: the order of an \<open>h256\<close> is the order of the number it spells.

  The memoised hash and sender are fields, as in the class; zero stands for \<open>not computed\<close>.
\<close>

section \<open>Exceptions\<close>

datatype eth_exception = RLPException | OutOfGasIntrinsic | InvalidSignature | OutOfGasBase | InvalidNonce
  | NotEnoughCash | BlockGasLimitReached | InvalidTransactionFormat | InvalidZeroSignatureTransaction
  | VMException vm_exception

datatype TransactionException = TE_None | TE_Unknown | TE_BadRLP | TE_InvalidFormat | TE_OutOfGasIntrinsic
  | TE_InvalidSignature | TE_InvalidNonce | TE_NotEnoughCash | TE_OutOfGasBase | TE_BlockGasLimitReached
  | TE_BadInstruction | TE_BadJumpDestination | TE_OutOfGas | TE_OutOfStack | TE_StackUnderflow
  | TE_RevertInstruction | TE_InvalidZeroSignatureFormat

fun toTransactionException :: "eth_exception \<Rightarrow> TransactionException" where
  "toTransactionException RLPException = TE_BadRLP"
| "toTransactionException OutOfGasIntrinsic = TE_OutOfGasIntrinsic"
| "toTransactionException InvalidSignature = TE_InvalidSignature"
| "toTransactionException OutOfGasBase = TE_OutOfGasBase"
| "toTransactionException InvalidNonce = TE_InvalidNonce"
| "toTransactionException NotEnoughCash = TE_NotEnoughCash"
| "toTransactionException BlockGasLimitReached = TE_BlockGasLimitReached"
| "toTransactionException (VMException BadInstruction) = TE_BadInstruction"
| "toTransactionException (VMException BadJumpDestination) = TE_BadJumpDestination"
| "toTransactionException (VMException OutOfGas) = TE_OutOfGas"
| "toTransactionException (VMException OutOfStack) = TE_OutOfStack"
| "toTransactionException (VMException StackUnderflow) = TE_StackUnderflow"
| "toTransactionException _ = TE_Unknown"

section \<open>Signatures\<close>

record SignatureStruct =
  sig_r :: u256
  sig_s :: u256
  sig_v :: byte

definition no_signature :: SignatureStruct where
  "no_signature = \<lparr>sig_r = 0, sig_s = 0, sig_v = 0\<rparr>"

definition sig_isValid :: "SignatureStruct \<Rightarrow> bool" where
  "sig_isValid g \<longleftrightarrow> sig_v g \<le> 1 \<and> sig_r g > 0 \<and> sig_s g > 0
     \<and> sig_r g < 0xfffffffffffffffffffffffffffffffebaaedce6af48a03bbfd25e8cd0364141
     \<and> sig_s g < 0xfffffffffffffffffffffffffffffffebaaedce6af48a03bbfd25e8cd0364141"

record crypto =
  cr_recover :: "SignatureStruct \<Rightarrow> h256 \<Rightarrow> bytes"
  cr_sign :: "bytes \<Rightarrow> h256 \<Rightarrow> SignatureStruct"

definition MaxAddress :: address where
  "MaxAddress = 0xffffffffffffffffffffffffffffffffffffffff"

section \<open>The transaction\<close>

datatype tx_type = NullTransaction | ContractCreation | MessageCall
datatype IncludeSignature = WithoutSignature | WithSignature
datatype CheckTransaction = CheckNone | CheckCheap | CheckEverything

record TransactionBase =
  t_type :: tx_type
  t_nonce :: u256
  t_value :: u256
  t_receiveAddress :: address
  t_gasPrice :: u256
  t_gas :: u256
  t_data :: bytes
  t_vrs :: SignatureStruct
  t_chainId :: int
  t_hashWith :: h256
  t_sender :: address

definition tx_null :: TransactionBase where
  "tx_null = \<lparr>t_type = NullTransaction, t_nonce = 0, t_value = 0, t_receiveAddress = 0, t_gasPrice = 0,
     t_gas = 0, t_data = [], t_vrs = no_signature, t_chainId = - 4, t_hashWith = zero_hash 32, t_sender = 0\<rparr>"

definition tx_operator_bool :: "TransactionBase \<Rightarrow> bool" where
  "tx_operator_bool t \<longleftrightarrow> t_type t \<noteq> NullTransaction"

definition isCreation :: "TransactionBase \<Rightarrow> bool" where
  "isCreation t \<longleftrightarrow> t_type t = ContractCreation"

definition hasZeroSignature :: "TransactionBase \<Rightarrow> bool" where
  "hasZeroSignature t \<longleftrightarrow> sig_s (t_vrs t) = 0 \<and> sig_r (t_vrs t) = 0"

definition tx_equal :: "TransactionBase \<Rightarrow> TransactionBase \<Rightarrow> bool" where
  "tx_equal t c \<longleftrightarrow> t_type t = t_type c
     \<and> (t_type t = ContractCreation \<or> t_receiveAddress t = t_receiveAddress c)
     \<and> t_value t = t_value c \<and> t_data t = t_data c"

definition clearSignature :: "TransactionBase \<Rightarrow> TransactionBase" where
  "clearSignature t = t\<lparr>t_vrs := no_signature\<rparr>"

definition setNonce :: "u256 \<Rightarrow> TransactionBase \<Rightarrow> TransactionBase" where
  "setNonce n t = (clearSignature t)\<lparr>t_nonce := n\<rparr>"

section \<open>Serialisation\<close>

definition tx_fields :: "'i rlp \<Rightarrow> TransactionBase \<Rightarrow> IncludeSignature \<Rightarrow> bool \<Rightarrow> 'i list" where
  "tx_fields R t g forEip155hash =
     [rlp_int R (uint (t_nonce t)), rlp_int R (uint (t_gasPrice t)), rlp_int R (uint (t_gas t)),
      rlp_bytes R (if t_type t = MessageCall then toBigEndian 20 (t_receiveAddress t) else []),
      rlp_int R (uint (t_value t)), rlp_bytes R (t_data t)]
     @ (if g = WithSignature
        then let vOffset = t_chainId t * 2 + 35
             in [rlp_int R (uint (sig_v (t_vrs t)) + vOffset), rlp_int R (uint (sig_r (t_vrs t))),
                 rlp_int R (uint (sig_s (t_vrs t)))]
        else if forEip155hash then [rlp_int R (t_chainId t), rlp_int R 0, rlp_int R 0] else [])"

text \<open>What the stream holds: nothing for a null transaction.\<close>

definition tx_streamRLP :: "'i rlp \<Rightarrow> TransactionBase \<Rightarrow> IncludeSignature \<Rightarrow> bool \<Rightarrow> bytes" where
  "tx_streamRLP R t g forEip155hash = (if t_type t = NullTransaction then []
     else rlp_data R (rlp_list R (tx_fields R t g forEip155hash)))"

definition tx_sha3 :: "'i rlp \<Rightarrow> IncludeSignature \<Rightarrow> TransactionBase \<Rightarrow> h256 \<times> TransactionBase" where
  "tx_sha3 R g t = (if g = WithSignature \<and> t_hashWith t \<noteq> zero_hash 32 then (t_hashWith t, t)
     else let ret = sha3 (tx_streamRLP R t g (t_chainId t > 0 \<and> g = WithoutSignature))
          in (ret, if g = WithSignature then t\<lparr>t_hashWith := ret\<rparr> else t))"

definition tx_sender :: "'i rlp \<Rightarrow> crypto \<Rightarrow> TransactionBase \<Rightarrow> eth_exception + address \<times> TransactionBase" where
  "tx_sender R Y t =
     (if t_sender t \<noteq> 0 then Inr (t_sender t, t)
      else if hasZeroSignature t then Inr (MaxAddress, t\<lparr>t_sender := MaxAddress\<rparr>)
      else let p = cr_recover Y (t_vrs t) (fst (tx_sha3 R WithoutSignature t))
           in if p = zero_hash 64 then Inl InvalidSignature
              else let a = fromBigEndian (right160 (sha3 p)) in Inr (a, t\<lparr>t_sender := a\<rparr>))"

definition safeSender :: "'i rlp \<Rightarrow> crypto \<Rightarrow> TransactionBase \<Rightarrow> address" where
  "safeSender R Y t = (case tx_sender R Y t of Inl _ \<Rightarrow> 0 | Inr (a, _) \<Rightarrow> a)"

definition tx_sign :: "'i rlp \<Rightarrow> crypto \<Rightarrow> bytes \<Rightarrow> TransactionBase \<Rightarrow> TransactionBase" where
  "tx_sign R Y priv t = (let g = cr_sign Y priv (fst (tx_sha3 R WithoutSignature t))
     in if sig_isValid g then t\<lparr>t_vrs := g\<rparr> else t)"

text \<open>A transaction from a skeleton; an empty secret signs nothing.\<close>

record TransactionSkeleton =
  ts_creation :: bool
  ts_from :: address
  ts_to :: address
  ts_value :: u256
  ts_data :: bytes
  ts_nonce :: u256
  ts_gas :: u256
  ts_gasPrice :: u256

definition tx_of_skeleton :: "'i rlp \<Rightarrow> crypto \<Rightarrow> TransactionSkeleton \<Rightarrow> bytes \<Rightarrow> TransactionBase" where
  "tx_of_skeleton R Y ts secret =
     (let t = tx_null\<lparr>t_type := (if ts_creation ts then ContractCreation else MessageCall), t_nonce := ts_nonce ts,
        t_value := ts_value ts, t_receiveAddress := ts_to ts, t_gasPrice := ts_gasPrice ts, t_gas := ts_gas ts,
        t_data := ts_data ts, t_sender := ts_from ts\<rparr>
      in if secret \<noteq> zero_hash 32 then tx_sign R Y secret t else t)"

text \<open>The chain id a byte \<open>v\<close> stands for; \<open>None\<close> is the throw.\<close>

definition chainId_of :: "byte \<Rightarrow> int option" where
  "chainId_of v = (if v > 36 then Some ((uint v - 35) div 2) else if v = 27 \<or> v = 28 then Some (- 4) else None)"

definition tx_read_signature :: "CheckTransaction \<Rightarrow> byte \<Rightarrow> u256 \<Rightarrow> u256 \<Rightarrow> TransactionBase
    \<Rightarrow> eth_exception + TransactionBase" where
  "tx_read_signature chk v r s t =
     (let t1 = t\<lparr>t_vrs := \<lparr>sig_r = r, sig_s = s, sig_v = v\<rparr>\<rparr>
      in if hasZeroSignature t1 then Inr (t1\<lparr>t_chainId := uint v\<rparr>)
         else andThen (need InvalidSignature (chainId_of v)) (\<lambda>c.
           let g = \<lparr>sig_r = r, sig_s = s, sig_v = v - word_of_int (c * 2 + 35)\<rparr>
           in andThen (ensure (chk = CheckNone \<or> sig_isValid g) InvalidSignature)
                (\<lambda>_. Inr (t1\<lparr>t_chainId := c, t_vrs := g\<rparr>))))"

definition tx_of_rlp :: "'i rlp \<Rightarrow> crypto \<Rightarrow> 'i \<Rightarrow> CheckTransaction \<Rightarrow> eth_exception + TransactionBase" where
  "tx_of_rlp R Y it chk =
     andThen (ensure (rlp_isList R it) InvalidTransactionFormat) (\<lambda>_.
     andThen (need RLPException (rlp_toU256 R (rlp_at R it 0))) (\<lambda>nonce.
     andThen (need RLPException (rlp_toU256 R (rlp_at R it 1))) (\<lambda>price.
     andThen (need RLPException (rlp_toU256 R (rlp_at R it 2))) (\<lambda>gas.
     let ty = (if rlp_isEmpty R (rlp_at R it 3) then ContractCreation else MessageCall) in
     andThen (if rlp_isEmpty R (rlp_at R it 3) then Inr 0
              else andThen (need RLPException (rlp_toHash R 20 (rlp_at R it 3))) (\<lambda>b. Inr (fromBigEndian b))) (\<lambda>to.
     andThen (need RLPException (rlp_toU256 R (rlp_at R it 4))) (\<lambda>val.
     andThen (ensure (rlp_isData R (rlp_at R it 5)) InvalidTransactionFormat) (\<lambda>_.
     let dat = rlp_toBytes R (rlp_at R it 5) in
     andThen (need RLPException (rlp_toByte R (rlp_at R it 6))) (\<lambda>v.
     andThen (need RLPException (rlp_toU256 R (rlp_at R it 7))) (\<lambda>r.
     andThen (need RLPException (rlp_toU256 R (rlp_at R it 8))) (\<lambda>s.
     andThen (tx_read_signature chk v r s (tx_null\<lparr>t_type := ty, t_nonce := nonce, t_value := val,
       t_receiveAddress := to, t_gasPrice := price, t_gas := gas, t_data := dat\<rparr>)) (\<lambda>t.
     andThen (if chk = CheckEverything then andThen (tx_sender R Y t) (\<lambda>x. Inr (snd x)) else Inr t) (\<lambda>t.
     andThen (ensure (length (rlp_items R it) \<le> 9) InvalidTransactionFormat) (\<lambda>_. Inr t)))))))))))))"

section \<open>Checks and prices\<close>

definition secp256k1n :: u256 where
  "secp256k1n = 115792089237316195423570985008687907852837564279074904382605163141518161494337"

definition checkLowS :: "TransactionBase \<Rightarrow> eth_exception + unit" where
  "checkLowS t = ensure (sig_s (t_vrs t) \<le> secp256k1n div 2) InvalidSignature"

definition checkChainId :: "int \<Rightarrow> TransactionBase \<Rightarrow> eth_exception + unit" where
  "checkChainId c t = ensure (t_chainId t = c \<or> t_chainId t = - 4) InvalidSignature"

text \<open>\<open>int64_t\<close> sums of \<open>unsigned\<close> prices, as 64-bit words.\<close>

definition baseGasRequired :: "bool \<Rightarrow> bytes \<Rightarrow> EVMSchedule \<Rightarrow> u64" where
  "baseGasRequired contractCreation d es =
     foldl (\<lambda>g i. g + ucast (if i \<noteq> 0 then txDataNonZeroGas es else txDataZeroGas es))
       (ucast (if contractCreation then txCreateGas es else txGas es)) d"

section \<open>Properties\<close>

lemma tx_null_fields [simp]: "t_chainId tx_null = - 4" "t_hashWith tx_null = zero_hash 32" "t_sender tx_null = 0"
  by (simp_all add: tx_null_def)

lemma length_tx_fields: "length (tx_fields R t g b) = (if g = WithSignature \<or> b then 9 else 6)"
  by (auto simp: tx_fields_def Let_def)

lemma tx_fields_nth:
  "tx_fields R t g b ! 0 = rlp_int R (uint (t_nonce t))" "tx_fields R t g b ! Suc 0 = rlp_int R (uint (t_gasPrice t))"
  "tx_fields R t g b ! 2 = rlp_int R (uint (t_gas t))"
  "tx_fields R t g b ! 3 = rlp_bytes R (if t_type t = MessageCall then toBigEndian 20 (t_receiveAddress t) else [])"
  "tx_fields R t g b ! 4 = rlp_int R (uint (t_value t))" "tx_fields R t g b ! 5 = rlp_bytes R (t_data t)"
  "tx_fields R t WithSignature b ! 6 = rlp_int R (uint (sig_v (t_vrs t)) + (t_chainId t * 2 + 35))"
  "tx_fields R t WithSignature b ! 7 = rlp_int R (uint (sig_r (t_vrs t)))"
  "tx_fields R t WithSignature b ! 8 = rlp_int R (uint (sig_s (t_vrs t)))"
  by (simp_all add: tx_fields_def Let_def nth_append)

lemma tx_fields_items: "rlp_ok R \<Longrightarrow> rlp_null R \<notin> set (tx_fields R t g b)"
  by (auto simp: tx_fields_def Let_def rlp_okD)

text \<open>A transaction as a constructor leaves it, with a signature whose \<open>v\<close> fits its byte.\<close>

definition tx_wf :: "TransactionBase \<Rightarrow> bool" where
  "tx_wf t \<longleftrightarrow> t_type t \<noteq> NullTransaction \<and> (t_type t = ContractCreation \<longrightarrow> t_receiveAddress t = 0)
     \<and> sig_isValid (t_vrs t) \<and> (t_chainId t = - 4 \<or> 1 \<le> t_chainId t)
     \<and> uint (sig_v (t_vrs t)) + t_chainId t * 2 + 35 < 256
     \<and> t_hashWith t = zero_hash 32 \<and> t_sender t = 0"

lemma toBigEndian_Nil: "toBigEndian n v = [] \<longleftrightarrow> n = 0"
  by (metis length_0_conv length_toBigEndian)

lemma sig_v_le_1: "sig_isValid g \<Longrightarrow> sig_v g = 0 \<or> sig_v g = 1"
proof -
  assume "sig_isValid g"
  then have "unat (sig_v g) \<le> 1" by (simp add: sig_isValid_def word_le_nat_alt)
  then have "unat (sig_v g) = 0 \<or> unat (sig_v g) = 1" by linarith
  then show ?thesis by (metis unat_0 unat_1 word_unat_eq_iff)
qed

lemma uint_byte: "0 \<le> n \<Longrightarrow> n < 256 \<Longrightarrow> uint (word_of_int n :: byte) = n"
  by (simp add: unsigned_of_int take_bit_int_eq_self)

lemma chainId_of_streamed:
  assumes "v = 0 \<or> v = (1 :: byte)" and c: "c = - 4 \<or> 1 \<le> c" and "uint v + c * 2 + 35 < 256"
  shows "chainId_of (word_of_int (uint v + (c * 2 + 35))) = Some c"
    "word_of_int (uint v + (c * 2 + 35)) - word_of_int (c * 2 + 35) = v"
proof -
  let ?n = "uint v + (c * 2 + 35)"
  have "0 \<le> ?n" "?n < 256" using assms by auto
  then have "uint (word_of_int ?n :: byte) = ?n" by (rule uint_byte)
  moreover define m :: byte where "m = word_of_int ?n"
  ultimately have n: "uint m = ?n" by simp
  have "36 < m \<longleftrightarrow> 36 < uint m" "m = 27 \<longleftrightarrow> uint m = 27" "m = 28 \<longleftrightarrow> uint m = 28"
    by (simp_all add: word_less_def word_uint_eq_iff)
  with n have "chainId_of m = Some c"
    using assms by (auto simp: chainId_of_def)
  then show "chainId_of (word_of_int ?n) = Some c" by (simp only: m_def)
  show "word_of_int ?n - word_of_int (c * 2 + 35) = v" by simp
qed

text \<open>C16: parsing the serialisation of a signed transaction gives the transaction back, for every chain
  id the byte \<open>v\<close> can carry, as long as the sender is not asked for.\<close>

theorem tx_roundtrip:
  assumes "rlp_ok R" and "tx_wf t" and "chk \<noteq> CheckEverything"
  shows "tx_of_rlp R Y (rlp_list R (tx_fields R t WithSignature b)) chk = Inr t"
proof -
  let ?g = "t_vrs t" and ?c = "t_chainId t"
  let ?it = "rlp_list R (tx_fields R t WithSignature b)"
  let ?t0 = "tx_null\<lparr>t_type := t_type t, t_nonce := t_nonce t, t_value := t_value t,
     t_receiveAddress := t_receiveAddress t, t_gasPrice := t_gasPrice t, t_gas := t_gas t, t_data := t_data t\<rparr>"
  note R = rlp_okD [OF assms(1)] tx_fields_items [OF assms(1)]
  have w: "t_type t \<noteq> NullTransaction" "t_type t = ContractCreation \<Longrightarrow> t_receiveAddress t = 0"
    "sig_isValid ?g" "?c = - 4 \<or> 1 \<le> ?c" "uint (sig_v ?g) + ?c * 2 + 35 < 256"
    "t_hashWith t = zero_hash 32" "t_sender t = 0"
    using assms(2) by (simp_all add: tx_wf_def)
  have v: "sig_v ?g = 0 \<or> sig_v ?g = 1" using w(3) by (rule sig_v_le_1)
  have zero: "\<not> (sig_s ?g = 0 \<and> sig_r ?g = 0)" using w(3) by (auto simp: sig_isValid_def)
  let ?v = "word_of_int (uint (sig_v ?g) + (?c * 2 + 35)) :: byte"
  have t0: "?t0\<lparr>t_vrs := h, t_chainId := ?c, t_vrs := ?g\<rparr> = t" for h
    by (rule TransactionBase.equality) (simp_all add: w)
  have read: "tx_read_signature chk ?v (sig_r ?g) (sig_s ?g) ?t0 = Inr t"
  proof -
    let ?h = "\<lparr>sig_r = sig_r ?g, sig_s = sig_s ?g, sig_v = ?v\<rparr>"
    have g: "\<lparr>sig_r = sig_r ?g, sig_s = sig_s ?g, sig_v = sig_v ?g\<rparr> = ?g" by simp
    have "\<not> hasZeroSignature (?t0\<lparr>t_vrs := ?h\<rparr>)" using zero by (simp add: hasZeroSignature_def)
    then show ?thesis
      using w(3) by (simp only: tx_read_signature_def Let_def if_False chainId_of_streamed [OF v w(4,5)]
          need_simps andThen_simps g t0 ensure_def simp_thms if_True)
  qed
  have at: "rlp_at R ?it i = tx_fields R t WithSignature b ! i" if "i < 9" for i
    using that by (simp add: rlp_at_def R length_tx_fields)
  have n: "rlp_toU256 R (rlp_at R ?it 0) = Some (t_nonce t)" "rlp_toU256 R (rlp_at R ?it 1) = Some (t_gasPrice t)"
    "rlp_toU256 R (rlp_at R ?it 2) = Some (t_gas t)" "rlp_toU256 R (rlp_at R ?it 4) = Some (t_value t)"
    "rlp_toU256 R (rlp_at R ?it 7) = Some (sig_r ?g)" "rlp_toU256 R (rlp_at R ?it 8) = Some (sig_s ?g)"
    "rlp_isData R (rlp_at R ?it 5)" "rlp_toBytes R (rlp_at R ?it 5) = t_data t"
    by (simp_all add: at tx_fields_nth R)
  have n6: "rlp_toByte R (rlp_at R ?it 6) = Some ?v"
    using w(4,5) by (auto simp: at tx_fields_nth R)
  have n3: "rlp_isEmpty R (rlp_at R ?it 3) \<longleftrightarrow> t_type t = ContractCreation"
    using w(1) by (cases "t_type t") (simp_all add: at tx_fields_nth R toBigEndian_Nil)
  have to: "t_type t \<noteq> ContractCreation \<Longrightarrow> rlp_toHash R 20 (rlp_at R ?it 3) = Some (toBigEndian 20 (t_receiveAddress t))"
    using w(1) by (cases "t_type t") (simp_all add: at tx_fields_nth R)
  have ty: "(if rlp_isEmpty R (rlp_at R ?it 3) then ContractCreation else MessageCall) = t_type t"
    using w(1) n3 by (cases "t_type t") simp_all
  have rcv: "(if rlp_isEmpty R (rlp_at R ?it 3) then Inr 0 else
      andThen (need RLPException (rlp_toHash R 20 (rlp_at R ?it 3))) (\<lambda>b. Inr (fromBigEndian b))) = Inr (t_receiveAddress t)"
    using w(2) n3 to by (simp add: from_toBigEndian_id)
  show ?thesis
    unfolding tx_of_rlp_def Let_def ty rcv n n6
    using assms(3) read by (simp add: R length_tx_fields n(7))
qed

definition sample_tx :: TransactionBase where
  "sample_tx = tx_null\<lparr>t_type := MessageCall, t_nonce := 7, t_value := 5, t_receiveAddress := 0x1234,
     t_gasPrice := 2, t_gas := 30000, t_data := [1, 0, 2], t_vrs := \<lparr>sig_r = 9, sig_s = 11, sig_v = 1\<rparr>,
     t_chainId := 1\<rparr>"

lemma sample_tx_wf: "tx_wf sample_tx"
  by (simp add: tx_wf_def sample_tx_def sig_isValid_def tx_null_def)

theorem tx_roundtrip_witness:
  "tx_of_rlp tree_rlp \<lparr>cr_recover = (\<lambda>g h. []), cr_sign = (\<lambda>k h. no_signature)\<rparr> (rlp_list tree_rlp (tx_fields tree_rlp sample_tx WithSignature False)) CheckCheap
     = Inr sample_tx"
  by (rule tx_roundtrip [OF tree_rlp_ok sample_tx_wf]) simp

lemma tx_of_rlp_signature:
  assumes "tx_of_rlp R Y it chk = Inr t"
  shows "\<exists>v r s t0 t1. rlp_toByte R (rlp_at R it 6) = Some v \<and> tx_read_signature chk v r s t0 = Inr t1
    \<and> t_vrs t = t_vrs t1 \<and> t_chainId t = t_chainId t1 \<and> t_type t = t_type t1 \<and> t_type t1 = t_type t0
    \<and> t_type t0 \<noteq> NullTransaction"
proof -
  have snd: "t_vrs t2 = t_vrs t1" "t_chainId t2 = t_chainId t1" "t_type t2 = t_type t1"
    if "tx_sender R Y t1 = Inr (a, t2)" for t1 a t2
    using that by (auto simp: tx_sender_def Let_def split: if_splits)
  have ty: "t_type t1 = t_type t0" if "tx_read_signature chk v r s t0 = Inr t1" for v r s t0 t1
    using that by (auto simp: tx_read_signature_def Let_def andThen_Inr split: if_splits)
  have "\<exists>v r s t0 t1. rlp_toByte R (rlp_at R it 6) = Some v \<and> tx_read_signature chk v r s t0 = Inr t1
      \<and> t_type t0 \<noteq> NullTransaction
      \<and> (if chk = CheckEverything then andThen (tx_sender R Y t1) (\<lambda>x. Inr (snd x)) else Inr t1) = Inr t"
    using assms unfolding tx_of_rlp_def Let_def andThen_Inr need_simps ensure_simps
    apply (elim exE conjE)
    apply (intro exI conjI)
       apply assumption
      apply assumption
     apply simp
    apply (simp add: andThen_Inr)
    done
  then obtain v r s t0 t1 where *: "rlp_toByte R (rlp_at R it 6) = Some v" "tx_read_signature chk v r s t0 = Inr t1"
    "t_type t0 \<noteq> NullTransaction"
    "(if chk = CheckEverything then andThen (tx_sender R Y t1) (\<lambda>x. Inr (snd x)) else Inr t1) = Inr t" by blast
  then have "t_vrs t = t_vrs t1 \<and> t_chainId t = t_chainId t1 \<and> t_type t = t_type t1"
    using snd by (auto simp: andThen_Inr split: if_splits)
  with * ty show ?thesis by blast
qed

text \<open>A transaction without a signature does not survive its serialisation: its \<open>v\<close>, which the parser
  takes for the chain id, is written back as \<open>3 * v + 35\<close>.\<close>

theorem zero_signature_v:
  assumes "tx_of_rlp R Y it chk = Inr t" and "hasZeroSignature t"
  shows "\<exists>v. rlp_toByte R (rlp_at R it 6) = Some v \<and> t_chainId t = uint v
    \<and> tx_fields R t WithSignature b ! 6 = rlp_int R (3 * uint v + 35)"
proof -
  obtain v r s t0 t1 where v: "rlp_toByte R (rlp_at R it 6) = Some v" "tx_read_signature chk v r s t0 = Inr t1"
    and t: "t_vrs t = t_vrs t1" "t_chainId t = t_chainId t1"
    using tx_of_rlp_signature [OF assms(1)] by blast
  have "sig_r (t_vrs t1) = 0" "sig_s (t_vrs t1) = 0" using assms(2) by (simp_all add: hasZeroSignature_def t)
  with v(2) have "t_chainId t1 = uint v" "sig_v (t_vrs t1) = v"
    by (auto simp: tx_read_signature_def hasZeroSignature_def Let_def andThen_Inr split: if_splits)
  with v(1) t show ?thesis by (simp add: tx_fields_nth)
qed

lemma sint_small: "unat (w :: u64) < 9223372036854775808 \<Longrightarrow> sint w = int (unat w)"
proof -
  assume "unat w < 9223372036854775808"
  then have "int (unat w) < int 9223372036854775808" by (simp only: of_nat_less_iff)
  moreover have "- 9223372036854775808 \<le> uint w" using uint_ge_0 [of w] by linarith
  ultimately show ?thesis by (simp add: sint_uint signed_take_bit_int_eq_self_iff)
qed

lemma baseGas_sum:
  assumes "length d < 2 ^ 30"
  shows "unat (baseGasRequired c d es) = unat (if c then txCreateGas es else txGas es)
    + length (filter (\<lambda>i. i = 0) d) * unat (txDataZeroGas es) + length (filter (\<lambda>i. i \<noteq> 0) d) * unat (txDataNonZeroGas es)
    \<and> unat (baseGasRequired c d es) < 9223372036854775808"
proof -
  let ?p = "\<lambda>i. if i \<noteq> 0 then txDataNonZeroGas es else txDataZeroGas es"
  let ?cost = "\<lambda>d. length (filter (\<lambda>i. i = 0) d) * unat (txDataZeroGas es) + length (filter (\<lambda>i. i \<noteq> 0) d) * unat (txDataNonZeroGas es)"
  have step: "unat (foldl (\<lambda>g i. g + ucast (?p i)) g d) = unat g + ?cost d"
    if "unat g + length d * 2 ^ 32 < 2 ^ 63" for g :: u64 and d
    using that
  proof (induction d arbitrary: g)
    case (Cons i d)
    have p: "unat (ucast (?p i) :: u64) = unat (?p i)" "unat (?p i) < 2 ^ 32"
      using unsigned_less [of "?p i", where ?'a = nat] by simp_all
    then have "unat (g + ucast (?p i)) = unat g + unat (?p i)"
      using Cons.prems by (subst unat_add_u64) auto
    with Cons p show ?case by (auto simp: algebra_simps)
  qed simp
  have b: "unat (ucast (if c then txCreateGas es else txGas es) :: u64) = unat (if c then txCreateGas es else txGas es)"
    "unat (if c then txCreateGas es else txGas es) < 2 ^ 32"
    using unsigned_less [of "if c then txCreateGas es else txGas es", where ?'a = nat] by simp_all
  have cost: "?cost d \<le> length d * 2 ^ 32" for d
  proof (induction d)
    case (Cons i d)
    then show ?case
      using unsigned_less [of "txDataZeroGas es", where ?'a = nat] unsigned_less [of "txDataNonZeroGas es", where ?'a = nat]
      by auto
  qed simp
  have eq: "unat (baseGasRequired c d es) = unat (if c then txCreateGas es else txGas es) + ?cost d"
    using assms b unfolding baseGasRequired_def by (subst step) auto
  moreover have "unat (baseGasRequired c d es) < 9223372036854775808"
  proof -
    have "length d < 1073741824" "unat (if c then txCreateGas es else txGas es) < 4294967296"
      "?cost d \<le> length d * 4294967296"
      using assms b(2) cost [of d] by simp_all
    then show ?thesis using eq by linarith
  qed
  ultimately show ?thesis by simp
qed

lemma baseGas_small: "length d < 2 ^ 30 \<Longrightarrow> unat (baseGasRequired c d es) < 9223372036854775808"
  using baseGas_sum by blast

text \<open>The intrinsic gas is the base price plus a price per zero and per non-zero byte of the data, without
  wrap-around for data below a gibibyte.\<close>

theorem baseGasRequired_value:
  assumes "length d < 2 ^ 30"
  shows "unat (baseGasRequired c d es) = unat (if c then txCreateGas es else txGas es)
    + length (filter (\<lambda>i. i = 0) d) * unat (txDataZeroGas es) + length (filter (\<lambda>i. i \<noteq> 0) d) * unat (txDataNonZeroGas es)
    \<and> 0 \<le> sint (baseGasRequired c d es)"
  using baseGas_sum [OF assms, of c es] sint_small [of "baseGasRequired c d es"] by linarith

theorem baseGasRequired_value_witness:
  "unat (baseGasRequired True [0, 7, 0] MetropolisSchedule) = 53000 + 2 * 4 + 68 \<and> 0 \<le> sint (baseGasRequired True [0, 7, 0] MetropolisSchedule)"
  using baseGasRequired_value [of "[0, 7, 0]" True MetropolisSchedule]
  by (simp add: MetropolisSchedule_def EIP158Schedule_def EIP150Schedule_def HomesteadSchedule_def EVMSchedule_of_def DefaultSchedule_def)

theorem zero_signature_v_witness:
  "\<exists>v. rlp_toByte tree_rlp (rlp_at tree_rlp (IList [IInt 0, IInt 0, IInt 9, IBytes [], IInt 0, IBytes [], IInt 5, IInt 0, IInt 0]) 6) = Some v
     \<and> t_chainId (tx_null\<lparr>t_type := ContractCreation, t_gas := 9, t_chainId := 5, t_vrs := \<lparr>sig_r = 0, sig_s = 0, sig_v = 5\<rparr>\<rparr>) = uint v
     \<and> tx_fields tree_rlp (tx_null\<lparr>t_type := ContractCreation, t_gas := 9, t_chainId := 5, t_vrs := \<lparr>sig_r = 0, sig_s = 0, sig_v = 5\<rparr>\<rparr>)
         WithSignature False ! 6 = rlp_int tree_rlp (3 * uint v + 35)"
proof (rule zero_signature_v)
  let ?it = "IList [IInt 0, IInt 0, IInt 9, IBytes [], IInt 0, IBytes [], IInt 5, IInt 0, IInt 0]"
  show "tx_of_rlp tree_rlp Y ?it CheckNone = Inr (tx_null\<lparr>t_type := ContractCreation, t_gas := 9, t_chainId := 5,
      t_vrs := \<lparr>sig_r = 0, sig_s = 0, sig_v = 5\<rparr>\<rparr>)" for Y
    by (simp add: tx_of_rlp_def tree_rlp_def rlp_at_def tx_read_signature_def hasZeroSignature_def Let_def tx_null_def)
qed (simp add: hasZeroSignature_def)

end
