(* ===== verification/SealEngine.thy ===== *)
theory SealEngine
  imports Transaction Hex
begin

text \<open>
  Chain parameters and the checks every seal engine shares: \<open>libethcore/ChainOperationParams.h\<close> and
  \<open>.cpp\<close>, \<open>SealEngine.h\<close> and \<open>.cpp\<close>, and the bits of \<open>ImportRequirements\<close> in \<open>Common.h\<close>. The two
  \<open>unordered_map\<close>s are association lists with distinct keys.
\<close>

section \<open>Precompiled contracts\<close>

record PrecompiledContract =
  pc_cost :: "bytes \<Rightarrow> int"
  pc_execute :: "bytes \<Rightarrow> bool \<times> bytes"
  pc_startingBlock :: u256

definition linear_pricer :: "u32 \<Rightarrow> u32 \<Rightarrow> bytes \<Rightarrow> int" where
  "linear_pricer base per_word d = uint base + (int (length d) + 31) div 32 * uint per_word"

definition PrecompiledContract_linear :: "u32 \<Rightarrow> u32 \<Rightarrow> (bytes \<Rightarrow> bool \<times> bytes) \<Rightarrow> u256 \<Rightarrow> PrecompiledContract" where
  "PrecompiledContract_linear base per_word ex startingBlock =
     \<lparr>pc_cost = linear_pricer base per_word, pc_execute = ex, pc_startingBlock = startingBlock\<rparr>"

section \<open>Chain parameters\<close>

record ChainParams =
  sealEngineName :: string
  blockReward :: u256
  maximumExtraDataSize :: u256
  accountStartNonce :: u256
  tieBreakingGas :: bool
  precompiled :: "(address \<times> PrecompiledContract) list"
  otherParams :: "(string \<times> string) list"

definition ChainOperationParams :: ChainParams where
  "ChainOperationParams = \<lparr>sealEngineName = ''NoProof'', blockReward = 0x4563918244F40000,
     maximumExtraDataSize = 1024, accountStartNonce = 0, tieBreakingGas = True, precompiled = [],
     otherParams = [(''minGasLimit'', ''0x1388''), (''maxGasLimit'', ''0x7fffffffffffffff''),
       (''gasLimitBoundDivisor'', ''0x0400''), (''minimumDifficulty'', ''0x020000''),
       (''difficultyBoundDivisor'', ''0x0800''), (''durationLimit'', ''0x0d''),
       (''registrar'', ''5e70c0bbcd5636e0f9f9316e9f8633feb64d4050''), (''networkID'', ''0x0'')]\<rparr>"

definition u256Param :: "ChainParams \<Rightarrow> string \<Rightarrow> u256" where
  "u256Param P name =
     (let at = (case map_of (otherParams P) name of None \<Rightarrow> '''' | Some s \<Rightarrow> s)
      in case fromHex at DontThrow of Inl _ \<Rightarrow> 0 | Inr b \<Rightarrow> fromBigEndian b)"

definition chainParams_bool :: "ChainParams \<Rightarrow> bool" where
  "chainParams_bool P \<longleftrightarrow> accountStartNonce P \<noteq> - 1"

section \<open>The seal engine\<close>

text \<open>\<open>EnvInfo\<close> is declared in \<open>libevm/ExtVMFace.h\<close>, no part of the repository; these are the values the
  code reads of it.\<close>

record EnvInfo =
  env_number :: u256
  env_author :: address
  env_gasLimit :: u256
  env_gasUsed :: u256

definition ValidSeal :: u32 where "ValidSeal = 1"
definition UncleBasic :: u32 where "UncleBasic = 4"
definition TransactionBasic :: u32 where "TransactionBasic = 8"
definition UncleSeals :: u32 where "UncleSeals = 16"
definition TransactionSignatures :: u32 where "TransactionSignatures = 32"
definition ImportParent :: u32 where "ImportParent = 64"
definition UncleParent :: u32 where "UncleParent = 128"
definition PostGenesis :: u32 where "PostGenesis = 256"
definition CheckUncles :: u32 where "CheckUncles = UncleBasic OR UncleSeals"
definition CheckTransactions :: u32 where "CheckTransactions = TransactionBasic OR TransactionSignatures"
definition OutOfOrderChecks :: u32 where "OutOfOrderChecks = ValidSeal OR CheckUncles OR CheckTransactions"
definition InOrderChecks :: u32 where "InOrderChecks = ImportParent OR UncleParent"
definition ImportEverything :: u32 where
  "ImportEverything = ValidSeal OR CheckUncles OR CheckTransactions OR ImportParent OR UncleParent"

lemmas import_bits = ValidSeal_def UncleBasic_def TransactionBasic_def UncleSeals_def TransactionSignatures_def
  ImportParent_def UncleParent_def PostGenesis_def CheckUncles_def CheckTransactions_def OutOfOrderChecks_def
  InOrderChecks_def ImportEverything_def

definition verifyTransaction :: "ChainParams \<Rightarrow> u32 \<Rightarrow> TransactionBase \<Rightarrow> EnvInfo \<Rightarrow> eth_exception + unit" where
  "verifyTransaction P ir t env =
     andThen (ensure (\<not> (ir AND TransactionSignatures \<noteq> 0 \<and> env_number env < u256Param P ''metropolisForkBlock''
       \<and> hasZeroSignature t \<and> isCreation t)) InvalidSignature) (\<lambda>_.
     andThen (ensure (\<not> (ir AND TransactionBasic \<noteq> 0 \<and> u256Param P ''metropolisForkBlock'' \<le> env_number env
       \<and> hasZeroSignature t \<and> (t_value t \<noteq> 0 \<or> t_gasPrice t \<noteq> 0 \<or> t_nonce t \<noteq> 0)))
       InvalidZeroSignatureTransaction) (\<lambda>_.
     if u256Param P ''homsteadForkBlock'' \<le> env_number env \<and> ir AND TransactionSignatures \<noteq> 0
     then checkLowS t else Inr ()))"

definition seal_evmSchedule :: "ChainParams \<Rightarrow> EnvInfo \<Rightarrow> EVMSchedule" where
  "seal_evmSchedule P env =
     (if u256Param P ''metropolisForkBlock'' \<le> env_number env then MetropolisSchedule
      else if u256Param P ''EIP158ForkBlock'' \<le> env_number env then EIP158Schedule
      else if u256Param P ''EIP150ForkBlock'' \<le> env_number env then EIP150Schedule
      else if u256Param P ''homsteadForkBlock'' \<le> env_number env then HomesteadSchedule
      else FrontierSchedule)"

definition isPrecompiled :: "ChainParams \<Rightarrow> address \<Rightarrow> u256 \<Rightarrow> bool" where
  "isPrecompiled P a n = (case map_of (precompiled P) a of None \<Rightarrow> False | Some c \<Rightarrow> pc_startingBlock c \<le> n)"

text \<open>The engine asks for the price and the result only of contracts it has.\<close>

definition costOfPrecompiled :: "ChainParams \<Rightarrow> address \<Rightarrow> bytes \<Rightarrow> int" where
  "costOfPrecompiled P a d = pc_cost (the (map_of (precompiled P) a)) d"

definition executePrecompiled :: "ChainParams \<Rightarrow> address \<Rightarrow> bytes \<Rightarrow> bool \<times> bytes" where
  "executePrecompiled P a d = pc_execute (the (map_of (precompiled P) a)) d"

section \<open>Properties\<close>

lemma everything_bits: "ImportEverything AND TransactionSignatures \<noteq> 0" "ImportEverything AND TransactionBasic \<noteq> 0"
  by (simp_all add: import_bits)

text \<open>With all requirements, a transaction passes exactly when a missing signature is used as the current
  rules allow and the signature's \<open>s\<close> is low.\<close>

lemma verifyTransaction_Inr:
  "verifyTransaction P ImportEverything t env = Inr () \<longleftrightarrow>
     (hasZeroSignature t \<longrightarrow> (if env_number env < u256Param P ''metropolisForkBlock'' then \<not> isCreation t
        else t_value t = 0 \<and> t_gasPrice t = 0 \<and> t_nonce t = 0))
   \<and> (u256Param P ''homsteadForkBlock'' \<le> env_number env \<longrightarrow> sig_s (t_vrs t) \<le> secp256k1n div 2)"
  by (auto simp: verifyTransaction_def andThen_Inr everything_bits checkLowS_def not_le)

lemma verifyTransaction_Inl:
  "verifyTransaction P ir t env = Inl e \<Longrightarrow> e = InvalidSignature \<or> e = InvalidZeroSignatureTransaction"
  by (auto simp: verifyTransaction_def andThen_Inl checkLowS_def split: if_splits)

lemma wellPriced_seal: "wellPriced (seal_evmSchedule P env)"
  by (simp add: seal_evmSchedule_def wellPriced_schedules)

text \<open>A parameter that is not set is 0.\<close>

lemma u256Param_missing: "map_of (otherParams P) n = None \<Longrightarrow> u256Param P n = 0"
  by (simp add: u256Param_def fromHex_def)

text \<open>The fork blocks are not among the parameters a chain has by default, so that without a
  configuration every block, the genesis included, runs under the Metropolis schedule and must have
  low-\<open>s\<close> signatures; and whatever the configuration, the schedule chosen is well priced.\<close>

theorem default_schedule:
  "seal_evmSchedule ChainOperationParams env = MetropolisSchedule
   \<and> (verifyTransaction ChainOperationParams ImportEverything t env = Inr () \<longleftrightarrow>
        (if hasZeroSignature t then t_value t = 0 \<and> t_gasPrice t = 0 \<and> t_nonce t = 0 else True) \<and> sig_s (t_vrs t) \<le> secp256k1n div 2)
   \<and> wellPriced (seal_evmSchedule P env)"
proof -
  have "u256Param ChainOperationParams ''metropolisForkBlock'' = 0" "u256Param ChainOperationParams ''homsteadForkBlock'' = 0"
    by (simp_all add: u256Param_missing ChainOperationParams_def)
  then show ?thesis
    using verifyTransaction_Inr [of ChainOperationParams t env] wellPriced_seal [of P env]
    by (simp add: seal_evmSchedule_def)
qed

end
