(* ===== verification/Executive.thy ===== *)
theory Executive
  imports SealEngine VMExec
begin

text \<open>
  The execution of a transaction or a message: \<open>libethereum/Executive.h\<close> and \<open>Executive.cpp\<close>, with the
  world the machine sees (\<open>libethereum/ExtVM.h\<close>). The accounts (\<open>State.h\<close>) are no part of the
  repository: what the code calls of them is the record \<open>state_ops\<close> over a type \<open>'w\<close>, where \<open>None\<close> is
  the exception \<open>NotEnoughCash\<close> of a debit that is not covered. The rest of \<open>ExtVM\<close> (its calls and
  creations, storage writes, logs) is in \<open>ExtVM.cpp\<close> and \<open>ExtVMFace.h\<close>, also missing: it is the field
  \<open>ext_rest\<close>, and \<open>ExtVM\<close> overrides it with what \<open>ExtVM.h\<close> defines. The machine runs on the pair of
  the accounts and the substate of the execution.

  Operations that throw give \<open>Inl\<close> of the exception and the object at the throw, whose \<open>m_excepted\<close> the
  caller reads. Logging, tracing and the exits for exceptions that are not the machine's are left out.
\<close>

section \<open>The accounts and the substate\<close>

record 'w state_ops =
  st_balance :: "address \<Rightarrow> 'w \<Rightarrow> u256"
  st_getNonce :: "address \<Rightarrow> 'w \<Rightarrow> u256"
  st_addBalance :: "address \<Rightarrow> u256 \<Rightarrow> 'w \<Rightarrow> 'w"
  st_subBalance :: "address \<Rightarrow> u256 \<Rightarrow> 'w \<Rightarrow> 'w option"
  st_transferBalance :: "address \<Rightarrow> address \<Rightarrow> u256 \<Rightarrow> 'w \<Rightarrow> 'w option"
  st_incNonce :: "address \<Rightarrow> 'w \<Rightarrow> 'w"
  st_setNewCode :: "address \<Rightarrow> bytes \<Rightarrow> 'w \<Rightarrow> 'w"
  st_kill :: "address \<Rightarrow> 'w \<Rightarrow> 'w"
  st_savepoint :: "'w \<Rightarrow> nat"
  st_rollback :: "nat \<Rightarrow> 'w \<Rightarrow> 'w"
  st_addressHasCode :: "address \<Rightarrow> 'w \<Rightarrow> bool"
  st_code :: "address \<Rightarrow> 'w \<Rightarrow> bytes"
  st_codeHash :: "address \<Rightarrow> 'w \<Rightarrow> h256"
  st_storage :: "address \<Rightarrow> u256 \<Rightarrow> 'w \<Rightarrow> u256"
  st_addressInUse :: "address \<Rightarrow> 'w \<Rightarrow> bool"
  st_accountNonemptyAndExisting :: "address \<Rightarrow> 'w \<Rightarrow> bool"

text \<open>\<open>suicides\<close> is a set: the list is the order in which it is walked.\<close>

record 'l SubState =
  suicides :: "address list"
  logs :: "'l list"
  refunds :: u256

record ext_args =
  ea_myAddress :: address
  ea_caller :: address
  ea_origin :: address
  ea_value :: u256
  ea_gasPrice :: u256
  ea_data :: bytes
  ea_code :: bytes
  ea_codeHash :: h256
  ea_depth :: u32

record ('w, 'l, 'i) xenv =
  xe_state :: "'w state_ops"
  xe_rlp :: "'i rlp"
  xe_crypto :: crypto
  xe_params :: ChainParams
  xe_env :: EnvInfo
  sub_new :: "'l SubState"
  sub_clear :: "'l SubState \<Rightarrow> 'l SubState"
  sub_plus :: "'l SubState \<Rightarrow> 'l SubState \<Rightarrow> 'l SubState"
  ext_rest :: "ext_args \<Rightarrow> ('w \<times> 'l SubState) ext"

abbreviation xe_schedule :: "('w, 'l, 'i) xenv \<Rightarrow> EVMSchedule" where
  "xe_schedule X \<equiv> seal_evmSchedule (xe_params X) (xe_env X)"

section \<open>The world of the machine\<close>

definition ext_exists :: "('w, 'l, 'i) xenv \<Rightarrow> address \<Rightarrow> 'w \<Rightarrow> bool" where
  "ext_exists X a w = (if emptinessIsNonexistence (xe_schedule X)
     then st_accountNonemptyAndExisting (xe_state X) a w else st_addressInUse (xe_state X) a w)"

definition ExtVM :: "('w, 'l, 'i) xenv \<Rightarrow> ext_args \<Rightarrow> ('w \<times> 'l SubState) ext" where
  "ExtVM X a = (ext_rest X a)\<lparr>evmSchedule := xe_schedule X, myAddress := ea_myAddress a, caller := ea_caller a,
     origin := ea_origin a, callvalue := ea_value a, gasPrice := ea_gasPrice a, calldata := ea_data a,
     code := ea_code a, depth := ea_depth a,
     store := (\<lambda>n ws. st_storage (xe_state X) (ea_myAddress a) n (fst ws)),
     balance := (\<lambda>b ws. st_balance (xe_state X) b (fst ws)),
     account_exists := (\<lambda>b ws. ext_exists X b (fst ws)),
     codeAt := (\<lambda>b ws. st_code (xe_state X) b (fst ws))\<rparr>"

section \<open>The executive\<close>

datatype CodeDeposit = CD_None | CD_Failed | CD_Success

record ExecutionResult =
  er_gasUsed :: u256
  er_excepted :: TransactionException
  er_newAddress :: address
  er_output :: bytes
  er_codeDeposit :: CodeDeposit
  er_gasRefunded :: u256
  er_depositSize :: u32
  er_gasForDeposit :: u256

record ('w, 'l) executive =
  x_s :: 'w
  x_ext :: "(ext_args \<times> 'l SubState) option"
  x_output :: bytes
  x_res :: "ExecutionResult option"
  x_depth :: u32
  x_excepted :: TransactionException
  x_baseGasRequired :: u64
  x_gas :: u256
  x_refunded :: u256
  x_t :: TransactionBase
  x_logs :: "'l list"
  x_gasCost :: u256
  x_isCreation :: bool
  x_newAddress :: address
  x_savepoint :: nat

definition executive_new :: "'w \<Rightarrow> u32 \<Rightarrow> ('w, 'l) executive" where
  "executive_new w level = \<lparr>x_s = w, x_ext = None, x_output = [], x_res = None, x_depth = level,
     x_excepted = TE_None, x_baseGasRequired = 0, x_gas = 0, x_refunded = 0, x_t = tx_null, x_logs = [],
     x_gasCost = 0, x_isCreation = False, x_newAddress = 0, x_savepoint = 0\<rparr>"

definition set_res :: "(ExecutionResult \<Rightarrow> ExecutionResult) \<Rightarrow> ('w, 'l) executive \<Rightarrow> ('w, 'l) executive" where
  "set_res f x = x\<lparr>x_res := map_option f (x_res x)\<rparr>"

definition gasUsed :: "('w, 'l) executive \<Rightarrow> u256" where
  "gasUsed x = t_gas (x_t x) - x_gas x"

definition accrueSubState :: "('w, 'l, 'i) xenv \<Rightarrow> ('w, 'l) executive \<Rightarrow> 'l SubState \<Rightarrow> 'l SubState" where
  "accrueSubState X x parent = (case x_ext x of None \<Rightarrow> parent | Some (a, sub) \<Rightarrow> sub_plus X parent sub)"

definition x_throw :: "eth_exception \<Rightarrow> TransactionException \<Rightarrow> ('w, 'l) executive
    \<Rightarrow> (eth_exception \<times> ('w, 'l) executive) + 'r" where
  "x_throw e te x = Inl (e, x\<lparr>x_excepted := te\<rparr>)"

section \<open>Checking a transaction\<close>

text \<open>The sums and products are those of unbounded integers (\<open>bigint\<close>).\<close>

definition initialize_sender :: "('w, 'l, 'i) xenv \<Rightarrow> ('w, 'l) executive
    \<Rightarrow> (eth_exception \<times> ('w, 'l) executive) + ('w, 'l) executive" where
  "initialize_sender X x =
     (case tx_sender (xe_rlp X) (xe_crypto X) (x_t x) of
        Inl e \<Rightarrow> x_throw e TE_InvalidSignature x
      | Inr (a, t) \<Rightarrow> let x = x\<lparr>x_t := t\<rparr>;
          gasCost = uint (t_gas t) * uint (t_gasPrice t);
          totalCost = uint (t_value t) + gasCost
        in if t_nonce t \<noteq> st_getNonce (xe_state X) a (x_s x) then x_throw InvalidNonce TE_InvalidNonce x
           else if uint (st_balance (xe_state X) a (x_s x)) < totalCost then x_throw NotEnoughCash TE_NotEnoughCash x
           else Inr (x\<lparr>x_gasCost := word_of_int gasCost\<rparr>))"

definition initialize :: "('w, 'l, 'i) xenv \<Rightarrow> TransactionBase \<Rightarrow> ('w, 'l) executive
    \<Rightarrow> (eth_exception \<times> ('w, 'l) executive) + ('w, 'l) executive" where
  "initialize X t x =
     (let x = x\<lparr>x_t := t\<rparr>; base = baseGasRequired (isCreation t) (t_data t) (xe_schedule X)
      in case verifyTransaction (xe_params X) ImportEverything t (xe_env X) of
        Inl e \<Rightarrow> x_throw e (toTransactionException e) x
      | Inr _ \<Rightarrow>
        if uint (env_gasLimit (xe_env X)) < uint (env_gasUsed (xe_env X)) + uint (t_gas t)
        then x_throw BlockGasLimitReached TE_BlockGasLimitReached x
        else let x = x\<lparr>x_baseGasRequired := base\<rparr>
          in if uint (t_gas t) < sint base then x_throw OutOfGasBase TE_OutOfGasBase x
             else if hasZeroSignature t then Inr x
             else initialize_sender X x)"

section \<open>Calling and creating\<close>

definition EIP158 :: "('w, 'l, 'i) xenv \<Rightarrow> bool" where
  "EIP158 X \<longleftrightarrow> u256Param (xe_params X) ''EIP158ForkBlock'' \<le> env_number (xe_env X)"

text \<open>Both answer whether the execution is finished, so that \<open>go\<close> need not be called.\<close>

definition call_precompiled :: "('w, 'l, 'i) xenv \<Rightarrow> CallParameters \<Rightarrow> ('w, 'l) executive \<Rightarrow> ('w, 'l) executive" where
  "call_precompiled X p x =
     (let x = x\<lparr>x_gas := word_of_int (uint (cp_gas p) - costOfPrecompiled (xe_params X) (codeAddress p) (cp_data p))\<rparr>;
          (success, out) = executePrecompiled (xe_params X) (codeAddress p) (cp_data p);
          x = (if success then x else x\<lparr>x_gas := 0, x_excepted := TE_OutOfGas\<rparr>)
      in x\<lparr>x_output := out\<rparr>)"

definition call_account :: "('w, 'l, 'i) xenv \<Rightarrow> CallParameters \<Rightarrow> u256 \<Rightarrow> address \<Rightarrow> ('w, 'l) executive
    \<Rightarrow> ('w, 'l) executive" where
  "call_account X p price orig x =
     (let S = xe_state X; x = x\<lparr>x_gas := cp_gas p\<rparr>
      in if st_addressHasCode S (codeAddress p) (x_s x)
         then x\<lparr>x_ext := Some (\<lparr>ea_myAddress = receiveAddress p, ea_caller = senderAddress p, ea_origin = orig,
           ea_value = apparentValue p, ea_gasPrice = price, ea_data = cp_data p,
           ea_code = st_code S (codeAddress p) (x_s x), ea_codeHash = st_codeHash S (codeAddress p) (x_s x),
           ea_depth = x_depth x\<rparr>, sub_new X)\<rparr>
         else x)"

definition call_with :: "('w, 'l, 'i) xenv \<Rightarrow> CallParameters \<Rightarrow> u256 \<Rightarrow> address \<Rightarrow> ('w, 'l) executive
    \<Rightarrow> (eth_exception \<times> ('w, 'l) executive) + (bool \<times> ('w, 'l) executive)" where
  "call_with X p price orig x =
     (let S = xe_state X;
          x = (if tx_operator_bool (x_t x) \<and> senderAddress p \<noteq> MaxAddress
               then x\<lparr>x_s := st_incNonce S (senderAddress p) (x_s x)\<rparr> else x);
          x = x\<lparr>x_savepoint := st_savepoint S (x_s x)\<rparr>;
          pre = isPrecompiled (xe_params X) (codeAddress p) (env_number (xe_env X))
      in if pre \<and> uint (cp_gas p) < costOfPrecompiled (xe_params X) (codeAddress p) (cp_data p)
         then Inr (True, (if EIP158 X then x\<lparr>x_s := st_addBalance S (codeAddress p) 0 (x_s x)\<rparr> else x)
                \<lparr>x_excepted := TE_OutOfGasBase\<rparr>)
         else let x = (if pre then call_precompiled X p x else call_account X p price orig x)
           in case st_transferBalance S (senderAddress p) (receiveAddress p) (valueTransfer p) (x_s x) of
                None \<Rightarrow> Inl (NotEnoughCash, x)
              | Some w \<Rightarrow> Inr (x_ext x = None, x\<lparr>x_s := w\<rparr>))"

definition call_to :: "('w, 'l, 'i) xenv \<Rightarrow> address \<Rightarrow> address \<Rightarrow> u256 \<Rightarrow> u256 \<Rightarrow> bytes \<Rightarrow> u256 \<Rightarrow> ('w, 'l) executive
    \<Rightarrow> (eth_exception \<times> ('w, 'l) executive) + (bool \<times> ('w, 'l) executive)" where
  "call_to X receiver sender val price d g x = call_with X \<lparr>senderAddress = sender, codeAddress = receiver,
     receiveAddress = receiver, valueTransfer = val, apparentValue = val, cp_gas = g, cp_data = d\<rparr> price sender x"

definition new_address :: "'i rlp \<Rightarrow> address \<Rightarrow> u256 \<Rightarrow> address" where
  "new_address R sender nonce =
     fromBigEndian (right160 (sha3 (rlp_data R (rlp_list R [rlp_bytes R (toBigEndian 20 sender), rlp_int R (uint nonce)]))))"

definition create :: "('w, 'l, 'i) xenv \<Rightarrow> address \<Rightarrow> u256 \<Rightarrow> u256 \<Rightarrow> u256 \<Rightarrow> bytes \<Rightarrow> address \<Rightarrow> ('w, 'l) executive
    \<Rightarrow> (eth_exception \<times> ('w, 'l) executive) + (bool \<times> ('w, 'l) executive)" where
  "create X sender endowment price g init orig x =
     (let S = xe_state X;
          nonce = st_getNonce S sender (x_s x);
          x = (if sender \<noteq> MaxAddress then x\<lparr>x_s := st_incNonce S sender (x_s x)\<rparr> else x);
          x = x\<lparr>x_savepoint := st_savepoint S (x_s x), x_isCreation := True,
            x_newAddress := new_address (xe_rlp X) sender nonce, x_gas := g\<rparr>
      in case st_transferBalance S sender (x_newAddress x) endowment (x_s x) of
           None \<Rightarrow> Inl (NotEnoughCash, x)
         | Some w \<Rightarrow>
           let x = x\<lparr>x_s := (if EIP158 X then st_incNonce S (x_newAddress x) w else w)\<rparr>;
               x = (if init \<noteq> []
                    then x\<lparr>x_ext := Some (\<lparr>ea_myAddress = x_newAddress x, ea_caller = sender, ea_origin = orig,
                      ea_value = endowment, ea_gasPrice = price, ea_data = [], ea_code = init,
                      ea_codeHash = sha3 init, ea_depth = x_depth x\<rparr>, sub_new X)\<rparr>
                    else if st_addressHasCode S (x_newAddress x) (x_s x)
                    then x\<lparr>x_s := st_setNewCode S (x_newAddress x) [] (x_s x)\<rparr> else x)
           in Inr (x_ext x = None, x))"

definition execute :: "('w, 'l, 'i) xenv \<Rightarrow> ('w, 'l) executive
    \<Rightarrow> (eth_exception \<times> ('w, 'l) executive) + (bool \<times> ('w, 'l) executive)" where
  "execute X x =
     (case tx_sender (xe_rlp X) (xe_crypto X) (x_t x) of
        Inl e \<Rightarrow> Inl (e, x)
      | Inr (a, t) \<Rightarrow> (case st_subBalance (xe_state X) a (x_gasCost x) (x_s x) of
           None \<Rightarrow> Inl (NotEnoughCash, x\<lparr>x_t := t\<rparr>)
         | Some w \<Rightarrow> let x = x\<lparr>x_t := t, x_s := w\<rparr>; g = t_gas t - word_of_int (sint (x_baseGasRequired x))
           in if isCreation t then create X a (t_value t) (t_gasPrice t) g (t_data t) a x
              else call_to X (t_receiveAddress t) a (t_value t) (t_gasPrice t) (t_data t) g x))"

section \<open>Running the code\<close>

definition revert_exec :: "('w, 'l, 'i) xenv \<Rightarrow> ('w, 'l) executive \<Rightarrow> ('w, 'l) executive" where
  "revert_exec X x = x\<lparr>x_ext := map_option (\<lambda>(a, sub). (a, sub_clear X sub)) (x_ext x), x_newAddress := 0,
     x_s := st_rollback (xe_state X) (x_savepoint x) (x_s x)\<rparr>"

text \<open>The handler of a machine exception other than \<open>RevertInstruction\<close>.\<close>

definition vm_failed :: "('w, 'l, 'i) xenv \<Rightarrow> vm_exception \<Rightarrow> ('w, 'l) executive \<Rightarrow> ('w, 'l) executive" where
  "vm_failed X e x = revert_exec X (x\<lparr>x_gas := 0, x_excepted := toTransactionException (VMException e)\<rparr>)"

text \<open>Paying for the code a creation returns; \<open>None\<close> is the throw of \<open>OutOfGas\<close>, and the code stored is
  empty when the gas does not suffice and the schedule tolerates it.\<close>

definition deposit_gas :: "EVMSchedule \<Rightarrow> bytes \<Rightarrow> u256" where
  "deposit_gas sch out = ucast (of_nat (length out) * ucast (createDataGas sch) :: u64)"

definition note_deposit :: "bytes \<Rightarrow> ('w, 'l) executive \<Rightarrow> ('w, 'l) executive" where
  "note_deposit out x = set_res (\<lambda>r. r\<lparr>er_gasForDeposit := x_gas x, er_depositSize := of_nat (length out)\<rparr>) x"

definition deposit :: "('w, 'l, 'i) xenv \<Rightarrow> address \<Rightarrow> bytes \<Rightarrow> ('w, 'l) executive \<Rightarrow> ('w, 'l) executive option" where
  "deposit X a out x =
     (let sch = xe_schedule X;
          keep = (\<lambda>out x. (set_res (\<lambda>r. r\<lparr>er_output := out\<rparr>) x)\<lparr>x_s := st_setNewCode (xe_state X) a out (x_s x)\<rparr>)
      in if unat (maxCodeSize sch) < length out then None
         else if deposit_gas sch out \<le> x_gas x
         then Some (keep out (set_res (\<lambda>r. r\<lparr>er_codeDeposit := CD_Success\<rparr>) (x\<lparr>x_gas := x_gas x - deposit_gas sch out\<rparr>)))
         else if exceptionalFailedCodeDeposit sch then None
         else Some (keep [] (set_res (\<lambda>r. r\<lparr>er_codeDeposit := CD_Failed\<rparr>) x)))"

definition go_done :: "('w, 'l, 'i) xenv \<Rightarrow> ext_args \<Rightarrow> vm_exception + bytes \<Rightarrow> ('w, 'l) executive \<Rightarrow> ('w, 'l) executive" where
  "go_done X a r x = (case r of
     Inl (RevertInstruction out) \<Rightarrow> (revert_exec X x)\<lparr>x_output := out, x_excepted := TE_RevertInstruction\<rparr>
   | Inl e \<Rightarrow> vm_failed X e x
   | Inr out \<Rightarrow> if x_isCreation x
       then (let x = note_deposit out x in case deposit X (ea_myAddress a) out x of
               None \<Rightarrow> vm_failed X OutOfGas x | Some y \<Rightarrow> y)
       else x\<lparr>x_output := out\<rparr>)"

text \<open>\<open>None\<close> would be a machine that does not end within its fuel.\<close>

definition go :: "('w, 'l, 'i) xenv \<Rightarrow> ('w, 'l) executive \<Rightarrow> ('w, 'l) executive option" where
  "go X x = (case x_ext x of None \<Rightarrow> Some x
   | Some (a, sub) \<Rightarrow> map_option (\<lambda>(r, g, w, sub).
       let x = go_done X a r (x\<lparr>x_gas := g, x_s := w, x_ext := Some (a, sub)\<rparr>)
       in if x_output x \<noteq> [] then set_res (\<lambda>e. e\<lparr>er_output := x_output x\<rparr>) x else x)
       (exec (ExtVM X a) (x_gas x) (x_s x, sub)))"

section \<open>Settling\<close>

definition suicide_refunds :: "('w, 'l, 'i) xenv \<Rightarrow> ('w, 'l) executive \<Rightarrow> ('w, 'l) executive" where
  "suicide_refunds X x = x\<lparr>x_ext := map_option (\<lambda>(a, sub). (a, sub\<lparr>refunds := refunds sub
     + ucast (ucast (suicideRefundGas (xe_schedule X)) * of_nat (length (suicides sub)) :: u64)\<rparr>)) (x_ext x)\<rparr>"

definition apply_refund :: "('w, 'l) executive \<Rightarrow> ('w, 'l) executive" where
  "apply_refund x =
     (let r = (case x_ext x of None \<Rightarrow> 0 | Some (a, sub) \<Rightarrow> min ((t_gas (x_t x) - x_gas x) div 2) (refunds sub))
      in x\<lparr>x_refunded := r, x_gas := x_gas x + r\<rparr>)"

definition pay_fees :: "('w, 'l, 'i) xenv \<Rightarrow> address \<Rightarrow> ('w, 'l) executive \<Rightarrow> 'w" where
  "pay_fees X a x =
     (let S = xe_state X; t = x_t x; w = st_addBalance S a (x_gas x * t_gasPrice t) (x_s x);
          feesEarned = (t_gas t - x_gas x) * t_gasPrice t
      in st_addBalance S (env_author (xe_env X)) feesEarned w)"

definition dead :: "('w, 'l) executive \<Rightarrow> address list" where
  "dead x = (case x_ext x of None \<Rightarrow> [] | Some (a, sub) \<Rightarrow> suicides sub)"

definition collect_results :: "('w, 'l, 'i) xenv \<Rightarrow> ('w, 'l) executive \<Rightarrow> ('w, 'l) executive" where
  "collect_results X x =
     (let sub = map_option snd (x_ext x);
          x = x\<lparr>x_s := fold (st_kill (xe_state X)) (dead x) (x_s x),
            x_logs := (case sub of None \<Rightarrow> x_logs x | Some s \<Rightarrow> logs s)\<rparr>
      in set_res (\<lambda>r. r\<lparr>er_gasUsed := gasUsed x, er_excepted := x_excepted x, er_newAddress := x_newAddress x,
           er_gasRefunded := (case sub of None \<Rightarrow> 0 | Some s \<Rightarrow> refunds s)\<rparr>) x)"

definition finalize :: "('w, 'l, 'i) xenv \<Rightarrow> ('w, 'l) executive
    \<Rightarrow> (eth_exception \<times> ('w, 'l) executive) + ('w, 'l) executive" where
  "finalize X x =
     (let x = apply_refund (suicide_refunds X x)
      in if tx_operator_bool (x_t x)
         then (case tx_sender (xe_rlp X) (xe_crypto X) (x_t x) of
                 Inl e \<Rightarrow> Inl (e, x)
               | Inr (a, t) \<Rightarrow> let x = x\<lparr>x_t := t\<rparr> in Inr (collect_results X (x\<lparr>x_s := pay_fees X a x\<rparr>)))
         else Inr (collect_results X x))"

section \<open>A call outside a transaction\<close>

text \<open>\<open>Client::call\<close> on a copy of the accounts; whatever is thrown, the result so far is returned.\<close>

definition ExecutionResult_new :: ExecutionResult where
  "ExecutionResult_new = \<lparr>er_gasUsed = 0, er_excepted = TE_Unknown, er_newAddress = 0, er_output = [],
     er_codeDeposit = CD_None, er_gasRefunded = 0, er_depositSize = 0, er_gasForDeposit = 0\<rparr>"

definition client_call :: "('w, 'l, 'i) xenv \<Rightarrow> 'w \<Rightarrow> address \<Rightarrow> bytes \<Rightarrow> u256 \<Rightarrow> u256 \<Rightarrow> u256 \<Rightarrow> address
    \<Rightarrow> ExecutionResult option" where
  "client_call X w dest d g val price sender =
     (let w = st_addBalance (xe_state X) sender (val + price * g) w;
          x = (executive_new w 0)\<lparr>x_res := Some ExecutionResult_new\<rparr>
      in case call_to X dest sender val price d g x of
           Inl (e, y) \<Rightarrow> x_res y
         | Inr (fin, y) \<Rightarrow> (case (if fin then Some y else go X y) of
               None \<Rightarrow> None
             | Some z \<Rightarrow> (case finalize X z of Inl (e, u) \<Rightarrow> x_res u | Inr u \<Rightarrow> x_res u)))"

text \<open>A whole transaction, as the class documents its use: \<open>initialize\<close>, \<open>execute\<close>, \<open>go\<close> unless the
  execution is finished, \<open>finalize\<close>.\<close>

definition transact :: "('w, 'l, 'i) xenv \<Rightarrow> TransactionBase \<Rightarrow> ('w, 'l) executive
    \<Rightarrow> ((eth_exception \<times> ('w, 'l) executive) + ('w, 'l) executive) option" where
  "transact X t x = (case andThen (initialize X t x) (execute X) of
     Inl ex \<Rightarrow> Some (Inl ex)
   | Inr (fin, y) \<Rightarrow> map_option (finalize X) (if fin then Some y else go X y))"

end
