(* ===== verification/ExecutiveProps.thy ===== *)
theory ExecutiveProps
  imports Executive
begin

text \<open>
  The properties of \<open>Executive\<close>: which transactions are accepted, what an execution may do to the gas
  and to the accounts, the price of a deposit, and who pays and earns what at the end.
\<close>

section \<open>Accepting a transaction\<close>

lemma tx_sender_Inl: "tx_sender R Y t = Inl e \<Longrightarrow> e = InvalidSignature"
  by (auto simp: tx_sender_def Let_def split: if_splits)

lemma tx_sender_Inr: "tx_sender R Y t = Inr (a, t') \<Longrightarrow> t' = t\<lparr>t_sender := a\<rparr>"
  by (auto simp: tx_sender_def Let_def split: if_splits)

text \<open>The conditions on a transaction, over the integers.\<close>

definition affordable :: "('w, 'l, 'i) xenv \<Rightarrow> 'w \<Rightarrow> address \<Rightarrow> TransactionBase \<Rightarrow> bool" where
  "affordable X w a t \<longleftrightarrow> t_nonce t = st_getNonce (xe_state X) a w
     \<and> uint (t_value t) + uint (t_gas t) * uint (t_gasPrice t) \<le> uint (st_balance (xe_state X) a w)"

definition acceptable :: "('w, 'l, 'i) xenv \<Rightarrow> 'w \<Rightarrow> TransactionBase \<Rightarrow> bool" where
  "acceptable X w t \<longleftrightarrow> verifyTransaction (xe_params X) ImportEverything t (xe_env X) = Inr ()
     \<and> uint (env_gasUsed (xe_env X)) + uint (t_gas t) \<le> uint (env_gasLimit (xe_env X))
     \<and> sint (baseGasRequired (isCreation t) (t_data t) (xe_schedule X)) \<le> uint (t_gas t)
     \<and> (if hasZeroSignature t then True else
          (case tx_sender (xe_rlp X) (xe_crypto X) t of Inl _ \<Rightarrow> False | Inr (a, _) \<Rightarrow> affordable X w a t))"

lemma uint_of_bounded: "0 \<le> n \<Longrightarrow> n \<le> uint (b :: u256) \<Longrightarrow> uint (word_of_int n :: u256) = n"
  using uint_lt2p [of b] by (simp add: unsigned_of_int take_bit_int_eq_self)

lemma initialize_sender_cases:
  "case initialize_sender X x of
     Inl (e, y) \<Rightarrow> x_s y = x_s x \<and> x_excepted y = toTransactionException e
       \<and> \<not> (case tx_sender (xe_rlp X) (xe_crypto X) (x_t x) of Inl _ \<Rightarrow> False | Inr (a, _) \<Rightarrow> affordable X (x_s x) a (x_t x))
   | Inr y \<Rightarrow> x_s y = x_s x \<and> x_excepted y = x_excepted x
       \<and> (\<exists>a. tx_sender (xe_rlp X) (xe_crypto X) (x_t x) = Inr (a, x_t y) \<and> affordable X (x_s x) a (x_t x))
       \<and> x_baseGasRequired y = x_baseGasRequired x
       \<and> uint (x_gasCost y) = uint (t_gas (x_t x)) * uint (t_gasPrice (x_t x))"
proof (cases "tx_sender (xe_rlp X) (xe_crypto X) (x_t x)")
  case (Inl e)
  then show ?thesis
    using tx_sender_Inl [OF Inl] by (simp add: initialize_sender_def x_throw_def)
next
  case (Inr p)
  obtain a t where p: "p = (a, t)" by (cases p)
  have t: "t = (x_t x)\<lparr>t_sender := a\<rparr>" using Inr tx_sender_Inr unfolding p by blast
  have cost: "uint (word_of_int (uint (t_gas t) * uint (t_gasPrice t)) :: u256) = uint (t_gas t) * uint (t_gasPrice t)"
    if "uint (t_value t) + uint (t_gas t) * uint (t_gasPrice t) \<le> uint b" for b :: u256
    by (rule uint_of_bounded [of _ b]) (use that in \<open>auto intro: order.trans [rotated]\<close>)
  show ?thesis
  proof (cases "affordable X (x_s x) a (x_t x)")
    case True
    then have "initialize_sender X x = Inr (x\<lparr>x_t := t, x_gasCost := word_of_int (uint (t_gas t) * uint (t_gasPrice t))\<rparr>)"
      using Inr by (simp add: initialize_sender_def p affordable_def Let_def t not_less)
    with True Inr cost [of "st_balance (xe_state X) a (x_s x)"] show ?thesis by (simp add: p affordable_def t)
  next
    case False
    then show ?thesis
      using Inr by (auto simp: initialize_sender_def p affordable_def Let_def t not_less x_throw_def)
  qed
qed

text \<open>C11: \<open>initialize\<close> accepts a transaction exactly when the seal engine, the block's gas limit, the
  intrinsic gas and, unless it is unsigned, the sender's nonce and balance allow it, all sums and products
  taken without wrap-around. A refusal changes no account and records the code of its exception; an
  acceptance changes no account either and records the exact price of the gas.\<close>

theorem initialize_spec:
  "case initialize X t x of
     Inl (e, y) \<Rightarrow> \<not> acceptable X (x_s x) t \<and> x_s y = x_s x \<and> x_excepted y = toTransactionException e
   | Inr y \<Rightarrow> acceptable X (x_s x) t \<and> x_s y = x_s x \<and> x_excepted y = x_excepted x
       \<and> x_baseGasRequired y = baseGasRequired (isCreation t) (t_data t) (xe_schedule X)
       \<and> (if hasZeroSignature t then x_t y = t \<and> x_gasCost y = x_gasCost x
          else (\<exists>a. tx_sender (xe_rlp X) (xe_crypto X) t = Inr (a, x_t y))
            \<and> uint (x_gasCost y) = uint (t_gas t) * uint (t_gasPrice t))"
proof (cases "verifyTransaction (xe_params X) ImportEverything t (xe_env X)")
  case (Inl e)
  then show ?thesis by (simp add: initialize_def acceptable_def x_throw_def Let_def)
next
  case (Inr u)
  let ?x = "x\<lparr>x_t := t, x_baseGasRequired := baseGasRequired (isCreation t) (t_data t) (xe_schedule X)\<rparr>"
  show ?thesis
    using Inr initialize_sender_cases [where X = X and x = ?x]
    by (auto simp: initialize_def acceptable_def x_throw_def Let_def not_less split: sum.splits prod.splits)
qed

section \<open>Running\<close>

text \<open>What the accounts and the missing half of \<open>ExtVM\<close> have to promise: callees give back no more gas
  than they got, code has a sensible length, and precompiled contracts a price that is not negative.\<close>

definition xenv_ok :: "('w, 'l, 'i) xenv \<Rightarrow> bool" where
  "xenv_ok X \<longleftrightarrow> (\<forall>a. ext_gas_ok (ext_rest X a)) \<and> (\<forall>b w. length (st_code (xe_state X) b w) < 2 ^ 62)
     \<and> (\<forall>c \<in> snd ` set (precompiled (xe_params X)). \<forall>d. 0 \<le> pc_cost c d)"

lemma ExtVM_env_ok:
  assumes "xenv_ok X" and "length (ea_code a) < 2 ^ 62" and "length (ea_data a) < 2 ^ 64"
  shows "env_ok (ExtVM X a)"
proof -
  have "length (st_code (xe_state X) b w) < 2 ^ 64" for b w
  proof -
    have "length (st_code (xe_state X) b w) < 2 ^ 62" using assms(1) unfolding xenv_ok_def by blast
    then show ?thesis by simp
  qed
  with assms show ?thesis by (auto simp: env_ok_def ExtVM_def ext_gas_ok_def xenv_ok_def wellPriced_seal)
qed

lemma exec_gas_less: "env_ok E \<Longrightarrow> exec E g w = Some (r, g', w') \<Longrightarrow> unat g' \<le> unat g"
  using exec_gas_le [of E g w r g' w'] unat_ucast_le [of g, where ?'b = 64] by linarith

lemma set_res_frame [simp]:
  "x_s (set_res f x) = x_s x" "x_ext (set_res f x) = x_ext x" "x_output (set_res f x) = x_output x"
  "x_gas (set_res f x) = x_gas x" "x_excepted (set_res f x) = x_excepted x" "x_t (set_res f x) = x_t x"
  "x_newAddress (set_res f x) = x_newAddress x" "x_savepoint (set_res f x) = x_savepoint x"
  "x_isCreation (set_res f x) = x_isCreation x" "x_gasCost (set_res f x) = x_gasCost x"
  "x_baseGasRequired (set_res f x) = x_baseGasRequired x"
  by (simp_all add: set_res_def)

lemma failure_code: "toTransactionException (VMException e) \<noteq> TE_None"
  by (cases e) simp_all

text \<open>How an execution may end: well, or undone to the savepoint with the substate cleared.\<close>

definition undone :: "('w, 'l, 'i) xenv \<Rightarrow> ext_args \<Rightarrow> ('w, 'l) executive \<Rightarrow> ('w, 'l) executive \<Rightarrow> bool" where
  "undone X a x y \<longleftrightarrow> (\<exists>w sub. x_s y = st_rollback (xe_state X) (x_savepoint x) w
     \<and> x_ext y = Some (a, sub_clear X sub)) \<and> x_newAddress y = 0
     \<and> (if x_excepted y = TE_RevertInstruction then True else x_gas y = 0)"

definition kept :: "('w, 'l) executive \<Rightarrow> ('w, 'l) executive \<Rightarrow> bool" where
  "kept x y \<longleftrightarrow> x_newAddress y = x_newAddress x \<and> x_t y = x_t x \<and> x_savepoint y = x_savepoint x"

lemma vm_failed_undone:
  "x_ext x = Some (a, sub) \<Longrightarrow> x_savepoint z = x_savepoint x \<Longrightarrow> undone X a z (vm_failed X e x)
   \<and> x_excepted (vm_failed X e x) \<noteq> TE_None \<and> x_gas (vm_failed X e x) = 0 \<and> x_t (vm_failed X e x) = x_t x"
  using failure_code [of e] by (auto simp: undone_def vm_failed_def revert_exec_def)

lemma deposit_Some:
  assumes "deposit X b out x = Some y"
  shows "kept x y \<and> x_excepted y = x_excepted x \<and> x_ext y = x_ext x \<and> unat (x_gas y) \<le> unat (x_gas x)"
proof -
  have "unat (g - d) \<le> unat g" if "d \<le> g" for g d :: u256
    using that by (simp add: unat_sub)
  with assms show ?thesis
    by (auto simp: deposit_def Let_def kept_def split: if_splits)
qed

lemma go_done_outcome:
  assumes "x_ext x = Some (a, sub)" and "x_excepted x = TE_None"
  shows "unat (x_gas (go_done X a r x)) \<le> unat (x_gas x) \<and> x_t (go_done X a r x) = x_t x
    \<and> (if x_excepted (go_done X a r x) = TE_None then kept x (go_done X a r x) else undone X a x (go_done X a r x))"
proof (cases r)
  case (Inl e)
  show ?thesis
  proof (cases "\<exists>out. e = RevertInstruction out")
    case True
    with assms Inl show ?thesis by (auto simp: go_done_def revert_exec_def undone_def)
  next
    case False
    then have "go_done X a r x = vm_failed X e x"
      using Inl by (cases e) (simp_all add: go_done_def)
    with vm_failed_undone [OF assms(1) refl, of X e] show ?thesis by simp
  qed
next
  case (Inr out)
  show ?thesis
  proof (cases "x_isCreation x")
    case True
    let ?x = "note_deposit out x"
    have n: "x_ext ?x = Some (a, sub)" "x_savepoint x = x_savepoint ?x" "x_gas ?x = x_gas x" "x_t ?x = x_t x"
      "x_excepted ?x = TE_None" "x_newAddress ?x = x_newAddress x"
      using assms by (simp_all add: note_deposit_def kept_def)
    show ?thesis
    proof (cases "deposit X (ea_myAddress a) out ?x")
      case None
      with vm_failed_undone [OF n(1) n(2), of X OutOfGas] True Inr n(3,4) show ?thesis by (simp add: go_done_def)
    next
      case (Some y)
      with deposit_Some [OF Some] True Inr n show ?thesis by (simp add: go_done_def kept_def)
    qed
  next
    case False
    with Inr assms show ?thesis by (simp add: go_done_def kept_def)
  qed
qed

lemma run_outcome:
  assumes "env_ok (ExtVM X a)" and "x_ext x = Some (a, sub)" and "x_excepted x = TE_None"
  shows "\<exists>y. go X x = Some y \<and> unat (x_gas y) \<le> unat (x_gas x) \<and> x_t y = x_t x
    \<and> (if x_excepted y = TE_None then kept x y else undone X a x y)"
proof -
  obtain r g w s where e: "exec (ExtVM X a) (x_gas x) (x_s x, sub) = Some (r, g, w, s)"
    using exec_returns [OF assms(1), of "x_gas x" "(x_s x, sub)"] by auto
  have g: "unat g \<le> unat (x_gas x)" using exec_gas_less [OF assms(1) e] .
  define x1 where "x1 = x\<lparr>x_gas := g, x_s := w, x_ext := Some (a, s)\<rparr>"
  define z where "z = go_done X a r x1"
  define y where "y = (if x_output z \<noteq> [] then set_res (\<lambda>e. e\<lparr>er_output := x_output z\<rparr>) z else z)"
  have y: "go X x = Some y" using assms(2) e by (simp add: go_def Let_def y_def z_def x1_def)
  have x1: "x_ext x1 = Some (a, s)" "x_excepted x1 = TE_None" "x_gas x1 = g" "x_t x1 = x_t x"
    using assms(3) by (simp_all add: x1_def)
  have same: "x_gas y = x_gas z" "x_t y = x_t z" "x_excepted y = x_excepted z"
    "kept x y = kept x1 z" "undone X a x y = undone X a x1 z"
    by (simp_all add: y_def kept_def undone_def x1_def)
  have "unat (x_gas z) \<le> unat g" "x_t z = x_t x" "if x_excepted z = TE_None then kept x1 z else undone X a x1 z"
    using go_done_outcome [OF x1(1,2), of X r] x1(3,4) by (simp_all add: z_def)
  with g have "unat (x_gas y) \<le> unat (x_gas x) \<and> x_t y = x_t x
      \<and> (if x_excepted y = TE_None then kept x y else undone X a x y)"
    unfolding same by simp
  with y show ?thesis by blast
qed

text \<open>C5: running the code always ends. The gas left is at most the gas given. If no exception is recorded,
  the created address and the transaction stand; otherwise the accounts are rolled back to the savepoint,
  the substate is cleared and the created address forgotten, and unless the code asked for the revert no
  gas is left.\<close>

theorem go_outcome:
  assumes "env_ok (ExtVM X a)" and "x_ext x = Some (a, sub)" and "x_excepted x = TE_None"
  shows "\<exists>y. go X x = Some y \<and> unat (x_gas y) \<le> unat (x_gas x) \<and> x_t y = x_t x
    \<and> (if x_excepted y = TE_None then kept x y else undone X a x y)"
  using assms by (rule run_outcome)

section \<open>Settling\<close>

definition state_ok :: "'w state_ops \<Rightarrow> bool" where
  "state_ok S \<longleftrightarrow> (\<forall>a v w b. st_balance S b (st_addBalance S a v w)
     = (if b = a then st_balance S b w + v else st_balance S b w))"

lemma unat_add_u256: "unat x + unat y \<le> unat (z :: u256) \<Longrightarrow> unat (x + y :: u256) = unat x + unat y"
  using unat_add_lem [of x y] le_less_trans [OF _ unsigned_less [of z, where ?'a = nat]] by simp

lemma unat_mult_u256: "unat x * unat y < 2 ^ 256 \<Longrightarrow> unat (x * y :: u256) = unat x * unat y"
  using unat_mult_lem [of x y] by simp

lemma apply_refund_gas:
  fixes x :: "('w, 'l) executive"
  assumes "unat (x_gas x) \<le> unat (t_gas (x_t x))"
  defines "y \<equiv> apply_refund x"
  shows "unat (x_gas x) \<le> unat (x_gas y)" and "unat (x_gas y) \<le> unat (t_gas (x_t x))"
    and "unat (t_gas (x_t x)) - unat (x_gas x) \<le> 2 * (unat (t_gas (x_t x)) - unat (x_gas y))"
proof -
  let ?g = "t_gas (x_t x)"
  define r where "r = (case x_ext x of None \<Rightarrow> 0 | Some (a, sub) \<Rightarrow> min ((?g - x_gas x) div 2) (refunds sub))"
  have "r \<le> (?g - x_gas x) div 2" by (auto simp: r_def split: option.split)
  then have r: "unat r \<le> (unat ?g - unat (x_gas x)) div 2"
    using assms(1) by (simp add: word_le_nat_alt unat_div unat_sub)
  have y: "x_gas y = x_gas x + r" by (simp add: y_def apply_refund_def r_def Let_def)
  have "unat (x_gas x) + unat r \<le> unat ?g" using r assms(1) by linarith
  then have "unat (x_gas y) = unat (x_gas x) + unat r" unfolding y by (rule unat_add_u256)
  with r assms(1) show "unat (x_gas x) \<le> unat (x_gas y)" "unat (x_gas y) \<le> unat ?g"
    "unat ?g - unat (x_gas x) \<le> 2 * (unat ?g - unat (x_gas y))" by linarith+
qed

lemma suicide_refunds_frame [simp]:
  "x_gas (suicide_refunds X x) = x_gas x" "x_t (suicide_refunds X x) = x_t x" "x_s (suicide_refunds X x) = x_s x"
  "dead (suicide_refunds X x) = dead x"
  by (auto simp: suicide_refunds_def dead_def split: option.split)

lemma apply_refund_frame [simp]:
  "x_t (apply_refund x) = x_t x" "x_s (apply_refund x) = x_s x" "x_ext (apply_refund x) = x_ext x"
  "dead (apply_refund x) = dead x"
  by (simp_all add: apply_refund_def dead_def Let_def)

lemma collect_results_frame:
  "x_t (collect_results X x) = x_t x" "x_gas (collect_results X x) = x_gas x"
  "x_s (collect_results X x) = fold (st_kill (xe_state X)) (dead x) (x_s x)"
  by (simp_all add: collect_results_def Let_def)

lemma finalize_Inr:
  assumes "tx_operator_bool (x_t x)" and "tx_sender (xe_rlp X) (xe_crypto X) (x_t x) = Inr (a, x_t x)"
  shows "\<exists>y. finalize X x = Inr y \<and> x_t y = x_t x \<and> x_gas y = x_gas (apply_refund (suicide_refunds X x))
    \<and> x_s y = fold (st_kill (xe_state X)) (dead x) (pay_fees X a (apply_refund (suicide_refunds X x)))"
proof -
  let ?r = "apply_refund (suicide_refunds X x)"
  have r: "?r\<lparr>x_t := x_t x\<rparr> = ?r" by (rule executive.equality) simp_all
  have u: "dead (z\<lparr>x_s := w\<rparr>) = dead z" for z :: "('a, 'b) executive" and w by (simp add: dead_def)
  have "finalize X x = Inr (collect_results X (?r\<lparr>x_s := pay_fees X a ?r\<rparr>))"
    using assms by (simp only: finalize_def Let_def apply_refund_frame suicide_refunds_frame if_True r sum.case prod.case)
  then show ?thesis by (simp add: collect_results_frame u)
qed

text \<open>C7: settling a transaction. The refund is at most half of the gas used before it; gas used and gas left
  add up to the gas bought; before the killed accounts are removed, the sender has got back the price of
  the gas left and the author of the block the price of the gas used, together exactly what was paid, and
  no other balance has changed.\<close>

theorem finalize_settles:
  assumes "state_ok (xe_state X)" and "tx_operator_bool (x_t x)"
    and "tx_sender (xe_rlp X) (xe_crypto X) (x_t x) = Inr (a, x_t x)"
    and "unat (x_gas x) \<le> unat (t_gas (x_t x))" and "unat (t_gas (x_t x)) * unat (t_gasPrice (x_t x)) < 2 ^ 256"
  shows "\<exists>y w. finalize X x = Inr y \<and> x_s y = fold (st_kill (xe_state X)) (dead x) w
    \<and> unat (gasUsed y) + unat (x_gas y) = unat (t_gas (x_t x)) \<and> unat (x_gas x) \<le> unat (x_gas y)
    \<and> unat (t_gas (x_t x)) - unat (x_gas x) \<le> 2 * unat (gasUsed y)
    \<and> unat (x_gas y * t_gasPrice (x_t x)) + unat (gasUsed y * t_gasPrice (x_t x))
        = unat (t_gas (x_t x)) * unat (t_gasPrice (x_t x))
    \<and> (\<forall>b. st_balance (xe_state X) b w = st_balance (xe_state X) b (x_s x)
        + (if b = a then x_gas y * t_gasPrice (x_t x) else 0)
        + (if b = env_author (xe_env X) then gasUsed y * t_gasPrice (x_t x) else 0))"
proof -
  let ?g = "t_gas (x_t x)" and ?p = "t_gasPrice (x_t x)"
  let ?r = "apply_refund (suicide_refunds X x)"
  obtain y where y: "finalize X x = Inr y" "x_t y = x_t x" "x_gas y = x_gas ?r"
    "x_s y = fold (st_kill (xe_state X)) (dead x) (pay_fees X a ?r)"
    using finalize_Inr [OF assms(2,3)] by blast
  have le: "unat (x_gas x) \<le> unat (x_gas y)" "unat (x_gas y) \<le> unat ?g"
    "unat ?g - unat (x_gas x) \<le> 2 * (unat ?g - unat (x_gas y))"
    using apply_refund_gas [of "suicide_refunds X x"] assms(4) by (simp_all add: y(3))
  have used: "unat (gasUsed y) = unat ?g - unat (x_gas y)"
    using le(2) by (simp add: gasUsed_def y(2) unat_sub word_le_nat_alt)
  have "unat (x_gas y) * unat ?p \<le> unat ?g * unat ?p" "unat (gasUsed y) * unat ?p \<le> unat ?g * unat ?p"
    using le(2) used by (simp_all add: mult_le_mono1)
  then have m: "unat (x_gas y * ?p) = unat (x_gas y) * unat ?p" "unat (gasUsed y * ?p) = unat (gasUsed y) * unat ?p"
    by (auto intro!: unat_mult_u256 le_less_trans [OF _ assms(5)])
  have sum: "unat (x_gas y * ?p) + unat (gasUsed y * ?p) = unat ?g * unat ?p"
    using le(2) used unfolding m by (simp flip: add_mult_distrib)
  have bal: "st_balance (xe_state X) b (pay_fees X a ?r) = st_balance (xe_state X) b (x_s x)
      + (if b = a then x_gas y * ?p else 0) + (if b = env_author (xe_env X) then gasUsed y * ?p else 0)" for b
    using assms(1) by (simp add: pay_fees_def state_ok_def Let_def y(2,3) gasUsed_def)
  show ?thesis
    using y(1,4) le used sum bal by (intro exI [of _ y] exI [of _ "pay_fees X a ?r"]) simp
qed

section \<open>A whole transaction\<close>

lemma initialize_frame:
  assumes "initialize X t x = Inr y"
  shows "x_ext y = x_ext x" "x_gas y = x_gas x" "x_excepted y = x_excepted x"
    "\<exists>a. x_t y = t\<lparr>t_sender := a\<rparr>"
    "x_baseGasRequired y = baseGasRequired (isCreation t) (t_data t) (xe_schedule X)"
    "sint (x_baseGasRequired y) \<le> uint (t_gas t)"
proof -
  have u: "x_t y = t \<or> (\<exists>a. tx_sender (xe_rlp X) (xe_crypto X) t = Inr (a, x_t y))"
    and *: "x_ext y = x_ext x" "x_gas y = x_gas x" "x_excepted y = x_excepted x"
    "x_baseGasRequired y = baseGasRequired (isCreation t) (t_data t) (xe_schedule X)"
    "sint (x_baseGasRequired y) \<le> uint (t_gas t)"
    using assms
    by (auto simp: initialize_def initialize_sender_def x_throw_def Let_def not_less split: sum.splits if_splits)
  have "t = t\<lparr>t_sender := t_sender t\<rparr>" by simp
  with u show "\<exists>a. x_t y = t\<lparr>t_sender := a\<rparr>" using tx_sender_Inr by metis
  show "x_ext y = x_ext x" "x_gas y = x_gas x" "x_excepted y = x_excepted x"
    "x_baseGasRequired y = baseGasRequired (isCreation t) (t_data t) (xe_schedule X)"
    "sint (x_baseGasRequired y) \<le> uint (t_gas t)"
    using * by blast+
qed

text \<open>What calling and creating leave for \<open>go\<close>.\<close>

definition started :: "('w, 'l, 'i) xenv \<Rightarrow> u256 \<Rightarrow> bool \<times> ('w, 'l) executive \<Rightarrow> bool" where
  "started X g r \<longleftrightarrow> unat (x_gas (snd r)) \<le> unat g \<and> (fst r \<longleftrightarrow> x_ext (snd r) = None)
     \<and> (case x_ext (snd r) of None \<Rightarrow> True
        | Some (a, s) \<Rightarrow> x_excepted (snd r) = TE_None \<and> env_ok (ExtVM X a))"

lemma precompiled_gas:
  assumes "xenv_ok X" and "isPrecompiled (xe_params X) a n" and "costOfPrecompiled (xe_params X) a d \<le> uint (g :: u256)"
  shows "unat (word_of_int (uint g - costOfPrecompiled (xe_params X) a d) :: u256) \<le> unat g"
proof -
  let ?c = "costOfPrecompiled (xe_params X) a d"
  obtain c where "map_of (precompiled (xe_params X)) a = Some c"
    using assms(2) by (auto simp: isPrecompiled_def split: option.splits)
  then have "0 \<le> ?c"
    using assms(1) map_of_SomeD [of "precompiled (xe_params X)" a c] by (force simp: xenv_ok_def costOfPrecompiled_def)
  then have "uint (word_of_int (uint g - ?c) :: u256) = uint g - ?c"
    using assms(3) by (intro uint_of_bounded [of _ g]) simp_all
  with \<open>0 \<le> ?c\<close> have "uint (word_of_int (uint g - ?c) :: u256) \<le> uint g" by simp
  then show ?thesis by (simp only: flip: word_le_def word_le_nat_alt)
qed

lemma call_with_started:
  assumes ok: "xenv_ok X" and d: "length (cp_data p) < 2 ^ 62"
    and x: "x_ext x = None" "x_excepted x = TE_None" "x_gas x = 0"
    and r: "call_with X p price orig x = Inr r"
  shows "started X (cp_gas p) r \<and> x_t (snd r) = x_t x"
proof -
  have code: "length (st_code (xe_state X) b w) < 2 ^ 62" for b w using ok unfolding xenv_ok_def by blast
  show ?thesis
    using r x code d ExtVM_env_ok [OF ok] precompiled_gas [OF ok, of "codeAddress p" "env_number (xe_env X)" "cp_data p" "cp_gas p"]
    by (auto simp: call_with_def call_precompiled_def call_account_def started_def Let_def not_less
        split: if_splits option.splits prod.splits)
qed

lemma create_started:
  assumes ok: "xenv_ok X" and d: "length init < 2 ^ 62" and x: "x_ext x = None" "x_excepted x = TE_None"
    and r: "create X sender endowment price g init orig x = Inr r"
  shows "started X g r \<and> x_t (snd r) = x_t x"
  using r x d ExtVM_env_ok [OF ok]
  by (auto simp: create_def started_def Let_def split: if_splits option.splits)

lemma finalize_gas:
  assumes "finalize X x = Inr y"
  shows "x_gas y = x_gas (apply_refund (suicide_refunds X x))" "t_gas (x_t y) = t_gas (x_t x)"
  using assms
  by (auto simp: finalize_def Let_def collect_results_frame dest!: tx_sender_Inr split: if_splits sum.splits)

lemma execute_started:
  assumes ok: "xenv_ok X" and d: "length (t_data (x_t x)) < 2 ^ 62"
    and x: "x_ext x = None" "x_excepted x = TE_None" "x_gas x = 0" and r: "execute X x = Inr r"
  shows "started X (t_gas (x_t x) - word_of_int (sint (x_baseGasRequired x))) r \<and> t_gas (x_t (snd r)) = t_gas (x_t x)"
proof -
  obtain a t w where s: "tx_sender (xe_rlp X) (xe_crypto X) (x_t x) = Inr (a, t)"
    and w: "st_subBalance (xe_state X) a (x_gasCost x) (x_s x) = Some w"
    using r by (auto simp: execute_def split: sum.splits option.splits)
  let ?x = "x\<lparr>x_t := t, x_s := w\<rparr>" and ?g = "t_gas t - word_of_int (sint (x_baseGasRequired x))"
  have t: "t_gas t = t_gas (x_t x)" "t_data t = t_data (x_t x)" using tx_sender_Inr [OF s] by simp_all
  have x': "x_ext ?x = None" "x_excepted ?x = TE_None" "x_gas ?x = 0" using x by simp_all
  show ?thesis
  proof (cases "isCreation t")
    case True
    then have "create X a (t_value t) (t_gasPrice t) ?g (t_data t) a ?x = Inr r"
      using r s w by (simp add: execute_def Let_def)
    from create_started [OF ok _ x'(1,2) this] d t show ?thesis by simp
  next
    case False
    then have "call_to X (t_receiveAddress t) a (t_value t) (t_gasPrice t) (t_data t) ?g ?x = Inr r"
      using r s w by (simp add: execute_def Let_def)
    from call_with_started [OF ok _ x' this [unfolded call_to_def]] d t show ?thesis by simp
  qed
qed

lemma go_gas:
  assumes "started X g (fin, x)"
  shows "\<exists>y. (if fin then Some x else go X x) = Some y \<and> unat (x_gas y) \<le> unat g \<and> x_t y = x_t x"
proof (cases "x_ext x")
  case None
  with assms show ?thesis by (auto simp: started_def)
next
  case (Some p)
  obtain a s where p: "p = (a, s)" by (cases p)
  have s: "x_excepted x = TE_None" "env_ok (ExtVM X a)" "unat (x_gas x) \<le> unat g" "\<not> fin"
    using assms Some p by (simp_all add: started_def)
  from run_outcome [OF s(2) Some [unfolded p] s(1)] s(3,4) show ?thesis by (auto intro: order.trans)
qed

text \<open>C3: a transaction always comes to an end, by an exception or settled, and a settled one has used at
  least half of its intrinsic gas and at most the gas it bought; what it used and what is left add up.\<close>

theorem transaction_gas:
  assumes "xenv_ok X" and "length (t_data t) < 2 ^ 30"
  shows "\<exists>r. transact X t (executive_new w l) = Some r \<and> (case r of Inl _ \<Rightarrow> True
    | Inr y \<Rightarrow> unat (gasUsed y) + unat (x_gas y) = unat (t_gas t)
        \<and> unat (baseGasRequired (isCreation t) (t_data t) (xe_schedule X)) \<le> 2 * unat (gasUsed y))"
proof (cases "andThen (initialize X t (executive_new w l)) (execute X)")
  case (Inl e)
  then show ?thesis by (simp add: transact_def)
next
  case (Inr r)
  obtain fin x where r: "r = (fin, x)" by (cases r)
  let ?base = "baseGasRequired (isCreation t) (t_data t) (xe_schedule X)"
  let ?g = "t_gas t - word_of_int (sint ?base)"
  obtain x0 where i: "initialize X t (executive_new w l) = Inr x0" and e: "execute X x0 = Inr (fin, x)"
    using Inr by (auto simp: andThen_Inr r)
  note f = initialize_frame [OF i]
  have t0: "t_gas (x_t x0) = t_gas t" "t_data (x_t x0) = t_data t" using f(4) by auto
  have x0: "x_ext x0 = None" "x_excepted x0 = TE_None" "x_gas x0 = 0" using f(1-3) by (simp_all add: executive_new_def)
  have st: "started X ?g (fin, x)" and tx: "t_gas (x_t x) = t_gas t"
    using execute_started [OF assms(1) _ x0 e] assms(2) t0 f(5) by simp_all
  have base: "unat ?base < 9223372036854775808" using baseGas_small [OF assms(2)] .
  then have "int (unat ?base) \<le> uint (t_gas t)" using f(5,6) by (simp add: sint_small)
  then have le: "unat ?base \<le> unat (t_gas t)" by (simp only: uint_nat of_nat_le_iff)
  have g: "unat ?g = unat (t_gas t) - unat ?base"
  proof -
    have n: "unat (word_of_nat (unat ?base) :: u256) = unat ?base"
      using base by (intro unat_of_nat_lt) simp
    have "?g = t_gas t - word_of_nat (unat ?base)"
      by (simp only: sint_small [OF base] of_int_of_nat_eq)
    then show ?thesis using le n by (simp only: unat_sub word_le_nat_alt)
  qed
  obtain y where y: "(if fin then Some x else go X x) = Some y" "unat (x_gas y) \<le> unat ?g" "x_t y = x_t x"
    using go_gas [OF st] by blast
  have tr: "transact X t (executive_new w l) = Some (finalize X y)"
    using Inr y(1) by (simp add: transact_def r)
  show ?thesis
  proof (cases "finalize X y")
    case (Inr z)
    have "unat (x_gas y) \<le> unat (t_gas (x_t y))" using y(2,3) g tx by simp
    from apply_refund_gas [of "suicide_refunds X y", simplified, OF this] finalize_gas [OF Inr] y(3) tx
    have "unat (x_gas y) \<le> unat (x_gas z)" "unat (x_gas z) \<le> unat (t_gas t)"
      "unat (t_gas t) - unat (x_gas y) \<le> 2 * (unat (t_gas t) - unat (x_gas z))" "t_gas (x_t z) = t_gas t" by simp_all
    moreover from this have "unat (gasUsed z) = unat (t_gas t) - unat (x_gas z)"
      by (simp add: gasUsed_def unat_sub word_le_nat_alt)
    ultimately show ?thesis using tr Inr g y(2) le by simp
  qed (use tr in simp)
qed

section \<open>Deposits and calls outside a transaction\<close>

lemma unat_ucast_64_256: "unat (ucast (w :: u64) :: u256) = unat w"
  unfolding unsigned_ucast_eq by (rule take_bit_nat_eq_self) (rule less_trans [OF unat_64_lt], simp)

lemma deposit_gas_value:
  assumes "length out \<le> unat (m :: u32)"
  shows "unat (deposit_gas sch out) = length out * unat (createDataGas sch)"
proof -
  have l: "length out < 2 ^ 32" and c: "unat (createDataGas sch) < 2 ^ 32"
    using assms unsigned_less [of m, where ?'a = nat] unsigned_less [of "createDataGas sch", where ?'a = nat] by simp_all
  then have n: "unat (of_nat (length out) :: u64) = length out" by (intro unat_of_nat_lt) simp
  have "length out * unat (createDataGas sch) < 2 ^ 32 * 2 ^ 32" using l c by (intro mult_strict_mono) auto
  then have "unat (of_nat (length out) * ucast (createDataGas sch) :: u64) = length out * unat (createDataGas sch)"
    using n by (subst unat_mult_u64) auto
  then show ?thesis unfolding deposit_gas_def unat_ucast_64_256 .
qed

text \<open>C37: what a creation pays for the code it returns. Code above the size limit throws; otherwise the price
  per byte is taken exactly when the gas suffices, and when it does not the creation throws or, under the
  old rules, stores no code and keeps its gas.\<close>

theorem deposit_spec:
  "case deposit X b out x of
     None \<Rightarrow> unat (maxCodeSize (xe_schedule X)) < length out
       \<or> exceptionalFailedCodeDeposit (xe_schedule X) \<and> unat (x_gas x) < length out * unat (createDataGas (xe_schedule X))
   | Some y \<Rightarrow> length out \<le> unat (maxCodeSize (xe_schedule X))
       \<and> (if length out * unat (createDataGas (xe_schedule X)) \<le> unat (x_gas x)
          then unat (x_gas y) = unat (x_gas x) - length out * unat (createDataGas (xe_schedule X))
            \<and> x_s y = st_setNewCode (xe_state X) b out (x_s x)
          else \<not> exceptionalFailedCodeDeposit (xe_schedule X) \<and> x_gas y = x_gas x
            \<and> x_s y = st_setNewCode (xe_state X) b [] (x_s x))"
proof (cases "length out \<le> unat (maxCodeSize (xe_schedule X))")
  case True
  have "deposit_gas (xe_schedule X) out \<le> x_gas x
      \<longleftrightarrow> length out * unat (createDataGas (xe_schedule X)) \<le> unat (x_gas x)"
    using deposit_gas_value [OF True] by (simp add: word_le_nat_alt)
  with True deposit_gas_value [OF True, of "xe_schedule X"] show ?thesis
    by (auto simp: deposit_def Let_def unat_sub word_le_nat_alt)
qed (simp add: deposit_def)

text \<open>\<open>Client::call\<close> runs without a transaction, so the result is computed against a gas limit of zero: a
  call that uses no gas at all reports the negated gas as used, and the output of a precompiled contract,
  which is stored only by \<open>go\<close>, does not reach the result.\<close>

theorem client_call_results:
  assumes "st_transferBalance (xe_state X) sender dest val (st_addBalance (xe_state X) sender (val + price * g) w) = Some w'"
    and "isPrecompiled (xe_params X) dest (env_number (xe_env X)) = pre"
    and "if pre then costOfPrecompiled (xe_params X) dest d = 0 \<and> fst (executePrecompiled (xe_params X) dest d)
         else \<not> st_addressHasCode (xe_state X) dest (st_addBalance (xe_state X) sender (val + price * g) w)"
  shows "\<exists>r. client_call X w dest d g val price sender = Some r \<and> er_gasUsed r = - g
    \<and> er_excepted r = TE_None \<and> er_output r = []"
  using assms
  by (cases "executePrecompiled (xe_params X) dest d")
    (auto simp: client_call_def call_to_def call_with_def call_precompiled_def call_account_def executive_new_def
      tx_operator_bool_def tx_null_def finalize_def suicide_refunds_def apply_refund_def collect_results_def
      set_res_def gasUsed_def ExecutionResult_new_def Let_def dead_def not_less split: if_splits)

section \<open>A concrete environment\<close>

text \<open>Balances as a function, one unit of code nowhere: used only for the witnesses.\<close>

definition sample_state :: "(address \<Rightarrow> u256) state_ops" where
  "sample_state = \<lparr>st_balance = (\<lambda>a w. w a), st_getNonce = (\<lambda>a w. 7), st_addBalance = (\<lambda>a v w. w(a := w a + v)),
     st_subBalance = (\<lambda>a v w. if v \<le> w a then Some (w(a := w a - v)) else None),
     st_transferBalance = (\<lambda>a b v w. if v \<le> w a then let w = w(a := w a - v) in Some (w(b := w b + v)) else None),
     st_incNonce = (\<lambda>a w. w), st_setNewCode = (\<lambda>a c w. w), st_kill = (\<lambda>a w. w(a := 0)),
     st_savepoint = (\<lambda>w. 0), st_rollback = (\<lambda>n w. w), st_addressHasCode = (\<lambda>a w. False), st_code = (\<lambda>a w. []),
     st_codeHash = (\<lambda>a w. zero_hash 32), st_storage = (\<lambda>a k w. 0), st_addressInUse = (\<lambda>a w. True),
     st_accountNonemptyAndExisting = (\<lambda>a w. True)\<rparr>"

definition sample_xenv :: "(address \<Rightarrow> u256, unit, item) xenv" where
  "sample_xenv = \<lparr>xe_state = sample_state, xe_rlp = tree_rlp,
     xe_crypto = \<lparr>cr_recover = (\<lambda>g h. replicate 64 1), cr_sign = (\<lambda>k h. no_signature)\<rparr>,
     xe_params = ChainOperationParams,
     xe_env = \<lparr>env_number = 5, env_author = 9, env_gasLimit = 1000000, env_gasUsed = 0\<rparr>,
     sub_new = \<lparr>suicides = [], logs = [], refunds = 0\<rparr>, sub_clear = (\<lambda>s. \<lparr>suicides = [], logs = [], refunds = 0\<rparr>),
     sub_plus = (\<lambda>a b. a), ext_rest = (\<lambda>a. sample_ext [])\<rparr>"

definition sample_args :: ext_args where
  "sample_args = \<lparr>ea_myAddress = 3, ea_caller = 4, ea_origin = 4, ea_value = 0, ea_gasPrice = 1, ea_data = [],
     ea_code = [0x60, 1, 0x60, 2, 0x01], ea_codeHash = zero_hash 32, ea_depth = 0\<rparr>"

lemma sample_xenv_ok: "xenv_ok sample_xenv"
  by (simp add: xenv_ok_def sample_xenv_def sample_state_def ChainOperationParams_def sample_ext_def ext_gas_ok_def)

lemma sample_state_ok: "state_ok (xe_state sample_xenv)"
  by (simp add: state_ok_def sample_xenv_def sample_state_def)

theorem go_outcome_witness:
  "\<exists>y. go sample_xenv ((executive_new (\<lambda>a. 100) 0)\<lparr>x_gas := 5000, x_ext := Some (sample_args, sub_new sample_xenv)\<rparr>) = Some y
     \<and> unat (x_gas y) \<le> 5000"
proof -
  let ?x = "(executive_new (\<lambda>a. 100) 0)\<lparr>x_gas := 5000, x_ext := Some (sample_args, sub_new sample_xenv)\<rparr> :: (address \<Rightarrow> u256, unit) executive"
  have "env_ok (ExtVM sample_xenv sample_args)"
    by (rule ExtVM_env_ok [OF sample_xenv_ok]) (simp_all add: sample_args_def)
  from go_outcome [OF this, of ?x "sub_new sample_xenv"] show ?thesis
    by (auto simp: executive_new_def)
qed

theorem finalize_settles_witness:
  "\<exists>y w. finalize sample_xenv ((executive_new (\<lambda>a. 100) 0)\<lparr>x_gas := 400, x_t := sample_tx\<lparr>t_gas := 1000, t_sender := 6\<rparr>\<rparr>) = Inr y
     \<and> x_s y = w \<and> unat (gasUsed y) + unat (x_gas y) = 1000
     \<and> (\<forall>b. w b = 100 + (if b = 6 then x_gas y * 2 else 0) + (if b = 9 then gasUsed y * 2 else 0))"
proof -
  let ?x = "(executive_new (\<lambda>a. 100) 0)\<lparr>x_gas := 400, x_t := sample_tx\<lparr>t_gas := 1000, t_sender := 6\<rparr>\<rparr> :: (address \<Rightarrow> u256, unit) executive"
  have s: "tx_sender (xe_rlp sample_xenv) (xe_crypto sample_xenv) (x_t ?x) = Inr (6, x_t ?x)" "tx_operator_bool (x_t ?x)"
    by (simp_all add: tx_sender_def tx_operator_bool_def sample_tx_def)
  have f: "st_balance (xe_state sample_xenv) = (\<lambda>a w. w a)" "env_author (xe_env sample_xenv) = 9" "dead ?x = []"
    "x_s ?x = (\<lambda>a. 100)" "unat (x_gas ?x) = 400" "unat (t_gas (x_t ?x)) = 1000" "t_gasPrice (x_t ?x) = 2"
    by (simp_all add: sample_xenv_def sample_state_def executive_new_def dead_def sample_tx_def)
  have "unat (x_gas ?x) \<le> unat (t_gas (x_t ?x))" "unat (t_gas (x_t ?x)) * unat (t_gasPrice (x_t ?x)) < 2 ^ 256"
    by (simp_all only: f) simp_all
  from finalize_settles [OF sample_state_ok s(2,1) this, unfolded f fold.simps id_apply] show ?thesis by blast
qed

theorem transaction_gas_witness:
  "\<exists>r. transact sample_xenv (sample_tx\<lparr>t_sender := 6\<rparr>) (executive_new (\<lambda>a. 100000) 0) = Some r \<and> (case r of Inl _ \<Rightarrow> True
    | Inr y \<Rightarrow> unat (gasUsed y) + unat (x_gas y) = 30000
        \<and> unat (baseGasRequired False [1, 0, 2] (xe_schedule sample_xenv)) \<le> 2 * unat (gasUsed y))"
proof -
  let ?t = "sample_tx\<lparr>t_sender := 6\<rparr>"
  have t: "isCreation ?t = False" "t_data ?t = [1, 0, 2]" "unat (t_gas ?t) = 30000"
    by (simp_all add: sample_tx_def isCreation_def)
  then have "length (t_data ?t) < 2 ^ 30" by simp
  from transaction_gas [OF sample_xenv_ok this, of "\<lambda>a. 100000" 0, unfolded t] show ?thesis .
qed

theorem client_call_results_witness:
  "\<exists>r. client_call sample_xenv (\<lambda>a. 0) 8 [] 21000 5 1 6 = Some r \<and> er_gasUsed r = - 21000
    \<and> er_excepted r = TE_None \<and> er_output r = []"
  by (rule client_call_results [where pre = False])
    (simp_all add: sample_xenv_def sample_state_def isPrecompiled_def ChainOperationParams_def Let_def)

end
