(* ===== verification/Nibbles.thy ===== *)
theory Nibbles
  imports CommonData
begin

text \<open>
  The nibble view and the hex-prefix encoding of trie keys: \<open>libdevcore/TrieCommon.h\<close> and
  \<open>TrieCommon.cpp\<close>, with \<open>asNibbles\<close> of \<open>CommonData.cpp\<close>. Positions and sizes (C++ \<open>unsigned\<close>) are
  natural numbers; a slice is well formed when its offset is inside its data, which every slice the
  code makes is, so that \<open>size\<close> never wraps. An RLP item appears only through the payload of its first
  item (\<open>keyOf\<close>, \<open>isLeaf\<close>) and the emptiness of its 17 items (\<open>uniqueInUse\<close>): the RLP class is not
  part of the repository.

  The lemmas show that the three encoders agree with one description on nibble lists, that decoding
  gives back the nibbles and the leaf flag, and that \<open>isEarlierThan\<close> is the lexicographic order.
\<close>

section \<open>Nibbles\<close>

definition nibble :: "bytes \<Rightarrow> nat \<Rightarrow> byte" where
  "nibble d i = (if odd i then d ! (i div 2) AND 15 else drop_bit 4 (d ! (i div 2)))"

function sharedNibbles :: "bytes \<Rightarrow> nat \<Rightarrow> nat \<Rightarrow> bytes \<Rightarrow> nat \<Rightarrow> nat \<Rightarrow> nat" where
  "sharedNibbles f bf ef s bs es =
     (if bf < ef \<and> bs < es \<and> nibble f bf = nibble s bs
      then Suc (sharedNibbles f (bf + 1) ef s (bs + 1) es) else 0)"
  by pat_completeness auto
termination
  by (relation "measure (\<lambda>(f, bf, ef, s, bs, es). ef - bf)") auto

declare sharedNibbles.simps [simp del]

definition asNibbles :: "bytes \<Rightarrow> bytes" where
  "asNibbles s = concat (map (\<lambda>i. [i div 16, i mod 16]) s)"

section \<open>Slices\<close>

record NibbleSlice =
  ns_data :: bytes
  ns_offset :: nat

definition slice_nth :: "NibbleSlice \<Rightarrow> nat \<Rightarrow> byte" where
  "slice_nth s i = nibble (ns_data s) (ns_offset s + i)"

definition slice_size :: "NibbleSlice \<Rightarrow> nat" where
  "slice_size s = length (ns_data s) * 2 - ns_offset s"

definition slice_empty :: "NibbleSlice \<Rightarrow> bool" where
  "slice_empty s \<longleftrightarrow> slice_size s = 0"

definition slice_mid :: "NibbleSlice \<Rightarrow> nat \<Rightarrow> NibbleSlice" where
  "slice_mid s i = \<lparr>ns_data = ns_data s, ns_offset = ns_offset s + i\<rparr>"

definition slice_shared :: "NibbleSlice \<Rightarrow> NibbleSlice \<Rightarrow> nat" where
  "slice_shared s k = sharedNibbles (ns_data s) (ns_offset s) (ns_offset s + slice_size s)
                                    (ns_data k) (ns_offset k) (ns_offset k + slice_size k)"

definition slice_contains :: "NibbleSlice \<Rightarrow> NibbleSlice \<Rightarrow> bool" where
  "slice_contains s k \<longleftrightarrow> slice_shared s k = slice_size k"

function isEarlierThan_from :: "nat \<Rightarrow> NibbleSlice \<Rightarrow> NibbleSlice \<Rightarrow> bool" where
  "isEarlierThan_from i s k =
     (if i < slice_size k \<and> i < slice_size s
      then (if slice_nth s i < slice_nth k i then True
            else if slice_nth k i < slice_nth s i then False
            else isEarlierThan_from (i + 1) s k)
      else \<not> slice_size k \<le> i)"
  by pat_completeness auto
termination
  by (relation "measure (\<lambda>(i, s, k). slice_size s - i)") auto

declare isEarlierThan_from.simps [simp del]

definition isEarlierThan :: "NibbleSlice \<Rightarrow> NibbleSlice \<Rightarrow> bool" where
  "isEarlierThan s k = isEarlierThan_from 0 s k"

definition slice_eq :: "NibbleSlice \<Rightarrow> NibbleSlice \<Rightarrow> bool" where
  "slice_eq s k \<longleftrightarrow> slice_size k = slice_size s \<and> slice_shared s k = slice_size k"

section \<open>Hex-prefix keys\<close>

definition isLeaf :: "bytes \<Rightarrow> bool" where
  "isLeaf payload \<longleftrightarrow> payload ! 0 AND 0x20 \<noteq> 0"

definition keyOf :: "bytes \<Rightarrow> NibbleSlice" where
  "keyOf hpe = (if length hpe = 0 then \<lparr>ns_data = hpe, ns_offset = 0\<rparr>
     else if hpe ! 0 AND 0x10 \<noteq> 0 then \<lparr>ns_data = hpe, ns_offset = 1\<rparr>
     else \<lparr>ns_data = hpe, ns_offset = 2\<rparr>)"

definition hp_flags :: "bool \<Rightarrow> bool \<Rightarrow> byte" where
  "hp_flags leaf odd' = ((if leaf then 2 else 0) OR (if odd' then 1 else 0)) * 16"

text \<open>From a vector of nibbles, one byte for each.\<close>

function hexVector_loop :: "bytes \<Rightarrow> nat \<Rightarrow> nat \<Rightarrow> bytes \<Rightarrow> bytes" where
  "hexVector_loop v i end' ret = (if i < end'
     then hexVector_loop v (i + 2) end' (ret @ [v ! i * 16 + v ! (i + 1)]) else ret)"
  by pat_completeness auto
termination
  by (relation "measure (\<lambda>(v, i, e, ret). e - i)") auto

declare hexVector_loop.simps [simp del]

definition hexPrefixEncode_vector :: "bytes \<Rightarrow> bool \<Rightarrow> int \<Rightarrow> int \<Rightarrow> bytes" where
  "hexPrefixEncode_vector hexVector leaf begin' end' =
     (let b = nat begin';
          e = (if end' < 0 then nat (int (length hexVector) + 1 + end') else nat end');
          odd' = ((e - b) mod 2 \<noteq> 0);
          ret = hp_flags leaf odd'
      in if odd' then hexVector_loop hexVector (b + 1) e [ret OR hexVector ! b]
         else hexVector_loop hexVector b e [ret])"

text \<open>From a range of nibbles of a byte string: an odd position fills the last byte, an even one opens
  the next. \<open>d\<close> counts the nibbles written.\<close>

definition hp_push :: "nat \<Rightarrow> byte \<Rightarrow> bytes \<Rightarrow> bytes" where
  "hp_push d n ret = (if odd d then butlast ret @ [last ret OR n] else ret @ [push_bit 4 n])"

function hp_loop :: "bytes \<Rightarrow> nat \<Rightarrow> nat \<Rightarrow> nat \<times> bytes \<Rightarrow> nat \<times> bytes" where
  "hp_loop d i end' st = (if i < end'
     then hp_loop d (i + 1) end' (fst st + 1, hp_push (fst st) (nibble d i) (snd st)) else st)"
  by pat_completeness auto
termination
  by (relation "measure (\<lambda>(d, i, e, st). e - i)") auto

declare hp_loop.simps [simp del]

definition hexPrefixEncode_range :: "bytes \<Rightarrow> bool \<Rightarrow> int \<Rightarrow> int \<Rightarrow> nat \<Rightarrow> bytes" where
  "hexPrefixEncode_range d leaf beginNibble endNibble offset =
     (let b = nat beginNibble + offset;
          e = nat (if endNibble < 0 then int (length d * 2 - offset) + 1 + endNibble else endNibble) + offset;
          odd' = odd (e - b)
      in snd (hp_loop d b e (if odd' then 1 else 2, [hp_flags leaf odd'])))"

definition hexPrefixEncode_two :: "bytes \<Rightarrow> nat \<Rightarrow> bytes \<Rightarrow> nat \<Rightarrow> bool \<Rightarrow> bytes" where
  "hexPrefixEncode_two d1 o1 d2 o2 leaf =
     (let e1 = length d1 * 2; e2 = length d2 * 2;
          odd' = odd (e1 - o1 + e2 - o2)
      in snd (hp_loop d2 o2 e2 (hp_loop d1 o1 e1 (if odd' then 1 else 2, [hp_flags leaf odd']))))"

definition hexPrefixEncode :: "NibbleSlice \<Rightarrow> bool \<Rightarrow> bytes" where
  "hexPrefixEncode s leaf = hexPrefixEncode_range (ns_data s) leaf 0 (- 1) (ns_offset s)"

definition hexPrefixEncode_slices :: "NibbleSlice \<Rightarrow> NibbleSlice \<Rightarrow> bool \<Rightarrow> bytes" where
  "hexPrefixEncode_slices s1 s2 leaf =
     hexPrefixEncode_two (ns_data s1) (ns_offset s1) (ns_data s2) (ns_offset s2) leaf"

text \<open>The only branch in use other than \<open>except\<close>, or 255 when there is none or more than one.
  \<open>isEmpty i\<close> tells whether item \<open>i\<close> of the RLP list is empty.\<close>

fun uniqueInUse_from :: "(nat \<Rightarrow> bool) \<Rightarrow> byte \<Rightarrow> nat list \<Rightarrow> byte \<Rightarrow> byte" where
  "uniqueInUse_from isEmpty ex [] used = used"
| "uniqueInUse_from isEmpty ex (i # is') used =
     (if i \<noteq> unat ex \<and> \<not> isEmpty i
      then (if used = 255 then uniqueInUse_from isEmpty ex is' (of_nat i) else 255)
      else uniqueInUse_from isEmpty ex is' used)"

definition uniqueInUse :: "(nat \<Rightarrow> bool) \<Rightarrow> byte \<Rightarrow> byte" where
  "uniqueInUse isEmpty ex = uniqueInUse_from isEmpty ex [0..<17] 255"

section \<open>Slices as nibble lists\<close>

definition nibbles_of :: "NibbleSlice \<Rightarrow> bytes" where
  "nibbles_of s = map (nibble (ns_data s)) [ns_offset s..<length (ns_data s) * 2]"

lemma length_nibbles_of [simp]: "length (nibbles_of s) = slice_size s"
  by (simp add: nibbles_of_def slice_size_def)

lemma nth_nibbles_of [simp]: "i < slice_size s \<Longrightarrow> nibbles_of s ! i = slice_nth s i"
  by (simp add: nibbles_of_def slice_size_def slice_nth_def)

definition small :: "byte \<Rightarrow> bool" where
  "small n \<longleftrightarrow> n AND 15 = n"

lemma small_nibble [simp]: "small (nibble d i)"
proof -
  have "drop_bit 4 w AND 15 = drop_bit 4 w" for w :: byte
  proof -
    have "drop_bit 4 w AND mask 4 = drop_bit 4 w"
      by (rule bit_word_eqI) (auto simp: bit_simps dest: bit_imp_le_length)
    then show ?thesis by (simp add: mask_numeral)
  qed
  then show ?thesis by (simp add: small_def nibble_def and.assoc)
qed

lemma small_take_bit: "small n \<longleftrightarrow> take_bit 4 n = n"
  by (simp add: small_def take_bit_eq_mask mask_numeral)

lemma small_bit: "small n \<Longrightarrow> bit n i \<Longrightarrow> i < 4"
  by (metis bit_take_bit_iff small_take_bit)

lemma join_nibbles:
  assumes "small a" "small b"
  shows "drop_bit 4 (push_bit 4 a OR b) = a" "(push_bit 4 a OR b) AND 15 = b"
proof -
  show "drop_bit 4 (push_bit 4 a OR b) = a"
    by (rule bit_word_eqI) (use small_bit [OF assms(1)] small_bit [OF assms(2)] in \<open>fastforce simp: bit_simps\<close>)
  have "take_bit 4 (push_bit 4 a OR b) = b"
    by (rule bit_word_eqI) (use small_bit [OF assms(2)] in \<open>fastforce simp: bit_simps\<close>)
  then show "(push_bit 4 a OR b) AND 15 = b" by (simp add: take_bit_eq_mask mask_numeral)
qed

lemma shared_take:
  "bf + length xs = ef \<Longrightarrow> bs + length ys = es \<Longrightarrow> xs = map (nibble f) [bf..<ef]
    \<Longrightarrow> ys = map (nibble s) [bs..<es]
    \<Longrightarrow> sharedNibbles f bf ef s bs es = length (takeWhile (\<lambda>(a, b). a = b) (zip xs ys))"
proof (induction f bf ef s bs es arbitrary: xs ys rule: sharedNibbles.induct)
  case (1 f bf ef s bs es)
  show ?case
  proof (cases "bf < ef \<and> bs < es")
    case True
    then have "[bf..<ef] = bf # [bf + 1..<ef]" "[bs..<es] = bs # [bs + 1..<es]"
      by (simp_all add: upt_conv_Cons)
    with 1 True show ?thesis by (simp add: sharedNibbles.simps [of f bf])
  next
    case False
    with 1 show ?thesis by (auto simp: sharedNibbles.simps [of f bf])
  qed
qed

lemma slice_shared_take:
  "ns_offset s \<le> 2 * length (ns_data s) \<Longrightarrow> ns_offset k \<le> 2 * length (ns_data k)
    \<Longrightarrow> slice_shared s k = length (takeWhile (\<lambda>(a, b). a = b) (zip (nibbles_of s) (nibbles_of k)))"
  unfolding slice_shared_def
  by (rule shared_take) (auto simp: nibbles_of_def slice_size_def mult.commute)

lemma takeWhile_zip_prefix:
  "length (takeWhile (\<lambda>(a, b). a = b) (zip xs ys)) = length ys \<longleftrightarrow> take (length ys) xs = ys"
proof (induction ys arbitrary: xs)
  case (Cons y ys)
  then show ?case by (cases xs) auto
qed simp

lemma join_plus:
  assumes "small a" "small b"
  shows "a * 16 + b = push_bit 4 a OR b"
proof -
  have "push_bit 4 a AND b = 0"
    by (rule bit_word_eqI) (use small_bit [OF assms(2)] in \<open>fastforce simp: bit_simps\<close>)
  then show ?thesis using word_plus_and_or [of "push_bit 4 a" b] by (simp add: push_bit_eq_mult)
qed

lemma isEarlierThan_from_lex:
  "i \<le> slice_size s \<Longrightarrow> i \<le> slice_size k \<Longrightarrow>
     isEarlierThan_from i s k = ord_class.lexordp (drop i (nibbles_of s)) (drop i (nibbles_of k))"
proof (induction i s k rule: isEarlierThan_from.induct)
  case (1 i s k)
  show ?case
  proof (cases "i < slice_size k \<and> i < slice_size s")
    case True
    then have "drop i (nibbles_of s) = slice_nth s i # drop (i + 1) (nibbles_of s)"
      "drop i (nibbles_of k) = slice_nth k i # drop (i + 1) (nibbles_of k)"
      by (simp_all add: Cons_nth_drop_Suc [symmetric])
    with 1 True show ?thesis by (simp add: isEarlierThan_from.simps [of i])
  next
    case False
    with 1 have "drop i (nibbles_of s) = [] \<or> drop i (nibbles_of k) = []" by auto
    with 1 False show ?thesis
      by (cases "drop i (nibbles_of k)") (auto simp: isEarlierThan_from.simps [of i])
  qed
qed

lemma isEarlierThan_lex: "isEarlierThan s k = ord_class.lexordp (nibbles_of s) (nibbles_of k)"
  unfolding isEarlierThan_def using isEarlierThan_from_lex [of 0 s k] by simp

section \<open>The encoders on nibble lists\<close>

fun pack :: "bytes \<Rightarrow> bytes" where
  "pack (a # b # ns) = (push_bit 4 a OR b) # pack ns"
| "pack [a] = [push_bit 4 a]"
| "pack [] = []"

definition unpack :: "bytes \<Rightarrow> bytes" where
  "unpack d = nibbles_of \<lparr>ns_data = d, ns_offset = 0\<rparr>"

definition hp_spec :: "bool \<Rightarrow> bytes \<Rightarrow> bytes" where
  "hp_spec leaf ns = (if odd (length ns)
     then (hp_flags leaf True OR hd ns) # pack (tl ns) else hp_flags leaf False # pack ns)"

lemma hp_loop_foldl:
  "hp_loop d i e st = foldl (\<lambda>(c, r) n. (c + 1, hp_push c n r)) st (map (nibble d) [i..<e])"
proof (induction d i e st rule: hp_loop.induct)
  case (1 d i e st)
  show ?case
  proof (cases "i < e")
    case True
    then have "[i..<e] = i # [i + 1..<e]" by (simp add: upt_conv_Cons)
    with 1 True show ?thesis by (simp add: hp_loop.simps [of d i] case_prod_beta)
  qed (simp add: hp_loop.simps [of d i])
qed

lemma foldl_hp_even:
  "even c \<Longrightarrow> snd (foldl (\<lambda>(c, r) n. (c + 1, hp_push c n r)) (c, ret) ns) = ret @ pack ns"
  by (induction ns arbitrary: c ret rule: pack.induct) (simp_all add: hp_push_def)

lemma foldl_hp_spec:
  "snd (foldl (\<lambda>(c, r) n. (c + 1, hp_push c n r))
     (if odd (length ns) then 1 else 2, [hp_flags leaf (odd (length ns))]) ns) = hp_spec leaf ns"
proof (cases "odd (length ns)")
  case True
  then obtain n ns' where "ns = n # ns'" by (cases ns) auto
  with True foldl_hp_even [of 2 "[hp_flags leaf True OR n]" ns'] show ?thesis
    by (simp add: hp_spec_def hp_push_def numeral_2_eq_2)
next
  case False
  with foldl_hp_even [of 2 "[hp_flags leaf False]" ns] show ?thesis by (simp add: hp_spec_def)
qed

definition slice_ok :: "NibbleSlice \<Rightarrow> bool" where
  "slice_ok s \<longleftrightarrow> ns_offset s \<le> 2 * length (ns_data s)"

lemma hexPrefixEncode_spec:
  assumes "slice_ok s"
  shows "hexPrefixEncode s leaf = hp_spec leaf (nibbles_of s)"
proof -
  let ?l = "length (ns_data s) * 2"
  have le: "ns_offset s \<le> ?l" using assms by (simp add: slice_ok_def)
  have n: "nat (int (length (ns_data s)) * 2 - int (ns_offset s)) = ?l - ns_offset s"
    using le by linarith
  then have "hexPrefixEncode s leaf = snd (hp_loop (ns_data s) (ns_offset s) ?l
      (if odd (?l - ns_offset s) then 1 else 2, [hp_flags leaf (odd (?l - ns_offset s))]))"
    unfolding hexPrefixEncode_def hexPrefixEncode_range_def Let_def using le by (simp add: n)
  also have "\<dots> = hp_spec leaf (nibbles_of s)"
    using foldl_hp_spec [of "nibbles_of s" leaf] unfolding hp_loop_foldl length_nibbles_of slice_size_def
    by (simp only: nibbles_of_def)
  finally show ?thesis .
qed

lemma hexPrefixEncode_slices_spec:
  assumes "slice_ok s1" "slice_ok s2"
  shows "hexPrefixEncode_slices s1 s2 leaf = hp_spec leaf (nibbles_of s1 @ nibbles_of s2)"
proof -
  let ?l1 = "length (ns_data s1) * 2" and ?l2 = "length (ns_data s2) * 2"
  let ?o = "odd (?l1 - ns_offset s1 + ?l2 - ns_offset s2)"
  have o: "?o = odd (length (nibbles_of s1 @ nibbles_of s2))"
    using assms by (simp add: slice_ok_def slice_size_def mult.commute)
  have "hexPrefixEncode_slices s1 s2 leaf = snd (foldl (\<lambda>(c, r) n. (c + 1, hp_push c n r))
      (if ?o then 1 else 2, [hp_flags leaf ?o]) (nibbles_of s1 @ nibbles_of s2))"
    unfolding hexPrefixEncode_slices_def hexPrefixEncode_two_def Let_def hp_loop_foldl foldl_append
    by (simp only: nibbles_of_def)
  then show ?thesis unfolding o by (simp only: foldl_hp_spec)
qed

lemma hexVector_loop_pack:
  "even (e - i) \<Longrightarrow> e = length v \<Longrightarrow> \<forall>n\<in>set v. small n \<Longrightarrow>
     hexVector_loop v i e ret = ret @ pack (drop i v)"
proof (induction v i e ret rule: hexVector_loop.induct)
  case (1 v i e ret)
  show ?case
  proof (cases "i < e")
    case True
    with 1 have "i + 1 < e" by presburger
    with 1 True have d: "drop i v = v ! i # v ! (i + 1) # drop (i + 2) v"
      by (simp add: Cons_nth_drop_Suc)
    have "v ! i * 16 + v ! (i + 1) = push_bit 4 (v ! i) OR v ! (i + 1)"
      using 1 \<open>i + 1 < e\<close> by (simp add: join_plus)
    with 1 True d show ?thesis by (simp add: hexVector_loop.simps [of v i])
  qed (use 1 in \<open>simp add: hexVector_loop.simps [of v i]\<close>)
qed

lemma hexPrefixEncode_vector_spec:
  assumes "\<forall>n\<in>set v. small n"
  shows "hexPrefixEncode_vector v leaf 0 (- 1) = hp_spec leaf v"
proof (cases "odd (length v)")
  case True
  then have "odd (length v - 0)" "v \<noteq> []" by auto
  with True assms show ?thesis
    by (simp add: hexPrefixEncode_vector_def hp_spec_def hexVector_loop_pack hd_conv_nth drop_Suc
        odd_iff_mod_2_eq_one)
next
  case False
  with assms show ?thesis
    by (simp add: hexPrefixEncode_vector_def hp_spec_def hexVector_loop_pack even_iff_mod_2_eq_zero)
qed

section \<open>Decoding\<close>

lemma unpack_Nil: "unpack [] = []"
  by (simp add: unpack_def nibbles_of_def)

lemma unpack_Cons: "unpack (w # d) = drop_bit 4 w # (w AND 15) # unpack d"
proof -
  have "[0..<length (w # d) * 2] = [0, 1] @ map (\<lambda>i. i + 2) [0..<length d * 2]"
    using map_add_upt [of 2 "length d * 2"] by (simp add: upt_conv_Cons numeral_2_eq_2 del: upt_Suc)
  then show ?thesis by (simp add: unpack_def nibbles_of_def nibble_def comp_def del: upt_Suc)
qed

lemma asNibbles_unpack: "asNibbles d = unpack d"
proof (induction d)
  case (Cons w d)
  have "w div 16 = drop_bit 4 w" "w mod 16 = w AND 15"
    using take_bit_eq_mod [of 4 w] by (simp_all add: drop_bit_eq_div take_bit_eq_mask mask_numeral)
  with Cons show ?case by (simp add: asNibbles_def unpack_Cons)
qed (simp add: asNibbles_def unpack_Nil)

lemma unpack_pack: "even (length ns) \<Longrightarrow> \<forall>n\<in>set ns. small n \<Longrightarrow> unpack (pack ns) = ns"
proof (induction ns rule: pack.induct)
  case (1 a b ns)
  then show ?case using join_nibbles [of a b] by (simp add: unpack_Cons del: drop_bit_or)
qed (simp_all add: unpack_Nil)

lemma nibbles_of_drop: "nibbles_of \<lparr>ns_data = d, ns_offset = n\<rparr> = drop n (unpack d)"
  by (simp add: unpack_def nibbles_of_def drop_map)

lemma flag_bits:
  assumes "small n"
  shows "(hp_flags leaf o' OR n) AND 0x20 \<noteq> 0 \<longleftrightarrow> leaf" "(hp_flags leaf o' OR n) AND 0x10 \<noteq> 0 \<longleftrightarrow> o'"
    "(hp_flags leaf o' OR n) AND 15 = n"
proof -
  have n: "n AND 0x20 = 0" "n AND 0x10 = 0" "n AND 15 = n"
    using and.assoc [of n 15 "0x20"] and.assoc [of n 15 "0x10"] assms by (simp_all add: small_def)
  show "(hp_flags leaf o' OR n) AND 0x20 \<noteq> 0 \<longleftrightarrow> leaf" "(hp_flags leaf o' OR n) AND 0x10 \<noteq> 0 \<longleftrightarrow> o'"
    "(hp_flags leaf o' OR n) AND 15 = n"
    by (cases leaf; cases o'; simp add: hp_flags_def word_ao_dist n)+
qed

theorem hexPrefix_decode:
  assumes "\<forall>n\<in>set ns. small n"
  shows "isLeaf (hp_spec leaf ns) = leaf" "nibbles_of (keyOf (hp_spec leaf ns)) = ns"
proof -
  have z: "small 0" by (simp add: small_def)
  note f0 = flag_bits [OF z, of leaf False, simplified]
  show "isLeaf (hp_spec leaf ns) = leaf"
  proof (cases "odd (length ns)")
    case True
    then obtain n ns' where "ns = n # ns'" by (cases ns) auto
    with assms True show ?thesis by (simp add: isLeaf_def hp_spec_def flag_bits)
  qed (simp add: isLeaf_def hp_spec_def f0)
  show "nibbles_of (keyOf (hp_spec leaf ns)) = ns"
  proof (cases "odd (length ns)")
    case True
    then obtain n ns' where "ns = n # ns'" by (cases ns) auto
    with assms True show ?thesis
      by (simp add: keyOf_def hp_spec_def flag_bits nibbles_of_drop unpack_Cons unpack_pack)
  next
    case False
    with assms show ?thesis
      by (simp add: keyOf_def hp_spec_def f0 nibbles_of_drop unpack_Cons unpack_pack)
  qed
qed

lemma small_nibbles_of [simp]: "\<forall>n\<in>set (nibbles_of s). small n"
  by (auto simp: nibbles_of_def)

lemma uniqueInUse_from_used:
  "used \<noteq> 255 \<Longrightarrow> uniqueInUse_from isEmpty ex is' used =
     (if filter (\<lambda>i. i \<noteq> unat ex \<and> \<not> isEmpty i) is' = [] then used else 255)"
  by (induction is') auto

lemma uniqueInUse_from_unused:
  "\<forall>i\<in>set is'. i < 255 \<Longrightarrow> uniqueInUse_from isEmpty ex is' 255 =
     (case filter (\<lambda>i. i \<noteq> unat ex \<and> \<not> isEmpty i) is' of [i] \<Rightarrow> of_nat i | _ \<Rightarrow> 255)"
proof (induction is')
  case (Cons i is')
  have "i < 255 \<Longrightarrow> (of_nat i :: byte) \<noteq> 255"
  proof
    assume "i < 255" "(of_nat i :: byte) = 255"
    then have "unat (of_nat i :: byte) = 255" by simp
    with \<open>i < 255\<close> show False by (simp add: unat_of_nat)
  qed
  with Cons show ?case by (auto simp: uniqueInUse_from_used split: list.split)
qed simp

section \<open>Properties\<close>

text \<open>C28: hex-prefix encoding of a key loses nothing: the decoder reads back from the encoded string
  the leaf flag and exactly the nibbles of the slice, for both parities and any offset.\<close>

theorem hexPrefix_roundtrip:
  assumes "slice_ok s"
  shows "isLeaf (hexPrefixEncode s leaf) = leaf
    \<and> nibbles_of (keyOf (hexPrefixEncode s leaf)) = nibbles_of s"
  using hexPrefix_decode [OF small_nibbles_of [of s]] by (simp add: hexPrefixEncode_spec [OF assms])

lemma hexPrefix_roundtrip_witness:
  "nibbles_of (keyOf (hexPrefixEncode \<lparr>ns_data = [0x12, 0x34], ns_offset = 1\<rparr> True)) = [2, 3, 4]"
  using hexPrefix_roundtrip [of "\<lparr>ns_data = [0x12, 0x34], ns_offset = 1\<rparr>" True]
  by (simp add: slice_ok_def) (simp add: nibbles_of_def nibble_def upt_conv_Cons)

text \<open>The three encoders agree: encoding two slices at once, or the vector of their nibbles, gives
  the same bytes, and the one-slice encoder is the case of an empty second slice.\<close>

theorem hexPrefix_encoders_agree:
  assumes "slice_ok s1" "slice_ok s2"
  shows "hexPrefixEncode_slices s1 s2 leaf
      = hexPrefixEncode_vector (nibbles_of s1 @ nibbles_of s2) leaf 0 (- 1)
    \<and> hexPrefixEncode s1 leaf = hexPrefixEncode_slices s1 \<lparr>ns_data = [], ns_offset = 0\<rparr> leaf"
  using assms by (simp add: hexPrefixEncode_slices_spec hexPrefixEncode_vector_spec hexPrefixEncode_spec
      ball_Un slice_ok_def nibbles_of_def)

lemma hexPrefix_encoders_agree_witness:
  "hexPrefixEncode_slices \<lparr>ns_data = [0x12], ns_offset = 0\<rparr> \<lparr>ns_data = [0x34], ns_offset = 1\<rparr> False
     = hexPrefixEncode_vector [1, 2, 4] False 0 (- 1)"
  using hexPrefix_encoders_agree [of "\<lparr>ns_data = [0x12], ns_offset = 0\<rparr>"
      "\<lparr>ns_data = [0x34], ns_offset = 1\<rparr>" False]
  by (simp add: slice_ok_def) (simp add: nibbles_of_def nibble_def upt_conv_Cons)

text \<open>The comparisons of slices are those of their nibble lists: \<open>contains\<close> is prefix, equality is
  equality and \<open>isEarlierThan\<close> the strict lexicographic order.\<close>

theorem slice_comparisons:
  assumes "slice_ok s" "slice_ok k"
  shows "slice_contains s k = (take (slice_size k) (nibbles_of s) = nibbles_of k)
    \<and> slice_eq s k = (nibbles_of s = nibbles_of k)
    \<and> isEarlierThan s k = ord_class.lexordp (nibbles_of s) (nibbles_of k)"
proof -
  have "slice_shared s k = slice_size k \<longleftrightarrow> take (slice_size k) (nibbles_of s) = nibbles_of k"
    using assms takeWhile_zip_prefix [of "nibbles_of s" "nibbles_of k"]
    by (simp add: slice_shared_take slice_ok_def)
  moreover have "slice_size k = slice_size s \<and> take (slice_size k) (nibbles_of s) = nibbles_of k
      \<longleftrightarrow> nibbles_of s = nibbles_of k"
    by (metis length_nibbles_of order_refl take_all)
  ultimately show ?thesis by (simp add: slice_contains_def slice_eq_def isEarlierThan_lex)
qed

lemma slice_comparisons_witness:
  "slice_contains \<lparr>ns_data = [0x12], ns_offset = 0\<rparr> \<lparr>ns_data = [0x51], ns_offset = 1\<rparr>"
  using slice_comparisons [of "\<lparr>ns_data = [0x12], ns_offset = 0\<rparr>" "\<lparr>ns_data = [0x51], ns_offset = 1\<rparr>"]
  by (simp add: slice_ok_def) (simp add: nibbles_of_def nibble_def slice_size_def upt_conv_Cons)

text \<open>\<open>uniqueInUse\<close> answers with the only non-empty item of a branch node other than the one
  excepted, and with 255 when there is none or more than one.\<close>

theorem uniqueInUse_spec:
  "uniqueInUse isEmpty ex = (case filter (\<lambda>i. i \<noteq> unat ex \<and> \<not> isEmpty i) [0..<17] of
     [i] \<Rightarrow> of_nat i | _ \<Rightarrow> 255)"
  unfolding uniqueInUse_def by (rule uniqueInUse_from_unused) simp

end
