(* ===== verification/TrieHash.thy ===== *)
theory TrieHash
  imports RlpFace Nibbles Keccak
begin

text \<open>
  The root hash of a trie computed from its whole content: \<open>libdevcore/TrieHash.cpp\<close>. A \<open>BytesMap\<close> or
  \<open>HexMap\<close> (\<open>std::map\<close>) is a list of pairs with strictly increasing keys; a range of iterators is such
  a list. The streams are the items they hold.

  \<open>trie_of\<close> is the tree the code has in mind: \<open>hash256rlp\<close> is its serialisation, with every child of 32
  bytes or more replaced by its hash, and looking a key up in it gives what the map gives.
\<close>

section \<open>Maps\<close>

fun bytes_less :: "bytes \<Rightarrow> bytes \<Rightarrow> bool" where
  "bytes_less [] [] = False"
| "bytes_less [] (y # ys) = True"
| "bytes_less (x # xs) [] = False"
| "bytes_less (x # xs) (y # ys) = (if x < y then True else if y < x then False else bytes_less xs ys)"

fun bm_insert :: "bytes \<Rightarrow> 'v \<Rightarrow> (bytes \<times> 'v) list \<Rightarrow> (bytes \<times> 'v) list" where
  "bm_insert k v [] = [(k, v)]"
| "bm_insert k v ((l, w) # m) = (if bytes_less k l then (k, v) # (l, w) # m
     else if bytes_less l k then (l, w) # bm_insert k v m else (k, v) # m)"

section \<open>The recursion\<close>

function shared_from :: "bytes \<Rightarrow> bytes \<Rightarrow> nat \<Rightarrow> nat \<Rightarrow> nat" where
  "shared_from f k x sh = (if sh < x \<and> f ! sh = k ! sh then shared_from f k x (sh + 1) else sh)"
  by pat_completeness auto
termination
  by (relation "measure (\<lambda>(f, k, x, sh). x - sh)") auto

declare shared_from.simps [simp del]

text \<open>The loop over the later keys; it stops once nothing is shared.\<close>

fun shared_pre :: "bytes \<Rightarrow> nat \<Rightarrow> bytes list \<Rightarrow> nat \<Rightarrow> nat" where
  "shared_pre f pre [] sp = sp"
| "shared_pre f pre (k # ks) sp = (if sp = 0 then sp
     else shared_pre f pre ks (min (shared_from f k (min sp (min (length f) (length k))) pre) sp))"

definition sharedPre :: "(bytes \<times> bytes) list \<Rightarrow> nat \<Rightarrow> nat" where
  "sharedPre kvs pre = shared_pre (fst (hd kvs)) pre (map fst (tl kvs)) (2 ^ 32 - 1)"

text \<open>The sixteen ranges of keys by their nibble at position \<open>pre\<close>, cut off one after the other.\<close>

primrec children :: "nat \<Rightarrow> nat \<Rightarrow> nat \<Rightarrow> (bytes \<times> bytes) list \<Rightarrow> (bytes \<times> bytes) list list" where
  "children pre 0 i b = []"
| "children pre (Suc n) i b = takeWhile (\<lambda>(k, v). pre < length k \<and> unat (k ! pre) = i) b
     # children pre n (i + 1) (dropWhile (\<lambda>(k, v). pre < length k \<and> unat (k ! pre) = i) b)"

definition branch_rest :: "(bytes \<times> bytes) list \<Rightarrow> nat \<Rightarrow> (bytes \<times> bytes) list" where
  "branch_rest kvs pre = (if pre = length (fst (hd kvs)) then tl kvs else kvs)"

definition branch_value :: "(bytes \<times> bytes) list \<Rightarrow> nat \<Rightarrow> bytes" where
  "branch_value kvs pre = (if pre = length (fst (hd kvs)) then snd (hd kvs) else [])"

definition rest_size :: "(bytes \<times> bytes) list \<Rightarrow> nat \<Rightarrow> nat" where
  "rest_size kvs pre = (\<Sum>(k, v)\<leftarrow>kvs. length k - pre)"

lemma shared_from_step:
  "sh < x \<and> f ! sh = k ! sh \<Longrightarrow> shared_from f k x sh = shared_from f k x (sh + 1)"
  "\<not> (sh < x \<and> f ! sh = k ! sh) \<Longrightarrow> shared_from f k x sh = sh"
  by (subst shared_from.simps, rule if_P, assumption) (subst shared_from.simps, rule if_not_P, assumption)

lemma shared_from_ge: "sh \<le> shared_from f k x sh"
proof (induction f k x sh rule: shared_from.induct)
  case (1 f k x sh)
  show ?case
  proof (cases "sh < x \<and> f ! sh = k ! sh")
    case True
    with 1 [OF True] show ?thesis unfolding shared_from_step(1) [OF True] by simp
  next
    case False
    then show ?thesis unfolding shared_from_step(2) [OF False] by simp
  qed
qed

lemma shared_from_le: "shared_from f k x sh \<le> max x sh"
proof (induction f k x sh rule: shared_from.induct)
  case (1 f k x sh)
  show ?case
  proof (cases "sh < x \<and> f ! sh = k ! sh")
    case True
    with 1 [OF True] show ?thesis unfolding shared_from_step(1) [OF True] by simp
  next
    case False
    then show ?thesis unfolding shared_from_step(2) [OF False] by simp
  qed
qed

lemma shared_from_nth: "sh \<le> i \<Longrightarrow> i < shared_from f k x sh \<Longrightarrow> f ! i = k ! i"
proof (induction f k x sh rule: shared_from.induct)
  case (1 f k x sh)
  show ?case
  proof (cases "sh < x \<and> f ! sh = k ! sh")
    case True
    then have "i < shared_from f k x (sh + 1)" using 1(3) by (simp only: shared_from_step(1) [OF True])
    with 1(1) [OF True] 1(2) True show ?thesis by (cases "i = sh") simp_all
  next
    case False
    then have "i < sh" using 1(3) by (simp only: shared_from_step(2) [OF False])
    then show ?thesis using 1(2) by simp
  qed
qed

lemma shared_pre_le: "shared_pre f pre ks sp \<le> sp"
  by (induction f pre ks sp rule: shared_pre.induct) (auto intro: order.trans)

lemma shared_pre_bound: "pre < shared_pre f pre ks sp \<Longrightarrow> k \<in> set ks
    \<Longrightarrow> shared_pre f pre ks sp \<le> length k \<and> shared_pre f pre ks sp \<le> length f"
proof (induction f pre ks sp rule: shared_pre.induct)
  case (2 f pre l ks sp)
  let ?sh = "shared_from f l (min sp (min (length f) (length l))) pre"
  have sp: "sp \<noteq> 0" using 2(2) by (cases "sp = 0") simp_all
  then have eq: "shared_pre f pre (l # ks) sp = shared_pre f pre ks (min ?sh sp)" by simp
  have "shared_pre f pre ks (min ?sh sp) \<le> ?sh" using shared_pre_le [of f pre ks "min ?sh sp"] by simp
  moreover have "?sh \<le> max (min sp (min (length f) (length l))) pre" by (rule shared_from_le)
  ultimately have "shared_pre f pre (l # ks) sp \<le> length l \<and> shared_pre f pre (l # ks) sp \<le> length f"
    using 2(2) unfolding eq by linarith
  moreover have "shared_pre f pre (l # ks) sp \<le> length k \<and> shared_pre f pre (l # ks) sp \<le> length f" if "k \<in> set ks"
    using 2(1) [OF sp _ that] 2(2) unfolding eq by blast
  ultimately show ?case using 2(3) by auto
qed simp

lemma children_sub: "s \<in> set (children pre n i b) \<Longrightarrow> set s \<subseteq> set b \<and> (\<forall>(k, v) \<in> set s. pre < length k)
    \<and> rest_size s pre \<le> rest_size b pre"
proof (induction n arbitrary: i b)
  case (Suc n)
  let ?P = "\<lambda>(k, v). pre < length k \<and> unat (k ! pre) = i"
  have split: "rest_size (takeWhile ?P b) pre + rest_size (dropWhile ?P b) pre = rest_size b pre"
    unfolding rest_size_def by (subst (3) takeWhile_dropWhile_id [of ?P b, symmetric]) (simp del: takeWhile_dropWhile_id)
  from Suc.prems consider "s = takeWhile ?P b" | "s \<in> set (children pre n (i + 1) (dropWhile ?P b))" by auto
  then show ?case
  proof cases
    case 1
    then show ?thesis using split by (auto dest: set_takeWhileD)
  next
    case 2
    from Suc.IH [OF this] split show ?thesis by (auto dest: set_dropWhileD)
  qed
qed simp

lemma rest_size_tl: "rest_size (tl kvs) pre \<le> rest_size kvs pre"
  by (cases kvs) (simp_all add: rest_size_def)

lemma rest_size_less:
  assumes "kvs \<noteq> []" and "\<forall>(k, v) \<in> set kvs. pre < length k" and "pre < pre'"
  shows "rest_size kvs pre' < rest_size kvs pre"
  unfolding rest_size_def using assms by (intro sum_list_strict_mono) auto

lemma sharedPre_bound:
  assumes "pre < sharedPre (a # b # kvs) pre" and "(k, v) \<in> set (a # b # kvs)"
  shows "sharedPre (a # b # kvs) pre \<le> length k"
proof -
  have *: "sharedPre (a # b # kvs) pre \<le> length l \<and> sharedPre (a # b # kvs) pre \<le> length (fst a)"
    if "l \<in> set (map fst (b # kvs))" for l
    using shared_pre_bound [OF _ that, of pre "fst a" "2 ^ 32 - 1"] assms(1)
    unfolding sharedPre_def list.sel by blast
  show ?thesis
  proof (cases "(k, v) = a")
    case True
    with * [of "fst b"] show ?thesis by auto
  next
    case False
    with assms(2) have "k \<in> set (map fst (b # kvs))" by force
    with * show ?thesis by blast
  qed
qed

lemma rest_ext: "pre < sharedPre (a # b # kvs) pre
    \<Longrightarrow> rest_size (a # b # kvs) (sharedPre (a # b # kvs) pre) < rest_size (a # b # kvs) pre"
  using sharedPre_bound [of pre a b kvs] by (intro rest_size_less) (auto intro: less_le_trans)

lemma rest_branch: "s \<in> set (children pre 16 0 (branch_rest kvs pre)) \<Longrightarrow> s \<noteq> []
    \<Longrightarrow> rest_size s (Suc pre) < rest_size kvs pre"
proof -
  assume s: "s \<in> set (children pre 16 0 (branch_rest kvs pre))" "s \<noteq> []"
  from children_sub [OF s(1)] have "\<forall>(k, v) \<in> set s. pre < length k" "rest_size s pre \<le> rest_size (branch_rest kvs pre) pre"
    by auto
  moreover have "rest_size (branch_rest kvs pre) pre \<le> rest_size kvs pre"
    by (simp add: branch_rest_def rest_size_tl)
  ultimately show ?thesis using rest_size_less [OF s(2), of pre "Suc pre"] by linarith
qed

definition collapse :: "'i rlp \<Rightarrow> 'i \<Rightarrow> 'i" where
  "collapse R it = (if length (rlp_data R it) < 32 then it else rlp_bytes R (sha3 (rlp_data R it)))"

function hash256rlp :: "'i rlp \<Rightarrow> (bytes \<times> bytes) list \<Rightarrow> nat \<Rightarrow> 'i" where
  "hash256rlp R [] pre = rlp_bytes R []"
| "hash256rlp R [(k, v)] pre = rlp_list R [rlp_bytes R (hexPrefixEncode_vector k True (int pre) (- 1)), rlp_bytes R v]"
| "hash256rlp R (a # b # kvs) pre =
     (let sh = sharedPre (a # b # kvs) pre
      in if pre < sh
         then rlp_list R [rlp_bytes R (hexPrefixEncode_vector (fst a) False (int pre) (int sh)),
                          collapse R (hash256rlp R (a # b # kvs) sh)]
         else rlp_list R (map (\<lambda>s. if s = [] then rlp_bytes R [] else collapse R (hash256rlp R s (Suc pre)))
                            (children pre 16 0 (branch_rest (a # b # kvs) pre))
                          @ [rlp_bytes R (branch_value (a # b # kvs) pre)]))"
  by pat_completeness auto
termination
  by (relation "measure (\<lambda>(R, kvs, pre). rest_size kvs pre)") (auto intro: rest_ext rest_branch simp del: shared_pre.simps)

definition hash256aux :: "'i rlp \<Rightarrow> (bytes \<times> bytes) list \<Rightarrow> nat \<Rightarrow> 'i" where
  "hash256aux R kvs pre = collapse R (hash256rlp R kvs pre)"

definition hm_step :: "(bytes \<times> bytes) list \<Rightarrow> bytes \<times> bytes \<Rightarrow> (bytes \<times> bytes) list" where
  "hm_step m kv = bm_insert (asNibbles (fst kv)) (snd kv) m"

definition hexMap :: "(bytes \<times> bytes) list \<Rightarrow> (bytes \<times> bytes) list" where
  "hexMap s = foldl hm_step [] (rev s)"

definition rlp256 :: "'i rlp \<Rightarrow> (bytes \<times> bytes) list \<Rightarrow> bytes" where
  "rlp256 R s = (if s = [] then rlp_data R (rlp_bytes R []) else rlp_data R (hash256rlp R (hexMap s) 0))"

definition hash256 :: "'i rlp \<Rightarrow> (bytes \<times> bytes) list \<Rightarrow> h256" where
  "hash256 R s = sha3 (rlp256 R s)"

definition orderedTrieRoot :: "'i rlp \<Rightarrow> bytes list \<Rightarrow> h256" where
  "orderedTrieRoot R ds = hash256 R (foldl (\<lambda>m (j, d). bm_insert (rlp_data R (rlp_int R (int j))) d m) []
     (enumerate 0 ds))"

definition trieRootOver :: "'i rlp \<Rightarrow> nat \<Rightarrow> (nat \<Rightarrow> bytes) \<Rightarrow> (nat \<Rightarrow> bytes) \<Rightarrow> h256" where
  "trieRootOver R itemCount getKey getValue = hash256 R (foldl (\<lambda>m i. bm_insert (getKey i) (getValue i) m) [] [0..<itemCount])"

section \<open>The order of keys\<close>

lemma bytes_less_lex: "bytes_less xs ys \<longleftrightarrow> ord_class.lexordp xs ys"
  by (induction xs ys rule: bytes_less.induct) auto

lemma bytes_less_trans: "bytes_less xs ys \<Longrightarrow> bytes_less ys zs \<Longrightarrow> bytes_less xs zs"
  unfolding bytes_less_lex by (rule lexordp_trans)

lemma bytes_less_irrefl: "\<not> bytes_less xs xs"
  unfolding bytes_less_lex by (rule lexordp_irreflexive')

lemma bytes_less_linear: "bytes_less xs ys \<or> xs = ys \<or> bytes_less ys xs"
  unfolding bytes_less_lex by (rule lexordp_linear)

definition bm_sorted :: "(bytes \<times> 'v) list \<Rightarrow> bool" where
  "bm_sorted m \<longleftrightarrow> sorted_wrt (\<lambda>a b. bytes_less (fst a) (fst b)) m"

lemma set_bm_insert: "set (bm_insert k v m) \<subseteq> insert (k, v) (set m)"
  by (induction k v m rule: bm_insert.induct) auto

lemma bm_insert_sorted: "bm_sorted m \<Longrightarrow> bm_sorted (bm_insert k v m)"
proof (induction k v m rule: bm_insert.induct)
  case (2 k v l w m)
  consider "bytes_less k l" | "\<not> bytes_less k l" "bytes_less l k" | "k = l" using bytes_less_linear by blast
  then show ?case
  proof cases
    case 1
    with 2(2) show ?thesis by (auto simp: bm_sorted_def intro: bytes_less_trans)
  next
    case mid: 2
    with 2 set_bm_insert [of k v m] show ?thesis by (fastforce simp: bm_sorted_def)
  next
    case 3
    with 2(2) show ?thesis by (auto simp: bm_sorted_def bytes_less_irrefl)
  qed
qed (simp add: bm_sorted_def)

lemma map_of_bm_insert: "bm_sorted m \<Longrightarrow> map_of (bm_insert k v m) = (map_of m)(k \<mapsto> v)"
proof (induction k v m rule: bm_insert.induct)
  case (2 k v l w m)
  consider "bytes_less k l" | "\<not> bytes_less k l" "bytes_less l k" | "k = l" using bytes_less_linear by blast
  then show ?case
  proof cases
    case mid: 2
    moreover from this have "k \<noteq> l" using bytes_less_irrefl by blast
    ultimately show ?thesis using 2 by (auto simp: bm_sorted_def fun_eq_iff)
  qed (auto simp: bytes_less_irrefl)
qed simp

lemma less_nth: "bytes_less k l \<Longrightarrow> take p k = take p l \<Longrightarrow> p < length k \<Longrightarrow> p < length l \<Longrightarrow> k ! p \<le> l ! p"
proof (induction p arbitrary: k l)
  case 0
  then show ?case by (cases k; cases l) (auto split: if_splits)
next
  case (Suc p)
  then show ?case by (cases k; cases l) (auto split: if_splits)
qed

lemma less_longer: "bytes_less k l \<Longrightarrow> take p k = take p l \<Longrightarrow> p \<le> length k \<Longrightarrow> p \<le> length l \<Longrightarrow> p < length l"
proof (induction p arbitrary: k l)
  case 0
  then show ?case by (cases k; cases l) auto
next
  case (Suc p)
  then show ?case by (cases k; cases l) (auto split: if_splits)
qed

lemma map_of_filter_key: "map_of (filter (\<lambda>(k, v). P k) xs) k = (if P k then map_of xs k else None)"
  by (induction xs) auto

section \<open>The tree\<close>

datatype node = NNull | NLeaf bytes bytes | NExt bytes node | NBranch "node list" bytes

primrec ser :: "'i rlp \<Rightarrow> node \<Rightarrow> 'i" where
  "ser R NNull = rlp_bytes R []"
| "ser R (NLeaf ns v) = rlp_list R [rlp_bytes R (hp_spec True ns), rlp_bytes R v]"
| "ser R (NExt ns n) = rlp_list R [rlp_bytes R (hp_spec False ns), collapse R (ser R n)]"
| "ser R (NBranch ns v) = rlp_list R (map (\<lambda>(n, it). if n = NNull then rlp_bytes R [] else collapse R it)
     (map (\<lambda>n. (n, ser R n)) ns) @ [rlp_bytes R v])"

primrec trie_get :: "node \<Rightarrow> bytes \<Rightarrow> bytes option" where
  "trie_get NNull = (\<lambda>k. None)"
| "trie_get (NLeaf ns v) = (\<lambda>k. if k = ns then Some v else None)"
| "trie_get (NExt ns n) = (\<lambda>k. if take (length ns) k = ns then trie_get n (drop (length ns) k) else None)"
| "trie_get (NBranch ns v) = (\<lambda>k. case k of [] \<Rightarrow> if v = [] then None else Some v
     | x # xs \<Rightarrow> if unat x < length ns then (map trie_get ns ! unat x) xs else None)"

function trie_of :: "(bytes \<times> bytes) list \<Rightarrow> nat \<Rightarrow> node" where
  "trie_of [] pre = NNull"
| "trie_of [(k, v)] pre = NLeaf (drop pre k) v"
| "trie_of (a # b # kvs) pre =
     (let sh = sharedPre (a # b # kvs) pre
      in if pre < sh then NExt (take (sh - pre) (drop pre (fst a))) (trie_of (a # b # kvs) sh)
         else NBranch (map (\<lambda>s. if s = [] then NNull else trie_of s (Suc pre))
                (children pre 16 0 (branch_rest (a # b # kvs) pre))) (branch_value (a # b # kvs) pre))"
  by pat_completeness auto
termination
  by (relation "measure (\<lambda>(kvs, pre). rest_size kvs pre)") (auto intro: rest_ext rest_branch simp del: shared_pre.simps)

lemma trie_of_NNull: "trie_of kvs pre = NNull \<longleftrightarrow> kvs = []"
  by (cases "(kvs, pre)" rule: trie_of.cases) (auto simp: Let_def)

section \<open>Well-formed content\<close>

text \<open>Strictly increasing keys made of nibbles, sharing their first \<open>pre\<close> ones, and no empty value.\<close>

definition trie_ok :: "(bytes \<times> bytes) list \<Rightarrow> nat \<Rightarrow> bool" where
  "trie_ok kvs pre \<longleftrightarrow> bm_sorted kvs \<and> (\<forall>(k, v) \<in> set kvs. pre \<le> length k \<and> take pre k = take pre (fst (hd kvs))
     \<and> v \<noteq> [] \<and> (\<forall>n \<in> set k. unat n < 16))"

lemma children_filter:
  assumes "sorted (map (\<lambda>(k, v). unat (k ! pre)) b)" and "\<forall>(k, v) \<in> set b. pre < length k \<and> i \<le> unat (k ! pre)"
  shows "children pre n i b = map (\<lambda>j. filter (\<lambda>(k, v). unat (k ! pre) = j) b) [i..<i + n]"
  using assms
proof (induction n arbitrary: i b)
  case (Suc n)
  let ?P = "\<lambda>(k, v). pre < length k \<and> unat (k ! pre) = i"
  have b: "takeWhile ?P b = filter (\<lambda>(k, v). unat (k ! pre) = i) b \<and> dropWhile ?P b = filter (\<lambda>(k, v). i < unat (k ! pre)) b"
    using Suc.prems
  proof (induction b)
    case (Cons kv b)
    obtain k v where kv: "kv = (k, v)" by (cases kv)
    show ?case
    proof (cases "unat (k ! pre) = i")
      case True
      with Cons kv show ?thesis by auto
    next
      case False
      with Cons.prems kv have "\<forall>(l, w) \<in> set (kv # b). i < unat (l ! pre)" by fastforce
      then have "filter (\<lambda>(k, v). unat (k ! pre) = i) (kv # b) = []" "filter (\<lambda>(k, v). i < unat (k ! pre)) (kv # b) = kv # b"
        by (auto simp: filter_empty_conv filter_id_conv)
      with False kv show ?thesis by simp
    qed
  qed simp
  let ?c = "filter (\<lambda>(k, v). i < unat (k ! pre)) b"
  have "sorted (map (\<lambda>(k, v). unat (k ! pre)) ?c)" using Suc.prems(1) by (rule sorted_filter)
  moreover have "\<forall>(k, v) \<in> set ?c. pre < length k \<and> i + 1 \<le> unat (k ! pre)" using Suc.prems(2) by auto
  ultimately have "children pre n (i + 1) ?c = map (\<lambda>j. filter (\<lambda>(k, v). unat (k ! pre) = j) ?c) [i + 1..<i + 1 + n]"
    by (rule Suc.IH)
  also have "\<dots> = map (\<lambda>j. filter (\<lambda>(k, v). unat (k ! pre) = j) b) [i + 1..<i + 1 + n]"
    by (intro map_cong refl) (auto simp: filter_filter intro!: filter_cong)
  finally have "children pre (Suc n) i b = map (\<lambda>j. filter (\<lambda>(k, v). unat (k ! pre) = j) b) (i # [i + 1..<i + 1 + n])"
    using b by (simp only: children.simps list.map)
  also have "i # [i + 1..<i + 1 + n] = [i..<i + Suc n]" by (simp add: upt_conv_Cons)
  finally show ?case .
qed simp

section \<open>The hash is that of the tree\<close>

lemma hexVector_loop_range:
  "even (e - i) \<Longrightarrow> e \<le> length v \<Longrightarrow> \<forall>n\<in>set v. small n
    \<Longrightarrow> hexVector_loop v i e ret = ret @ pack (take (e - i) (drop i v))"
proof (induction v i e ret rule: hexVector_loop.induct)
  case (1 v i e ret)
  show ?case
  proof (cases "i < e")
    case True
    with 1 have i: "i + 1 < e" by presburger
    with 1 True have "drop i v = v ! i # v ! (i + 1) # drop (i + 2) v" by (simp add: Cons_nth_drop_Suc)
    moreover have "e - i = Suc (Suc (e - (i + 2)))" using i by simp
    ultimately have d: "take (e - i) (drop i v) = v ! i # v ! (i + 1) # take (e - (i + 2)) (drop (i + 2) v)" by simp
    have "v ! i * 16 + v ! (i + 1) = push_bit 4 (v ! i) OR v ! (i + 1)"
      using 1 i by (simp add: join_plus)
    with 1 True d show ?thesis by (simp add: hexVector_loop.simps [of v i])
  qed (use 1 in \<open>simp add: hexVector_loop.simps [of v i]\<close>)
qed

lemma encode_range:
  assumes "\<forall>n\<in>set v. small n" and "b \<le> e" and "e \<le> length v"
    and "(if end' < 0 then nat (int (length v) + 1 + end') else nat end') = e"
  shows "hexPrefixEncode_vector v leaf (int b) end' = hp_spec leaf (take (e - b) (drop b v))"
proof -
  have eq: "hexPrefixEncode_vector v leaf (int b) end' = (if (e - b) mod 2 \<noteq> 0
      then hexVector_loop v (b + 1) e [hp_flags leaf True OR v ! b] else hexVector_loop v b e [hp_flags leaf False])"
    unfolding hexPrefixEncode_vector_def Let_def assms(4) nat_int by (cases "(e - b) mod 2 \<noteq> 0") simp_all
  have len: "length (take (e - b) (drop b v)) = e - b" using assms(3) by simp
  show ?thesis
  proof (cases "odd (e - b)")
    case True
    then have "b < e" by (cases "b < e") simp_all
    then have "e - b = Suc (e - (b + 1))" "drop b v = v ! b # drop (b + 1) v"
      using assms(3) by (simp_all add: Cons_nth_drop_Suc)
    then have d: "take (e - b) (drop b v) = v ! b # take (e - (b + 1)) (drop (b + 1) v)"
      by (simp only: take_Suc_Cons)
    have "even (e - (b + 1))" "(e - b) mod 2 \<noteq> 0" using True \<open>b < e\<close> by presburger+
    with True show ?thesis
      unfolding eq hp_spec_def len using d hexVector_loop_range [of e "b + 1" v] assms(1,3) by simp
  next
    case False
    then have "(e - b) mod 2 = 0" by presburger
    with False show ?thesis
      unfolding eq hp_spec_def len using hexVector_loop_range [of e b v] assms(1,3) by simp
  qed
qed

lemma small_less: "unat n < 16 \<Longrightarrow> small n"
  by (simp add: small_take_bit word_unat_eq_iff unsigned_take_bit_eq take_bit_nat_eq_self)

lemma trie_okD:
  assumes "trie_ok kvs pre" and "(k, v) \<in> set kvs"
  shows "pre \<le> length k" "take pre k = take pre (fst (hd kvs))" "v \<noteq> []" "\<forall>n\<in>set k. small n" "\<forall>n\<in>set k. unat n < 16"
proof -
  show *: "pre \<le> length k" "take pre k = take pre (fst (hd kvs))" "v \<noteq> []" "\<forall>n\<in>set k. unat n < 16"
    using assms by (auto simp: trie_ok_def)
  from *(4) show "\<forall>n\<in>set k. small n" by (blast intro: small_less)
qed

lemma trie_okI:
  assumes "bm_sorted kvs" and "\<And>k v. (k, v) \<in> set kvs \<Longrightarrow> pre \<le> length k \<and> take pre k = take pre (fst (hd kvs))
    \<and> v \<noteq> [] \<and> (\<forall>n \<in> set k. unat n < 16)"
  shows "trie_ok kvs pre"
  using assms by (auto simp: trie_ok_def)

lemma trie_ok_sorted: "trie_ok kvs pre \<Longrightarrow> bm_sorted kvs"
  by (simp add: trie_ok_def)

lemma bm_sorted_Cons: "bm_sorted (a # m) \<Longrightarrow> (k, v) \<in> set m \<Longrightarrow> bytes_less (fst a) k"
  by (auto simp: bm_sorted_def)

lemma shared_pre_nth: "pre < shared_pre f pre ks sp \<Longrightarrow> k \<in> set ks \<Longrightarrow> pre \<le> i \<Longrightarrow> i < shared_pre f pre ks sp
    \<Longrightarrow> f ! i = k ! i"
proof (induction f pre ks sp rule: shared_pre.induct)
  case (2 f pre l ks sp)
  let ?sh = "shared_from f l (min sp (min (length f) (length l))) pre"
  have sp: "sp \<noteq> 0" using 2(2) by (cases "sp = 0") simp_all
  then have eq: "shared_pre f pre (l # ks) sp = shared_pre f pre ks (min ?sh sp)" by simp
  have "shared_pre f pre ks (min ?sh sp) \<le> ?sh" using shared_pre_le [of f pre ks "min ?sh sp"] by simp
  then have "i < ?sh" using 2(5) unfolding eq by (rule less_le_trans [rotated])
  with 2(4) have "f ! i = l ! i" by (rule shared_from_nth)
  moreover have "f ! i = k ! i" if "k \<in> set ks" using 2(1) [OF sp _ that 2(4)] 2(2,5) unfolding eq by blast
  ultimately show ?case using 2(3) by auto
qed simp

lemma ext_ok:
  assumes ok: "trie_ok (a # b # kvs) pre" and p: "pre < sharedPre (a # b # kvs) pre"
  shows "trie_ok (a # b # kvs) (sharedPre (a # b # kvs) pre)"
proof -
  let ?sh = "sharedPre (a # b # kvs) pre"
  have "take ?sh k = take ?sh (fst a)" if k: "(k, v) \<in> set (a # b # kvs)" for k v
  proof (cases "(k, v) = a")
    case False
    then have k': "k \<in> set (map fst (b # kvs))" using k by force
    have l: "?sh \<le> length k" "?sh \<le> length (fst a)"
      using sharedPre_bound [OF p k] sharedPre_bound [OF p, of "fst a" "snd a"] by simp_all
    show ?thesis
    proof (rule nth_equalityI)
      fix i assume "i < length (take ?sh k)"
      then have i: "i < ?sh" by simp
      show "take ?sh k ! i = take ?sh (fst a) ! i"
      proof (cases "i < pre")
        case True
        have "take pre k = take pre (fst a)" using trie_okD(2) [OF ok k] by simp
        then have "take pre k ! i = take pre (fst a) ! i" by simp
        with True i show ?thesis by simp
      next
        case False
        then show ?thesis
          using shared_pre_nth [OF _ k', of pre "fst a" "2 ^ 32 - 1" i] p i unfolding sharedPre_def list.sel by simp
      qed
    qed (use l in simp)
  qed auto
  note * = this
  show ?thesis
  proof (rule trie_okI [OF trie_ok_sorted [OF ok]])
    fix k v assume k: "(k, v) \<in> set (a # b # kvs)"
    show "?sh \<le> length k \<and> take ?sh k = take ?sh (fst (hd (a # b # kvs))) \<and> v \<noteq> [] \<and> (\<forall>n\<in>set k. unat n < 16)"
      using * [OF k] sharedPre_bound [OF p k] trie_okD(3,5) [OF ok k] unfolding list.sel by blast
  qed
qed

text \<open>In a branch, only the first key can end here, and the children are the keys with each nibble.\<close>

lemma branch_rest_long:
  assumes ok: "trie_ok kvs pre" and "(k, v) \<in> set (branch_rest kvs pre)"
  shows "pre < length k"
proof -
  obtain a ks where kvs: "kvs = a # ks" using assms(2) by (cases kvs) (auto simp: branch_rest_def split: if_splits)
  have a: "pre \<le> length (fst a)" using trie_okD(1) [OF ok, of "fst a" "snd a"] kvs by simp
  show ?thesis
  proof (cases "(k, v) \<in> set ks")
    case True
    then have k: "(k, v) \<in> set kvs" by (simp add: kvs)
    have "bytes_less (fst a) k" using bm_sorted_Cons [OF _ True] trie_ok_sorted [OF ok] by (simp add: kvs)
    then show ?thesis using less_longer [of "fst a" k pre] trie_okD(1,2) [OF ok k] a by (simp add: kvs)
  next
    case False
    with assms(2) have "(k, v) = a" "pre \<noteq> length (fst a)" by (auto simp: branch_rest_def kvs split: if_splits)
    with a show ?thesis by auto
  qed
qed

lemma branch_rest_set: "set (branch_rest kvs pre) \<subseteq> set kvs"
  by (cases kvs) (auto simp: branch_rest_def)

lemma branch_rest_sorted: "bm_sorted kvs \<Longrightarrow> bm_sorted (branch_rest kvs pre)"
  by (cases kvs) (auto simp: branch_rest_def bm_sorted_def)

lemma branch_children:
  assumes ok: "trie_ok kvs pre"
  shows "children pre 16 0 (branch_rest kvs pre)
    = map (\<lambda>j. filter (\<lambda>(k, v). unat (k ! pre) = j) (branch_rest kvs pre)) [0..<16]"
proof -
  let ?b = "branch_rest kvs pre"
  have "sorted_wrt (\<lambda>a b. unat (fst a ! pre) \<le> unat (fst b ! pre)) ?b"
  proof (rule sorted_wrt_mono_rel)
    show "sorted_wrt (\<lambda>a b. bytes_less (fst a) (fst b)) ?b"
      using branch_rest_sorted [OF trie_ok_sorted [OF ok]] by (simp add: bm_sorted_def)
    fix x y assume xy: "x \<in> set ?b" "y \<in> set ?b" "bytes_less (fst x) (fst y)"
    then have "take pre (fst x) = take pre (fst y)"
      using trie_okD(2) [OF ok, of "fst x" "snd x"] trie_okD(2) [OF ok, of "fst y" "snd y"]
        subsetD [OF branch_rest_set xy(1)] subsetD [OF branch_rest_set xy(2)] by simp
    then show "unat (fst x ! pre) \<le> unat (fst y ! pre)"
      using less_nth [OF xy(3), of pre] branch_rest_long [OF ok, of "fst x" "snd x"]
        branch_rest_long [OF ok, of "fst y" "snd y"] xy by (simp add: word_le_nat_alt)
  qed
  then have "sorted (map (\<lambda>(k, v). unat (k ! pre)) ?b)" by (simp add: sorted_wrt_map case_prod_beta)
  then show ?thesis
    using children_filter [of pre ?b 0 16] branch_rest_long [OF ok] by fastforce
qed

lemma child_ok:
  assumes ok: "trie_ok kvs pre" and s: "s \<in> set (children pre 16 0 (branch_rest kvs pre))"
  shows "trie_ok s (Suc pre)"
proof -
  let ?b = "branch_rest kvs pre"
  obtain j where j: "s = filter (\<lambda>(k, v). unat (k ! pre) = j) ?b"
    using s unfolding branch_children [OF ok] by auto
  have sub: "set s \<subseteq> set kvs" using branch_rest_set [of kvs pre] by (auto simp: j)
  have key: "take (Suc pre) k = take pre (fst (hd kvs)) @ [of_nat j]" if "(k, v) \<in> set s" for k v
  proof -
    have "k ! pre = of_nat j" using that by (auto simp: j)
    moreover have "pre < length k" using that branch_rest_long [OF ok, of k v] by (auto simp: j)
    moreover have "take pre k = take pre (fst (hd kvs))" using trie_okD(2) [OF ok, of k v] that sub by auto
    ultimately show ?thesis by (simp add: take_Suc_conv_app_nth)
  qed
  have "bm_sorted s" using branch_rest_sorted [OF trie_ok_sorted [OF ok], of pre] by (simp add: j bm_sorted_def sorted_wrt_filter)
  moreover have "Suc pre \<le> length k \<and> take (Suc pre) k = take (Suc pre) (fst (hd s)) \<and> v \<noteq> [] \<and> (\<forall>n\<in>set k. unat n < 16)"
    if k: "(k, v) \<in> set s" for k v
  proof -
    have "hd s \<in> set s" using k by (cases s) auto
    then have "take (Suc pre) (fst (hd s)) = take (Suc pre) k" using key [of "fst (hd s)" "snd (hd s)"] key [OF k] by simp
    moreover have "pre < length k" using k branch_rest_long [OF ok, of k v] by (auto simp: j)
    moreover have "v \<noteq> []" "\<forall>n\<in>set k. unat n < 16" using trie_okD [OF ok, of k v] k sub by auto
    ultimately show ?thesis by simp
  qed
  ultimately show ?thesis by (rule trie_okI)
qed

lemma hash256rlp_ser: "trie_ok kvs pre \<Longrightarrow> hash256rlp R kvs pre = ser R (trie_of kvs pre)"
proof (induction kvs pre rule: trie_of.induct)
  case (2 k v pre)
  have "hexPrefixEncode_vector k True (int pre) (- 1) = hp_spec True (take (length k - pre) (drop pre k))"
    using trie_okD [OF 2, of k v] by (intro encode_range) simp_all
  then show ?case by simp
next
  case (3 a b kvs pre)
  let ?kvs = "a # b # kvs"
  let ?sh = "sharedPre ?kvs pre"
  show ?case
  proof (cases "pre < ?sh")
    case True
    have "hexPrefixEncode_vector (fst a) False (int pre) (int ?sh) = hp_spec False (take (?sh - pre) (drop pre (fst a)))"
      using trie_okD(4) [OF "3.prems", of "fst a" "snd a"] sharedPre_bound [OF True, of "fst a" "snd a"] True
      by (intro encode_range) simp_all
    moreover have "hash256rlp R ?kvs ?sh = ser R (trie_of ?kvs ?sh)"
      using "3.IH"(1) [OF refl True ext_ok [OF "3.prems" True]] .
    ultimately show ?thesis
      using True by (subst hash256rlp.simps(3), subst trie_of.simps(3)) (simp only: Let_def if_True ser.simps)
  next
    case False
    let ?cs = "children pre 16 0 (branch_rest ?kvs pre)"
    let ?t = "\<lambda>s. if s = [] then NNull else trie_of s (Suc pre)"
    have "map (\<lambda>s. if s = [] then rlp_bytes R [] else collapse R (hash256rlp R s (Suc pre))) ?cs
        = map (\<lambda>(n, it). if n = NNull then rlp_bytes R [] else collapse R it) (map (\<lambda>n. (n, ser R n)) (map ?t ?cs))"
      unfolding map_map
    proof (rule map_cong [OF refl])
      fix s assume s: "s \<in> set ?cs"
      show "(if s = [] then rlp_bytes R [] else collapse R (hash256rlp R s (Suc pre)))
          = ((\<lambda>(n, it). if n = NNull then rlp_bytes R [] else collapse R it) \<circ> ((\<lambda>n. (n, ser R n)) \<circ> ?t)) s"
      proof (cases "s = []")
        case False
        with "3.IH"(2) [OF refl \<open>\<not> pre < ?sh\<close> s False child_ok [OF "3.prems" s]] show ?thesis by (simp add: trie_of_NNull)
      qed simp
    qed
    then show ?thesis
      using False by (subst hash256rlp.simps(3), subst trie_of.simps(3)) (simp only: Let_def if_False ser.simps)
  qed
qed simp

lemma trie_get_of:
  "trie_ok kvs pre \<Longrightarrow> pre \<le> length k \<Longrightarrow> kvs = [] \<or> take pre k = take pre (fst (hd kvs))
    \<Longrightarrow> trie_get (trie_of kvs pre) (drop pre k) = map_of kvs k"
proof (induction kvs pre rule: trie_of.induct)
  case (2 l v pre)
  have "drop pre k = drop pre l \<longleftrightarrow> k = l"
    using "2.prems" append_take_drop_id [of pre k] append_take_drop_id [of pre l] by (metis fst_conv list.distinct(1) list.sel(1))
  then show ?case by auto
next
  case (3 a b kvs pre)
  let ?kvs = "a # b # kvs"
  let ?sh = "sharedPre ?kvs pre"
  note ok = "3.prems"(1)
  have pre: "take pre k = take pre (fst a)" using "3.prems"(3) by simp
  show ?case
  proof (cases "pre < ?sh")
    case True
    let ?ns = "take (?sh - pre) (drop pre (fst a))"
    have la: "?sh \<le> length (fst a)" using sharedPre_bound [OF True, of "fst a" "snd a"] by simp
    then have ns: "length ?ns = ?sh - pre" by simp
    have t: "take ?sh l = take pre l @ take (?sh - pre) (drop pre l)" for l :: bytes
      using True by (simp flip: take_add)
    show ?thesis
    proof (cases "take (length ?ns) (drop pre k) = ?ns")
      case m: True
      then have tk: "take ?sh k = take ?sh (fst a)" unfolding ns t [of k] t [of "fst a"] pre by simp
      then have "length (take ?sh k) = length (take ?sh (fst a))" by simp
      then have "?sh \<le> length k" using la by simp
      from "3.IH"(1) [OF refl True ext_ok [OF ok True] this] tk
      have "trie_get (trie_of ?kvs ?sh) (drop ?sh k) = map_of ?kvs k" by simp
      then show ?thesis using True m ns by (simp add: Let_def)
    next
      case m: False
      have "(k, v) \<notin> set ?kvs" for v
        using trie_okD(2) [OF ext_ok [OF ok True], of k v] m unfolding ns t [of k] list.sel t [of "fst a"] pre by auto
      then have "map_of ?kvs k = None" by (metis map_of_SomeD option.exhaust)
      then show ?thesis using True m by (simp add: Let_def)
    qed
  next
    case False
    let ?rest = "branch_rest ?kvs pre" and ?v = "branch_value ?kvs pre"
    define f where "f s = (if s = [] then NNull else trie_of s (Suc pre))" for s
    define part where "part j = filter (\<lambda>(l, v). unat (l ! pre) = j) ?rest" for j
    have tr: "trie_of ?kvs pre = NBranch (map (\<lambda>j. f (part j)) [0..<16]) ?v"
      using False branch_children [OF ok] by (simp add: Let_def f_def part_def comp_def)
    show ?thesis
    proof (cases "pre < length k")
      case short: False
      then have k: "length k = pre" using "3.prems"(2) by simp
      then have d: "drop pre k = []" by simp
      have none: "map_of ?rest k = None"
        using branch_rest_long [OF ok, of k] k by (metis less_irrefl map_of_SomeD option.exhaust)
      show ?thesis
      proof (cases "pre = length (fst a)")
        case True
        then have "k = fst a" using pre k by simp
        moreover have "snd a \<noteq> []" using trie_okD(3) [OF ok, of "fst a" "snd a"] by simp
        ultimately show ?thesis unfolding tr d using True by (cases a) (simp add: branch_value_def)
      next
        case l: False
        then show ?thesis unfolding tr d using none by (simp add: branch_value_def branch_rest_def)
      qed
    next
      case True
      let ?j = "unat (k ! pre)"
      have d: "drop pre k = k ! pre # drop (Suc pre) k" using True by (simp add: Cons_nth_drop_Suc)
      have m: "map_of ?kvs k = map_of (part ?j) k"
      proof -
        have "map_of ?kvs k = map_of ?rest k" using True by (cases a) (auto simp: branch_rest_def)
        also have "\<dots> = map_of (part ?j) k"
          using map_of_filter_key [of "\<lambda>l. unat (l ! pre) = ?j" ?rest k] by (simp add: part_def)
        finally show ?thesis .
      qed
      show ?thesis
      proof (cases "?j < 16")
        case j: True
        have g: "trie_get (trie_of ?kvs pre) (drop pre k) = trie_get (f (part ?j)) (drop (Suc pre) k)"
          using j unfolding tr d by simp
        show ?thesis
        proof (cases "part ?j = []")
          case True
          then show ?thesis unfolding g m by (simp add: f_def)
        next
          case ne: False
          have mem: "part ?j \<in> set (children pre 16 0 ?rest)"
            using j unfolding branch_children [OF ok] part_def by simp
          obtain l v where l: "hd (part ?j) = (l, v)" "(l, v) \<in> set (part ?j)"
            using ne by (metis list.set_sel(1) surj_pair)
          then have lr: "(l, v) \<in> set ?rest" "l ! pre = k ! pre" by (auto simp: part_def word_unat_eq_iff)
          have "pre < length l" using branch_rest_long [OF ok lr(1)] .
          moreover have "take pre l = take pre k"
            using trie_okD(2) [OF ok subsetD [OF branch_rest_set lr(1)]] pre by simp
          ultimately have "take (Suc pre) k = take (Suc pre) (fst (hd (part ?j)))"
            using True lr(2) l(1) by (simp add: take_Suc_conv_app_nth)
          with "3.IH"(2) [OF refl False mem ne child_ok [OF ok mem]] True
          show ?thesis unfolding g m using ne by (simp add: f_def)
        qed
      next
        case j: False
        have "(k, v) \<notin> set ?kvs" for v
          using trie_okD(5) [OF ok, of k v] nth_mem [OF True] j by auto
        then have "map_of ?kvs k = None" by (metis map_of_SomeD option.exhaust)
        then show ?thesis using j unfolding tr d by simp
      qed
    qed
  qed
qed simp

section \<open>The whole map\<close>

lemma asNibbles_Cons: "asNibbles (b # bs) = b div 16 # b mod 16 # asNibbles bs"
  by (simp add: asNibbles_def)

lemma asNibbles_inj: "asNibbles k = asNibbles l \<Longrightarrow> k = l"
proof (induction k arbitrary: l)
  case Nil
  then show ?case by (cases l) (simp_all add: asNibbles_def)
next
  case (Cons b k)
  then obtain c l' where l: "l = c # l'" by (cases l) (auto simp: asNibbles_def)
  with Cons.prems have "b div 16 = c div 16" "b mod 16 = c mod 16" "asNibbles k = asNibbles l'"
    by (simp_all add: asNibbles_Cons)
  then show ?case using l Cons.IH word_mod_div_equality [of b 16] word_mod_div_equality [of c 16] by metis
qed

lemma asNibbles_small: "n \<in> set (asNibbles k) \<Longrightarrow> unat n < 16"
proof -
  have "unat (b div 16) < 16" "unat (b mod 16) < 16" for b :: byte
    using unsigned_less [of b, where ?'a = nat] by (simp_all add: unat_div unat_mod div_less_iff_less_mult)
  then show "n \<in> set (asNibbles k) \<Longrightarrow> unat n < 16" by (auto simp: asNibbles_def)
qed

lemma hexMap_fold:
  assumes "bm_sorted m" and "\<forall>(l, v) \<in> set m. v \<noteq> [] \<and> (\<forall>n \<in> set l. unat n < 16)" and "\<forall>(l, v) \<in> set s. v \<noteq> []"
  shows "bm_sorted (foldl hm_step m s) \<and> (\<forall>(l, v) \<in> set (foldl hm_step m s). v \<noteq> [] \<and> (\<forall>n \<in> set l. unat n < 16))
    \<and> map_of (foldl hm_step m s) (asNibbles k) = (case map_of (rev s) k of None \<Rightarrow> map_of m (asNibbles k) | Some v \<Rightarrow> Some v)"
  using assms
proof (induction s arbitrary: m)
  case (Cons kv s)
  obtain l v where kv: "kv = (l, v)" by (cases kv)
  let ?m = "bm_insert (asNibbles l) v m"
  have 1: "bm_sorted ?m" using Cons.prems(1) by (rule bm_insert_sorted)
  have 2: "\<forall>(l, v) \<in> set ?m. v \<noteq> [] \<and> (\<forall>n \<in> set l. unat n < 16)"
  proof (rule ballI)
    fix x assume "x \<in> set ?m"
    from subsetD [OF set_bm_insert this] have "x = (asNibbles l, v) \<or> x \<in> set m" by simp
    then show "case x of (l, v) \<Rightarrow> v \<noteq> [] \<and> (\<forall>n \<in> set l. unat n < 16)"
      using Cons.prems(2,3) by (auto simp: kv asNibbles_small)
  qed
  have 3: "\<forall>(l, v) \<in> set s. v \<noteq> []" using Cons.prems(3) by simp
  have "map_of ?m (asNibbles k) = (if k = l then Some v else map_of m (asNibbles k))"
    using asNibbles_inj [of k l] by (auto simp: map_of_bm_insert [OF Cons.prems(1)])
  with Cons.IH [OF 1 2 3] show ?case
    by (auto simp: kv hm_step_def map_of_append map_add_def split: option.splits)
qed simp

lemma hexMap_ok:
  assumes "\<forall>(k, v) \<in> set s. v \<noteq> []"
  shows "trie_ok (hexMap s) 0" "map_of (hexMap s) (asNibbles k) = map_of s k"
  using hexMap_fold [of "[]" "rev s" k] assms
  by (auto simp: hexMap_def bm_sorted_def trie_ok_def split: option.splits)

definition trie :: "(bytes \<times> bytes) list \<Rightarrow> node" where
  "trie s = trie_of (hexMap s) 0"

lemma hexMap_Nil: "hexMap [] = []"
  by (simp add: hexMap_def)

text \<open>C15: the trie root is the hash of a tree that holds exactly the map: for every content without empty
  values, \<open>rlp256\<close> is the serialisation of the tree \<open>trie s\<close>, with children of 32 bytes or more replaced by
  their hashes, and looking up any key, nibble by nibble, in that tree gives the map's value.\<close>

theorem trie_root_content:
  assumes "\<forall>(k, v) \<in> set s. v \<noteq> []"
  shows "rlp256 R s = rlp_data R (ser R (trie s)) \<and> trie_get (trie s) (asNibbles k) = map_of s k"
proof
  show "rlp256 R s = rlp_data R (ser R (trie s))"
    using hash256rlp_ser [OF hexMap_ok(1) [OF assms], of R] by (simp add: rlp256_def trie_def hexMap_Nil)
  show "trie_get (trie s) (asNibbles k) = map_of s k"
    using trie_get_of [OF hexMap_ok(1) [OF assms], of "asNibbles k"] hexMap_ok(2) [OF assms, of k]
    by (simp add: trie_def)
qed

theorem trie_root_content_witness:
  "rlp256 tree_rlp [([0x12], [7]), ([0x13], [8]), ([0x12, 0x34], [9])]
      = rlp_data tree_rlp (ser tree_rlp (trie [([0x12], [7]), ([0x13], [8]), ([0x12, 0x34], [9])]))
    \<and> trie_get (trie [([0x12], [7]), ([0x13], [8]), ([0x12, 0x34], [9])]) (asNibbles [0x12, 0x34]) = Some [9]"
  using trie_root_content [of "[([0x12], [7]), ([0x13], [8]), ([0x12, 0x34], [9])]" tree_rlp "[0x12, 0x34]"] by simp

text \<open>Consequently two contents with the same tree are the same map.\<close>

corollary trie_inj:
  assumes "\<forall>(k, v) \<in> set s. v \<noteq> []" and "\<forall>(k, v) \<in> set s'. v \<noteq> []" and "trie s = trie s'"
  shows "map_of s = map_of s'"
proof
  fix k
  have g: "trie_get (trie m) (asNibbles k) = map_of m k" if "\<forall>(k, v) \<in> set m. v \<noteq> []" for m
    using trie_get_of [OF hexMap_ok(1) [OF that], of "asNibbles k"] hexMap_ok(2) [OF that, of k] by (simp add: trie_def)
  show "map_of s k = map_of s' k" using g [OF assms(1)] g [OF assms(2)] assms(3) by simp
qed

end
