(* ===== verification/TrieTree.thy ===== *)
theory TrieTree
  imports TrieHash
begin

text \<open>
  The trees behind the tries, without hashes or databases: insertion and removal as
  \<open>libdevcore/TrieDB.h\<close> does them (cleaving a key, branching at a nibble, grafting two keys), and the
  canonical trees. Insertion and removal change one entry and keep a tree canonical, and a canonical
  tree is determined by its entries; in particular the tree that \<open>TrieHash\<close> builds from the whole
  content is the one insertions arrive at.
\<close>

section \<open>Keys\<close>

definition nibs :: "bytes \<Rightarrow> bool" where
  "nibs k \<longleftrightarrow> (\<forall>n \<in> set k. unat n < 16)"

lemma nibs_simps [simp]: "nibs []" "nibs (x # k) \<longleftrightarrow> unat x < 16 \<and> nibs k" "nibs (k @ l) \<longleftrightarrow> nibs k \<and> nibs l"
  by (auto simp: nibs_def)

lemma nibs_take [simp]: "nibs k \<Longrightarrow> nibs (take n k)" and nibs_drop [simp]: "nibs k \<Longrightarrow> nibs (drop n k)"
  by (auto simp: nibs_def dest: in_set_takeD in_set_dropD)

definition lcp :: "bytes \<Rightarrow> bytes \<Rightarrow> nat" where
  "lcp xs ys = length (takeWhile (\<lambda>(a, b). a = b) (zip xs ys))"

lemma lcp_simps [simp]: "lcp [] ys = 0" "lcp xs [] = 0" "lcp (x # xs) (y # ys) = (if x = y then Suc (lcp xs ys) else 0)"
  by (simp_all add: lcp_def)

lemma lcp_le: "lcp xs ys \<le> length xs \<and> lcp xs ys \<le> length ys"
  by (induction xs ys rule: list_induct2') auto

lemma lcp_take: "take (lcp xs ys) xs = take (lcp xs ys) ys"
  by (induction xs ys rule: list_induct2') auto

lemma lcp_full: "lcp xs ys = length ys \<longleftrightarrow> take (length ys) xs = ys"
  by (induction xs ys rule: list_induct2') auto

lemma lcp_drop: "lcp (drop (lcp xs ys) xs) (drop (lcp xs ys) ys) = 0"
  by (induction xs ys rule: list_induct2') auto

lemma lcp_0: "lcp xs ys = 0 \<longleftrightarrow> xs = [] \<or> ys = [] \<or> hd xs \<noteq> hd ys"
  by (cases xs; cases ys) auto

section \<open>Insertion\<close>

fun tn_key :: "node \<Rightarrow> bytes" where
  "tn_key (NLeaf ns v) = ns" | "tn_key (NExt ns c) = ns" | "tn_key n = []"

fun tn_drop :: "nat \<Rightarrow> node \<Rightarrow> node" where
  "tn_drop i (NLeaf ns v) = NLeaf (drop i ns) v" | "tn_drop i (NExt ns c) = NExt (drop i ns) c" | "tn_drop i n = n"

definition cleved :: "nat \<Rightarrow> node \<Rightarrow> node" where
  "cleved i n = NExt (take i (tn_key n)) (tn_drop i n)"

definition one_child :: "byte \<Rightarrow> node \<Rightarrow> node" where
  "one_child x c = NBranch ((replicate 16 NNull)[unat x := c]) []"

fun branched :: "node \<Rightarrow> node" where
  "branched (NLeaf [] v) = NBranch (replicate 16 NNull) v"
| "branched (NLeaf (x # xs) v) = one_child x (NLeaf xs v)"
| "branched (NExt (x # xs) c) = one_child x (if xs = [] then c else NExt xs c)"
| "branched n = n"

fun put :: "node \<Rightarrow> bytes \<Rightarrow> bytes \<Rightarrow> node" where
  "put (NBranch cs w) [] v = NBranch cs v"
| "put (NBranch cs w) (x # xs) v = NBranch (cs[unat x := NLeaf xs v]) w"
| "put n k v = n"

definition split_node :: "node \<Rightarrow> bytes \<Rightarrow> bytes \<Rightarrow> node" where
  "split_node n k v = (let sh = lcp k (tn_key n) in if sh = 0 then put (branched n) k v
     else NExt (take sh (tn_key n)) (put (branched (tn_drop sh n)) (drop sh k) v))"

primrec tins :: "node \<Rightarrow> bytes \<Rightarrow> bytes \<Rightarrow> node" where
  "tins NNull = NLeaf"
| "tins (NLeaf ns w) = (\<lambda>k v. if k = ns then NLeaf k v else split_node (NLeaf ns w) k v)"
| "tins (NExt ns c) = (\<lambda>k v. if take (length ns) k = ns then NExt ns (tins c (drop (length ns) k) v)
     else split_node (NExt ns c) k v)"
| "tins (NBranch cs w) = (\<lambda>k v. case k of [] \<Rightarrow> NBranch cs v
     | x # xs \<Rightarrow> NBranch (cs[unat x := (map tins cs ! unat x) xs v]) w)"

section \<open>Canonical trees\<close>

fun is_branch :: "node \<Rightarrow> bool" where
  "is_branch (NBranch cs w) = True" | "is_branch n = False"

definition occupied :: "node list \<Rightarrow> bytes \<Rightarrow> nat" where
  "occupied cs w = length (filter (\<lambda>c. c \<noteq> NNull) cs) + (if w = [] then 0 else 1)"

primrec canon :: "node \<Rightarrow> bool" where
  "canon NNull = True"
| "canon (NLeaf ns v) = (nibs ns \<and> v \<noteq> [])"
| "canon (NExt ns c) = (nibs ns \<and> ns \<noteq> [] \<and> is_branch c \<and> canon c)"
| "canon (NBranch cs w) = (length cs = 16 \<and> (\<forall>b \<in> set (map canon cs). b) \<and> 2 \<le> occupied cs w)"

lemma canon_branch: "canon (NBranch cs w) \<longleftrightarrow> length cs = 16 \<and> (\<forall>c \<in> set cs. canon c) \<and> 2 \<le> occupied cs w"
  by auto

declare canon.simps(4) [simp del]
declare canon_branch [simp]

lemma get_branch [simp]:
  "trie_get (NBranch cs w) [] = (if w = [] then None else Some w)"
  "trie_get (NBranch cs w) (x # xs) = (if unat x < length cs then trie_get (cs ! unat x) xs else None)"
  by simp_all

declare trie_get.simps(4) [simp del]

lemma trie_get_app: "trie_get (NExt ns n) (ns @ k) = trie_get n k"
  by simp

lemma get_branch_nibble: "i < 16 \<Longrightarrow> length cs = 16 \<Longrightarrow> trie_get (NBranch cs w) (of_nat i # xs) = trie_get (cs ! i) xs"
  by (simp add: unat_of_nat)

lemma occupied_null: "(\<forall>c \<in> set cs. c = NNull) \<Longrightarrow> occupied cs w \<le> 1"
  by (auto simp: occupied_def filter_empty_conv)

lemma occupied_two:
  assumes "2 \<le> occupied cs []"
  shows "\<exists>i j. i < length cs \<and> j < length cs \<and> i \<noteq> j \<and> cs ! i \<noteq> NNull \<and> cs ! j \<noteq> NNull"
proof (rule ccontr)
  assume no: "\<not> ?thesis"
  let ?S = "{i. i < length cs \<and> cs ! i \<noteq> NNull}"
  have "\<forall>i \<in> ?S. \<forall>j \<in> ?S. i = j" using no by blast
  then have "card ?S \<le> Suc 0" by (subst card_le_Suc0_iff_eq) auto
  then show False using assms by (simp add: occupied_def length_filter_conv_card)
qed

lemma some_child: "2 \<le> occupied cs w \<Longrightarrow> \<exists>c \<in> set cs. c \<noteq> NNull"
  using occupied_null [of cs w] by fastforce

lemma canon_entry: "canon t \<Longrightarrow> t \<noteq> NNull \<Longrightarrow> \<exists>k v. trie_get t k = Some v"
proof (induction t)
  case (NLeaf ns v)
  then show ?case by auto
next
  case (NExt ns t)
  then show ?case by (metis canon.simps(3) is_branch.simps(2) trie_get_app)
next
  case (NBranch cs w)
  then have len: "length cs = 16" by simp
  obtain c where c: "c \<in> set cs" "c \<noteq> NNull" using some_child [of cs w] NBranch.prems by auto
  then obtain i where i: "i < 16" "cs ! i = c" using len by (metis in_set_conv_nth)
  from NBranch.IH [OF c(1) _ c(2)] c(1) NBranch.prems(1) obtain k v where "trie_get c k = Some v" by auto
  then have "trie_get (NBranch cs w) (of_nat i # k) = Some v"
    using i by (simp only: get_branch_nibble [OF i(1) len])
  then show ?case by blast
qed simp

text \<open>The keys of a branch do not all begin with the same nibble.\<close>

lemma branch_spread:
  assumes "canon (NBranch cs w)"
  shows "\<exists>k v. trie_get (NBranch cs w) k = Some v \<and> (k = [] \<or> hd k \<noteq> x)"
proof (cases "w = []")
  case False
  then have "trie_get (NBranch cs w) [] = Some w" by simp
  then show ?thesis by blast
next
  case True
  have len: "length cs = 16" using assms by simp
  from assms True obtain i j where ij: "i < 16" "j < 16" "i \<noteq> j" "cs ! i \<noteq> NNull" "cs ! j \<noteq> NNull"
    using occupied_two [of cs] by auto
  have canon: "canon (cs ! n)" if "n < 16" for n using assms that len nth_mem [of n cs] by simp
  have two: "\<exists>k v. trie_get (NBranch cs w) (of_nat n # k) = Some v" if "n < 16" "cs ! n \<noteq> NNull" for n
    using canon_entry [OF canon [OF that(1)] that(2)] get_branch_nibble [OF that(1) len] by simp
  have "of_nat i \<noteq> x \<or> of_nat j \<noteq> x"
  proof -
    have "unat (of_nat i :: byte) = i" "unat (of_nat j :: byte) = j" using ij by (simp_all add: unat_of_nat)
    then show ?thesis using ij(3) by metis
  qed
  then show ?thesis using two [OF ij(1,4)] two [OF ij(2,5)] by (metis list.sel(1))
qed

lemma two_entries:
  assumes "canon t" and "is_branch t \<or> (\<exists>ns c. t = NExt ns c)"
  shows "\<exists>k l v w. k \<noteq> l \<and> trie_get t k = Some v \<and> trie_get t l = Some w"
proof -
  have b: "\<exists>k l v w. k \<noteq> l \<and> trie_get t k = Some v \<and> trie_get t l = Some w" if t: "canon t" "is_branch t" for t
  proof -
    obtain cs w where bw: "t = NBranch cs w" using t(2) by (cases t) auto
    obtain k v where k: "trie_get t k = Some v" using canon_entry [OF t(1)] bw by blast
    obtain l u where l: "trie_get t l = Some u" "l = [] \<or> hd l \<noteq> hd k" using branch_spread [of cs w "hd k"] t(1) bw by blast
    show ?thesis
    proof (cases "k = l")
      case True
      then have "k = []" using l(2) by auto
      obtain l u where "trie_get t l = Some u" "l \<noteq> []"
      proof -
        obtain c where c: "c \<in> set cs" "c \<noteq> NNull" using some_child [of cs w] t bw by auto
        then obtain i where i: "i < 16" "cs ! i = c" using t bw by (metis canon_branch in_set_conv_nth)
        have "canon c" using c t bw by simp
        then obtain m u where "trie_get c m = Some u" using canon_entry c(2) by blast
        then have "trie_get t (of_nat i # m) = Some u" using get_branch_nibble [OF i(1)] i t bw by simp
        then show ?thesis using that by blast
      qed
      with k \<open>k = []\<close> show ?thesis by blast
    qed (use k l in blast)
  qed
  show ?thesis
  proof (cases "is_branch t")
    case False
    then obtain ns c where t: "t = NExt ns c" using assms(2) by blast
    then obtain k l v w where "k \<noteq> l" "trie_get c k = Some v" "trie_get c l = Some w" using b [of c] assms(1) by auto
    then have "ns @ k \<noteq> ns @ l" "trie_get t (ns @ k) = Some v" "trie_get t (ns @ l) = Some w" by (simp_all add: t)
    then show ?thesis by blast
  qed (use assms b in blast)
qed

lemma get_ext_Some: "trie_get (NExt ns c) k = Some v \<Longrightarrow> \<exists>l. k = ns @ l \<and> trie_get c l = Some v"
  by (auto split: if_splits) (metis append_take_drop_id)

lemma ext_prefix_le:
  assumes "canon (NExt ns c)" "canon (NExt ms d)" "trie_get (NExt ns c) = trie_get (NExt ms d)"
  shows "length ms \<le> length ns"
proof (rule ccontr)
  assume "\<not> ?thesis"
  then have lt: "length ns < length ms" by simp
  obtain cs w where c: "c = NBranch cs w" "canon c" using assms(1) by (cases c) auto
  have "\<exists>l. k = l" for k :: bytes by simp
  obtain k0 v0 where k0: "trie_get c k0 = Some v0" using canon_entry [OF c(2)] c(1) by blast
  have pre: "\<exists>m. ns @ l = ms @ m" if "trie_get c l = Some v" for l v
  proof -
    have "trie_get (NExt ms d) (ns @ l) = Some v" using that assms(3) trie_get_app [of ns c l] by simp
    from get_ext_Some [OF this] show ?thesis by blast
  qed
  have hd: "l \<noteq> [] \<and> hd l = ms ! length ns" if g: "trie_get c l = Some v" for l v
  proof -
    obtain m where m: "ns @ l = ms @ m" using pre [OF g] by blast
    then have "length ns < length (ns @ l)" using lt by simp
    then have "l \<noteq> []" by auto
    moreover have "hd l = (ns @ l) ! length ns" using \<open>l \<noteq> []\<close> by (simp add: nth_append hd_conv_nth)
    ultimately show ?thesis using m lt by (simp add: nth_append)
  qed
  from branch_spread [of cs w "ms ! length ns"] c hd show False by blast
qed

theorem canon_unique: "canon t \<Longrightarrow> canon u \<Longrightarrow> trie_get t = trie_get u \<Longrightarrow> t = u"
proof (induction t arbitrary: u)
  case NNull
  then show ?case using canon_entry [of u] by (cases "u = NNull") (auto simp: fun_eq_iff)
next
  case (NLeaf ns v)
  have "u \<noteq> NNull" using NLeaf.prems(3) by (metis option.distinct(1) trie_get.simps(1,2))
  moreover have False if t: "is_branch u \<or> (\<exists>ms c. u = NExt ms c)"
  proof -
    obtain k l a b where "k \<noteq> l" "trie_get u k = Some a" "trie_get u l = Some b" using two_entries [OF NLeaf.prems(2) t] by blast
    then show False using NLeaf.prems(3) [symmetric] by (auto split: if_splits)
  qed
  ultimately obtain ms w where u: "u = NLeaf ms w" by (cases u) auto
  have "trie_get u ns = Some v" using NLeaf.prems(3) [symmetric] by simp
  then show ?case by (auto simp: u split: if_splits)
next
  case (NExt ns c)
  have two: "\<exists>k l v w. k \<noteq> l \<and> trie_get u k = Some v \<and> trie_get u l = Some w"
    using two_entries [OF NExt.prems(1)] unfolding NExt.prems(3) by blast
  show ?case
  proof (cases u)
    case (NExt ms d)
    have len: "length ns = length ms"
      using ext_prefix_le [of ns c ms d] ext_prefix_le [of ms d ns c] NExt.prems NExt by simp
    have "c \<noteq> NNull" "canon c" using NExt.prems(1) by auto
    then obtain k v where k: "trie_get c k = Some v" using canon_entry by blast
    then have "trie_get u (ns @ k) = Some v" using NExt.prems(3) trie_get_app [of ns c k] by simp
    then obtain l where "ns @ k = ms @ l" using get_ext_Some unfolding NExt by blast
    then have eq: "ns = ms" using len by simp
    have "trie_get c = trie_get d" using NExt.prems(3) trie_get_app [of ns] by (metis NExt eq ext)
    then have "c = d" using NExt.IH [of d] NExt.prems NExt by simp
    then show ?thesis by (simp add: NExt eq)
  next
    case (NBranch cs w)
    from branch_spread [of cs w "hd ns"] NExt.prems(2) NBranch
    obtain k v where k: "trie_get u k = Some v" "k = [] \<or> hd k \<noteq> hd ns" by auto
    then have "trie_get (NExt ns c) k = Some v" using NExt.prems(3) by simp
    then obtain l where "k = ns @ l" using get_ext_Some by blast
    then show ?thesis using k(2) NExt.prems(1) by auto
  qed (use two in \<open>auto split: if_splits\<close>)
next
  case (NBranch cs w)
  have two: "\<exists>k l v w. k \<noteq> l \<and> trie_get u k = Some v \<and> trie_get u l = Some w"
    using two_entries [OF NBranch.prems(1)] unfolding NBranch.prems(3) by simp
  show ?case
  proof (cases u)
    case (NExt ms d)
    from branch_spread [OF NBranch.prems(1), of "hd ms"]
    obtain k v where k: "trie_get (NBranch cs w) k = Some v" "k = [] \<or> hd k \<noteq> hd ms" by auto
    then have "trie_get (NExt ms d) k = Some v" using NBranch.prems(3) NExt by simp
    then obtain l where "k = ms @ l" using get_ext_Some by blast
    then show ?thesis using k(2) NBranch.prems(2) NExt by auto
  next
    case (NBranch ds x)
    note u = this
    have len: "length cs = 16" "length ds = 16" using NBranch.prems u by simp_all
    have "cs ! i = ds ! i" if i: "i < 16" for i
    proof -
      have mem: "cs ! i \<in> set cs" "ds ! i \<in> set ds" using i len by simp_all
      have "trie_get (cs ! i) = trie_get (ds ! i)"
      proof
        fix k
        show "trie_get (cs ! i) k = trie_get (ds ! i) k"
          using get_branch_nibble [OF i len(1), of w k] get_branch_nibble [OF i len(2), of x k] NBranch.prems(3) u by simp
      qed
      then show ?thesis using NBranch.IH [OF mem(1)] NBranch.prems u mem by simp
    qed
    then have "cs = ds" using len by (simp add: list_eq_iff_nth_eq)
    moreover have "w = x" using fun_cong [OF NBranch.prems(3), of "[]"] u by (auto split: if_splits)
    ultimately show ?thesis by (simp add: u)
  qed (use two in \<open>auto split: if_splits\<close>)
qed

section \<open>Insertion changes one entry\<close>

lemma unat_byte_eq: "unat (a :: byte) = unat b \<longleftrightarrow> a = b"
  by (simp add: word_unat_eq_iff)

lemma get_one_child: "unat x < 16 \<Longrightarrow> trie_get (one_child x c) l = (if l \<noteq> [] \<and> hd l = x then trie_get c (tl l) else None)"
  by (cases l) (auto simp: one_child_def nth_list_update unat_byte_eq)

lemma get_branched:
  assumes "canon n" and "\<not> is_branch n" and "n \<noteq> NNull"
  shows "trie_get (branched n) l = trie_get n l"
proof (cases n rule: branched.cases)
  case (1 v)
  then show ?thesis using assms by (cases l) auto
next
  case (2 x xs v)
  then show ?thesis using assms by (cases l) (auto simp: get_one_child)
next
  case (3 x xs c)
  then show ?thesis using assms by (cases l) (auto simp: get_one_child)
qed (use assms in auto)

lemma branched_branch: "canon n \<Longrightarrow> \<not> is_branch n \<Longrightarrow> n \<noteq> NNull \<Longrightarrow> \<exists>cs w. branched n = NBranch cs w \<and> length cs = 16"
  by (cases n rule: branched.cases) (auto simp: one_child_def)

text \<open>The entry put into a fresh branch finds its place free.\<close>

lemma branched_free:
  assumes "canon n" "\<not> is_branch n" "n \<noteq> NNull" "lcp k (tn_key n) = 0" "branched n = NBranch cs w" "nibs k"
  shows "case k of [] \<Rightarrow> tn_key n = [] \<or> w = [] | x # xs \<Rightarrow> cs ! unat x = NNull"
  using assms
  by (cases n rule: branched.cases) (auto simp: one_child_def nth_list_update unat_byte_eq split: list.split)

lemma get_put:
  assumes "length cs = 16" "nibs k" "v \<noteq> []" "case k of [] \<Rightarrow> True | x # xs \<Rightarrow> cs ! unat x = NNull"
  shows "trie_get (put (NBranch cs w) k v) l = (if l = k then Some v else trie_get (NBranch cs w) l)"
  using assms by (cases k; cases l) (auto simp: nth_list_update unat_byte_eq)

lemma get_put_branched:
  assumes "canon n" "\<not> is_branch n" "n \<noteq> NNull" "lcp k (tn_key n) = 0" "nibs k" "v \<noteq> []"
  shows "trie_get (put (branched n) k v) l = (if l = k then Some v else trie_get n l)"
proof -
  obtain cs w where b: "branched n = NBranch cs w" "length cs = 16" using branched_branch [OF assms(1-3)] by blast
  have "case k of [] \<Rightarrow> True | x # xs \<Rightarrow> cs ! unat x = NNull"
    using branched_free [OF assms(1-4) b(1) assms(5)] by (auto split: list.splits)
  then show ?thesis using get_put [OF b(2) assms(5,6), of w l] get_branched [OF assms(1-3), of l] b(1) by simp
qed

definition splits :: "node \<Rightarrow> bytes \<Rightarrow> bool" where
  "splits n k \<longleftrightarrow> canon n \<and> \<not> is_branch n \<and> n \<noteq> NNull \<and> (case n of NLeaf ns v \<Rightarrow> k \<noteq> ns
     | NExt ns c \<Rightarrow> take (length ns) k \<noteq> ns | _ \<Rightarrow> False)"

lemma splits_drop:
  assumes "splits n k" "sh = lcp k (tn_key n)"
  shows "canon (tn_drop sh n)" "\<not> is_branch (tn_drop sh n)" "tn_drop sh n \<noteq> NNull"
    "lcp (drop sh k) (tn_key (tn_drop sh n)) = 0" "tn_drop sh n \<noteq> NLeaf [] v \<or> drop sh k \<noteq> []"
    "trie_get n l = (if take sh l = take sh (tn_key n) then trie_get (tn_drop sh n) (drop sh l) else None)"
proof -
  have le: "sh \<le> length k" "sh \<le> length (tn_key n)" using lcp_le [of k "tn_key n"] assms(2) by simp_all
  have tk: "take sh k = take sh (tn_key n)" using lcp_take assms(2) by blast
  have full: "n = NExt ns c \<Longrightarrow> sh < length ns" for ns c
    using assms le lcp_full [of k ns] by (auto simp: splits_def order_less_le)
  show "canon (tn_drop sh n)" "\<not> is_branch (tn_drop sh n)" "tn_drop sh n \<noteq> NNull"
    using assms(1) full by (auto simp: splits_def split: node.splits)
  show "lcp (drop sh k) (tn_key (tn_drop sh n)) = 0"
    using lcp_drop [of k "tn_key n"] assms by (cases n) (auto simp: splits_def)
  show "tn_drop sh n \<noteq> NLeaf [] v \<or> drop sh k \<noteq> []"
  proof (rule ccontr)
    assume "\<not> ?thesis"
    then have e: "tn_drop sh n = NLeaf [] v" "length k \<le> sh" by auto
    then obtain ns where n: "n = NLeaf ns v" "length ns \<le> sh" by (cases n) auto
    then show False using tk e(2) assms(1) by (auto simp: splits_def)
  qed
  show "trie_get n l = (if take sh l = take sh (tn_key n) then trie_get (tn_drop sh n) (drop sh l) else None)"
  proof (cases n)
    case (NLeaf ns u)
    have "l = ns \<longleftrightarrow> take sh l = take sh ns \<and> drop sh l = drop sh ns" by (metis append_take_drop_id)
    with NLeaf show ?thesis by auto
  next
    case (NExt ns c)
    then have m: "length ns = sh + (length ns - sh)" using le by simp
    have a: "take (length ns) l = take sh l @ take (length ns - sh) (drop sh l)" by (subst m) (rule take_add)
    have b: "ns = take sh ns @ drop sh ns" by simp
    have "take (length ns) l = ns \<longleftrightarrow> take sh l = take sh ns \<and> take (length ns - sh) (drop sh l) = drop sh ns"
    proof
      assume x: "take (length ns) l = ns"
      then have "take sh (take (length ns) l) = take sh ns" "drop sh (take (length ns) l) = drop sh ns" by simp_all
      then show "take sh l = take sh ns \<and> take (length ns - sh) (drop sh l) = drop sh ns"
        using le NExt by (simp add: drop_take min_def)
    qed (use a b in metis)
    moreover have "drop (length ns) l = drop (length ns - sh) (drop sh l)" using le NExt by simp
    ultimately show ?thesis using NExt by auto
  qed (use assms(1) in \<open>auto simp: splits_def\<close>)
qed

lemma get_split:
  assumes "splits n k" "nibs k" "v \<noteq> []"
  shows "trie_get (split_node n k v) l = (if l = k then Some v else trie_get n l)"
proof -
  define sh where "sh = lcp k (tn_key n)"
  note d = splits_drop [OF assms(1) sh_def]
  have tk: "take sh k = take sh (tn_key n)" unfolding sh_def by (rule lcp_take)
  have sk: "length (take sh (tn_key n)) = sh" using lcp_le [of k "tn_key n"] by (simp add: sh_def)
  have "split_node n k v = (if sh = 0 then put (branched n) k v
      else NExt (take sh (tn_key n)) (put (branched (tn_drop sh n)) (drop sh k) v))"
    by (simp add: split_node_def sh_def Let_def)
  moreover have put: "trie_get (put (branched (tn_drop sh n)) (drop sh k) v) m
      = (if m = drop sh k then Some v else trie_get (tn_drop sh n) m)" for m
    using get_put_branched [OF d(1-4) _ assms(3)] assms(2) by simp
  moreover have eq: "l = k \<longleftrightarrow> take sh l = take sh k \<and> drop sh l = drop sh k" by (metis append_take_drop_id)
  moreover have "trie_get (NExt (take sh (tn_key n)) X) l = (if take sh l = take sh (tn_key n) then trie_get X (drop sh l) else None)" for X
    by (simp only: trie_get.simps sk)
  moreover have "tn_drop sh n = n" if "sh = 0" using that by (cases n) simp_all
  ultimately show ?thesis
    unfolding d(6) [of l] tk by (cases "sh = 0") simp_all
qed

lemma get_tins:
  "canon t \<Longrightarrow> nibs k \<Longrightarrow> v \<noteq> [] \<Longrightarrow> trie_get (tins t k v) l = (if l = k then Some v else trie_get t l)"
proof (induction t arbitrary: k l)
  case (NLeaf ns w)
  then show ?case using get_split [of "NLeaf ns w" k v l] by (auto simp: splits_def)
next
  case (NExt ns c)
  show ?case
  proof (cases "take (length ns) k = ns")
    case True
    have "l = k \<longleftrightarrow> take (length ns) l = ns \<and> drop (length ns) l = drop (length ns) k"
      using True by (metis append_take_drop_id)
    with True NExt.IH [of "drop (length ns) k" "drop (length ns) l"] NExt.prems show ?thesis by auto
  next
    case False
    with NExt.prems get_split [of "NExt ns c" k v l] show ?thesis by (auto simp: splits_def)
  qed
next
  case (NBranch cs w)
  show ?case
  proof (cases k)
    case Nil
    with NBranch.prems show ?thesis by (cases l) auto
  next
    case (Cons x xs)
    then have x: "unat x < length cs" using NBranch.prems by auto
    then have "cs ! unat x \<in> set cs" by simp
    with NBranch.IH [OF this, of xs "tl l"] NBranch.prems Cons x show ?thesis
      by (cases l) (auto simp: nth_list_update unat_byte_eq)
  qed
qed auto

section \<open>Insertion keeps trees canonical\<close>

lemma occupied_update:
  "i < length cs \<Longrightarrow> c \<noteq> NNull \<Longrightarrow> occupied (cs[i := c]) w = occupied cs w + (if cs ! i = NNull then 1 else 0)"
proof (induction cs arbitrary: i)
  case (Cons d cs)
  then show ?case by (cases i) (auto simp: occupied_def)
qed simp

lemma occupied_fresh: "n < 16 \<Longrightarrow> c \<noteq> NNull \<Longrightarrow> occupied ((replicate 16 NNull)[n := c]) w = Suc (if w = [] then 0 else 1)"
  using occupied_update [of n "replicate 16 NNull" c w] by (simp add: occupied_def)

lemma canon_not_null: "is_branch c \<Longrightarrow> c \<noteq> NNull"
  by auto

lemma branched_shape:
  assumes "canon n" "\<not> is_branch n" "n \<noteq> NNull"
  shows "\<exists>cs w. branched n = NBranch cs w \<and> length cs = 16 \<and> (\<forall>c \<in> set cs. canon c) \<and> occupied cs w = 1"
proof (cases n rule: branched.cases)
  case (1 v)
  then show ?thesis using assms by (auto simp: occupied_def)
next
  case (2 x xs v)
  then show ?thesis using assms by (auto simp: one_child_def occupied_fresh dest: set_update_subset_insert [THEN subsetD])
next
  case (3 x xs c)
  then have "canon (if xs = [] then c else NExt xs c)" "(if xs = [] then c else NExt xs c) \<noteq> NNull" using assms by auto
  then show ?thesis using assms 3
    by (auto simp: one_child_def occupied_fresh dest: set_update_subset_insert [THEN subsetD])
qed (use assms in auto)

lemma canon_put_branched:
  assumes "canon n" "\<not> is_branch n" "n \<noteq> NNull" "lcp k (tn_key n) = 0" "nibs k" "v \<noteq> []" "tn_key n \<noteq> [] \<or> k \<noteq> []"
  shows "canon (put (branched n) k v)" "is_branch (put (branched n) k v)"
proof -
  obtain cs w where b: "branched n = NBranch cs w" "length cs = 16" "\<forall>c \<in> set cs. canon c" "occupied cs w = 1"
    using branched_shape [OF assms(1-3)] by blast
  have free: "case k of [] \<Rightarrow> w = [] | x # xs \<Rightarrow> cs ! unat x = NNull"
    using branched_free [OF assms(1-4) b(1) assms(5)] assms(7) by (auto split: list.splits)
  show "canon (put (branched n) k v)"
  proof (cases k)
    case Nil
    then show ?thesis using b free assms(6) by (simp add: occupied_def)
  next
    case (Cons x xs)
    then have "\<forall>c \<in> set (cs[unat x := NLeaf xs v]). canon c"
      using b(3) assms(5,6) by (auto dest: set_update_subset_insert [THEN subsetD])
    with Cons b free assms(5) show ?thesis by (simp add: occupied_update)
  qed
  show "is_branch (put (branched n) k v)" using b(1) by (cases k) simp_all
qed

lemma canon_split:
  assumes "splits n k" "nibs k" "v \<noteq> []"
  shows "canon (split_node n k v) \<and> split_node n k v \<noteq> NNull"
proof -
  define sh where "sh = lcp k (tn_key n)"
  note d = splits_drop [OF assms(1) sh_def]
  have "tn_key (tn_drop sh n) \<noteq> [] \<or> drop sh k \<noteq> []"
    using d(1-3,5) by (cases "tn_drop sh n") (auto simp: splits_def)
  then have p: "canon (put (branched (tn_drop sh n)) (drop sh k) v)" "is_branch (put (branched (tn_drop sh n)) (drop sh k) v)"
    using canon_put_branched [OF d(1-4)] assms(2,3) by simp_all
  have "tn_drop 0 n = n" by (cases n) simp_all
  moreover have "nibs (tn_key n)" using assms(1) by (cases n) (auto simp: splits_def)
  moreover have "sh \<noteq> 0 \<Longrightarrow> take sh (tn_key n) \<noteq> []" using lcp_le [of k "tn_key n"] by (auto simp: sh_def)
  ultimately show ?thesis using p by (auto simp: split_node_def Let_def simp flip: sh_def)
qed

lemma canon_tins: "canon t \<Longrightarrow> nibs k \<Longrightarrow> v \<noteq> [] \<Longrightarrow> canon (tins t k v) \<and> tins t k v \<noteq> NNull \<and> (is_branch t \<longrightarrow> is_branch (tins t k v))"
proof (induction t arbitrary: k)
  case (NLeaf ns w)
  then show ?case using canon_split [of "NLeaf ns w" k v] by (auto simp: splits_def)
next
  case (NExt ns c)
  show ?case
  proof (cases "take (length ns) k = ns")
    case True
    with NExt.IH [of "drop (length ns) k"] NExt.prems show ?thesis by simp
  next
    case False
    with NExt.prems canon_split [of "NExt ns c" k v] show ?thesis by (auto simp: splits_def)
  qed
next
  case (NBranch cs w)
  show ?case
  proof (cases k)
    case Nil
    with NBranch.prems show ?thesis by (cases "w = []") (simp_all add: occupied_def)
  next
    case (Cons x xs)
    then have x: "unat x < length cs" using NBranch.prems by auto
    then have mem: "cs ! unat x \<in> set cs" by simp
    with NBranch.IH [OF mem, of xs] NBranch.prems Cons
    have t: "canon (tins (cs ! unat x) xs v)" "tins (cs ! unat x) xs v \<noteq> NNull" by auto
    then have "\<forall>c \<in> set (cs[unat x := tins (cs ! unat x) xs v]). canon c"
      using NBranch.prems(1) by (auto dest: set_update_subset_insert [THEN subsetD])
    with t x Cons NBranch.prems show ?thesis by (simp add: occupied_update)
  qed
qed auto

section \<open>The tree of a whole content is canonical\<close>

lemma occupied_ge_two:
  "i < length cs \<Longrightarrow> j < length cs \<Longrightarrow> i \<noteq> j \<Longrightarrow> cs ! i \<noteq> NNull \<Longrightarrow> cs ! j \<noteq> NNull \<Longrightarrow> 2 \<le> occupied cs w"
  "i < length cs \<Longrightarrow> cs ! i \<noteq> NNull \<Longrightarrow> w \<noteq> [] \<Longrightarrow> 2 \<le> occupied cs w"
proof -
  let ?S = "{i. i < length cs \<and> cs ! i \<noteq> NNull}"
  have f: "finite ?S" by simp
  show "2 \<le> occupied cs w" if "i < length cs" "j < length cs" "i \<noteq> j" "cs ! i \<noteq> NNull" "cs ! j \<noteq> NNull"
    using card_mono [OF f, of "{i, j}"] that by (simp add: occupied_def length_filter_conv_card)
  show "2 \<le> occupied cs w" if "i < length cs" "cs ! i \<noteq> NNull" "w \<noteq> []"
    using card_mono [OF f, of "{i}"] that by (simp add: occupied_def length_filter_conv_card)
qed

lemma shared_from_max: "sh \<le> m \<Longrightarrow> m \<le> x \<Longrightarrow> \<forall>i. sh \<le> i \<and> i < m \<longrightarrow> f ! i = k ! i \<Longrightarrow> m \<le> shared_from f k x sh"
proof (induction f k x sh rule: shared_from.induct)
  case (1 f k x sh)
  show ?case
  proof (cases "sh < x \<and> f ! sh = k ! sh")
    case True
    show ?thesis
    proof (cases "sh = m")
      case True
      then show ?thesis using shared_from_ge by simp
    next
      case False
      with 1(1) [OF True] 1(2-4) show ?thesis unfolding shared_from_step(1) [OF True] by simp
    qed
  next
    case False
    then have "sh = m" using 1(2-4) by (metis le_neq_implies_less le_trans order_refl less_le_trans)
    then show ?thesis using shared_from_ge by simp
  qed
qed

lemma shared_pre_max:
  "pre \<le> m \<Longrightarrow> m \<le> sp \<Longrightarrow> m \<le> length f \<Longrightarrow> \<forall>k \<in> set ks. m \<le> length k \<and> (\<forall>i. pre \<le> i \<and> i < m \<longrightarrow> f ! i = k ! i)
    \<Longrightarrow> m \<le> shared_pre f pre ks sp"
proof (induction f pre ks sp rule: shared_pre.induct)
  case (2 f pre k ks sp)
  show ?case
  proof (cases "sp = 0")
    case False
    let ?s = "shared_from f k (min sp (min (length f) (length k))) pre"
    have "m \<le> ?s" using 2 by (intro shared_from_max) auto
    with 2 False show ?thesis by simp
  qed (use 2 in simp)
qed simp

lemma sharedPre_max:
  assumes all: "\<And>k v. (k, v) \<in> set (a # b # kvs) \<Longrightarrow> m \<le> length k \<and> take m k = take m (fst a)" and "pre \<le> m" and "m < 2 ^ 32"
  shows "m \<le> sharedPre (a # b # kvs) pre"
  unfolding sharedPre_def
proof (rule shared_pre_max)
  show "\<forall>k \<in> set (map fst (tl (a # b # kvs))). m \<le> length k \<and> (\<forall>i. pre \<le> i \<and> i < m \<longrightarrow> fst (hd (a # b # kvs)) ! i = k ! i)"
  proof
    fix k assume "k \<in> set (map fst (tl (a # b # kvs)))"
    then have "k \<in> fst ` set (a # b # kvs)" by auto
    then obtain x where x: "k = fst x" "x \<in> set (a # b # kvs)" by (rule imageE)
    then have "(k, snd x) \<in> set (a # b # kvs)" by simp
    note k = all [OF this]
    have "fst a ! i = k ! i" if "i < m" for i
      using arg_cong [OF conjunct2 [OF k], of "\<lambda>l. l ! i"] that by simp
    with k show "m \<le> length k \<and> (\<forall>i. pre \<le> i \<and> i < m \<longrightarrow> fst (hd (a # b # kvs)) ! i = k ! i)" by simp
  qed
  show "m \<le> length (fst (hd (a # b # kvs)))" using all [of "fst a" "snd a"] by simp
qed (use assms(2,3) in auto)

text \<open>Where nothing more is shared, the branch has two occupied places.\<close>

lemma trie_branch_occupied:
  assumes ok: "trie_ok (a # b # kvs) pre" and no: "\<not> pre < sharedPre (a # b # kvs) pre" and short: "\<forall>(k, v) \<in> set (a # b # kvs). length k < 2 ^ 32"
    and cs: "cs = map (\<lambda>s. if s = [] then NNull else trie_of s (Suc pre)) (children pre 16 0 (branch_rest (a # b # kvs) pre))"
  shows "2 \<le> occupied cs (branch_value (a # b # kvs) pre)"
proof -
  let ?kvs = "a # b # kvs"
  let ?rest = "branch_rest ?kvs pre"
  have len: "length cs = 16" and nth: "i < 16 \<Longrightarrow> cs ! i \<noteq> NNull \<longleftrightarrow> (\<exists>(k, v) \<in> set ?rest. unat (k ! pre) = i)" for i
    unfolding cs branch_children [OF ok] by (auto simp: trie_of_NNull filter_empty_conv)
  have small: "unat (k ! pre) < 16" if "(k, v) \<in> set ?rest" for k v
    using branch_rest_long [OF ok that] trie_okD(5) [OF ok subsetD [OF branch_rest_set that]] by simp
  have hit: "cs ! unat (k ! pre) \<noteq> NNull" if "(k, v) \<in> set ?rest" for k v
    using nth [OF small [OF that]] that by blast
  show ?thesis
  proof (cases "pre = length (fst a)")
    case True
    then have r: "?rest = b # kvs" "branch_value ?kvs pre = snd a" by (simp_all add: branch_rest_def branch_value_def)
    have "snd a \<noteq> []" using trie_okD(3) [OF ok, of "fst a" "snd a"] by simp
    moreover have "cs ! unat (fst b ! pre) \<noteq> NNull" using hit [of "fst b" "snd b"] r by simp
    ultimately show ?thesis using occupied_ge_two(2) [of "unat (fst b ! pre)" cs] small [of "fst b" "snd b"] len r by simp
  next
    case False
    then have r: "?rest = ?kvs" by (simp add: branch_rest_def)
    have "\<exists>(k, v) \<in> set ?kvs. k ! pre \<noteq> fst a ! pre"
    proof (rule ccontr)
      assume "\<not> ?thesis"
      then have eq: "(k, v) \<in> set ?kvs \<Longrightarrow> k ! pre = fst a ! pre" for k v by auto
      have "Suc pre \<le> length k \<and> take (Suc pre) k = take (Suc pre) (fst a)" if kv: "(k, v) \<in> set ?kvs" for k v
      proof -
        have "pre < length k" "pre < length (fst a)"
          using branch_rest_long [OF ok, of k v] branch_rest_long [OF ok, of "fst a" "snd a"] kv r by auto
        moreover have "take pre k = take pre (fst a)" using trie_okD(2) [OF ok kv] by simp
        ultimately show ?thesis using eq [OF kv] by (simp add: take_Suc_conv_app_nth)
      qed
      moreover have "Suc pre < 2 ^ 32"
        using branch_rest_long [OF ok, of "fst a" "snd a"] r short by (cases a) auto
      ultimately have "Suc pre \<le> sharedPre ?kvs pre"
        using sharedPre_max [where a = a and b = b and kvs = kvs and m = "Suc pre" and pre = pre] by simp
      with no show False by simp
    qed
    then obtain k v where kv: "(k, v) \<in> set ?kvs" "k ! pre \<noteq> fst a ! pre" by blast
    let ?i = "unat (fst a ! pre)" and ?j = "unat (k ! pre)"
    have a: "(fst a, snd a) \<in> set ?rest" "(k, v) \<in> set ?rest" using kv r by simp_all
    have "cs ! ?i \<noteq> NNull" "cs ! ?j \<noteq> NNull" using hit [OF a(1)] hit [OF a(2)] by simp_all
    moreover have "?i \<noteq> ?j" using kv(2) by (simp add: unat_byte_eq)
    ultimately show ?thesis using occupied_ge_two(1) [of ?i cs ?j] small [OF a(1)] small [OF a(2)] len by simp
  qed
qed

lemma canon_trie_of:
  "trie_ok kvs pre \<Longrightarrow> \<forall>(k, v) \<in> set kvs. length k < 2 ^ 32 \<Longrightarrow> canon (trie_of kvs pre)"
proof (induction kvs pre rule: trie_of.induct)
  case (2 k v pre)
  then show ?case using trie_okD(3,5) [OF "2.prems"(1), of k v] by (auto simp: nibs_def dest: in_set_dropD)
next
  case (3 a b kvs pre)
  let ?kvs = "a # b # kvs"
  let ?sh = "sharedPre ?kvs pre"
  show ?case
  proof (cases "pre < ?sh")
    case True
    have ok: "trie_ok ?kvs ?sh" using ext_ok [OF "3.prems"(1) True] .
    have c: "canon (trie_of ?kvs ?sh)" using "3.IH"(1) [OF refl True ok "3.prems"(2)] .
    have sl: "?sh \<le> length (fst a)" using sharedPre_bound [OF True, of "fst a" "snd a"] by simp
    have "\<not> ?sh < sharedPre ?kvs ?sh"
    proof
      assume lt: "?sh < sharedPre ?kvs ?sh"
      let ?m = "sharedPre ?kvs ?sh"
      have ok2: "trie_ok ?kvs ?m" using ext_ok [OF ok lt] .
      have "?m \<le> length k \<and> take ?m k = take ?m (fst a)" if "(k, v) \<in> set ?kvs" for k v
        using trie_okD(1,2) [OF ok2 that] by simp
      moreover have "?m < 2 ^ 32" using shared_pre_le [of "fst a" ?sh "map fst (b # kvs)" "2 ^ 32 - 1"] by (simp add: sharedPre_def)
      ultimately have "?m \<le> ?sh"
        using True lt sharedPre_max [where a = a and b = b and kvs = kvs and m = ?m and pre = pre] by simp
      with lt show False by simp
    qed
    then have "is_branch (trie_of ?kvs ?sh)" by (subst trie_of.simps(3)) (simp add: Let_def)
    moreover have "nibs (take (?sh - pre) (drop pre (fst a)))"
      using trie_okD(5) [OF "3.prems"(1), of "fst a" "snd a"] by (auto simp: nibs_def dest!: in_set_takeD in_set_dropD)
    moreover have "take (?sh - pre) (drop pre (fst a)) \<noteq> []" using True sl by simp
    ultimately show ?thesis using c True by (subst trie_of.simps(3)) (simp only: Let_def if_True canon.simps simp_thms)
  next
    case False
    let ?f = "\<lambda>s. if s = [] then NNull else trie_of s (Suc pre)"
    let ?cs = "children pre 16 0 (branch_rest ?kvs pre)"
    have "canon (?f s)" if s: "s \<in> set ?cs" for s
    proof (cases "s = []")
      case ne: False
      have "set s \<subseteq> set ?kvs" using children_sub [OF s] branch_rest_set [of ?kvs pre] by blast
      with "3.prems"(2) have "\<forall>(k, v) \<in> set s. length k < 2 ^ 32" by blast
      with "3.IH"(2) [OF refl False s ne child_ok [OF "3.prems"(1) s]] ne show ?thesis by simp
    qed simp
    moreover have "length ?cs = 16" unfolding branch_children [OF "3.prems"(1)] by simp
    moreover have "2 \<le> occupied (map ?f ?cs) (branch_value ?kvs pre)"
      by (rule trie_branch_occupied [OF "3.prems"(1) False "3.prems"(2) refl])
    ultimately show ?thesis using False by (subst trie_of.simps(3)) (simp only: Let_def if_False canon_branch length_map set_map ball_simps simp_thms, blast)
  qed
qed simp

lemma trie_canonical:
  assumes "\<forall>(k, v) \<in> set s. v \<noteq> [] \<and> length k < 2 ^ 31"
  shows "canon (trie s)" "trie_get (trie s) = map_of (hexMap s)"
proof -
  have ne: "\<forall>(k, v) \<in> set s. v \<noteq> []" using assms by fast
  note ok = hexMap_ok(1) [OF ne]
  have "length k < 2 ^ 32" if kv: "(k, v) \<in> set (hexMap s)" for k v
  proof -
    have "\<exists>l. k = asNibbles l \<and> l \<in> fst ` set s"
    proof -
      have "\<forall>(k, v) \<in> set (foldl hm_step m xs). (k, v) \<in> set m \<or> (\<exists>l \<in> fst ` set xs. k = asNibbles l)" for m xs
      proof (induction xs arbitrary: m)
        case (Cons x xs)
        have "(k, v) \<in> set m \<or> (\<exists>l \<in> fst ` set (x # xs). k = asNibbles l)"
          if "(k, v) \<in> set (foldl hm_step (hm_step m x) xs)" for k v
          using Cons.IH [of "hm_step m x"] that set_bm_insert [of "asNibbles (fst x)" "snd x" m]
          by (fastforce simp: hm_step_def)
        then show ?case by auto
      qed auto
      from this [of "[]" "rev s"] kv show ?thesis unfolding hexMap_def by fastforce
    qed
    then obtain l where l: "k = asNibbles l" "l \<in> fst ` set s" by blast
    then have "length l < 2 ^ 31" using assms by fastforce
    moreover have "length (asNibbles l) = 2 * length l" by (induction l) (simp_all add: asNibbles_def)
    ultimately show ?thesis using l(1) by simp
  qed
  then show "canon (trie s)" unfolding trie_def using canon_trie_of [OF ok] by blast
  show "trie_get (trie s) = map_of (hexMap s)"
    using trie_get_of [OF ok] by (auto simp: trie_def)
qed

text \<open>Insertions, in any order and with any repetitions, arrive at the tree of the whole content.\<close>

lemma canon_is_trie:
  assumes "canon t" "\<forall>(k, v) \<in> set s. v \<noteq> [] \<and> length k < 2 ^ 31" "trie_get t = map_of (hexMap s)"
  shows "t = trie s"
  using canon_unique [OF assms(1) trie_canonical(1) [OF assms(2)]] assms(3) trie_canonical(2) [OF assms(2)] by simp

end
