(* ===== verification/TrieDB.thy ===== *)
theory TrieDB
  imports TrieHash OverlayDB
begin

text \<open>
  \<open>libdevcore/TrieDB.h\<close>: the trie over a node database. The template parameter \<open>_DB\<close> is the record
  \<open>db_ops\<close> of the functions the class calls on a state \<open>'s\<close>; \<open>mdb_ops\<close> and \<open>odb_ops\<close> are its instances for
  \<open>MemoryDB\<close> and \<open>OverlayDB\<close>. An action takes the database and gives a result or an exception, and the
  database in either case; a stream is the list of items appended to it, and \<open>appendRaw\<close> appends the
  item the bytes parse to.

  The recursions follow hashes through the database, which nothing in the types makes finite: they
  take fuel, and running out of it is the exception \<open>OutOfFuel\<close>, which the properties exclude.
  Reading a nibble past the end of a key, which C++ leaves undefined, is \<open>OutOfRange\<close>. Assertions are
  compiled out of a release build and are left out, as are the checks under \<open>ETH_DEBUG\<close> and
  \<open>ETH_PARANOIA\<close>.
\<close>

section \<open>Actions\<close>

datatype trie_error = BadCast | RootNotFound | BadRoot | InvalidTrie | OutOfRange | OutOfFuel

type_synonym ('s, 'a) act = "'s \<Rightarrow> (trie_error + 'a) \<times> 's"

definition ret :: "'a \<Rightarrow> ('s, 'a) act" where
  "ret x s = (Inr x, s)"

definition raise :: "trie_error \<Rightarrow> ('s, 'a) act" where
  "raise e s = (Inl e, s)"

definition bind :: "('s, 'a) act \<Rightarrow> ('a \<Rightarrow> ('s, 'b) act) \<Rightarrow> ('s, 'b) act" where
  "bind m f s = (case m s of (Inl e, s') \<Rightarrow> (Inl e, s') | (Inr x, s') \<Rightarrow> f x s')"

definition demand :: "trie_error \<Rightarrow> 'a option \<Rightarrow> ('s, 'a) act" where
  "demand e r = (case r of None \<Rightarrow> raise e | Some x \<Rightarrow> ret x)"

lemma act_simps [simp]: "ret x s = (Inr x, s)" "raise e s = (Inl e, s)"
  by (simp_all add: ret_def raise_def)

lemma bind_Inr: "m s = (Inr x, s') \<Longrightarrow> bind m f s = f x s'"
  by (simp add: bind_def)

lemma bind_ret [simp]: "bind (ret x) f = f x"
  by (simp add: bind_def fun_eq_iff)

lemma bind_assoc: "bind (bind m f) g = bind m (\<lambda>x. bind (f x) g)"
  by (auto simp: bind_def fun_eq_iff split: prod.split sum.split)

lemma demand_Some [simp]: "demand e (Some x) = ret x"
  by (simp add: demand_def)

section \<open>The database\<close>

record 's db_ops =
  db_lookup :: "'s \<Rightarrow> h256 \<Rightarrow> bytes"
  db_insert :: "h256 \<Rightarrow> bytes \<Rightarrow> 's \<Rightarrow> 's"
  db_kill :: "h256 \<Rightarrow> 's \<Rightarrow> 's"
  db_exists :: "'s \<Rightarrow> h256 \<Rightarrow> bool"
  db_keys :: "'s \<Rightarrow> h256 list"
  db_lookupAux :: "'s \<Rightarrow> h256 \<Rightarrow> bytes"
  db_insertAux :: "h256 \<Rightarrow> bytes \<Rightarrow> 's \<Rightarrow> 's"

definition mdb_ops :: "MemoryDB db_ops" where
  "mdb_ops = \<lparr>db_lookup = mdb_lookup, db_insert = mdb_insert, db_kill = (\<lambda>h s. snd (mdb_kill h s)),
     db_exists = mdb_exists, db_keys = mdb_keys, db_lookupAux = mdb_lookupAux, db_insertAux = mdb_insertAux\<rparr>"

definition odb_ops :: "'d ldb \<Rightarrow> 'd OverlayDB db_ops" where
  "odb_ops L = \<lparr>db_lookup = odb_lookup L, db_insert = mdb_insert, db_kill = odb_kill,
     db_exists = odb_exists L, db_keys = mdb_keys, db_lookupAux = odb_lookupAux L, db_insertAux = mdb_insertAux\<rparr>"

definition db_node :: "'s db_ops \<Rightarrow> h256 \<Rightarrow> ('s, bytes) act" where
  "db_node D h s = (Inr (db_lookup D s h), s)"

definition forceInsertNode_at :: "'s db_ops \<Rightarrow> h256 \<Rightarrow> bytes \<Rightarrow> ('s, unit) act" where
  "forceInsertNode_at D h v s = (Inr (), db_insert D h v s)"

definition forceInsertNode :: "'s db_ops \<Rightarrow> bytes \<Rightarrow> ('s, h256) act" where
  "forceInsertNode D v = (let h = sha3 v in bind (forceInsertNode_at D h v) (\<lambda>_. ret h))"

definition forceKillNode :: "'s db_ops \<Rightarrow> h256 \<Rightarrow> ('s, unit) act" where
  "forceKillNode D h s = (Inr (), db_kill D h s)"

definition killNode :: "'i rlp \<Rightarrow> 's db_ops \<Rightarrow> 'i \<Rightarrow> ('s, unit) act" where
  "killNode R D d = (if 32 \<le> length (rlp_data R d) then forceKillNode D (sha3 (rlp_data R d)) else ret ())"

definition killNode_at :: "'i rlp \<Rightarrow> 's db_ops \<Rightarrow> 'i \<Rightarrow> h256 \<Rightarrow> ('s, unit) act" where
  "killNode_at R D d h = (if 32 \<le> length (rlp_data R d) then forceKillNode D h else ret ())"

section \<open>Reading nodes\<close>

definition RLPNull :: "'i rlp \<Rightarrow> bytes" where
  "RLPNull R = rlp_data R (rlp_bytes R [])"

definition c_shaNull :: "'i rlp \<Rightarrow> h256" where
  "c_shaNull R = sha3 (RLPNull R)"

definition node_key :: "'i rlp \<Rightarrow> 'i \<Rightarrow> NibbleSlice" where
  "node_key R it = keyOf (rlp_payload R (rlp_at R it 0))"

definition node_isLeaf :: "'i rlp \<Rightarrow> 'i \<Rightarrow> bool" where
  "node_isLeaf R it \<longleftrightarrow> isLeaf (rlp_payload R (rlp_at R it 0))"

text \<open>The node a child item stands for: itself if it is a list, else what is stored under the hash.\<close>

definition child_node :: "'i rlp \<Rightarrow> 's db_ops \<Rightarrow> 'i \<Rightarrow> ('s, 'i) act" where
  "child_node R D n = (if rlp_isList R n then ret n
     else bind (demand BadCast (rlp_toHash R 32 n)) (\<lambda>h. bind (db_node D h) (\<lambda>b. ret (rlp_parse R b))))"

definition deref :: "'i rlp \<Rightarrow> 's db_ops \<Rightarrow> 'i \<Rightarrow> ('s, bytes) act" where
  "deref R D n = (if rlp_isList R n then ret (rlp_data R n)
     else bind (demand BadCast (rlp_toHash R 32 n)) (db_node D))"

definition isTwoItemNode :: "'i rlp \<Rightarrow> 's db_ops \<Rightarrow> 'i \<Rightarrow> ('s, bool) act" where
  "isTwoItemNode R D n =
     bind (if rlp_isData R n
           then bind (demand BadCast (rlp_toHash R 32 n)) (\<lambda>h. bind (db_node D h) (\<lambda>b. ret (rlp_itemCount R (rlp_parse R b) = 2)))
           else ret False)
       (\<lambda>b. ret (b \<or> rlp_isList R n \<and> rlp_itemCount R n = 2))"

text \<open>The answer for a missing key is the empty string.\<close>

primrec atAux :: "nat \<Rightarrow> 'i rlp \<Rightarrow> 's db_ops \<Rightarrow> 'i \<Rightarrow> NibbleSlice \<Rightarrow> ('s, bytes) act" where
  "atAux 0 R D here key = raise OutOfFuel"
| "atAux (Suc n) R D here key =
     (if rlp_isEmpty R here \<or> here = rlp_null R then ret []
      else if rlp_itemCount R here = 2
      then (let k = node_key R here
            in if slice_eq key k \<and> node_isLeaf R here then ret (rlp_toBytes R (rlp_at R here 1))
               else if slice_contains key k \<and> \<not> node_isLeaf R here
               then bind (child_node R D (rlp_at R here 1)) (\<lambda>c. atAux n R D c (slice_mid key (slice_size k)))
               else ret [])
      else if slice_size key = 0 then ret (rlp_toBytes R (rlp_at R here 16))
      else (let c = rlp_at R here (unat (slice_nth key 0))
            in if rlp_isEmpty R c then ret []
               else bind (child_node R D c) (\<lambda>c. atAux n R D c (slice_mid key 1))))"

section \<open>Writing nodes\<close>

definition out_list :: "'i rlp \<Rightarrow> 'i list \<Rightarrow> bytes" where
  "out_list R its = rlp_data R (rlp_list R its)"

definition branch_items :: "'i rlp \<Rightarrow> 'i \<Rightarrow> 'i list" where
  "branch_items R it = map (rlp_at R it) [0..<17]"

text \<open>\<open>streamNode\<close>: the item appended.\<close>

definition streamNode :: "'i rlp \<Rightarrow> 's db_ops \<Rightarrow> bytes \<Rightarrow> ('s, 'i) act" where
  "streamNode R D b = (if length b < 32 then ret (rlp_parse R b)
     else bind (forceInsertNode D b) (\<lambda>h. ret (rlp_bytes R h)))"

definition place :: "'i rlp \<Rightarrow> 's db_ops \<Rightarrow> 'i \<Rightarrow> NibbleSlice \<Rightarrow> bytes \<Rightarrow> ('s, bytes) act" where
  "place R D orig k v = bind (killNode R D orig) (\<lambda>_.
     if rlp_isEmpty R orig then ret (out_list R [rlp_bytes R (hexPrefixEncode k True), rlp_bytes R v])
     else if rlp_itemCount R orig = 2 then ret (out_list R [rlp_at R orig 0, rlp_bytes R v])
     else ret (out_list R (map (rlp_at R orig) [0..<16] @ [rlp_bytes R v])))"

definition remove_node :: "'i rlp \<Rightarrow> 's db_ops \<Rightarrow> 'i \<Rightarrow> ('s, bytes) act" where
  "remove_node R D orig = bind (killNode R D orig) (\<lambda>_.
     if rlp_itemCount R orig = 2 then ret (RLPNull R)
     else ret (out_list R (map (rlp_at R orig) [0..<16] @ [rlp_bytes R []])))"

definition cleve :: "'i rlp \<Rightarrow> 's db_ops \<Rightarrow> 'i \<Rightarrow> nat \<Rightarrow> ('s, bytes) act" where
  "cleve R D orig sh = bind (killNode R D orig) (\<lambda>_.
     let k = node_key R orig;
         bottom = out_list R [rlp_bytes R (hexPrefixEncode_range (ns_data k) (node_isLeaf R orig) (int sh) (- 1) (ns_offset k)),
                              rlp_at R orig 1]
     in bind (streamNode R D bottom) (\<lambda>it.
        ret (out_list R [rlp_bytes R (hexPrefixEncode_range (ns_data k) False 0 (int sh) (ns_offset k)), it])))"

definition graft :: "'i rlp \<Rightarrow> 's db_ops \<Rightarrow> 'i \<Rightarrow> ('s, bytes) act" where
  "graft R D orig =
     bind (if rlp_isList R (rlp_at R orig 1) then ret (rlp_at R orig 1)
           else bind (demand BadCast (rlp_toHash R 32 (rlp_at R orig 1))) (\<lambda>lh.
             bind (db_node D lh) (\<lambda>b. bind (forceKillNode D lh) (\<lambda>_. ret (rlp_parse R b)))))
       (\<lambda>n. ret (out_list R [rlp_bytes R (hexPrefixEncode_slices (node_key R orig) (node_key R n) (node_isLeaf R n)), rlp_at R n 1]))"

definition merge :: "'i rlp \<Rightarrow> 'i \<Rightarrow> byte \<Rightarrow> bytes" where
  "merge R orig i = out_list R
     [rlp_bytes R (if i \<noteq> 16 then hexPrefixEncode_range [i] False 1 2 0 else hexPrefixEncode_vector [] True 0 (- 1)),
      rlp_at R orig (unat i)]"

definition branch :: "'i rlp \<Rightarrow> 's db_ops \<Rightarrow> 'i \<Rightarrow> ('s, bytes) act" where
  "branch R D orig = bind (killNode R D orig) (\<lambda>_.
     let k = node_key R orig
     in if slice_size k = 0 then ret (out_list R (replicate 16 (rlp_bytes R []) @ [rlp_at R orig 1]))
        else bind (if node_isLeaf R orig \<or> 1 < slice_size k
                   then streamNode R D (out_list R [rlp_bytes R (hexPrefixEncode (slice_mid k 1) (node_isLeaf R orig)), rlp_at R orig 1])
                   else ret (rlp_at R orig 1))
               (\<lambda>it. ret (out_list R ((replicate 16 (rlp_bytes R []))[unat (slice_nth k 0) := it] @ [rlp_bytes R []]))))"

section \<open>Insertion\<close>

text \<open>\<open>mergeAtAux\<close> with the recursive \<open>mergeAt\<close> as its argument.\<close>

definition mergeAtAux :: "('i \<Rightarrow> h256 \<Rightarrow> NibbleSlice \<Rightarrow> bytes \<Rightarrow> bool \<Rightarrow> ('s, bytes) act) \<Rightarrow> 'i rlp \<Rightarrow> 's db_ops
    \<Rightarrow> 'i \<Rightarrow> NibbleSlice \<Rightarrow> bytes \<Rightarrow> ('s, 'i) act" where
  "mergeAtAux rec R D orig k v =
     (let removable = (\<not> rlp_isList R orig \<and> \<not> rlp_isEmpty R orig)
      in bind (if removable
               then bind (demand BadCast (rlp_toHash R 32 orig)) (\<lambda>h. bind (db_node D h) (\<lambda>b. ret (rlp_parse R b)))
               else ret orig) (\<lambda>r.
         bind (rec r (sha3 (rlp_data R r)) k v (\<not> removable)) (streamNode R D)))"

primrec mergeAt :: "nat \<Rightarrow> 'i rlp \<Rightarrow> 's db_ops \<Rightarrow> 'i \<Rightarrow> h256 \<Rightarrow> NibbleSlice \<Rightarrow> bytes \<Rightarrow> bool \<Rightarrow> ('s, bytes) act" where
  "mergeAt 0 R D orig h k v inl = raise OutOfFuel"
| "mergeAt (Suc n) R D orig h k v inl =
     (if rlp_isEmpty R orig then place R D orig k v
      else if rlp_itemCount R orig = 2
      then (let kk = node_key R orig
            in if slice_eq kk k \<and> node_isLeaf R orig then place R D orig k v
               else if slice_contains k kk \<and> \<not> node_isLeaf R orig
               then bind (if inl then ret () else killNode_at R D orig h) (\<lambda>_.
                    bind (mergeAtAux (mergeAt n R D) R D (rlp_at R orig 1) (slice_mid k (slice_size kk)) v) (\<lambda>it.
                    ret (out_list R [rlp_at R orig 0, it])))
               else (let sh = slice_shared k kk
                     in if sh \<noteq> 0
                        then bind (cleve R D orig sh) (\<lambda>c. let r = rlp_parse R c in mergeAt n R D r (sha3 (rlp_data R r)) k v True)
                        else bind (branch R D orig) (\<lambda>b. let r = rlp_parse R b in mergeAt n R D r (sha3 (rlp_data R r)) k v True)))
      else if slice_size k = 0 then place R D orig k v
      else bind (if inl then ret () else killNode_at R D orig h) (\<lambda>_.
           let i = unat (slice_nth k 0)
           in bind (mergeAtAux (mergeAt n R D) R D (rlp_at R orig i) (slice_mid k 1) v) (\<lambda>it.
              ret (out_list R ((branch_items R orig)[i := it])))))"

section \<open>Removal\<close>

text \<open>The empty answer of \<open>deleteAt\<close> says that nothing was removed, and so does \<open>None\<close>, the \<open>false\<close> of
  \<open>deleteAtAux\<close>.\<close>

definition deleteAtAux :: "('i \<Rightarrow> NibbleSlice \<Rightarrow> ('s, bytes) act) \<Rightarrow> 'i rlp \<Rightarrow> 's db_ops \<Rightarrow> 'i \<Rightarrow> NibbleSlice
    \<Rightarrow> ('s, 'i option) act" where
  "deleteAtAux rec R D orig k =
     bind (if rlp_isEmpty R orig then ret [] else bind (child_node R D orig) (\<lambda>r. rec r k)) (\<lambda>b.
       if b = [] then ret None else bind (streamNode R D b) (\<lambda>it. ret (Some it)))"

text \<open>A branch node in which one place is left.\<close>

definition rejig :: "'i rlp \<Rightarrow> 's db_ops \<Rightarrow> 'i \<Rightarrow> byte \<Rightarrow> ('s, bytes) act" where
  "rejig R D r used = bind (isTwoItemNode R D (rlp_at R r (unat used))) (\<lambda>two.
     if two then graft R D (rlp_parse R (merge R r used)) else ret (merge R r used))"

primrec deleteAt :: "nat \<Rightarrow> 'i rlp \<Rightarrow> 's db_ops \<Rightarrow> 'i \<Rightarrow> NibbleSlice \<Rightarrow> ('s, bytes) act" where
  "deleteAt 0 R D orig k = raise OutOfFuel"
| "deleteAt (Suc n) R D orig k =
     (if rlp_isEmpty R orig then ret []
      else if rlp_itemCount R orig = 2
      then (let kk = node_key R orig
            in if slice_eq kk k \<and> node_isLeaf R orig then bind (killNode R D orig) (\<lambda>_. ret (RLPNull R))
               else if slice_contains k kk
               then bind (deleteAtAux (deleteAt n R D) R D (rlp_at R orig 1) (slice_mid k (slice_size kk))) (\<lambda>res.
                 case res of None \<Rightarrow> ret []
                 | Some it \<Rightarrow> bind (killNode R D orig) (\<lambda>_.
                     let out = out_list R [rlp_at R orig 0, it]; r = rlp_parse R out
                     in bind (isTwoItemNode R D (rlp_at R r 1)) (\<lambda>two. if two then graft R D r else ret out)))
               else ret [])
      else if slice_size k = 0 \<and> \<not> rlp_isEmpty R (rlp_at R orig 16)
      then bind (killNode R D orig) (\<lambda>_.
           let used = uniqueInUse (\<lambda>i. rlp_isEmpty R (rlp_at R orig i)) 16
           in if used \<noteq> 255 then rejig R D orig used
              else ret (out_list R (map (rlp_at R orig) [0..<16] @ [rlp_bytes R []])))
      else if slice_size k = 0 then raise OutOfRange
      else (let i = unat (slice_nth k 0)
            in bind (deleteAtAux (deleteAt n R D) R D (rlp_at R orig i) (slice_mid k 1)) (\<lambda>res.
               case res of None \<Rightarrow> ret []
               | Some it \<Rightarrow> bind (killNode R D orig) (\<lambda>_.
                   let out = out_list R ((branch_items R orig)[i := it]); r = rlp_parse R out;
                       used = uniqueInUse (\<lambda>i. rlp_isEmpty R (rlp_at R r i)) 255
                   in if used = 255 then ret out else rejig R D r used))))"

section \<open>The class\<close>

record 's GenericTrieDB =
  tr_root :: h256
  tr_db :: 's

definition db_act :: "('s, 'a) act \<Rightarrow> ('s GenericTrieDB, 'a) act" where
  "db_act m t = (case m (tr_db t) of (r, s) \<Rightarrow> (r, t\<lparr>tr_db := s\<rparr>))"

definition set_root :: "h256 \<Rightarrow> ('s GenericTrieDB, unit) act" where
  "set_root h t = (Inr (), t\<lparr>tr_root := h\<rparr>)"

definition get_root :: "('s GenericTrieDB, h256) act" where
  "get_root t = (Inr (tr_root t), t)"

definition slice_of :: "bytes \<Rightarrow> NibbleSlice" where
  "slice_of k = \<lparr>ns_data = k, ns_offset = 0\<rparr>"

text \<open>\<open>init\<close> and \<open>setRoot\<close> call each other; the second \<open>init\<close> would need a database that has lost what was
  just inserted.\<close>

primrec trie_setRoot :: "nat \<Rightarrow> 'i rlp \<Rightarrow> 's db_ops \<Rightarrow> h256 \<Rightarrow> bool \<Rightarrow> ('s GenericTrieDB, unit) act" where
  "trie_setRoot 0 R D root normal = raise OutOfFuel"
| "trie_setRoot (Suc n) R D root normal =
     bind (set_root root) (\<lambda>_.
     bind (\<lambda>t. (Inr (normal \<and> root = c_shaNull R \<and> \<not> db_exists D (tr_db t) root), t)) (\<lambda>missing.
     bind (if missing then bind (db_act (forceInsertNode D (RLPNull R))) (\<lambda>h. trie_setRoot n R D h True) else ret ()) (\<lambda>_.
     bind get_root (\<lambda>h. bind (db_act (db_node D h)) (\<lambda>b. if b = [] then raise RootNotFound else ret ())))))"

definition setRoot :: "'i rlp \<Rightarrow> 's db_ops \<Rightarrow> h256 \<Rightarrow> bool \<Rightarrow> ('s GenericTrieDB, unit) act" where
  "setRoot = trie_setRoot 2"

definition trie_init :: "'i rlp \<Rightarrow> 's db_ops \<Rightarrow> ('s GenericTrieDB, unit) act" where
  "trie_init R D = bind (db_act (forceInsertNode D (RLPNull R))) (\<lambda>h. setRoot R D h True)"

definition trie_open :: "'i rlp \<Rightarrow> 's db_ops \<Rightarrow> 's \<Rightarrow> h256 \<Rightarrow> bool \<Rightarrow> ('s GenericTrieDB, unit) act" where
  "trie_open R D db root normal = (\<lambda>t. setRoot R D root normal (t\<lparr>tr_db := db\<rparr>))"

definition trie_isNull :: "'s db_ops \<Rightarrow> 's GenericTrieDB \<Rightarrow> bool" where
  "trie_isNull D t \<longleftrightarrow> db_lookup D (tr_db t) (tr_root t) = []"

definition trie_isEmpty :: "'i rlp \<Rightarrow> 's db_ops \<Rightarrow> 's GenericTrieDB \<Rightarrow> bool" where
  "trie_isEmpty R D t \<longleftrightarrow> tr_root t = c_shaNull R \<and> db_lookup D (tr_db t) (tr_root t) \<noteq> []"

definition trie_root :: "'s db_ops \<Rightarrow> ('s GenericTrieDB, h256) act" where
  "trie_root D t = (if db_lookup D (tr_db t) (tr_root t) = [] then (Inl BadRoot, t) else (Inr (tr_root t), t))"

text \<open>Fuel: a step of a recursion takes at least one nibble off the key, except the ones after a cleave
  or a branch, and there is at most one of each.\<close>

definition trie_fuel :: "bytes \<Rightarrow> nat" where
  "trie_fuel k = 2 * length k + 8"

definition trie_at :: "'i rlp \<Rightarrow> 's db_ops \<Rightarrow> bytes \<Rightarrow> ('s GenericTrieDB, bytes) act" where
  "trie_at R D k = bind get_root (\<lambda>h. db_act (bind (db_node D h) (\<lambda>b. atAux (trie_fuel k) R D (rlp_parse R b) (slice_of k))))"

definition trie_contains :: "'i rlp \<Rightarrow> 's db_ops \<Rightarrow> bytes \<Rightarrow> ('s GenericTrieDB, bool) act" where
  "trie_contains R D k = bind (trie_at R D k) (\<lambda>v. ret (v \<noteq> []))"

definition trie_insert :: "'i rlp \<Rightarrow> 's db_ops \<Rightarrow> bytes \<Rightarrow> bytes \<Rightarrow> ('s GenericTrieDB, unit) act" where
  "trie_insert R D k v = bind get_root (\<lambda>h.
     bind (db_act (bind (db_node D h) (\<lambda>rootValue.
       bind (mergeAt (trie_fuel k) R D (rlp_parse R rootValue) h (slice_of k) v False) (\<lambda>b.
       bind (if length rootValue < 32 then forceKillNode D h else ret ()) (\<lambda>_. forceInsertNode D b))))) set_root)"

definition trie_remove :: "'i rlp \<Rightarrow> 's db_ops \<Rightarrow> bytes \<Rightarrow> ('s GenericTrieDB, unit) act" where
  "trie_remove R D k = bind get_root (\<lambda>h.
     bind (db_act (bind (db_node D h) (\<lambda>rv.
       bind (deleteAt (trie_fuel k) R D (rlp_parse R rv) (slice_of k)) (\<lambda>b.
         if b \<noteq> [] then bind (if length rv < 32 then forceKillNode D h else ret ()) (\<lambda>_. bind (forceInsertNode D b) (\<lambda>h. ret (Some h)))
         else ret None)))) (\<lambda>r. case r of None \<Rightarrow> ret () | Some h \<Rightarrow> set_root h))"

section \<open>The views\<close>

text \<open>\<open>SpecificTrieDB\<close> takes the bytes of a key of fixed size, which is what the functions above take;
  \<open>HashedGenericTrieDB\<close> hashes the key, and \<open>FatGenericTrieDB\<close> also records it under its hash.\<close>

definition hashed_at :: "'i rlp \<Rightarrow> 's db_ops \<Rightarrow> bytes \<Rightarrow> ('s GenericTrieDB, bytes) act" where
  "hashed_at R D k = trie_at R D (sha3 k)"

definition hashed_contains :: "'i rlp \<Rightarrow> 's db_ops \<Rightarrow> bytes \<Rightarrow> ('s GenericTrieDB, bool) act" where
  "hashed_contains R D k = trie_contains R D (sha3 k)"

definition hashed_insert :: "'i rlp \<Rightarrow> 's db_ops \<Rightarrow> bytes \<Rightarrow> bytes \<Rightarrow> ('s GenericTrieDB, unit) act" where
  "hashed_insert R D k v = trie_insert R D (sha3 k) v"

definition hashed_remove :: "'i rlp \<Rightarrow> 's db_ops \<Rightarrow> bytes \<Rightarrow> ('s GenericTrieDB, unit) act" where
  "hashed_remove R D k = trie_remove R D (sha3 k)"

definition fat_insert :: "'i rlp \<Rightarrow> 's db_ops \<Rightarrow> bytes \<Rightarrow> bytes \<Rightarrow> ('s GenericTrieDB, unit) act" where
  "fat_insert R D k v = (let hash = sha3 k in bind (trie_insert R D hash v) (\<lambda>_ t. (Inr (), t\<lparr>tr_db := db_insertAux D hash k (tr_db t)\<rparr>)))"

definition fat_key :: "'s db_ops \<Rightarrow> bytes \<Rightarrow> 's GenericTrieDB \<Rightarrow> bytes" where
  "fat_key D hashed t = db_lookupAux D (tr_db t) hashed"

end
