(* ===== verification/TrieRep.thy ===== *)
theory TrieRep
  imports TrieTree TrieDB "HOL-Library.Multiset"
begin

text \<open>
  How the items and the database of \<open>TrieDB\<close> stand for the trees of \<open>TrieTree\<close>. \<open>ser\<close> gives the item of
  a tree; a child of 32 bytes or more is stored in the database under its hash, once for each place it
  occurs in: \<open>own\<close> collects these serialisations, with multiplicity. The interface \<open>ref_store\<close> says what
  a database has to do with such a collection, and it is interpreted on both databases: \<open>MemoryDB\<close>
  counts every reference, \<open>OverlayDB\<close> never loses what it stored.
\<close>

section \<open>Slices\<close>

lemma slice_lcp: "slice_ok s \<Longrightarrow> slice_ok k \<Longrightarrow> slice_shared s k = lcp (nibbles_of s) (nibbles_of k)"
  by (simp add: slice_shared_take slice_ok_def lcp_def)

lemma nibbles_of_mid: "nibbles_of (slice_mid s i) = drop i (nibbles_of s)"
  by (simp add: slice_mid_def nibbles_of_drop) (cases s, simp add: nibbles_of_drop add.commute)

lemma slice_ok_mid: "slice_ok s \<Longrightarrow> i \<le> slice_size s \<Longrightarrow> slice_ok (slice_mid s i)"
  by (simp add: slice_ok_def slice_mid_def slice_size_def)

lemma slice_nth_hd: "nibbles_of k = x # xs \<Longrightarrow> slice_nth k 0 = x \<and> slice_size k = Suc (length xs)"
proof -
  assume k: "nibbles_of k = x # xs"
  then have "slice_size k = Suc (length xs)" using length_nibbles_of [of k] by simp
  then show ?thesis using nth_nibbles_of [of 0 k] k by simp
qed

lemma small_nibs: "(\<forall>n \<in> set ns. small n) \<longleftrightarrow> nibs ns"
proof -
  have "small n \<longleftrightarrow> unat n < 16" for n
  proof -
    have "take_bit 4 n = n \<longleftrightarrow> n < 16" using take_bit_int_eq_self_iff [of 4 "uint n"]
      by (simp add: word_eq_iff_unsigned [where ?'a = int] unsigned_take_bit_eq word_less_def)
    then show ?thesis by (simp add: small_take_bit word_less_nat_alt)
  qed
  then show ?thesis by (simp add: nibs_def)
qed

lemma nibs_nibbles_of [simp]: "nibs (nibbles_of k)"
  using small_nibbles_of [of k] unfolding small_nibs .

lemma slice_of_simps [simp]: "nibbles_of (slice_of k) = asNibbles k" "slice_ok (slice_of k)"
  by (simp_all add: slice_of_def asNibbles_unpack unpack_def slice_ok_def)

lemma nibbles_of_one: "unat c < 16 \<Longrightarrow> nibbles_of \<lparr>ns_data = [c], ns_offset = 1\<rparr> = [c]"
  using small_nibs [of "[c]"] by (simp add: nibbles_of_def nibble_def small_def upt_rec)

lemma length_asNibbles [simp]: "length (asNibbles k) = 2 * length k"
  by (induction k) (simp_all add: asNibbles_def)

lemma encode_range_slice:
  assumes "slice_ok k" "b \<le> e" "e \<le> slice_size k" "e' = int e \<or> e' = - 1 \<and> e = slice_size k"
  shows "hexPrefixEncode_range (ns_data k) leaf (int b) e' (ns_offset k) = hp_spec leaf (take (e - b) (drop b (nibbles_of k)))"
proof -
  let ?o = "ns_offset k" and ?d = "ns_data k"
  have size: "slice_size k = length ?d * 2 - ?o" "?o \<le> length ?d * 2" using assms(1) by (simp_all add: slice_size_def slice_ok_def)
  have e: "nat (if e' < 0 then int (length ?d * 2 - ?o) + 1 + e' else e') + ?o = e + ?o"
    using assms(4) size by auto
  have "take (e - b) (drop b (nibbles_of k)) = map (nibble ?d) (take (e - b) (drop b [?o..<length ?d * 2]))"
    by (simp add: nibbles_of_def take_map drop_map)
  also have "take (e - b) (drop b [?o..<length ?d * 2]) = [b + ?o..<e + ?o]"
    using assms(2,3) size by (simp add: take_upt add.commute)
  finally have m: "map (nibble ?d) [b + ?o..<e + ?o] = take (e - b) (drop b (nibbles_of k))" by simp
  have l: "length (take (e - b) (drop b (nibbles_of k))) = e + ?o - (b + ?o)" using assms(2,3) by simp
  show ?thesis
    using foldl_hp_spec [of "take (e - b) (drop b (nibbles_of k))" leaf]
    unfolding hexPrefixEncode_range_def Let_def nat_int e hp_loop_foldl m l by simp
qed

section \<open>Serialised trees\<close>

definition ser_data :: "'i rlp \<Rightarrow> node \<Rightarrow> bytes" where
  "ser_data R n = rlp_data R (ser R n)"

definition cref :: "'i rlp \<Rightarrow> node \<Rightarrow> 'i" where
  "cref R n = collapse R (ser R n)"

definition big :: "'i rlp \<Rightarrow> node \<Rightarrow> bytes multiset" where
  "big R n = (if 32 \<le> length (ser_data R n) then {#ser_data R n#} else {#})"

primrec node_refs :: "'i rlp \<Rightarrow> node \<Rightarrow> bytes multiset" where
  "node_refs R NNull = {#}"
| "node_refs R (NLeaf ns v) = {#}"
| "node_refs R (NExt ns c) = big R c + node_refs R c"
| "node_refs R (NBranch cs w) = sum_list (map (\<lambda>(c, r). big R c + r) (map (\<lambda>c. (c, node_refs R c)) cs))"

definition own :: "'i rlp \<Rightarrow> node \<Rightarrow> bytes multiset" where
  "own R n = big R n + node_refs R n"

lemma node_refs_branch [simp]: "node_refs R (NBranch cs w) = sum_list (map (own R) cs)"
  by (simp add: own_def [abs_def] comp_def)

lemma node_refs_ext [simp]: "node_refs R (NExt ns c) = own R c"
  by (simp add: own_def)

declare node_refs.simps(3,4) [simp del]

primrec wfn :: "node \<Rightarrow> bool" where
  "wfn NNull = True"
| "wfn (NLeaf ns v) = nibs ns"
| "wfn (NExt ns c) = (nibs ns \<and> ns \<noteq> [] \<and> c \<noteq> NNull \<and> wfn c)"
| "wfn (NBranch cs w) = (length cs = 16 \<and> (\<forall>b \<in> set (map wfn cs). b))"

lemma wfn_branch [simp]: "wfn (NBranch cs w) \<longleftrightarrow> length cs = 16 \<and> (\<forall>c \<in> set cs. wfn c)"
  by auto

declare wfn.simps(4) [simp del]

lemma canon_wfn: "canon n \<Longrightarrow> wfn n"
  by (induction n) (auto dest: canon_not_null)

locale rlp_lib =
  fixes R :: "'i rlp"
  assumes ok: "rlp_ok R"
begin

lemmas R = rlp_okD [OF ok] rlp_ok_views [OF ok]

lemma nulls [simp]:
  "rlp_list R xs \<noteq> rlp_null R" "rlp_bytes R b \<noteq> rlp_null R" "rlp_null R \<noteq> rlp_list R xs" "rlp_null R \<noteq> rlp_bytes R b"
  using R(9) [of xs] R(10) [of b] by simp_all

declare ser.simps [simp del]

lemma ser_NNull: "ser R NNull = rlp_bytes R []"
  by (simp add: ser.simps)

lemma big_NNull [simp]: "big R NNull = {#}"
  by (simp add: big_def ser_data_def ser_NNull R)

lemma own_NNull [simp]: "own R NNull = {#}"
  by (simp add: own_def)

lemma ser_leaf: "ser R (NLeaf ns v) = rlp_list R [rlp_bytes R (hp_spec True ns), rlp_bytes R v]"
  by (simp add: ser.simps)

lemma ser_branch: "ser R (NBranch cs w) = rlp_list R (map (cref R) cs @ [rlp_bytes R w])"
proof -
  have "(if n = NNull then rlp_bytes R [] else collapse R (ser R n)) = cref R n" for n
    by (simp add: cref_def collapse_def ser_NNull R)
  then show ?thesis by (simp add: ser.simps comp_def)
qed

lemma ser_ext: "ser R (NExt ns c) = rlp_list R [rlp_bytes R (hp_spec False ns), cref R c]"
  by (simp add: cref_def ser.simps)

lemmas ser_eqs = ser_NNull ser_leaf ser_ext ser_branch

lemma ser_not_null [simp]: "ser R n \<noteq> rlp_null R" "rlp_null R \<noteq> ser R n"
  by (cases n; simp add: ser_eqs)+

lemma cref_not_null [simp]: "cref R n \<noteq> rlp_null R" "rlp_null R \<noteq> cref R n" "rlp_null R \<notin> cref R ` S"
  by (auto simp: cref_def collapse_def)

lemma ser_items:
  "rlp_items R (ser R (NLeaf ns v)) = [rlp_bytes R (hp_spec True ns), rlp_bytes R v]"
  "rlp_items R (ser R (NExt ns c)) = [rlp_bytes R (hp_spec False ns), cref R c]"
  "rlp_items R (ser R (NBranch cs w)) = map (cref R) cs @ [rlp_bytes R w]"
  by (simp_all add: R ser_eqs)

lemma ser_list: "rlp_isList R (ser R n) \<longleftrightarrow> n \<noteq> NNull" "rlp_isEmpty R (ser R n) \<longleftrightarrow> n = NNull"
  "rlp_isData R (ser R n) \<longleftrightarrow> n = NNull"
  by (cases n; simp add: R ser_eqs)+

lemma ser_count: "wfn n \<Longrightarrow> rlp_itemCount R (ser R n) = (case n of NNull \<Rightarrow> 0 | NBranch cs w \<Rightarrow> 17 | _ \<Rightarrow> 2)"
  by (cases n) (simp_all add: rlp_itemCount_def ser_list ser_items)

lemma ser_at:
  "rlp_at R (ser R (NLeaf ns v)) 0 = rlp_bytes R (hp_spec True ns)" "rlp_at R (ser R (NLeaf ns v)) (Suc 0) = rlp_bytes R v"
  "rlp_at R (ser R (NExt ns c)) 0 = rlp_bytes R (hp_spec False ns)" "rlp_at R (ser R (NExt ns c)) (Suc 0) = cref R c"
  "length cs = 16 \<Longrightarrow> i < 16 \<Longrightarrow> rlp_at R (ser R (NBranch cs w)) i = cref R (cs ! i)"
  "length cs = 16 \<Longrightarrow> rlp_at R (ser R (NBranch cs w)) 16 = rlp_bytes R w"
  by (simp_all add: rlp_at_def ser_items nth_append)

lemma hp_slice_ok: "slice_ok (keyOf (hp_spec leaf ns))"
  by (auto simp: keyOf_def slice_ok_def hp_spec_def)

lemma ser_key:
  assumes "wfn n" "n = NLeaf ns v \<or> n = NExt ns c"
  shows "nibbles_of (node_key R (ser R n)) = ns" "slice_ok (node_key R (ser R n))" "slice_size (node_key R (ser R n)) = length ns"
    "node_isLeaf R (ser R n) \<longleftrightarrow> n = NLeaf ns v"
proof -
  have s: "\<forall>m \<in> set ns. small m" using assms by (auto simp: small_nibs)
  show 1: "nibbles_of (node_key R (ser R n)) = ns"
    using assms(2) by (auto simp: node_key_def ser_at R hexPrefix_decode(2) [OF s])
  then show "slice_size (node_key R (ser R n)) = length ns" by (metis length_nibbles_of)
  show "slice_ok (node_key R (ser R n))" using assms(2) by (auto simp: node_key_def ser_at R hp_slice_ok)
  show "node_isLeaf R (ser R n) \<longleftrightarrow> n = NLeaf ns v"
    using assms(2) by (auto simp: node_isLeaf_def ser_at R hexPrefix_decode(1) [OF s])
qed

lemma parse_ser [simp]: "rlp_parse R (ser_data R n) = ser R n"
  by (cases n) (simp_all add: ser_data_def R(16,17) ser_eqs del: R(20))

lemma ser_data_Nil [simp]: "ser_data R n \<noteq> []"
  by (simp add: ser_data_def R)

lemma cref_cases:
  "cref R n = (if 32 \<le> length (ser_data R n) then rlp_bytes R (sha3 (ser_data R n)) else ser R n)"
  by (simp add: cref_def collapse_def ser_data_def)

lemma cref_empty: "rlp_isEmpty R (cref R n) \<longleftrightarrow> n = NNull"
proof -
  have "sha3 b \<noteq> []" for b by (metis length_sha3 list.size(3) zero_neq_numeral)
  moreover have "length (ser_data R NNull) = 1" by (simp add: ser_data_def ser_NNull R)
  ultimately show ?thesis by (auto simp: cref_cases R ser_list)
qed

end

section \<open>The database and its references\<close>

text \<open>\<open>held U s M\<close>: the database \<open>s\<close> holds the collection \<open>M\<close>, whose members, and everything written meanwhile, lie
  in a set \<open>U\<close> free of collisions.\<close>

locale node_source =
  fixes D :: "'s db_ops" and held :: "bytes set \<Rightarrow> 's \<Rightarrow> bytes multiset \<Rightarrow> bool"
  assumes held_look: "held U s M \<Longrightarrow> b \<in># M \<Longrightarrow> db_lookup D s (sha3 b) = b"

locale ref_store = node_source D held
  for D :: "'s db_ops" and held :: "bytes set \<Rightarrow> 's \<Rightarrow> bytes multiset \<Rightarrow> bool" +
  assumes held_in: "held U s M \<Longrightarrow> set_mset M \<subseteq> U"
    and held_exists: "held U s M \<Longrightarrow> b \<in># M \<Longrightarrow> b \<noteq> [] \<Longrightarrow> db_exists D s (sha3 b)"
    and held_ins: "held U s M \<Longrightarrow> b \<in> U \<Longrightarrow> b \<noteq> [] \<Longrightarrow> held U (db_insert D (sha3 b) b s) (add_mset b M)"
    and held_kill: "held U s M \<Longrightarrow> b \<in> U \<Longrightarrow> size M < 2 ^ 32 \<Longrightarrow> held U (db_kill D (sha3 b) s) (M - {#b#})"

lemma lookup_stored: "\<not> m_enforceRefs s \<Longrightarrow> mdb_lookup s h = stored s h"
  by (simp add: mdb_lookup_def stored_def split: option.split)

text \<open>The counts of a store against a collection, at the hashes that satisfy \<open>P\<close>.\<close>

definition counts :: "(h256 \<Rightarrow> bool) \<Rightarrow> 'a MemoryDB_scheme \<Rightarrow> bytes multiset \<Rightarrow> bool" where
  "counts P s M \<longleftrightarrow> (\<forall>h. P h \<longrightarrow> refs s h = of_nat (count (image_mset sha3 M) h))"

lemma count_image_inj:
  "inj_on sha3 (insert b (set_mset M)) \<Longrightarrow> count (image_mset sha3 M) (sha3 b) = count M b"
proof (induction M)
  case (add c M)
  have "sha3 c = sha3 b \<longleftrightarrow> c = b" using add.prems by (auto simp: inj_on_def)
  moreover have "inj_on sha3 (insert b (set_mset M))" using add.prems by (rule inj_on_subset) auto
  ultimately show ?case using add.IH by auto
qed simp

lemma counts_insert: "counts P s M \<Longrightarrow> counts P (mdb_insert (sha3 b) b s) (add_mset b M)"
  by (auto simp: counts_def refs_insert)

lemma counts_pos:
  assumes "counts P s M" "b \<in># M" "size M < 2 ^ 32" "P (sha3 b)"
  shows "refs s (sha3 b) > 0"
proof -
  have "count (image_mset sha3 M) (sha3 b) \<le> size M" using count_le_size [of "image_mset sha3 M" "sha3 b"] by simp
  then have "count (image_mset sha3 M) (sha3 b) < 2 ^ 32" using assms(3) by linarith
  moreover have "0 < count (image_mset sha3 M) (sha3 b)" using assms(2) by (simp add: count_greater_zero_iff)
  ultimately have "unat (of_nat (count (image_mset sha3 M) (sha3 b)) :: u32) > 0" by (simp add: unat_of_nat)
  then show ?thesis using assms(1,4) by (simp add: counts_def word_less_nat_alt)
qed

lemma counts_kill:
  assumes "counts P s M" "inj_on sha3 (insert b (set_mset M))" "size M < 2 ^ 32"
  shows "counts P (snd (mdb_kill (sha3 b) s)) (M - {#b#})"
  unfolding counts_def
proof (intro allI impI)
  fix h assume P: "P h"
  have rc: "refs s h = of_nat (count (image_mset sha3 M) h)" using assms(1) P by (simp add: counts_def)
  show "refs (snd (mdb_kill (sha3 b) s)) h = of_nat (count (image_mset sha3 (M - {#b#})) h)"
  proof (cases "b \<in># M")
    case True
    then obtain N where N: "M = add_mset b N" by (metis insert_DiffM)
    then have "refs s h = of_nat (count (image_mset sha3 N) h) + (if h = sha3 b then 1 else 0)" by (simp add: rc)
    moreover have "refs s (sha3 b) > 0" if "h = sha3 b" using counts_pos [OF assms(1) True assms(3)] P that by simp
    ultimately show ?thesis using N by (auto simp: refs_kill)
  next
    case False
    then have "count (image_mset sha3 M) (sha3 b) = 0" using count_image_inj [OF assms(2)] by (simp add: not_in_iff)
    with False show ?thesis using rc by (auto simp: refs_kill diff_single_trivial)
  qed
qed

text \<open>\<open>MemoryDB\<close>: the counts are those of the collection.\<close>

definition mdb_held :: "bytes set \<Rightarrow> MemoryDB \<Rightarrow> bytes multiset \<Rightarrow> bool" where
  "mdb_held U s M \<longleftrightarrow> inj_on sha3 U \<and> set_mset M \<subseteq> U \<and> \<not> m_enforceRefs s \<and> mdb_ok s \<and> counts (\<lambda>h. True) s M
     \<and> (\<forall>b \<in># M. b \<noteq> [] \<and> stored s (sha3 b) = b)"

lemma same_hash: "inj_on sha3 U \<Longrightarrow> b \<in> U \<Longrightarrow> c \<in> U \<Longrightarrow> sha3 c = sha3 b \<longleftrightarrow> c = b"
  by (auto simp: inj_on_def)

lemma inj_insert: "inj_on sha3 U \<Longrightarrow> set_mset M \<subseteq> U \<Longrightarrow> b \<in> U \<Longrightarrow> inj_on sha3 (insert b (set_mset M))"
  by (rule inj_on_subset [of _ U]) auto

lemma stored_exists: "\<not> m_enforceRefs s \<Longrightarrow> stored s h \<noteq> [] \<Longrightarrow> mdb_exists s h"
  by (auto simp: mdb_exists_def stored_def split: option.splits)

interpretation mdb_refs: ref_store mdb_ops mdb_held
proof
  fix U s M b
  assume h: "mdb_held U s M"
  then show "set_mset M \<subseteq> U" by (simp add: mdb_held_def)
  show "b \<in># M \<Longrightarrow> db_lookup mdb_ops s (sha3 b) = b" "b \<in># M \<Longrightarrow> db_exists mdb_ops s (sha3 b)"
    using h by (simp_all add: mdb_held_def mdb_ops_def lookup_stored stored_exists)
  assume b: "b \<in> U"
  have other: "sha3 c = sha3 b \<longleftrightarrow> c = b" if "c \<in># M" for c
    using h that b by (intro same_hash [of U]) (auto simp: mdb_held_def)
  show "b \<noteq> [] \<Longrightarrow> mdb_held U (db_insert mdb_ops (sha3 b) b s) (add_mset b M)"
    using h b other by (auto simp: mdb_held_def mdb_ops_def stored_insert counts_insert mdb_ok_ops)
  show "size M < 2 ^ 32 \<Longrightarrow> mdb_held U (db_kill mdb_ops (sha3 b) s) (M - {#b#})"
    using h b counts_kill [of "\<lambda>h. True" s M b] inj_insert [of U M b]
    by (auto simp: mdb_held_def mdb_ops_def stored_kill mdb_ok_ops dest: in_diffD)
qed

text \<open>With \<open>m_enforceRefs\<close> set, only what has a positive count can be read; exact counts make that everything.\<close>

definition mdb_enforced :: "bytes set \<Rightarrow> MemoryDB \<Rightarrow> bytes multiset \<Rightarrow> bool" where
  "mdb_enforced U s M \<longleftrightarrow> m_enforceRefs s \<and> size M < 2 ^ 32 \<and> mdb_held U (s\<lparr>m_enforceRefs := False\<rparr>) M"

interpretation mdb_strict: node_source mdb_ops mdb_enforced
proof
  fix U s M b
  assume h: "mdb_enforced U s M" and b: "b \<in># M"
  then have "counts (\<lambda>h. True) (s\<lparr>m_enforceRefs := False\<rparr>) M" "size M < 2 ^ 32" by (simp_all add: mdb_enforced_def mdb_held_def)
  from counts_pos [OF this(1) b this(2)] have "0 < refs s (sha3 b)" by (simp add: refs_def)
  with h b show "db_lookup mdb_ops s (sha3 b) = b"
    by (simp add: mdb_enforced_def mdb_held_def mdb_ops_def lookup_enforced) (simp add: stored_def)
qed

text \<open>\<open>OverlayDB\<close>: a hash that the database below does not know is counted as above; one that it knows may have any
  count, since the database never forgets.\<close>

definition agrees :: "'d ldb \<Rightarrow> bytes set \<Rightarrow> 'd OverlayDB \<Rightarrow> bool" where
  "agrees L U s \<longleftrightarrow> (\<forall>b \<in> U. db_read L s (sha3 b) \<in> {[], b} \<and> (case map_of (m_main s) (sha3 b) of None \<Rightarrow> True | Some (v, r) \<Rightarrow> v = b \<and> v \<noteq> []))"

definition odb_held :: "'d ldb \<Rightarrow> bytes set \<Rightarrow> 'd OverlayDB \<Rightarrow> bytes multiset \<Rightarrow> bool" where
  "odb_held L U s M \<longleftrightarrow> inj_on sha3 U \<and> set_mset M \<subseteq> U \<and> \<not> m_enforceRefs s \<and> m_db s \<noteq> None \<and> mdb_ok s \<and> keys_ok s
     \<and> counts (\<lambda>h. db_read L s h = []) s M
     \<and> (\<forall>b \<in># M. b \<noteq> [] \<and> odb_lookup L s (sha3 b) = b)
     \<and> agrees L U s"

lemma odb_lookup_stored:
  "\<not> m_enforceRefs s \<Longrightarrow> odb_lookup L s h = (if stored s h = [] then db_read L s h else stored s h)"
  by (auto simp: odb_lookup_def lookup_stored db_read_def Let_def)

lemma db_read_frame [simp]: "db_read L (mdb_insert h v s) = db_read L s" "db_read L (snd (mdb_kill h s)) = db_read L s"
  by (simp_all add: db_read_def fun_eq_iff)

lemma keys_ok_insert: "keys_ok s \<Longrightarrow> length h = 32 \<Longrightarrow> keys_ok (mdb_insert h v s)"
proof -
  assume k: "keys_ok s" "length h = 32"
  have "fst ` set (m_main (mdb_insert h v s)) \<subseteq> insert h (fst ` set (m_main s))"
    unfolding dom_map_of_conv_image_fst [symmetric] by (auto simp: map_of_insert split: if_splits)
  then have "length l = 32" if "l \<in> fst ` set (m_main (mdb_insert h v s))" for l
    using k that unfolding keys_ok_def by blast
  with k(1) show ?thesis by (simp add: keys_ok_def)
qed

lemma map_of_kill: "map_of (m_main (snd (mdb_kill h s))) k = (if k = h \<and> 0 < refs s h then Some (stored s h, refs s h - 1)
    else map_of (m_main s) k)"
  by (auto simp: mdb_kill_def refs_def stored_def update_conv split: option.splits)

lemma agrees_insert: "agrees L U s \<Longrightarrow> inj_on sha3 U \<Longrightarrow> b \<in> U \<Longrightarrow> b \<noteq> [] \<Longrightarrow> agrees L U (mdb_insert (sha3 b) b s)"
  by (auto simp: agrees_def map_of_insert dest: inj_onD)

lemma agrees_kill: "agrees L U s \<Longrightarrow> agrees L U (snd (mdb_kill h s))"
  by (auto simp: agrees_def map_of_kill refs_def stored_def split: option.splits)

lemma agrees_stored: "agrees L U s \<Longrightarrow> b \<in> U \<Longrightarrow> db_read L s (sha3 b) \<in> {[], b} \<and> stored s (sha3 b) \<in> {[], b}"
  by (auto simp: agrees_def stored_def split: option.splits)

lemma keys_ok_kill: "keys_ok s \<Longrightarrow> keys_ok (snd (mdb_kill h s))"
proof -
  assume k: "keys_ok s"
  have "fst ` set (m_main (snd (mdb_kill h s))) = fst ` set (m_main s)"
    unfolding dom_map_of_conv_image_fst [symmetric]
    by (auto simp: map_of_kill refs_def split: option.splits if_splits)
  with k show ?thesis by (simp add: keys_ok_def)
qed

interpretation odb_refs: ref_store "odb_ops L" "odb_held L" for L :: "'d ldb"
proof
  fix U and s :: "'d OverlayDB" and M b
  assume h: "odb_held L U s M"
  then have s: "inj_on sha3 U" "set_mset M \<subseteq> U" "\<not> m_enforceRefs s" "mdb_ok s" "keys_ok s" by (simp_all add: odb_held_def)
  then show "set_mset M \<subseteq> U" by simp
  show "b \<in># M \<Longrightarrow> db_lookup (odb_ops L) s (sha3 b) = b" using h by (simp add: odb_held_def odb_ops_def)
  show "b \<in># M \<Longrightarrow> db_exists (odb_ops L) s (sha3 b)"
    using h stored_exists [OF s(3), of "sha3 b"] odb_lookup_stored [OF s(3), of L "sha3 b"]
    by (auto simp: odb_held_def odb_ops_def odb_exists_def split: if_splits)
  assume b: "b \<in> U"
  have other: "sha3 c = sha3 b \<longleftrightarrow> c = b" if "c \<in> U" for c using same_hash [OF s(1) b that] .
  {
    assume ne: "b \<noteq> []"
    have "odb_lookup L (mdb_insert (sha3 b) b s) (sha3 c) = c" if "c = b \<or> c \<in># M" for c
    proof -
      have "c \<in> U" using that b s(2) by auto
      with that h other [of c] ne show ?thesis
        by (auto simp: odb_lookup_stored s(3) stored_insert odb_held_def)
    qed
    with h b ne agrees_insert [of L U s, OF _ s(1) b ne] show "odb_held L U (db_insert (odb_ops L) (sha3 b) b s) (add_mset b M)"
      by (simp add: odb_held_def odb_ops_def counts_insert mdb_ok_ops keys_ok_insert)
  }
  assume "size M < 2 ^ 32"
  note counts_kill [OF _ inj_insert [OF s(1,2) b] this, of "\<lambda>h. db_read L s h = []" s]
  moreover have "odb_lookup L (snd (mdb_kill (sha3 b) s)) h = odb_lookup L s h" for h
    using s(3) by (simp add: odb_lookup_stored stored_kill)
  moreover have "\<forall>c \<in># M - {#b#}. c \<in># M" by (auto dest: in_diffD)
  ultimately show "odb_held L U (db_kill (odb_ops L) (sha3 b) s) (M - {#b#})"
    using h s(2) by (auto simp: odb_held_def odb_ops_def odb_kill_def mdb_ok_ops keys_ok_kill agrees_kill)
qed

end
