(* ===== verification/TrieLookup.thy ===== *)
theory TrieLookup
  imports TrieRep
begin

text \<open>
  Reading a trie: \<open>atAux\<close> on the item of a tree whose references the database holds gives what the tree
  holds. The theory also has the shared facts about one node: following a child, and the two comparisons of
  keys the recursions make.
\<close>

locale trie_reader = rlp_lib R + node_source D held
  for R :: "'i rlp" and D :: "'s db_ops" and held :: "bytes set \<Rightarrow> 's \<Rightarrow> bytes multiset \<Rightarrow> bool"
begin

lemma child_of:
  assumes "c \<noteq> NNull" "held U s M" "own R c \<subseteq># M"
  shows "child_node R D (cref R c) s = (Inr (ser R c), s)"
proof (cases "32 \<le> length (ser_data R c)")
  case True
  then have "ser_data R c \<in># M" using assms(3) by (simp add: own_def big_def mset_subset_eq_insertD)
  then have "db_lookup D s (sha3 (ser_data R c)) = ser_data R c" by (rule held_look [OF assms(2)])
  moreover have "rlp_toHash R 32 (rlp_bytes R (sha3 (ser_data R c))) = Some (sha3 (ser_data R c))" by (rule R(8)) simp
  ultimately show ?thesis
    using True by (simp add: child_node_def cref_cases R db_node_def bind_Inr)
next
  case False
  then show ?thesis using assms(1) by (simp add: child_node_def cref_cases ser_list)
qed

lemma key_tests:
  assumes "wfn n" "n = NLeaf ns v \<or> n = NExt ns c" "slice_ok k"
  shows "slice_eq k (node_key R (ser R n)) \<longleftrightarrow> nibbles_of k = ns" "slice_eq (node_key R (ser R n)) k \<longleftrightarrow> nibbles_of k = ns"
    "slice_contains k (node_key R (ser R n)) \<longleftrightarrow> take (length ns) (nibbles_of k) = ns"
    "slice_shared k (node_key R (ser R n)) = lcp (nibbles_of k) ns"
  using ser_key [OF assms(1,2)] slice_comparisons [OF assms(3), of "node_key R (ser R n)"]
    slice_comparisons [OF _ assms(3), of "node_key R (ser R n)"] slice_lcp [OF assms(3), of "node_key R (ser R n)"]
  by auto

lemma own_child: "c \<in> set cs \<Longrightarrow> own R c \<subseteq># node_refs R (NBranch cs w)"
  by (induction cs) (auto intro: subset_mset.add_increasing subset_mset.add_increasing2)

lemma size_mid: "slice_size (slice_mid k i) = slice_size k - i"
  using length_nibbles_of [of "slice_mid k i"] by (simp add: nibbles_of_mid)

lemma own_refs: "own R c \<subseteq># M \<Longrightarrow> node_refs R c \<subseteq># M"
  unfolding own_def by (rule subset_mset.order_trans [OF mset_subset_eq_add_right])

lemma atAux_get:
  assumes "held U s M"
  shows "wfn n \<Longrightarrow> slice_ok k \<Longrightarrow> node_refs R n \<subseteq># M \<Longrightarrow> slice_size k < fuel
    \<Longrightarrow> atAux fuel R D (ser R n) k s = (Inr (case trie_get n (nibbles_of k) of None \<Rightarrow> [] | Some v \<Rightarrow> v), s)"
proof (induction n arbitrary: k fuel)
  case NNull
  then obtain m where "fuel = Suc m" by (cases fuel) simp_all
  then show ?case by (simp add: ser_list)
next
  case (NLeaf ns v)
  then obtain m where f: "fuel = Suc m" by (cases fuel) simp_all
  note w = NLeaf.prems(1) and k = NLeaf.prems(2)
  show ?case
    using ser_key(4) [OF w, of ns v] key_tests [OF w _ k, of ns v] ser_count [OF w]
    by (simp add: f ser_list ser_at R Let_def)
next
  case (NExt ns c)
  then obtain m where f: "fuel = Suc m" by (cases fuel) simp_all
  note w = NExt.prems(1) and k = NExt.prems(2)
  have leaf: "\<not> node_isLeaf R (ser R (NExt ns c))" using ser_key(4) [OF w, of ns _ c] by simp
  have size: "slice_size (node_key R (ser R (NExt ns c))) = length ns" using ser_key(3) [OF w, of ns _ c] by simp
  have con: "slice_contains k (node_key R (ser R (NExt ns c))) \<longleftrightarrow> take (length ns) (nibbles_of k) = ns"
    using key_tests(3) [OF w _ k, of ns _ c] by simp
  show ?case
  proof (cases "take (length ns) (nibbles_of k) = ns")
    case True
    then have "length (take (length ns) (nibbles_of k)) = length ns" by simp
    then have le: "length ns \<le> slice_size k" by simp
    have "0 < length ns" using w by simp
    then have "slice_size (slice_mid k (length ns)) < m" using NExt.prems(4) f le unfolding size_mid by linarith
    then have "atAux m R D (ser R c) (slice_mid k (length ns)) s
        = (Inr (case trie_get c (drop (length ns) (nibbles_of k)) of None \<Rightarrow> [] | Some v \<Rightarrow> v), s)"
      using NExt.IH [of "slice_mid k (length ns)" m] NExt.prems f le
      by (simp add: nibbles_of_mid slice_ok_mid own_refs)
    moreover have "child_node R D (cref R c) s = (Inr (ser R c), s)"
      using w NExt.prems(3) by (intro child_of [OF _ assms]) simp_all
    ultimately show ?thesis
      using True leaf size con ser_count [OF w] by (simp add: f ser_list ser_at Let_def bind_Inr)
  qed (use leaf con ser_count [OF w] in \<open>simp add: f ser_list Let_def\<close>)
next
  case (NBranch cs w)
  then obtain m where f: "fuel = Suc m" by (cases fuel) simp_all
  note wf = NBranch.prems(1) and k = NBranch.prems(2)
  have len: "length cs = 16" using wf by simp
  show ?case
  proof (cases "nibbles_of k")
    case Nil
    then have "slice_size k = 0" by (metis length_nibbles_of list.size(3))
    then show ?thesis using Nil ser_count [OF wf] len by (simp add: f ser_list ser_at R)
  next
    case (Cons x xs)
    then have x: "unat x < 16" using nibs_nibbles_of [of k] by simp
    have mem: "cs ! unat x \<in> set cs" using x len by simp
    note hd = slice_nth_hd [OF Cons]
    have xs: "nibbles_of (slice_mid k 1) = xs" "slice_ok (slice_mid k 1)" "slice_size (slice_mid k 1) = length xs"
      using Cons k hd length_nibbles_of [of "slice_mid k 1"] by (simp_all add: nibbles_of_mid slice_ok_mid)
    have sub: "own R (cs ! unat x) \<subseteq># M" using own_child [OF mem] NBranch.prems(3) by (rule subset_mset.order_trans)
    show ?thesis
    proof (cases "cs ! unat x = NNull")
      case True
      then show ?thesis using Cons x len hd ser_count [OF wf] by (simp add: f ser_list ser_at cref_empty Let_def)
    next
      case False
      have "atAux m R D (ser R (cs ! unat x)) (slice_mid k 1) s
          = (Inr (case trie_get (cs ! unat x) xs of None \<Rightarrow> [] | Some v \<Rightarrow> v), s)"
        using NBranch.IH [OF mem, of "slice_mid k 1" m] wf mem xs NBranch.prems(4) f hd sub
        by (simp add: own_refs)
      then show ?thesis
        using Cons x len hd ser_count [OF wf] False child_of [OF False assms sub]
        by (simp add: f ser_list ser_at cref_empty Let_def bind_Inr)
    qed
  qed
qed

end

text \<open>For writing, the database also has to keep count.\<close>

locale trie_lib = trie_reader R D held + ref_store D held
  for R :: "'i rlp" and D :: "'s db_ops" and held :: "bytes set \<Rightarrow> 's \<Rightarrow> bytes multiset \<Rightarrow> bool"

interpretation tree_lib: rlp_lib tree_rlp
  by unfold_locales (rule tree_rlp_ok)

interpretation strict_trie: trie_reader tree_rlp mdb_ops mdb_enforced
  by unfold_locales

interpretation mdb_trie: trie_lib tree_rlp mdb_ops mdb_held
  by unfold_locales

interpretation odb_trie: trie_lib tree_rlp "odb_ops L" "odb_held L" for L :: "'d ldb"
  by unfold_locales

end
