(* ===== verification/TrieMerge.thy ===== *)
theory TrieMerge
  imports TrieLookup
begin

text \<open>
  Insertion refines \<open>tins\<close>: \<open>mergeAt\<close> on the item of a tree gives the serialisation of the tree with the
  entry, releases every reference of the old tree it no longer needs and takes one for every new one.
  The hashes have to be free of collisions on a set \<open>U\<close> that holds everything stored on the way:
  what is in the database, the nodes of the result, and the two nodes that live only between a cleave
  and the branch that follows it (\<open>temps\<close>).
\<close>

section \<open>Nodes written on the way\<close>

primrec subs :: "node \<Rightarrow> node set" where
  "subs NNull = {NNull}"
| "subs (NLeaf ns v) = {NLeaf ns v}"
| "subs (NExt ns c) = insert (NExt ns c) (subs c)"
| "subs (NBranch cs w) = insert (NBranch cs w) (\<Union> (set (map subs cs)))"

lemma subs_self [simp]: "n \<in> subs n"
  by (cases n) auto

definition split_temps :: "node \<Rightarrow> bytes \<Rightarrow> node set" where
  "split_temps n k = (let m = tn_drop (lcp k (tn_key n)) n in insert m (subs (branched m)))"

primrec temps :: "node \<Rightarrow> bytes \<Rightarrow> node set" where
  "temps NNull = (\<lambda>k. {})"
| "temps (NLeaf ns w) = (\<lambda>k. if k = ns then {} else split_temps (NLeaf ns w) k)"
| "temps (NExt ns c) = (\<lambda>k. if take (length ns) k = ns then temps c (drop (length ns) k) else split_temps (NExt ns c) k)"
| "temps (NBranch cs w) = (\<lambda>k. case k of [] \<Rightarrow> {} | x # xs \<Rightarrow> if unat x < length cs then (map temps cs ! unat x) xs else {})"

definition touched :: "node \<Rightarrow> bytes \<Rightarrow> bytes \<Rightarrow> node set" where
  "touched n k v = temps n k \<union> subs (tins n k v)"

section \<open>Nodes with a single item\<close>

definition lonely :: "'i rlp \<Rightarrow> 'i \<Rightarrow> bool" where
  "lonely R it \<longleftrightarrow> rlp_itemCount R it = 17 \<and> length (filter (\<lambda>i. \<not> rlp_isEmpty R (rlp_at R it i)) [0..<17]) = 1"

definition clean :: "'i rlp \<Rightarrow> bytes multiset \<Rightarrow> bool" where
  "clean R M \<longleftrightarrow> (\<forall>b \<in># M. \<not> lonely R (rlp_parse R b))"

lemma clean_simps [simp]: "clean R {#}" "clean R (add_mset b M) \<longleftrightarrow> \<not> lonely R (rlp_parse R b) \<and> clean R M"
  "clean R (M + N) \<longleftrightarrow> clean R M \<and> clean R N"
  by (auto simp: clean_def)

lemma clean_diff: "clean R M \<Longrightarrow> clean R (M - N)"
  by (auto simp: clean_def dest: in_diffD)

context rlp_lib
begin

lemma lonely_branch:
  assumes "length cs = 16"
  shows "lonely R (ser R (NBranch cs w)) \<longleftrightarrow> occupied cs w = 1"
proof -
  have at: "rlp_at R (ser R (NBranch cs w)) i = (if i < 16 then cref R (cs ! i) else rlp_bytes R w)" if "i < 17" for i
    using that assms by (cases "i < 16") (auto simp: ser_at dest: less_antisym)
  have "length (filter (\<lambda>i. \<not> rlp_isEmpty R (rlp_at R (ser R (NBranch cs w)) i)) [0..<17])
      = length (filter (\<lambda>i. cs ! i \<noteq> NNull) [0..<16]) + (if w = [] then 0 else 1)"
  proof -
    have "[0..<17] = [0..<16] @ [16 :: nat]" by (simp add: upt_rec)
    moreover have "filter (\<lambda>i. \<not> rlp_isEmpty R (rlp_at R (ser R (NBranch cs w)) i)) [0..<16] = filter (\<lambda>i. cs ! i \<noteq> NNull) [0..<16]"
      by (rule filter_cong) (simp_all add: at cref_empty)
    ultimately show ?thesis by (simp add: at R del: upt_Suc)
  qed
  moreover have "filter (\<lambda>c. c \<noteq> NNull) cs = map ((!) cs) (filter (\<lambda>i. cs ! i \<noteq> NNull) [0..<16])"
    by (subst map_nth [of cs, symmetric]) (simp only: filter_map comp_def assms)
  ultimately show ?thesis
    using ser_count [of "NBranch cs w"] assms by (simp add: lonely_def rlp_itemCount_def ser_items ser_list occupied_def)
qed

lemma not_lonely: "canon n \<Longrightarrow> \<not> lonely R (ser R n)"
proof -
  assume c: "canon n"
  show ?thesis
  proof (cases n)
    case (NBranch cs w)
    with c show ?thesis by (simp add: lonely_branch)
  qed (use ser_count [OF canon_wfn [OF c]] in \<open>simp_all add: lonely_def\<close>)
qed

lemma clean_sum: "(\<And>c. c \<in> set cs \<Longrightarrow> clean R (own R c)) \<Longrightarrow> clean R (sum_list (map (own R) cs))"
  by (induction cs) simp_all

lemma clean_own: "canon n \<Longrightarrow> clean R (own R n) \<and> clean R (node_refs R n)"
proof (induction n)
  case (NExt ns c)
  then show ?case using not_lonely [OF NExt.prems] by (simp add: own_def big_def)
next
  case (NBranch cs w)
  have "clean R (node_refs R (NBranch cs w))" unfolding node_refs_branch
    by (rule clean_sum) (use NBranch in simp)
  then show ?case using not_lonely [OF NBranch.prems] by (simp add: own_def big_def)
qed (use not_lonely in \<open>simp_all add: own_def big_def\<close>)

lemma own_update:
  "i < length cs \<Longrightarrow> sum_list (map (own R) (cs[i := c])) + own R (cs ! i) = sum_list (map (own R) cs) + own R c"
proof (induction cs arbitrary: i)
  case (Cons d cs)
  then show ?case by (cases i) (auto simp: ac_simps)
qed simp

lemma refs_tn_drop [simp]: "node_refs R (tn_drop i n) = node_refs R n"
  by (cases n) simp_all

lemma sum_replicate_empty [simp]: "sum_list (replicate n {#}) = {#}"
  by (induction n) simp_all

lemma refs_fresh: "n < 16 \<Longrightarrow> sum_list (map (own R) ((replicate 16 NNull)[n := c])) = own R c"
  using own_update [of n "replicate 16 NNull" c] by simp

lemma wfn_tn_drop: "wfn n \<Longrightarrow> n = NLeaf ns v \<or> n = NExt ns c \<and> i < length ns \<Longrightarrow> wfn (tn_drop i n)"
  by auto

lemma out_eqs:
  "out_list R [rlp_bytes R (hp_spec True ns), rlp_bytes R v] = ser_data R (NLeaf ns v)"
  "out_list R [rlp_bytes R (hp_spec False ns), cref R c] = ser_data R (NExt ns c)"
  "out_list R (map (cref R) cs @ [rlp_bytes R w]) = ser_data R (NBranch cs w)"
  by (simp_all add: out_list_def ser_data_def ser_eqs)

lemma cref_NNull: "cref R NNull = rlp_bytes R []"
  by (simp add: cref_def collapse_def ser_NNull R)

lemma branch_ats: "length cs = 16 \<Longrightarrow> map (rlp_at R (ser R (NBranch cs w))) [0..<16] = map (cref R) cs"
  by (rule nth_equalityI) (simp_all add: ser_at)

lemma branch_items_ser:
  assumes "length cs = 16" "i < 16"
  shows "(branch_items R (ser R (NBranch cs w)))[i := cref R c] = map (cref R) (cs[i := c]) @ [rlp_bytes R w]"
proof -
  have "[0..<17] = [0..<16] @ [16 :: nat]" by (simp add: upt_rec)
  then have "branch_items R (ser R (NBranch cs w)) = map (cref R) cs @ [rlp_bytes R w]"
    unfolding branch_items_def by (simp only: map_append branch_ats [OF assms(1)]) (simp add: ser_at assms(1))
  then show ?thesis using assms by (simp add: list_update_append map_update)
qed

end

section \<open>Steps on the database\<close>

context trie_lib
begin

lemma kill_own:
  assumes "held U s (M + own R n)" "size (M + own R n) < 2 ^ 32"
  shows "\<exists>s'. killNode R D (ser R n) s = (Inr (), s') \<and> held U s' (M + node_refs R n)"
proof (cases "32 \<le> length (ser_data R n)")
  case True
  let ?b = "ser_data R n"
  have own: "own R n = add_mset ?b (node_refs R n)" using True by (simp add: own_def big_def)
  then have "?b \<in> U" using held_in [OF assms(1)] by auto
  from held_kill [OF assms(1) this assms(2)] own have "held U (db_kill D (sha3 ?b) s) (M + node_refs R n)" by simp
  with True show ?thesis by (simp add: killNode_def forceKillNode_def ser_data_def)
next
  case False
  then show ?thesis using assms by (simp add: killNode_def own_def big_def ser_data_def)
qed

text \<open>A kill of a node that is nowhere referenced changes nothing.\<close>

lemma kill_absent:
  assumes "held U s M" "size M < 2 ^ 32" "ser_data R n \<in> U" "ser_data R n \<notin># M"
  shows "\<exists>s'. killNode R D (ser R n) s = (Inr (), s') \<and> held U s' M"
  using held_kill [OF assms(1,3,2)] assms
  by (cases "32 \<le> length (ser_data R n)") (simp_all add: killNode_def forceKillNode_def diff_single_trivial flip: ser_data_def)

lemma killNode_at_own: "killNode_at R D (ser R n) (sha3 (ser_data R n)) = killNode R D (ser R n)"
  by (simp add: killNode_at_def killNode_def ser_data_def)

lemma kill_unless:
  assumes "held U s (M + own R n)" "size (M + own R n) < 2 ^ 32" "inl \<Longrightarrow> big R n = {#}"
  shows "\<exists>s'. (if inl then ret () else killNode_at R D (ser R n) (sha3 (ser_data R n))) s = (Inr (), s')
    \<and> held U s' (M + node_refs R n)"
  using kill_own [OF assms(1,2)] assms unfolding killNode_at_own by (cases inl) (simp_all add: own_def)

lemma stream:
  assumes "held U s M" "ser_data R n \<in> U"
  shows "\<exists>s'. streamNode R D (ser_data R n) s = (Inr (cref R n), s') \<and> held U s' (M + big R n)"
proof (cases "32 \<le> length (ser_data R n)")
  case True
  then have "streamNode R D (ser_data R n) s = (Inr (cref R n), db_insert D (sha3 (ser_data R n)) (ser_data R n) s)"
    by (simp add: streamNode_def forceInsertNode_def forceInsertNode_at_def bind_def cref_cases Let_def)
  with True held_ins [OF assms] show ?thesis by (simp add: big_def)
next
  case False
  with assms(1) show ?thesis by (simp add: streamNode_def cref_cases big_def)
qed

lemma place_null: "place R D (ser R NNull) k v s = (Inr (ser_data R (NLeaf (nibbles_of k) v)), s)" if "slice_ok k"
proof -
  have "length (rlp_data R (ser R NNull)) = 1" by (simp add: ser_NNull R)
  then show ?thesis
    using that by (simp add: place_def killNode_def ser_list hexPrefixEncode_spec out_eqs)
qed

lemma place_leaf:
  assumes "wfn (NLeaf ns w)" "held U s (M + own R (NLeaf ns w))" "size (M + own R (NLeaf ns w)) < 2 ^ 32"
  shows "\<exists>s'. place R D (ser R (NLeaf ns w)) k v s = (Inr (ser_data R (NLeaf ns v)), s') \<and> held U s' M"
  using kill_own [OF assms(2,3)] ser_count [OF assms(1)]
  by (auto simp: place_def bind_def ser_list ser_at out_eqs)

lemma place_branch:
  assumes "length cs = 16" "killNode R D (ser R (NBranch cs w)) s = (Inr (), s')"
  shows "place R D (ser R (NBranch cs w)) k v s = (Inr (ser_data R (NBranch cs v)), s')"
  using ser_count [of "NBranch cs w"] assms
  by (simp add: place_def bind_def ser_list branch_ats out_eqs rlp_itemCount_def ser_items)

lemma cleve_node:
  assumes "wfn n" "n = NLeaf ns v \<or> n = NExt ns c" "sh \<le> length ns"
    and "held U s (M + own R n)" "size (M + own R n) < 2 ^ 32" "ser_data R (tn_drop sh n) \<in> U"
  shows "\<exists>s'. cleve R D (ser R n) sh s = (Inr (ser_data R (cleved sh n)), s') \<and> held U s' (M + own R (tn_drop sh n))"
proof -
  note key = ser_key [OF assms(1,2)]
  let ?k = "node_key R (ser R n)"
  obtain s1 where s1: "killNode R D (ser R n) s = (Inr (), s1)" "held U s1 (M + node_refs R n)"
    using kill_own [OF assms(4,5)] by blast
  have bot: "hexPrefixEncode_range (ns_data ?k) leaf (int sh) (- 1) (ns_offset ?k) = hp_spec leaf (drop sh ns)" for leaf
    using encode_range_slice [OF key(2), of sh "length ns" "- 1" leaf] key(1,3) assms(3) by simp
  have top: "hexPrefixEncode_range (ns_data ?k) False 0 (int sh) (ns_offset ?k) = hp_spec False (take sh ns)"
    using encode_range_slice [OF key(2), of 0 sh "int sh" False] key(1,3) assms(3) by simp
  have out: "out_list R [rlp_bytes R (hp_spec (node_isLeaf R (ser R n)) (drop sh ns)), rlp_at R (ser R n) (Suc 0)] = ser_data R (tn_drop sh n)"
    using assms(2) key(4) by (auto simp: out_eqs ser_at)
  obtain s2 where s2: "streamNode R D (ser_data R (tn_drop sh n)) s1 = (Inr (cref R (tn_drop sh n)), s2)"
      "held U s2 (M + node_refs R n + big R (tn_drop sh n))"
    using stream [OF s1(2) assms(6)] by blast
  have "tn_key n = ns" using assms(2) by auto
  then have "cleve R D (ser R n) sh s = (Inr (ser_data R (cleved sh n)), s2)"
    by (simp add: cleve_def bind_def s1 s2 bot top out out_eqs cleved_def Let_def)
  with s2(2) show ?thesis by (simp add: own_def ac_simps)
qed

lemma branch_node:
  assumes "wfn n" "n = NLeaf ns v \<or> n = NExt ns c"
    and "held U s (M + own R n)" "size (M + own R n) < 2 ^ 32" "subs (branched n) \<subseteq> S" "ser_data R ` S \<subseteq> U"
  shows "\<exists>s'. branch R D (ser R n) s = (Inr (ser_data R (branched n)), s') \<and> held U s' (M + node_refs R (branched n))"
proof -
  note key = ser_key [OF assms(1,2)]
  let ?k = "node_key R (ser R n)"
  obtain s1 where s1: "killNode R D (ser R n) s = (Inr (), s1)" "held U s1 (M + node_refs R n)"
    using kill_own [OF assms(3,4)] by blast
  have rep: "map (cref R) (replicate 16 NNull) = replicate 16 (rlp_bytes R [])" by (simp add: cref_NNull)
  show ?thesis
  proof (cases ns)
    case Nil
    then have n: "n = NLeaf [] v" using assms(1,2) by auto
    have "out_list R (replicate 16 (rlp_bytes R []) @ [rlp_bytes R v]) = ser_data R (NBranch (replicate 16 NNull) v)"
      using out_eqs(3) [of "replicate 16 NNull" v] unfolding rep .
    then have "branch R D (ser R n) s = (Inr (ser_data R (branched n)), s1)"
      using s1(1) key(3) Nil n by (simp add: branch_def bind_def ser_at Let_def)
    with s1 n show ?thesis by simp
  next
    case (Cons x xs)
    have x: "unat x < 16" using assms(1,2) Cons by auto
    have hd: "slice_nth ?k 0 = x" "slice_size ?k = Suc (length xs)" using slice_nth_hd key(1) Cons by blast+
    have enc: "hexPrefixEncode (slice_mid ?k (Suc 0)) leaf = hp_spec leaf xs" for leaf
      using hexPrefixEncode_spec [OF slice_ok_mid [OF key(2)], of "Suc 0" leaf] hd(2) key(1) Cons by (simp add: nibbles_of_mid)
    define d where "d = (case n of NExt ms e \<Rightarrow> if xs = [] then e else NExt xs e | _ \<Rightarrow> NLeaf xs v)"
    have b: "branched n = one_child x d" "node_refs R (branched n) = own R d"
      using assms(2) Cons x by (auto simp: d_def one_child_def refs_fresh)
    have dU: "ser_data R d \<in> U"
    proof -
      have "d \<in> set ((replicate 16 NNull)[unat x := d])" using x by (simp add: set_update_memI)
      then have "d \<in> subs (branched n)" unfolding b one_child_def by force
      with assms(5,6) show ?thesis by blast
    qed
    have out: "out_list R ((replicate 16 (rlp_bytes R []))[unat x := cref R d] @ [rlp_bytes R []]) = ser_data R (branched n)"
      unfolding b one_child_def by (simp add: map_update cref_NNull flip: out_eqs(3))
    show ?thesis
    proof (cases "node_isLeaf R (ser R n) \<or> 1 < slice_size ?k")
      case True
      have "out_list R [rlp_bytes R (hp_spec (node_isLeaf R (ser R n)) xs), rlp_at R (ser R n) (Suc 0)] = ser_data R d"
        using assms(2) key(4) True hd(2) by (auto simp: d_def out_eqs ser_at)
      moreover obtain s2 where s2: "streamNode R D (ser_data R d) s1 = (Inr (cref R d), s2)" "held U s2 (M + node_refs R n + big R d)"
        using stream [OF s1(2) dU] by blast
      moreover have "node_refs R n = node_refs R d" using assms(2) key(4) True hd(2) by (auto simp: d_def)
      ultimately show ?thesis
        using s1(1) hd True x out b(2) by (simp add: branch_def bind_def Let_def enc own_def ac_simps)
    next
      case False
      then have n: "n = NExt ns c" "xs = []" using assms(2) key(4) hd(2) by auto
      then have "branch R D (ser R n) s = (Inr (ser_data R (branched n)), s1)"
        using s1(1) hd False out by (simp add: branch_def bind_def Let_def d_def ser_at)
      with s1(2) n b(2) show ?thesis by (simp add: d_def)
    qed
  qed
qed

lemma mergeAtAux_step:
  assumes "held U s (M + own R c)" "wfn c"
    and "rec (ser R c) (sha3 (ser_data R c)) k v (big R c = {#}) s = (Inr (ser_data R c'), s1)"
    and "held U s1 (M + node_refs R c')" "ser_data R c' \<in> U"
  shows "\<exists>s2. mergeAtAux rec R D (cref R c) k v s = (Inr (cref R c'), s2) \<and> held U s2 (M + own R c')"
proof -
  obtain s2 where s2: "streamNode R D (ser_data R c') s1 = (Inr (cref R c'), s2)" "held U s2 (M + node_refs R c' + big R c')"
    using stream [OF assms(4,5)] by blast
  have "mergeAtAux rec R D (cref R c) k v s = (Inr (cref R c'), s2)"
  proof (cases "32 \<le> length (ser_data R c)")
    case True
    then have c: "c \<noteq> NNull" using big_NNull by (auto simp: big_def)
    from child_of [OF c assms(1)] have "child_node R D (cref R c) s = (Inr (ser R c), s)" by simp
    moreover have "\<not> rlp_isList R (cref R c)" using True by (simp add: cref_cases R)
    moreover have "big R c \<noteq> {#}" using True by (simp add: big_def)
    ultimately show ?thesis using assms(3) s2(1) c
      by (simp add: mergeAtAux_def child_node_def cref_empty bind_Inr ser_data_def)
  next
    case False
    then have "cref R c = ser R c" "big R c = {#}" by (simp_all add: cref_cases big_def)
    then show ?thesis using assms(3) s2(1)
      by (simp add: mergeAtAux_def ser_list bind_Inr ser_data_def)
  qed
  with s2(2) show ?thesis by (auto simp: own_def ac_simps)
qed

end

end
