(* ===== verification/TrieInsert.thy ===== *)
theory TrieInsert
  imports TrieMerge
begin

text \<open>The recursion of \<open>mergeAt\<close>: an entry put into a fresh branch, a cleave, and then the whole insertion.\<close>

context trie_lib
begin

lemma merge_null:
  "slice_ok k \<Longrightarrow> mergeAt (Suc m) R D (ser R NNull) h k v inl s = (Inr (ser_data R (NLeaf (nibbles_of k) v)), s)"
  using place_null by (simp add: ser_list)

text \<open>A fresh branch is not in the database: the kill of \<open>place\<close> finds nothing.\<close>

lemma merge_put:
  assumes "wfn (NBranch cs w)" "slice_ok k" "nibbles_of k = ks" "case ks of [] \<Rightarrow> True | x # xs \<Rightarrow> cs ! unat x = NNull"
    and "held U s (M + node_refs R (NBranch cs w))" "size (M + node_refs R (NBranch cs w)) < 2 ^ 32"
    and "ser_data R (NBranch cs w) \<in> U" "ks = [] \<Longrightarrow> ser_data R (NBranch cs w) \<notin># M + node_refs R (NBranch cs w)"
    and "subs (put (NBranch cs w) ks v) \<subseteq> S" "ser_data R ` S \<subseteq> U" "2 \<le> fuel"
  shows "\<exists>s'. mergeAt fuel R D (ser R (NBranch cs w)) h k v True s = (Inr (ser_data R (put (NBranch cs w) ks v)), s')
    \<and> held U s' (M + node_refs R (put (NBranch cs w) ks v))"
proof -
  obtain m where f: "fuel = Suc (Suc m)" using add_2_eq_Suc le_Suc_ex [OF assms(11)] by blast
  have len: "length cs = 16" using assms(1) by simp
  note count = ser_count [OF assms(1)]
  show ?thesis
  proof (cases ks)
    case Nil
    then have size: "slice_size k = 0" using assms(3) by (metis length_nibbles_of list.size(3))
    obtain s1 where s1: "killNode R D (ser R (NBranch cs w)) s = (Inr (), s1)" "held U s1 (M + node_refs R (NBranch cs w))"
      using kill_absent [OF assms(5,6,7) assms(8) [OF Nil]] by blast
    have "mergeAt fuel R D (ser R (NBranch cs w)) h k v True s = (Inr (ser_data R (NBranch cs v)), s1)"
      using place_branch [OF len s1(1), of k v] size count by (simp add: f ser_list)
    with s1(2) Nil show ?thesis by simp
  next
    case (Cons x xs)
    have x: "unat x < 16" using assms(3) Cons nibs_nibbles_of [of k] by simp
    have null: "cs ! unat x = NNull" using assms(4) Cons by simp
    note hd = slice_nth_hd [of k x xs, unfolded assms(3), OF Cons]
    have mid: "nibbles_of (slice_mid k 1) = xs" "slice_ok (slice_mid k 1)"
      using assms(2,3) Cons hd by (simp_all add: nibbles_of_mid slice_ok_mid)
    let ?l = "NLeaf xs v"
    have lU: "ser_data R ?l \<in> U"
    proof -
      have "?l \<in> set (cs[unat x := ?l])" using x len by (simp add: set_update_memI)
      then have "?l \<in> subs (put (NBranch cs w) ks v)" unfolding Cons by force
      with assms(9,10) show ?thesis by blast
    qed
    have "mergeAt (Suc m) R D (ser R NNull) (sha3 (ser_data R NNull)) (slice_mid k 1) v (big R NNull = {#}) s
        = (Inr (ser_data R ?l), s)"
      using merge_null [OF mid(2), of m "sha3 (ser_data R NNull)" v] mid(1) by simp
    from mergeAtAux_step [where c = NNull and c' = ?l and rec = "mergeAt (Suc m) R D", OF _ _ this] assms(5) lU
    obtain s2 where s2: "mergeAtAux (mergeAt (Suc m) R D) R D (cref R NNull) (slice_mid k 1) v s = (Inr (cref R ?l), s2)"
        "held U s2 (M + node_refs R (NBranch cs w) + own R ?l)"
      by auto
    have "mergeAt fuel R D (ser R (NBranch cs w)) h k v True s = (Inr (ser_data R (put (NBranch cs w) ks v)), s2)"
      using hd x len null count s2(1) unfolding f mergeAt.simps(2) [of "Suc m"]
      by (simp add: ser_list ser_at Cons bind_Inr branch_items_ser out_eqs Let_def del: mergeAt.simps)
    moreover have "node_refs R (put (NBranch cs w) ks v) = node_refs R (NBranch cs w) + own R ?l"
      using own_update [of "unat x" cs ?l] x len null by (simp add: Cons)
    ultimately show ?thesis using s2(2) by (auto simp: ac_simps)
  qed
qed

lemma branched_lonely:
  assumes "canon n" "\<not> is_branch n" "n \<noteq> NNull"
  shows "lonely R (ser R (branched n))" "wfn (branched n)" "clean R (node_refs R (branched n))"
proof -
  obtain cs w where b: "branched n = NBranch cs w" "length cs = 16" "\<forall>c \<in> set cs. canon c" "occupied cs w = 1"
    using branched_shape [OF assms] by blast
  show "lonely R (ser R (branched n))" using b by (simp add: lonely_branch)
  show "wfn (branched n)" using b by (simp add: canon_wfn)
  show "clean R (node_refs R (branched n))" unfolding b node_refs_branch by (rule clean_sum) (use b clean_own in blast)
qed

lemma not_in_clean: "clean R M \<Longrightarrow> lonely R (ser R n) \<Longrightarrow> ser_data R n \<notin># M"
  by (auto simp: clean_def)

text \<open>A leaf or an extension that shares nothing with the key becomes a branch.\<close>

lemma branched_refs:
  assumes "canon n" "\<not> is_branch n" "n \<noteq> NNull"
  shows "size (node_refs R (branched n)) \<le> Suc (size (node_refs R n))"
proof (cases n rule: branched.cases)
  case (1 v)
  then show ?thesis by simp
next
  case (2 x xs v)
  then show ?thesis using assms by (simp add: one_child_def refs_fresh own_def big_def)
next
  case (3 x xs c)
  then show ?thesis using assms by (simp add: one_child_def refs_fresh own_def big_def)
qed (use assms in auto)

lemma merge_apart:
  assumes "canon n" "\<not> is_branch n" "n \<noteq> NNull" "lcp ks (tn_key n) = 0" "splits n ks"
    and "slice_ok k" "nibbles_of k = ks" "held U s (M + own R n)" "size (M + own R n) + 1 < 2 ^ 32" "clean R M"
    and "subs (branched n) \<subseteq> S" "subs (put (branched n) ks v) \<subseteq> S" "ser_data R ` S \<subseteq> U" "3 \<le> fuel"
  shows "\<exists>s'. mergeAt fuel R D (ser R n) h k v inl s = (Inr (ser_data R (put (branched n) ks v)), s')
    \<and> held U s' (M + node_refs R (put (branched n) ks v))"
proof -
  obtain m where f: "fuel = Suc m" "2 \<le> m" using assms(14) by (cases fuel) auto
  obtain ns u c where n: "n = NLeaf ns u \<or> n = NExt ns c" using assms(2,3) by (cases n) auto
  then have key: "tn_key n = ns" by auto
  have wf: "wfn n" using canon_wfn [OF assms(1)] .
  note br = branched_lonely [OF assms(1-3)]
  obtain cs w where b: "branched n = NBranch cs w" using branched_shape [OF assms(1-3)] by blast
  have free: "case ks of [] \<Rightarrow> True | x # xs \<Rightarrow> cs ! unat x = NNull"
    using branched_free [OF assms(1-4) b] assms(7) nibs_nibbles_of [of k] by (auto split: list.splits)
  have size: "size (M + own R n) < 2 ^ 32" using assms(9) by simp
  obtain s1 where s1: "branch R D (ser R n) s = (Inr (ser_data R (branched n)), s1)" "held U s1 (M + node_refs R (branched n))"
    using branch_node [OF wf n assms(8) size assms(11,13)] by blast
  have bU: "ser_data R (branched n) \<in> U" using assms(11,13) subs_self [of "branched n"] by blast
  have size2: "size (M + node_refs R (branched n)) < 2 ^ 32"
    using branched_refs [OF assms(1-3)] assms(9) by (simp add: own_def)
  have absent: "ser_data R (branched n) \<notin># M + node_refs R (branched n)"
    using not_in_clean [OF _ br(1)] assms(10) br(3) by simp
  obtain s2 where s2: "mergeAt m R D (ser R (branched n)) (sha3 (ser_data R (branched n))) k v True s1
      = (Inr (ser_data R (put (branched n) ks v)), s2)" "held U s2 (M + node_refs R (put (branched n) ks v))"
    using merge_put [of cs w k ks U s1 M v S m "sha3 (ser_data R (branched n))"] br(2) assms(6,7,12,13) free s1(2) size2 bU absent f(2)
    unfolding b by blast
  note t = key_tests [OF wf n assms(6), unfolded assms(7)]
  have "\<not> (slice_eq (node_key R (ser R n)) k \<and> node_isLeaf R (ser R n))"
    using assms(5) n t(2) ser_key(4) [OF wf n] by (auto simp: splits_def)
  moreover have "\<not> (slice_contains k (node_key R (ser R n)) \<and> \<not> node_isLeaf R (ser R n))"
    using assms(5) n t(3) ser_key(4) [OF wf n] by (auto simp: splits_def)
  moreover have "slice_shared k (node_key R (ser R n)) = 0" using t(4) assms(4) key by simp
  moreover have "rlp_itemCount R (ser R n) = 2" using ser_count [OF wf] n by auto
  moreover have "\<not> rlp_isEmpty R (ser R n)" using assms(3) by (simp add: ser_list)
  ultimately have "mergeAt fuel R D (ser R n) h k v inl s = (Inr (ser_data R (put (branched n) ks v)), s2)"
    unfolding f mergeAt.simps Let_def by (simp only: if_False if_True simp_thms bind_def s1(1) prod.case sum.case parse_ser s2(1) flip: ser_data_def)
  with s2(2) show ?thesis by blast
qed

text \<open>A node that shares part of its key with the new one is cleft there; the rest is the case above.\<close>

lemma merge_split:
  assumes "splits n ks" "slice_ok k" "nibbles_of k = ks" "held U s (M + own R n)" "size (M + own R n) + 2 < 2 ^ 32" "clean R M"
    and "split_temps n ks \<subseteq> S" "subs (split_node n ks v) \<subseteq> S" "ser_data R ` S \<subseteq> U" "5 \<le> fuel"
  shows "\<exists>s'. mergeAt fuel R D (ser R n) h k v inl s = (Inr (ser_data R (split_node n ks v)), s')
    \<and> held U s' (M + node_refs R (split_node n ks v))"
proof (cases "lcp ks (tn_key n) = 0")
  case True
  have "tn_drop 0 n = n" by (cases n) simp_all
  with True have st: "subs (branched n) \<subseteq> S" "split_node n ks v = put (branched n) ks v"
    using assms(7) by (simp_all add: split_temps_def split_node_def)
  have "canon n" "\<not> is_branch n" "n \<noteq> NNull" using assms(1) by (simp_all add: splits_def)
  from merge_apart [OF this True assms(1-4) _ assms(6) st(1) _ assms(9)] assms(5,8,10) show ?thesis
    unfolding st(2) by simp
next
  case False
  define sh where "sh = lcp ks (tn_key n)"
  define d where "d = tn_drop sh n"
  note sd = splits_drop [OF assms(1) sh_def, folded d_def]
  obtain ns u c where n: "n = NLeaf ns u \<or> n = NExt ns c" using assms(1) by (cases n) (auto simp: splits_def)
  then have key: "tn_key n = ns" by auto
  have wf: "wfn n" using assms(1) canon_wfn by (simp add: splits_def)
  have le: "0 < sh" "sh \<le> length ns" "sh \<le> length ks" using False lcp_le [of ks ns] by (simp_all add: sh_def key)
  have tk: "take sh ks = take sh ns" using lcp_take [of ks ns] by (simp add: sh_def key)
  let ?p = "put (branched d) (drop sh ks) v"
  have sp: "split_node n ks v = NExt (take sh ns) ?p"
    using False by (simp add: split_node_def Let_def key d_def sh_def)
  have temps: "d \<in> S" "subs (branched d) \<subseteq> S" using assms(7) by (simp_all add: split_temps_def Let_def d_def sh_def)
  have dU: "ser_data R d \<in> U" using temps(1) assms(9) by blast
  obtain m where f: "fuel = Suc (Suc m)" "3 \<le> m"
  proof
    show "fuel = Suc (Suc (fuel - 2))" "3 \<le> fuel - 2" using assms(10) by simp_all
  qed
  have size: "size (M + own R n) < 2 ^ 32" using assms(5) by simp
  obtain s1 where s1: "cleve R D (ser R n) sh s = (Inr (ser_data R (cleved sh n)), s1)" "held U s1 (M + own R d)"
    using cleve_node [OF wf n le(2) assms(4) size dU [unfolded d_def]] unfolding d_def by blast
  have cl: "cleved sh n = NExt (take sh ns) d" by (simp add: cleved_def key d_def)
  have mid: "slice_ok (slice_mid k sh)" "nibbles_of (slice_mid k sh) = drop sh ks"
    using assms(2,3) le(3) by (auto simp: nibbles_of_mid intro!: slice_ok_mid)
  have sizes: "size (M + own R d) + 1 < 2 ^ 32"
  proof -
    have "size (own R d) \<le> size (own R n) + 1" by (simp add: own_def d_def big_def)
    then show ?thesis using assms(5) by simp
  qed
  have spd: "splits d (drop sh ks)"
  proof (cases d)
    case (NLeaf ms x)
    then show ?thesis using sd(1-4) sd(5) [of x] by (cases ms) (auto simp: splits_def lcp_0)
  next
    case (NExt ms e)
    then show ?thesis using sd(1-4) by (cases "drop sh ks"; cases ms) (auto simp: splits_def)
  qed (use sd in auto)
  have sub: "subs ?p \<subseteq> S" using assms(8) unfolding sp by auto
  obtain s2 where s2: "mergeAt m R D (ser R d) (sha3 (ser_data R d)) (slice_mid k sh) v (big R d = {#}) s1
      = (Inr (ser_data R ?p), s2)" "held U s2 (M + node_refs R ?p)"
    using merge_apart [OF sd(1-3,4) spd mid s1(2) sizes assms(6) temps(2) sub assms(9) f(2), of "sha3 (ser_data R d)" "big R d = {#}"]
    by blast
  have pU: "ser_data R ?p \<in> U" by (rule subsetD [OF assms(9) imageI [OF subsetD [OF sub subs_self]]])
  have wd: "wfn d" using canon_wfn [OF sd(1)] .
  obtain s3 where s3: "mergeAtAux (mergeAt m R D) R D (cref R d) (slice_mid k sh) v s1 = (Inr (cref R ?p), s3)"
      "held U s3 (M + own R ?p)"
    using mergeAtAux_step [where rec = "mergeAt m R D", OF s1(2) wd s2 pU] by blast
  have wc: "wfn (cleved sh n)" using wd sd(3) wf n le by (auto simp: cl)
  have "mergeAt (Suc m) R D (ser R (cleved sh n)) (sha3 (ser_data R (cleved sh n))) k v True s1
      = (Inr (ser_data R (split_node n ks v)), s3)"
  proof -
    note ck = ser_key [OF wc [unfolded cl], where ns = "take sh ns" and c = d, simplified]
    have "slice_size (node_key R (ser R (NExt (take sh ns) d))) = sh" using ck(3) le(2) by simp
    moreover have "slice_contains k (node_key R (ser R (NExt (take sh ns) d)))"
      using key_tests(3) [OF wc [unfolded cl] _ assms(2), where ns = "take sh ns" and c = d] assms(3) tk le by simp
    moreover have "rlp_itemCount R (ser R (NExt (take sh ns) d)) = 2" using ser_count [OF wc] by (simp add: cl)
    ultimately show ?thesis
      using ck(4) s3(1) by (simp add: cl sp ser_list ser_at Let_def bind_Inr out_eqs)
  qed
  moreover have "mergeAt fuel R D (ser R n) h k v inl s
      = mergeAt (Suc m) R D (ser R (cleved sh n)) (sha3 (ser_data R (cleved sh n))) k v True s1"
  proof -
    note t = key_tests [OF wf n assms(2), unfolded assms(3)]
    have "\<not> (slice_eq (node_key R (ser R n)) k \<and> node_isLeaf R (ser R n))"
      using assms(1) n t(2) ser_key(4) [OF wf n] by (auto simp: splits_def)
    moreover have "\<not> (slice_contains k (node_key R (ser R n)) \<and> \<not> node_isLeaf R (ser R n))"
      using assms(1) n t(3) ser_key(4) [OF wf n] by (auto simp: splits_def)
    moreover have "slice_shared k (node_key R (ser R n)) = sh" using t(4) key by (simp add: sh_def)
    moreover have "rlp_itemCount R (ser R n) = 2" using ser_count [OF wf] n by auto
    moreover have "\<not> rlp_isEmpty R (ser R n)" "sh \<noteq> 0" using n le by (auto simp: ser_list)
    ultimately show ?thesis
      unfolding f mergeAt.simps(2) [of "Suc m"] Let_def
      by (simp only: if_False if_True simp_thms bind_def s1(1) prod.case sum.case parse_ser not_False_eq_True flip: ser_data_def)
  qed
  ultimately show ?thesis using s3(2) by (auto simp: sp)
qed

section \<open>The whole insertion\<close>

theorem mergeAt_tins:
  "canon n \<Longrightarrow> slice_ok k \<Longrightarrow> held U s (M + own R n) \<Longrightarrow> size (M + own R n) + 2 < 2 ^ 32 \<Longrightarrow> clean R M
    \<Longrightarrow> ser_data R ` touched n (nibbles_of k) v \<subseteq> U \<Longrightarrow> slice_size k + 5 \<le> fuel \<Longrightarrow> (inl \<Longrightarrow> big R n = {#})
    \<Longrightarrow> \<exists>s'. mergeAt fuel R D (ser R n) (sha3 (ser_data R n)) k v inl s = (Inr (ser_data R (tins n (nibbles_of k) v)), s')
      \<and> held U s' (M + node_refs R (tins n (nibbles_of k) v))"
proof (induction n arbitrary: k s M fuel inl)
  case NNull
  then obtain m where "fuel = Suc m" by (cases fuel) auto
  with NNull merge_null [OF NNull.prems(2)] show ?case by simp
next
  case (NLeaf ns w)
  show ?case
  proof (cases "nibbles_of k = ns")
    case True
    obtain m where f: "fuel = Suc m" using NLeaf.prems(7) by (cases fuel) auto
    have wf: "wfn (NLeaf ns w)" using canon_wfn [OF NLeaf.prems(1)] .
    have t: "slice_eq (node_key R (ser R (NLeaf ns w))) k" "node_isLeaf R (ser R (NLeaf ns w))"
      using key_tests(2) [OF wf _ NLeaf.prems(2), of ns w] ser_key(4) [OF wf, of ns w] True by simp_all
    obtain s1 where "place R D (ser R (NLeaf ns w)) k v s = (Inr (ser_data R (NLeaf ns v)), s1)" "held U s1 M"
      using place_leaf [OF wf NLeaf.prems(3), of k v] NLeaf.prems(4) by auto
    with True t ser_count [OF wf] show ?thesis by (simp add: f ser_list)
  next
    case False
    then have "splits (NLeaf ns w) (nibbles_of k)" using NLeaf.prems(1) by (simp add: splits_def)
    from merge_split [OF this NLeaf.prems(2) refl NLeaf.prems(3-5), of "touched (NLeaf ns w) (nibbles_of k) v"] False NLeaf.prems(6,7)
    show ?thesis by (simp add: touched_def)
  qed
next
  case (NExt ns c)
  show ?case
  proof (cases "take (length ns) (nibbles_of k) = ns")
    case True
    obtain m where f: "fuel = Suc m" using NExt.prems(7) by (cases fuel) auto
    have wf: "wfn (NExt ns c)" using canon_wfn [OF NExt.prems(1)] .
    have "length (take (length ns) (nibbles_of k)) = length ns" using True by simp
    then have le: "length ns \<le> slice_size k" by simp
    let ?k = "slice_mid k (length ns)" and ?c = "tins c (drop (length ns) (nibbles_of k)) v"
    have mid: "slice_ok ?k" "nibbles_of ?k = drop (length ns) (nibbles_of k)" "slice_size ?k = slice_size k - length ns"
      using NExt.prems(2) le by (simp_all add: slice_ok_mid nibbles_of_mid size_mid)
    have size: "size (M + own R (NExt ns c)) < 2 ^ 32" using NExt.prems(4) by simp
    obtain s1 where s1: "(if inl then ret () else killNode_at R D (ser R (NExt ns c)) (sha3 (ser_data R (NExt ns c)))) s = (Inr (), s1)"
        "held U s1 (M + own R c)"
      using kill_unless [OF NExt.prems(3) size NExt.prems(8)] by auto
    have fuel: "slice_size ?k + 5 \<le> m" using NExt.prems(7) f le wf mid(3) by (cases ns) auto
    have size1: "size (M + own R c) + 2 < 2 ^ 32" using NExt.prems(4) by (simp add: own_def [of _ "NExt ns c"])
    have tU: "ser_data R ` touched c (nibbles_of ?k) v \<subseteq> U" using NExt.prems(6) True mid(2) by (auto simp: touched_def)
    obtain s2 where s2: "mergeAt m R D (ser R c) (sha3 (ser_data R c)) ?k v (big R c = {#}) s1 = (Inr (ser_data R ?c), s2)"
        "held U s2 (M + node_refs R ?c)"
      using NExt.IH [OF _ mid(1) s1(2) size1 NExt.prems(5) tU fuel] NExt.prems(1) mid(2) by auto
    have cU: "ser_data R ?c \<in> U" using tU mid(2) by (auto simp: touched_def)
    have wc: "wfn c" using wf by simp
    obtain s3 where s3: "mergeAtAux (mergeAt m R D) R D (cref R c) ?k v s1 = (Inr (cref R ?c), s3)" "held U s3 (M + own R ?c)"
      using mergeAtAux_step [where rec = "mergeAt m R D", OF s1(2) wc s2 cU] by blast
    have t: "slice_contains k (node_key R (ser R (NExt ns c)))" "\<not> node_isLeaf R (ser R (NExt ns c))"
        "slice_size (node_key R (ser R (NExt ns c))) = length ns"
      using key_tests(3) [OF wf _ NExt.prems(2), of ns _ c] ser_key(3,4) [OF wf, of ns _ c] True by simp_all
    have "mergeAt fuel R D (ser R (NExt ns c)) (sha3 (ser_data R (NExt ns c))) k v inl s = (Inr (ser_data R (NExt ns ?c)), s3)"
      using t ser_count [OF wf] s3(1) unfolding f mergeAt.simps Let_def
      by (simp add: ser_list ser_at bind_def s1(1) out_eqs)
    with s3(2) True show ?thesis by auto
  next
    case False
    then have "splits (NExt ns c) (nibbles_of k)" using NExt.prems(1) by (simp add: splits_def)
    from merge_split [OF this NExt.prems(2) refl NExt.prems(3-5), of "touched (NExt ns c) (nibbles_of k) v"] False NExt.prems(6,7)
    show ?thesis by (simp add: touched_def)
  qed
next
  case (NBranch cs w)
  have wf: "wfn (NBranch cs w)" using canon_wfn [OF NBranch.prems(1)] .
  have len: "length cs = 16" using wf by simp
  obtain m where f: "fuel = Suc m" using NBranch.prems(7) by (cases fuel) auto
  have size: "size (M + own R (NBranch cs w)) < 2 ^ 32" using NBranch.prems(4) by simp
  show ?case
  proof (cases "nibbles_of k")
    case Nil
    then have "slice_size k = 0" by (metis length_nibbles_of list.size(3))
    moreover obtain s1 where s1: "killNode R D (ser R (NBranch cs w)) s = (Inr (), s1)" "held U s1 (M + node_refs R (NBranch cs w))"
      using kill_own [OF NBranch.prems(3) size] by blast
    ultimately have "mergeAt fuel R D (ser R (NBranch cs w)) (sha3 (ser_data R (NBranch cs w))) k v inl s = (Inr (ser_data R (NBranch cs v)), s1)"
      using place_branch [OF len s1(1), of k v] ser_count [OF wf] by (simp add: f ser_list)
    with s1(2) Nil show ?thesis by simp
  next
    case (Cons x xs)
    have x: "unat x < 16" using Cons nibs_nibbles_of [of k] by simp
    note hd = slice_nth_hd [OF Cons]
    let ?k = "slice_mid k 1" and ?c = "cs ! unat x"
    let ?d = "tins ?c xs v"
    have mem: "?c \<in> set cs" using x len by simp
    have mid: "nibbles_of ?k = xs" "slice_ok ?k" "slice_size ?k = length xs"
      using NBranch.prems(2) Cons hd by (simp_all add: nibbles_of_mid slice_ok_mid size_mid)
    obtain s1 where s1: "(if inl then ret () else killNode_at R D (ser R (NBranch cs w)) (sha3 (ser_data R (NBranch cs w)))) s = (Inr (), s1)"
        "held U s1 (M + node_refs R (NBranch cs w))"
      using kill_unless [OF NBranch.prems(3) size NBranch.prems(8)] by blast
    obtain N where N: "node_refs R (NBranch cs w) = own R ?c + N"
      using own_child [OF mem, of w] by (metis subset_mset.le_iff_add)
    have s1': "held U s1 (M + N + own R ?c)" using s1(2) unfolding N by (simp only: ac_simps)
    have clean: "clean R (M + N)" using NBranch.prems(1,5) clean_own [of "NBranch cs w"] unfolding N by simp
    have size1: "size (M + N + own R ?c) + 2 < 2 ^ 32" using NBranch.prems(4) unfolding own_def [of _ "NBranch cs w"] N by simp
    have sub: "subs ?d \<subseteq> subs (NBranch (cs[unat x := ?d]) w)"
    proof -
      have "?d \<in> set (cs[unat x := ?d])" using x len by (simp add: set_update_memI)
      then show ?thesis by auto
    qed
    have tU: "ser_data R ` touched ?c (nibbles_of ?k) v \<subseteq> U"
      using NBranch.prems(6) sub x len Cons mid(1) by (auto simp: touched_def)
    have fuel: "slice_size ?k + 5 \<le> m" using NBranch.prems(7) f hd mid(3) by simp
    have cc: "canon ?c" using NBranch.prems(1) mem by simp
    obtain s2 where s2: "mergeAt m R D (ser R ?c) (sha3 (ser_data R ?c)) ?k v (big R ?c = {#}) s1 = (Inr (ser_data R ?d), s2)"
        "held U s2 (M + N + node_refs R ?d)"
      using NBranch.IH [OF mem cc mid(2) s1' size1 clean tU fuel] mid(1) by auto
    have dU: "ser_data R ?d \<in> U" using tU mid(1) by (auto simp: touched_def)
    obtain s3 where s3: "mergeAtAux (mergeAt m R D) R D (cref R ?c) ?k v s1 = (Inr (cref R ?d), s3)" "held U s3 (M + N + own R ?d)"
      using mergeAtAux_step [where rec = "mergeAt m R D", OF s1' canon_wfn [OF cc] s2 dU] by blast
    have "mergeAt fuel R D (ser R (NBranch cs w)) (sha3 (ser_data R (NBranch cs w))) k v inl s
        = (Inr (ser_data R (NBranch (cs[unat x := ?d]) w)), s3)"
      using hd x len ser_count [OF wf] s3(1) unfolding f mergeAt.simps Let_def
      by (simp add: ser_list ser_at bind_def s1(1) out_eqs branch_items_ser)
    moreover have "node_refs R (NBranch (cs[unat x := ?d]) w) = N + own R ?d"
      using own_update [of "unat x" cs ?d] x len N by simp
    ultimately show ?thesis using s3(2) Cons x len by (auto simp: ac_simps)
  qed
qed

end

end
