(* ===== verification/TrieErase.thy ===== *)
theory TrieErase
  imports TrieTree
begin

text \<open>
  Removal on trees, for tries whose keys all have the same length, as those of the accounts, of their storage and of
  block bodies have (the code's removal relies on it: see \<open>TrieDelete\<close>), and the number of nodes of a tree.
\<close>

section \<open>Removal\<close>

definition grafted :: "bytes \<Rightarrow> node \<Rightarrow> node" where
  "grafted ns c = (case c of NLeaf ms v \<Rightarrow> NLeaf (ns @ ms) v | NExt ms d \<Rightarrow> NExt (ns @ ms) d | _ \<Rightarrow> NExt ns c)"

definition rejigged :: "node list \<Rightarrow> node" where
  "rejigged cs = (case filter (\<lambda>i. cs ! i \<noteq> NNull) [0..<16] of [i] \<Rightarrow> grafted [of_nat i] (cs ! i) | _ \<Rightarrow> NBranch cs [])"

primrec tdel :: "node \<Rightarrow> bytes \<Rightarrow> node option" where
  "tdel NNull = (\<lambda>k. None)"
| "tdel (NLeaf ns v) = (\<lambda>k. if k = ns then Some NNull else None)"
| "tdel (NExt ns c) = (\<lambda>k. if take (length ns) k = ns then map_option (grafted ns) (tdel c (drop (length ns) k)) else None)"
| "tdel (NBranch cs w) = (\<lambda>k. case k of [] \<Rightarrow> None
     | x # xs \<Rightarrow> if unat x < length cs then map_option (\<lambda>c. rejigged (cs[unat x := c])) ((map tdel cs ! unat x) xs) else None)"

text \<open>All entries lie at depth \<open>n\<close>.\<close>

primrec deep :: "node \<Rightarrow> nat \<Rightarrow> bool" where
  "deep NNull = (\<lambda>n. True)"
| "deep (NLeaf ns v) = (\<lambda>n. length ns = n)"
| "deep (NExt ns c) = (\<lambda>n. length ns \<le> n \<and> deep c (n - length ns))"
| "deep (NBranch cs w) = (\<lambda>n. w = [] \<and> 0 < n \<and> (\<forall>d \<in> set (map deep cs). d (n - 1)))"

primrec tsize :: "node \<Rightarrow> nat" where
  "tsize NNull = 0"
| "tsize (NLeaf ns v) = 1"
| "tsize (NExt ns c) = Suc (tsize c)"
| "tsize (NBranch cs w) = Suc (sum_list (map tsize cs))"

lemma deep_branch [simp]: "deep (NBranch cs w) n \<longleftrightarrow> w = [] \<and> 0 < n \<and> (\<forall>c \<in> set cs. deep c (n - 1))"
  by auto

declare deep.simps(4) [simp del]

lemma deep_entry: "deep t n \<Longrightarrow> trie_get t k = Some v \<Longrightarrow> length k = n"
proof (induction t arbitrary: n k)
  case (NExt ns c)
  then obtain l where l: "k = ns @ l" "trie_get c l = Some v" using get_ext_Some by blast
  with NExt.IH [of "n - length ns" l] NExt.prems show ?case by simp
next
  case (NBranch cs w)
  then obtain x xs where k: "k = x # xs" by (cases k) auto
  with NBranch.prems(2) have x: "unat x < length cs" "trie_get (cs ! unat x) xs = Some v" by (auto split: if_splits)
  then have "cs ! unat x \<in> set cs" by simp
  with NBranch.IH [OF this, of "n - 1" xs] NBranch.prems x k show ?case by simp
qed (auto split: if_splits)

lemma grafted_props:
  assumes "nibs ns" "ns \<noteq> []" "canon c" "c \<noteq> NNull"
  shows "canon (grafted ns c)" "trie_get (grafted ns c) = trie_get (NExt ns c)" "grafted ns c \<noteq> NNull"
    "deep c m \<Longrightarrow> deep (grafted ns c) (length ns + m)" "tsize (grafted ns c) \<le> Suc (tsize c)"
proof -
  have app: "k = ns @ ms \<longleftrightarrow> take (length ns) k = ns \<and> drop (length ns) k = ms" for k ms :: bytes
    by (metis append_eq_conv_conj)
  have app2: "take (length ns + length ms) k = ns @ ms \<longleftrightarrow> take (length ns) k = ns \<and> take (length ms) (drop (length ns) k) = ms" for k ms :: bytes
  proof
    assume x: "take (length ns + length ms) k = ns @ ms"
    then have "take (length ns) (take (length ns + length ms) k) = ns" "drop (length ns) (take (length ns + length ms) k) = ms" by simp_all
    then show "take (length ns) k = ns \<and> take (length ms) (drop (length ns) k) = ms" by (simp add: take_drop add.commute)
  qed (simp add: take_add)
  show "canon (grafted ns c)" "grafted ns c \<noteq> NNull" "tsize (grafted ns c) \<le> Suc (tsize c)"
    using assms by (auto simp: grafted_def split: node.split)
  show "deep c m \<Longrightarrow> deep (grafted ns c) (length ns + m)"
    by (auto simp: grafted_def split: node.split)
  show "trie_get (grafted ns c) = trie_get (NExt ns c)"
  proof (cases c)
    case (NLeaf ms v)
    then show ?thesis by (auto simp: grafted_def app)
  next
    case (NExt ms d)
    then show ?thesis by (rule_tac ext) (simp add: grafted_def app2 add.commute [of "length ms" "length ns"])
  qed (simp_all add: grafted_def)
qed

lemma filter_occupied: "length cs = 16 \<Longrightarrow> length (filter (\<lambda>i. cs ! i \<noteq> NNull) [0..<16]) = occupied cs []"
proof -
  assume l: "length cs = 16"
  have "filter (\<lambda>c. c \<noteq> NNull) cs = map ((!) cs) (filter (\<lambda>i. cs ! i \<noteq> NNull) [0..<16])"
    by (subst map_nth [of cs, symmetric]) (simp only: filter_map comp_def l)
  then show ?thesis by (simp add: occupied_def)
qed

lemma one_left:
  assumes "length cs = 16" "filter (\<lambda>i. cs ! i \<noteq> NNull) [0..<16] = [i]"
  shows "i < 16" "cs ! i \<noteq> NNull" "\<And>j. j < 16 \<Longrightarrow> j \<noteq> i \<Longrightarrow> cs ! j = NNull"
proof -
  have "j \<in> set (filter (\<lambda>i. cs ! i \<noteq> NNull) [0..<16]) \<longleftrightarrow> j = i" for j unfolding assms(2) by simp
  then have *: "j < 16 \<and> cs ! j \<noteq> NNull \<longleftrightarrow> j = i" for j by simp
  show "i < 16" "cs ! i \<noteq> NNull" using * [of i] by simp_all
  show "\<And>j. j < 16 \<Longrightarrow> j \<noteq> i \<Longrightarrow> cs ! j = NNull" using * by blast
qed

lemma tsize_member: "c \<in> set cs \<Longrightarrow> tsize c \<le> sum_list (map tsize cs)"
  by (induction cs) auto

lemma tsize_update: "i < length cs \<Longrightarrow> sum_list (map tsize (cs[i := c])) + tsize (cs ! i) = sum_list (map tsize cs) + tsize c"
proof (induction cs arbitrary: i)
  case (Cons d cs)
  then show ?case by (cases i) auto
qed simp

lemma rejigged_props:
  assumes "length cs = 16" "\<forall>c \<in> set cs. canon c" "1 \<le> occupied cs []"
  shows "canon (rejigged cs)" "trie_get (rejigged cs) = trie_get (NBranch cs [])" "rejigged cs \<noteq> NNull"
    "\<forall>c \<in> set cs. deep c m \<Longrightarrow> deep (rejigged cs) (Suc m)" "tsize (rejigged cs) \<le> tsize (NBranch cs [])"
proof -
  consider i where "filter (\<lambda>i. cs ! i \<noteq> NNull) [0..<16] = [i]" "rejigged cs = grafted [of_nat i] (cs ! i)"
    | "2 \<le> occupied cs []" "rejigged cs = NBranch cs []"
    using assms(3) filter_occupied [OF assms(1)] unfolding rejigged_def
    by (cases "filter (\<lambda>i. cs ! i \<noteq> NNull) [0..<16]" rule: remdups_adj.cases) auto
  then have "canon (rejigged cs) \<and> trie_get (rejigged cs) = trie_get (NBranch cs []) \<and> rejigged cs \<noteq> NNull
    \<and> ((\<forall>c \<in> set cs. deep c m) \<longrightarrow> deep (rejigged cs) (Suc m)) \<and> tsize (rejigged cs) \<le> tsize (NBranch cs [])"
  proof cases
    case 1
    note o = one_left [OF assms(1) 1(1)]
    have u: "unat (of_nat i :: byte) = i" using o(1) by (simp add: unat_of_nat)
    have mem: "cs ! i \<in> set cs" using o(1) assms(1) by simp
    then have c: "canon (cs ! i)" using assms(2) by blast
    have n: "nibs [of_nat i]" using o(1) u by simp
    note g = grafted_props [OF n _ c o(2)]
    have "trie_get (NExt [of_nat i] (cs ! i)) l = trie_get (NBranch cs []) l" for l
    proof (cases l)
      case (Cons x xs)
      have "unat x = i \<longleftrightarrow> x = of_nat i" using u unat_byte_eq [of x "of_nat i"] by simp
      then show ?thesis using o assms(1) by (auto simp: Cons)
    qed simp
    then have "trie_get (grafted [of_nat i] (cs ! i)) = trie_get (NBranch cs [])" using g(2) by auto
    moreover have "deep (grafted [of_nat i] (cs ! i)) (Suc m)" if "\<forall>c \<in> set cs. deep c m"
      using g(4) [of m] that mem by simp
    moreover have "tsize (grafted [of_nat i] (cs ! i)) \<le> tsize (NBranch cs [])"
      using g(5) tsize_member [OF mem] by simp
    ultimately show ?thesis using g(1,3) 1(2) by simp
  next
    case mid: 2
    then show ?thesis using assms by simp
  qed
  then show "canon (rejigged cs)" "trie_get (rejigged cs) = trie_get (NBranch cs [])" "rejigged cs \<noteq> NNull"
    "\<forall>c \<in> set cs. deep c m \<Longrightarrow> deep (rejigged cs) (Suc m)" "tsize (rejigged cs) \<le> tsize (NBranch cs [])" by blast+
qed

lemma occupied_drop: "i < length cs \<Longrightarrow> occupied cs [] \<le> Suc (occupied (cs[i := c]) [])"
proof (induction cs arbitrary: i)
  case (Cons d cs)
  then show ?case by (cases i) (auto simp: occupied_def)
qed simp

text \<open>Removal fails exactly on a missing key, and takes away exactly one entry; the tree stays canonical.\<close>

lemma tdel_props:
  "canon t \<Longrightarrow> deep t n \<Longrightarrow> nibs k \<Longrightarrow> length k = n \<Longrightarrow>
     (case tdel t k of None \<Rightarrow> trie_get t k = None
      | Some u \<Rightarrow> trie_get t k \<noteq> None \<and> canon u \<and> deep u n \<and> trie_get u = (trie_get t)(k := None) \<and> tsize u \<le> tsize t
          \<and> ((\<forall>ns v. t \<noteq> NLeaf ns v) \<longrightarrow> u \<noteq> NNull))"
proof (induction t arbitrary: n k)
  case (NLeaf ns v)
  then show ?case by (auto simp: fun_eq_iff)
next
  case (NExt ns c)
  show ?case
  proof (cases "take (length ns) k = ns")
    case True
    let ?k = "drop (length ns) k"
    have k: "k = ns @ ?k" using True by (metis append_take_drop_id)
    have c: "canon c" "deep c (n - length ns)" "nibs ns" "ns \<noteq> []" "\<forall>ms v. c \<noteq> NLeaf ms v" using NExt.prems by auto
    have IH: "case tdel c ?k of None \<Rightarrow> trie_get c ?k = None
      | Some u \<Rightarrow> trie_get c ?k \<noteq> None \<and> canon u \<and> deep u (n - length ns) \<and> trie_get u = (trie_get c)(?k := None) \<and> tsize u \<le> tsize c
          \<and> ((\<forall>ns v. c \<noteq> NLeaf ns v) \<longrightarrow> u \<noteq> NNull)"
      by (rule NExt.IH) (use NExt.prems c in auto)
    show ?thesis
    proof (cases "tdel c ?k")
      case None
      with IH True show ?thesis by simp
    next
      case (Some u)
      with IH c(5) have u: "trie_get c ?k \<noteq> None" "canon u" "deep u (n - length ns)" "trie_get u = (trie_get c)(?k := None)"
        "tsize u \<le> tsize c" "u \<noteq> NNull" by auto
      note g = grafted_props [OF c(3,4) u(2,6)]
      have "length ns + (n - length ns) = n" using NExt.prems(2) by simp
      then have "deep (grafted ns u) n" using g(4) [OF u(3)] by simp
      moreover have "trie_get (grafted ns u) = (trie_get (NExt ns c))(k := None)"
        unfolding g(2) using u(4) k by (auto simp: fun_eq_iff) (metis append_take_drop_id)+
      ultimately show ?thesis using True Some u g(1,3,5) by auto
    qed
  qed simp
next
  case (NBranch cs w)
  then obtain x xs where k: "k = x # xs" by (cases k) auto
  have len: "length cs = 16" and x: "unat x < 16" and w: "w = []" using NBranch.prems k by auto
  let ?c = "cs ! unat x"
  have mem: "?c \<in> set cs" using len x by simp
  have IH: "case tdel ?c xs of None \<Rightarrow> trie_get ?c xs = None
      | Some u \<Rightarrow> trie_get ?c xs \<noteq> None \<and> canon u \<and> deep u (n - 1) \<and> trie_get u = (trie_get ?c)(xs := None) \<and> tsize u \<le> tsize ?c
          \<and> ((\<forall>ns v. ?c \<noteq> NLeaf ns v) \<longrightarrow> u \<noteq> NNull)"
    by (rule NBranch.IH [OF mem]) (use NBranch.prems mem k in auto)
  show ?case
  proof (cases "tdel ?c xs")
    case None
    with IH len x k show ?thesis by simp
  next
    case (Some u)
    with IH have u: "trie_get ?c xs \<noteq> None" "canon u" "deep u (n - 1)" "trie_get u = (trie_get ?c)(xs := None)" "tsize u \<le> tsize ?c"
      by auto
    let ?cs = "cs[unat x := u]"
    have l: "length ?cs = 16" using len by simp
    have can: "\<forall>c \<in> set ?cs. canon c" and dee: "\<forall>c \<in> set ?cs. deep c (n - 1)"
      using NBranch.prems u(2,3) by (auto dest: set_update_subset_insert [THEN subsetD])
    have "1 \<le> occupied ?cs []" using occupied_drop [of "unat x" cs u] NBranch.prems(1) len x w by simp
    note r = rejigged_props [OF l can this]
    have "n = Suc (n - 1)" using NBranch.prems(2) by simp
    then have d: "deep (rejigged ?cs) n" using r(4) [OF dee] by simp
    have g: "trie_get (rejigged ?cs) = (trie_get (NBranch cs w))(k := None)"
    proof
      fix l
      show "trie_get (rejigged ?cs) l = ((trie_get (NBranch cs w))(k := None)) l"
        unfolding r(2) using u(4) x len k w by (cases l) (auto simp: nth_list_update unat_byte_eq)
    qed
    have "tsize (rejigged ?cs) \<le> tsize (NBranch cs w)"
      using r(5) tsize_update [of "unat x" cs u] len x u(5) by simp
    with d g r(1,3) Some u(1) len x k show ?thesis by simp
  qed
qed simp

section \<open>Insertion at one depth\<close>

lemma deep_put:
  assumes "canon n" "\<not> is_branch n" "n \<noteq> NNull" "deep n m" "length k = m" "k \<noteq> []" "tn_key n \<noteq> []"
  shows "deep (put (branched n) k v) m"
proof -
  obtain x xs where k: "k = x # xs" using assms(6) by (cases k) auto
  have *: "deep (put (one_child y c) (x # xs) v) (Suc (length xs))" if "deep c (length xs)" for y c
    using that by (auto simp: one_child_def dest!: set_update_subset_insert [THEN subsetD])
  have m: "m = Suc (length xs)" using assms(5) k by simp
  show ?thesis
  proof (cases n)
    case (NLeaf ns w)
    with assms obtain y ys where ns: "ns = y # ys" by (cases ns) auto
    have "deep (NLeaf ys w) (length xs)" using assms(4) NLeaf ns m by simp
    from * [OF this] show ?thesis by (simp add: NLeaf ns k m)
  next
    case (NExt ns c)
    with assms obtain y ys where ns: "ns = y # ys" by (cases ns) auto
    have "deep (if ys = [] then c else NExt ys c) (length xs)" using assms(4) NExt ns m by auto
    from * [OF this] show ?thesis by (simp add: NExt ns k m)
  qed (use assms in auto)
qed

lemma deep_split:
  assumes "splits n k" "deep n (length k)"
  shows "deep (split_node n k v) (length k)"
proof -
  define sh where "sh = lcp k (tn_key n)"
  note d = splits_drop [OF assms(1) sh_def]
  have le: "sh \<le> length k" "sh \<le> length (tn_key n)" using lcp_le [of k "tn_key n"] by (simp_all add: sh_def)
  have less: "sh < length (tn_key n)"
  proof (rule ccontr)
    assume "\<not> ?thesis"
    then have "lcp k (tn_key n) = length (tn_key n)" using le by (simp add: sh_def)
    then have t: "take (length (tn_key n)) k = tn_key n" by (simp add: lcp_full)
    then show False using assms by (cases n) (auto simp: splits_def)
  qed
  have key: "length (tn_key n) \<le> length k" using assms by (cases n) (auto simp: splits_def)
  have dd: "deep (tn_drop sh n) (length k - sh)" using assms less key by (cases n) (auto simp: splits_def)
  have "drop sh k \<noteq> []" "tn_key (tn_drop sh n) \<noteq> []" using less key d(3) assms(1) by (cases n; simp add: splits_def)+
  then have "deep (put (branched (tn_drop sh n)) (drop sh k) v) (length k - sh)"
    using deep_put [OF d(1-3) dd] by simp
  moreover have "tn_drop 0 n = n" by (cases n) simp_all
  ultimately show ?thesis using le by (auto simp: split_node_def Let_def simp flip: sh_def)
qed

lemma deep_tins: "canon t \<Longrightarrow> deep t (length k) \<Longrightarrow> nibs k \<Longrightarrow> deep (tins t k v) (length k)"
proof (induction t arbitrary: k)
  case (NLeaf ns w)
  show ?case
  proof (cases "k = ns")
    case False
    with NLeaf.prems have "splits (NLeaf ns w) k" by (simp add: splits_def)
    from deep_split [OF this NLeaf.prems(2)] False show ?thesis by simp
  qed simp
next
  case (NExt ns c)
  show ?case
  proof (cases "take (length ns) k = ns")
    case True
    with NExt.IH [of "drop (length ns) k"] NExt.prems show ?thesis by simp
  next
    case False
    with NExt.prems have "splits (NExt ns c) k" by (simp add: splits_def)
    from deep_split [OF this NExt.prems(2)] False show ?thesis by simp
  qed
next
  case (NBranch cs w)
  show ?case
  proof (cases k)
    case Nil
    with NBranch.prems(2) show ?thesis by simp
  next
    case (Cons x xs)
    have x: "unat x < length cs" using NBranch.prems Cons by simp
    have mem: "cs ! unat x \<in> set cs" using x by simp
    have "deep (tins (cs ! unat x) xs v) (length xs)"
      by (rule NBranch.IH [OF mem]) (use NBranch.prems Cons mem in simp_all)
    then show ?thesis using NBranch.prems(2) Cons x
      by (auto dest!: set_update_subset_insert [THEN subsetD])
  qed
qed simp

section \<open>The number of nodes\<close>

lemma tsize_one_child [simp]: "unat x < 16 \<Longrightarrow> tsize (one_child x c) = Suc (tsize c)"
  using tsize_update [of "unat x" "replicate 16 NNull" c] by (simp add: one_child_def sum_list_replicate)

lemma tsize_put: "length cs = 16 \<Longrightarrow> nibs k \<Longrightarrow> tsize (put (NBranch cs w) k v) \<le> Suc (tsize (NBranch cs w))"
proof (cases k)
  case (Cons x xs)
  then show "length cs = 16 \<Longrightarrow> nibs k \<Longrightarrow> ?thesis" using tsize_update [of "unat x" cs "NLeaf xs v"] by simp
qed simp

lemma tsize_branched: "canon n \<Longrightarrow> \<not> is_branch n \<Longrightarrow> n \<noteq> NNull \<Longrightarrow> tsize (branched n) \<le> Suc (tsize n)"
  by (cases n rule: branched.cases) (auto simp: sum_list_replicate)

lemma tsize_split:
  assumes "splits n k" "nibs k"
  shows "tsize (split_node n k v) \<le> tsize n + 3"
proof -
  define sh where "sh = lcp k (tn_key n)"
  note d = splits_drop [OF assms(1) sh_def]
  obtain cs w where b: "branched (tn_drop sh n) = NBranch cs w" "length cs = 16" using branched_branch [OF d(1-3)] by blast
  have "tsize (put (branched (tn_drop sh n)) (drop sh k) v) \<le> tsize (tn_drop sh n) + 2"
    using tsize_put [OF b(2), of "drop sh k" w v] tsize_branched [OF d(1-3)] b(1) assms(2) by simp
  moreover have "tsize (tn_drop sh n) = tsize n" by (cases n) simp_all
  moreover have "tn_drop 0 n = n" by (cases n) simp_all
  ultimately show ?thesis by (auto simp: split_node_def Let_def simp flip: sh_def)
qed

lemma tsize_tins: "canon t \<Longrightarrow> nibs k \<Longrightarrow> tsize (tins t k v) \<le> tsize t + 3"
proof (induction t arbitrary: k)
  case (NLeaf ns w)
  then show ?case using tsize_split [of "NLeaf ns w" k v] by (auto simp: splits_def)
next
  case (NExt ns c)
  show ?case
  proof (cases "take (length ns) k = ns")
    case True
    with NExt.IH [of "drop (length ns) k"] NExt.prems show ?thesis by simp
  next
    case False
    with NExt.prems tsize_split [of "NExt ns c" k v] show ?thesis by (auto simp: splits_def)
  qed
next
  case (NBranch cs w)
  show ?case
  proof (cases k)
    case (Cons x xs)
    then have x: "unat x < length cs" using NBranch.prems by auto
    then have mem: "cs ! unat x \<in> set cs" by simp
    with NBranch.IH [OF mem, of xs] NBranch.prems Cons x tsize_update [OF x, of "tins (cs ! unat x) xs v"] show ?thesis by simp
  qed simp
qed simp

end
