(* ===== verification/TrieDelete.thy ===== *)
theory TrieDelete
  imports TrieMerge TrieErase
begin

text \<open>
  Removal refines \<open>tdel\<close>: on a trie whose keys all have the length of the key removed, \<open>deleteAt\<close> on the item
  of a tree gives the serialisation of the tree without the entry, or the empty answer and an unchanged database
  when there is no such entry; every reference the old tree no longer needs is released.
\<close>

section \<open>Nodes written on the way\<close>

text \<open>What is streamed for a child that has lost an entry, whether or not it stays a node of its own.\<close>

primrec dtouched :: "node \<Rightarrow> bytes \<Rightarrow> node set" where
  "dtouched NNull = (\<lambda>k. {})"
| "dtouched (NLeaf ns v) = (\<lambda>k. {})"
| "dtouched (NExt ns c) = (\<lambda>k. if take (length ns) k = ns
     then set_option (tdel c (drop (length ns) k)) \<union> dtouched c (drop (length ns) k) else {})"
| "dtouched (NBranch cs w) = (\<lambda>k. case k of [] \<Rightarrow> {}
     | x # xs \<Rightarrow> if unat x < length cs then set_option (tdel (cs ! unat x) xs) \<union> (map dtouched cs ! unat x) xs else {})"

section \<open>The nodes that collapse\<close>

context trie_lib
begin

lemma kill_big:
  assumes "held U s (M + big R n)" "size (M + big R n) < 2 ^ 32"
  shows "\<exists>s'. killNode R D (ser R n) s = (Inr (), s') \<and> held U s' M"
proof (cases "32 \<le> length (ser_data R n)")
  case True
  let ?b = "ser_data R n"
  have big: "big R n = {#?b#}" using True by (simp add: big_def)
  then have "?b \<in> U" using held_in [OF assms(1)] by auto
  from held_kill [OF assms(1) this assms(2)] big True show ?thesis
    by (simp add: killNode_def forceKillNode_def ser_data_def)
next
  case False
  then show ?thesis using assms by (simp add: killNode_def big_def ser_data_def)
qed

lemma look_big:
  assumes "held U s (M + own R c)" "32 \<le> length (ser_data R c)"
  shows "db_lookup D s (sha3 (ser_data R c)) = ser_data R c"
proof -
  have "ser_data R c \<in># M + own R c" using assms(2) by (simp add: own_def big_def)
  then show ?thesis by (rule held_look [OF assms(1)])
qed

lemma count_two: "wfn c \<Longrightarrow> c \<noteq> NNull \<Longrightarrow> rlp_itemCount R (ser R c) = 2 \<longleftrightarrow> \<not> is_branch c"
  by (cases c) (simp_all add: ser_count)

lemma two_child:
  assumes "wfn c" "c \<noteq> NNull" "held U s (M + own R c)"
  shows "isTwoItemNode R D (cref R c) s = (Inr (\<not> is_branch c), s)"
proof (cases "32 \<le> length (ser_data R c)")
  case True
  have "rlp_toHash R 32 (rlp_bytes R (sha3 (ser_data R c))) = Some (sha3 (ser_data R c))" by (rule R(8)) simp
  with True look_big [OF assms(3) True] count_two [OF assms(1,2)] show ?thesis
    by (simp add: isTwoItemNode_def cref_cases R db_node_def bind_def)
next
  case False
  then show ?thesis using assms count_two [OF assms(1,2)]
    by (simp add: isTwoItemNode_def cref_cases ser_list bind_def)
qed

lemma graft_child:
  assumes "wfn (NExt ns c)" "\<not> is_branch c" "held U s (M + own R c)" "size (M + own R c) < 2 ^ 32"
  shows "\<exists>s'. graft R D (ser R (NExt ns c)) s = (Inr (ser_data R (grafted ns c)), s') \<and> held U s' (M + node_refs R c)"
proof -
  have wc: "wfn c" "c \<noteq> NNull" using assms(1) by simp_all
  obtain s1 where s1: "held U s1 (M + node_refs R c)"
    "(if rlp_isList R (cref R c) then ret (cref R c)
      else bind (demand BadCast (rlp_toHash R 32 (cref R c))) (\<lambda>lh.
        bind (db_node D lh) (\<lambda>b. bind (forceKillNode D lh) (\<lambda>_. ret (rlp_parse R b))))) s = (Inr (ser R c), s1)"
  proof (cases "32 \<le> length (ser_data R c)")
    case True
    let ?b = "ser_data R c"
    have own: "M + own R c = add_mset ?b (M + node_refs R c)" using True by (simp add: own_def big_def)
    then have "?b \<in> U" using held_in [OF assms(3)] by auto
    from held_kill [OF assms(3) this assms(4)] own have k: "held U (db_kill D (sha3 ?b) s) (M + node_refs R c)" by simp
    have "rlp_toHash R 32 (rlp_bytes R (sha3 ?b)) = Some (sha3 ?b)" by (rule R(8)) simp
    with that [OF k] True look_big [OF assms(3) True] show thesis
      by (simp add: cref_cases R db_node_def forceKillNode_def bind_def)
  next
    case False
    with that [of s] assms(3) wc show thesis by (simp add: cref_cases ser_list own_def big_def)
  qed
  obtain ms v d where c: "c = NLeaf ms v \<or> c = NExt ms d" using assms(2) wc(2) by (cases c) auto
  note k1 = ser_key [OF assms(1), where ns = ns and c = c, simplified] and k2 = ser_key [OF wc(1) c]
  have "hexPrefixEncode_slices (node_key R (ser R (NExt ns c))) (node_key R (ser R c)) (node_isLeaf R (ser R c))
      = hp_spec (node_isLeaf R (ser R c)) (ns @ ms)"
    using hexPrefixEncode_slices_spec [OF k1(2) k2(2)] k1(1) k2(1) by simp
  then have "out_list R [rlp_bytes R (hexPrefixEncode_slices (node_key R (ser R (NExt ns c))) (node_key R (ser R c)) (node_isLeaf R (ser R c))),
      rlp_at R (ser R c) (Suc 0)] = ser_data R (grafted ns c)"
    using c k2(4) by (auto simp: grafted_def ser_at out_eqs)
  then have "graft R D (ser R (NExt ns c)) s = (Inr (ser_data R (grafted ns c)), s1)"
    unfolding graft_def One_nat_def ser_at bind_def [of "If _ _ _"] s1(2) by simp
  with s1(1) show ?thesis by blast
qed

lemma refs_grafted: "node_refs R (grafted ns c) = (if is_branch c \<or> c = NNull then own R c else node_refs R c)"
  by (cases c) (simp_all add: grafted_def)

text \<open>A child of an extension, or the last of a branch: it is grafted if it has a key.\<close>

lemma collapse_ext:
  assumes "wfn (NExt ns c)" "held U s (M + own R c)" "size (M + own R c) < 2 ^ 32"
  shows "\<exists>s'. bind (isTwoItemNode R D (cref R c))
      (\<lambda>two. if two then graft R D (ser R (NExt ns c)) else ret (ser_data R (NExt ns c))) s
    = (Inr (ser_data R (grafted ns c)), s') \<and> held U s' (M + node_refs R (grafted ns c))"
proof -
  have c: "wfn c" "c \<noteq> NNull" using assms(1) by simp_all
  note two = two_child [OF c assms(2)]
  show ?thesis
  proof (cases "is_branch c")
    case True
    then have "grafted ns c = NExt ns c" by (cases c) (simp_all add: grafted_def)
    with True two assms(2) show ?thesis by (simp add: bind_def)
  next
    case False
    from graft_child [OF assms(1) False assms(2,3)] two False c(2) show ?thesis
      by (simp add: bind_def refs_grafted)
  qed
qed

lemma unique_branch:
  assumes "length cs = 16"
  shows "uniqueInUse (\<lambda>i. rlp_isEmpty R (rlp_at R (ser R (NBranch cs [])) i)) 255
    = (case filter (\<lambda>i. cs ! i \<noteq> NNull) [0..<16] of [i] \<Rightarrow> of_nat i | _ \<Rightarrow> 255)"
proof -
  have "[0..<17] = [0..<16] @ [16 :: nat]" by (simp add: upt_rec)
  moreover have "filter (\<lambda>i. \<not> rlp_isEmpty R (rlp_at R (ser R (NBranch cs [])) i)) [0..<16] = filter (\<lambda>i. cs ! i \<noteq> NNull) [0..<16]"
    by (rule filter_cong) (simp_all add: ser_at cref_empty assms)
  ultimately have "filter (\<lambda>i. \<not> rlp_isEmpty R (rlp_at R (ser R (NBranch cs [])) i)) [0..<17] = filter (\<lambda>i. cs ! i \<noteq> NNull) [0..<16]"
    by (simp add: ser_at R assms del: upt_Suc)
  moreover have "filter (\<lambda>i. i \<noteq> unat (255 :: byte) \<and> \<not> e i) [0..<17] = filter (\<lambda>i. \<not> e i) [0..<17]" for e
    by (rule filter_cong) simp_all
  ultimately show ?thesis unfolding uniqueInUse_def by (simp add: uniqueInUse_from_unused del: upt_Suc)
qed

lemma collapse_branch:
  assumes "length cs = 16" "\<forall>c \<in> set cs. wfn c" "held U s (M + node_refs R (NBranch cs []))"
    and "size (M + node_refs R (NBranch cs [])) < 2 ^ 32"
  shows "\<exists>s'. (let used = uniqueInUse (\<lambda>i. rlp_isEmpty R (rlp_at R (ser R (NBranch cs [])) i)) 255
      in if used = 255 then ret (ser_data R (NBranch cs [])) else rejig R D (ser R (NBranch cs [])) used) s
    = (Inr (ser_data R (rejigged cs)), s') \<and> held U s' (M + node_refs R (rejigged cs))"
proof -
  consider i where "filter (\<lambda>i. cs ! i \<noteq> NNull) [0..<16] = [i]"
    | "rejigged cs = NBranch cs []" "uniqueInUse (\<lambda>i. rlp_isEmpty R (rlp_at R (ser R (NBranch cs [])) i)) 255 = 255"
    unfolding unique_branch [OF assms(1)] rejigged_def
    by (cases "filter (\<lambda>i. cs ! i \<noteq> NNull) [0..<16]" rule: remdups_adj.cases) auto
  then show ?thesis
  proof cases
    case 1
    note o = one_left [OF assms(1) 1]
    let ?c = "cs ! i" and ?u = "of_nat i :: byte"
    have u: "unat ?u = i" using o(1) by (simp add: unat_of_nat)
    have mem: "?c \<in> set cs" using o(1) assms(1) by simp
    have us: "uniqueInUse (\<lambda>i. rlp_isEmpty R (rlp_at R (ser R (NBranch cs [])) i)) 255 = ?u"
      using unique_branch [OF assms(1)] 1 by simp
    have ne: "?u \<noteq> 255" "?u \<noteq> 16"
      using u o(1) by auto
    have refs: "node_refs R (NBranch cs []) = own R ?c"
    proof -
      have "cs = (replicate 16 NNull)[i := ?c]"
        using o assms(1) by (intro nth_equalityI) (auto simp: nth_list_update)
      then show ?thesis using refs_fresh [OF o(1), of ?c] unfolding node_refs_branch by metis
    qed
    have wf: "wfn (NExt [?u] ?c)" using assms(2) mem u o by simp
    have "hexPrefixEncode_range [?u] False 1 2 0 = hp_spec False [?u]"
    proof -
      have "nibs [?u]" using u o(1) by simp
      then have small: "small ?u" using small_nibs [of "[?u]"] by simp
      have "hexPrefixEncode_range (ns_data \<lparr>ns_data = [?u], ns_offset = 0\<rparr>) False (int 1) 2 (ns_offset \<lparr>ns_data = [?u], ns_offset = 0\<rparr>)
          = hp_spec False (take (2 - 1) (drop 1 (nibbles_of \<lparr>ns_data = [?u], ns_offset = 0\<rparr>)))"
        by (rule encode_range_slice) (simp_all add: slice_ok_def slice_size_def)
      moreover have "drop 1 (nibbles_of \<lparr>ns_data = [?u], ns_offset = 0\<rparr>) = [?u]"
        using small by (simp add: nibbles_of_def nibble_def small_def upt_rec)
      ultimately show ?thesis by simp
    qed
    then have m: "merge R (ser R (NBranch cs [])) ?u = ser_data R (NExt [?u] ?c)"
      using ne u o(1) assms(1) by (simp add: merge_def ser_at out_eqs)
    have "rejig R D (ser R (NBranch cs [])) ?u = bind (isTwoItemNode R D (cref R ?c))
      (\<lambda>two. if two then graft R D (ser R (NExt [?u] ?c)) else ret (ser_data R (NExt [?u] ?c)))"
      unfolding rejig_def m parse_ser using u o(1) assms(1) by (simp add: ser_at)
    with collapse_ext [OF wf, of U s M] assms(3,4) refs us ne(1) 1 show ?thesis
      by (simp add: rejigged_def Let_def)
  next
    case mid: 2
    with assms(3) show ?thesis by simp
  qed
qed

section \<open>The recursion\<close>

lemma deleteAtAux_step:
  assumes "c \<noteq> NNull" "held U s (M + own R c)"
    and "case t of None \<Rightarrow> rec (ser R c) k s = (Inr [], s)
      | Some u \<Rightarrow> ser_data R u \<in> U \<and> (\<exists>s1. rec (ser R c) k s = (Inr (ser_data R u), s1) \<and> held U s1 (M + node_refs R u))"
  shows "case t of None \<Rightarrow> deleteAtAux rec R D (cref R c) k s = (Inr None, s)
      | Some u \<Rightarrow> \<exists>s2. deleteAtAux rec R D (cref R c) k s = (Inr (Some (cref R u)), s2) \<and> held U s2 (M + own R u)"
proof -
  from child_of [OF assms(1,2)] have c: "child_node R D (cref R c) s = (Inr (ser R c), s)" by simp
  show ?thesis
  proof (cases t)
    case None
    then show ?thesis using assms(1,3) c by (simp add: deleteAtAux_def cref_empty bind_def)
  next
    case (Some u)
    with assms(3) obtain s1 where s1: "rec (ser R c) k s = (Inr (ser_data R u), s1)" "held U s1 (M + node_refs R u)" "ser_data R u \<in> U"
      by auto
    obtain s2 where s2: "streamNode R D (ser_data R u) s1 = (Inr (cref R u), s2)" "held U s2 (M + node_refs R u + big R u)"
      using stream [OF s1(2,3)] by blast
    then show ?thesis using Some assms(1) c s1(1)
      by (simp add: deleteAtAux_def cref_empty bind_def own_def ac_simps)
  qed
qed

lemma size_own: "size (own R n) \<le> tsize n"
proof (induction n)
  case NNull
  show ?case by simp
next
  case (NExt ns c)
  then show ?case by (simp add: own_def [of R "NExt ns c"] big_def)
next
  case (NBranch cs w)
  have "size (sum_list (map (own R) cs)) \<le> sum_list (map tsize cs)"
    using NBranch.IH by (induction cs) (auto intro: add_mono)
  then show ?case by (simp add: own_def [of R "NBranch cs w"] big_def)
qed (simp_all add: own_def big_def)

lemma deleteAtAux_null: "deleteAtAux rec R D (cref R NNull) k s = (Inr None, s)"
  by (simp add: deleteAtAux_def cref_empty bind_def)

theorem deleteAt_tdel:
  "canon n \<Longrightarrow> deep n (slice_size k) \<Longrightarrow> slice_ok k \<Longrightarrow> held U s (M + own R n) \<Longrightarrow> size (M + own R n) + tsize n < 2 ^ 32
    \<Longrightarrow> ser_data R ` dtouched n (nibbles_of k) \<subseteq> U \<Longrightarrow> slice_size k < fuel
    \<Longrightarrow> case tdel n (nibbles_of k) of None \<Rightarrow> deleteAt fuel R D (ser R n) k s = (Inr [], s)
      | Some u \<Rightarrow> \<exists>s'. deleteAt fuel R D (ser R n) k s = (Inr (ser_data R u), s') \<and> held U s' (M + node_refs R u)"
proof (induction n arbitrary: k s M fuel)
  case NNull
  then obtain m where "fuel = Suc m" by (cases fuel) auto
  then show ?case by (simp add: ser_list)
next
  case (NLeaf ns w)
  obtain m where f: "fuel = Suc m" using NLeaf.prems(7) by (cases fuel) auto
  have wf: "wfn (NLeaf ns w)" using canon_wfn [OF NLeaf.prems(1)] .
  note t = key_tests [OF wf _ NLeaf.prems(3), of ns w, simplified] ser_key [OF wf, of ns w, simplified]
  have size: "size (M + own R (NLeaf ns w)) < 2 ^ 32" using NLeaf.prems(5) by simp
  have len: "length ns = length (nibbles_of k)" using NLeaf.prems(2) by simp
  obtain s1 where s1: "killNode R D (ser R (NLeaf ns w)) s = (Inr (), s1)" "held U s1 M"
    using kill_own [OF NLeaf.prems(4) size] by auto
  have "RLPNull R = ser_data R NNull" by (simp add: RLPNull_def ser_data_def ser_NNull)
  then show ?case
    using s1 t len ser_count [OF wf] by (auto simp: f ser_list bind_def)
next
  case (NExt ns c)
  obtain m where f: "fuel = Suc m" using NExt.prems(7) by (cases fuel) auto
  have wf: "wfn (NExt ns c)" using canon_wfn [OF NExt.prems(1)] .
  have t: "\<not> node_isLeaf R (ser R (NExt ns c))" "slice_size (node_key R (ser R (NExt ns c))) = length ns"
      "slice_contains k (node_key R (ser R (NExt ns c))) \<longleftrightarrow> take (length ns) (nibbles_of k) = ns"
    using key_tests(3) [OF wf _ NExt.prems(3), of ns _ c] ser_key(3,4) [OF wf, of ns _ c] by simp_all
  have count: "rlp_itemCount R (ser R (NExt ns c)) = 2" using ser_count [OF wf] by simp
  show ?case
  proof (cases "take (length ns) (nibbles_of k) = ns")
    case False
    with t count show ?thesis by (simp add: f ser_list)
  next
    case True
    let ?k = "slice_mid k (length ns)" and ?N = "M + big R (NExt ns c)"
    have le: "length ns \<le> slice_size k" using NExt.prems(2) by simp
    have mid: "slice_ok ?k" "nibbles_of ?k = drop (length ns) (nibbles_of k)" "slice_size ?k = slice_size k - length ns"
      using NExt.prems(3) le by (simp_all add: slice_ok_mid nibbles_of_mid size_mid)
    have c: "canon c" "c \<noteq> NNull" "ns \<noteq> []" "deep c (slice_size ?k)" "\<forall>ms v. c \<noteq> NLeaf ms v"
      using NExt.prems(1,2) wf mid(3) by auto
    have h: "held U s (?N + own R c)" "size (?N + own R c) + tsize c < 2 ^ 32"
      using NExt.prems(4,5) by (simp_all add: own_def [of R "NExt ns c"] add.assoc)
    have dU: "ser_data R ` (set_option (tdel c (nibbles_of ?k)) \<union> dtouched c (nibbles_of ?k)) \<subseteq> U"
      using NExt.prems(6) True mid(2) by simp
    have "slice_size ?k < m" using NExt.prems(7) f le c(3) mid(3) by (cases ns) auto
    note IH = NExt.IH [OF c(1,4) mid(1) h _ this]
    have IH: "case tdel c (nibbles_of ?k) of None \<Rightarrow> deleteAt m R D (ser R c) ?k s = (Inr [], s)
      | Some u \<Rightarrow> ser_data R u \<in> U \<and> (\<exists>s1. deleteAt m R D (ser R c) ?k s = (Inr (ser_data R u), s1) \<and> held U s1 (?N + node_refs R u))"
      using IH dU by (auto split: option.splits)
    note step = deleteAtAux_step [where rec = "deleteAt m R D", OF c(2) h(1) IH]
    show ?thesis
    proof (cases "tdel c (nibbles_of ?k)")
      case None
      with step t count True mid(2) show ?thesis by (simp add: f ser_list ser_at Let_def bind_def)
    next
      case (Some u)
      with step obtain s2 where s2: "deleteAtAux (deleteAt m R D) R D (cref R c) ?k s = (Inr (Some (cref R u)), s2)"
        "held U s2 (M + own R u + big R (NExt ns c))"
        by (auto simp: ac_simps)
      have u: "canon u" "u \<noteq> NNull" "tsize u \<le> tsize c"
        using tdel_props [OF c(1,4), of "nibbles_of ?k"] Some c(5) by auto
      have wu: "wfn (NExt ns u)" using canon_wfn [OF u(1)] u(2) wf by simp
      have size: "size (M + own R u) + size (big R (NExt ns c)) < 2 ^ 32"
        using size_own [of u] u(3) NExt.prems(5) by (simp add: own_def [of R "NExt ns c"])
      obtain s3 where s3: "killNode R D (ser R (NExt ns c)) s2 = (Inr (), s3)" "held U s3 (M + own R u)"
        using kill_big [OF s2(2)] size by auto
      obtain s4 where s4: "bind (isTwoItemNode R D (cref R u))
          (\<lambda>two. if two then graft R D (ser R (NExt ns u)) else ret (ser_data R (NExt ns u))) s3
          = (Inr (ser_data R (grafted ns u)), s4)" "held U s4 (M + node_refs R (grafted ns u))"
        using collapse_ext [OF wu s3(2)] size by auto
      have "deleteAt fuel R D (ser R (NExt ns c)) k s = (Inr (ser_data R (grafted ns u)), s4)"
        using t count True unfolding f deleteAt.simps Let_def
        by (simp add: ser_list ser_at bind_def [of "deleteAtAux _ _ _ _ _"] s2(1) bind_def [of "killNode _ _ _"] s3(1),
          simp add: ser_at out_eqs s4(1) cong: if_cong)
      with s4(2) Some True mid(2) show ?thesis by simp
    qed
  qed
next
  case (NBranch cs w)
  obtain m where f: "fuel = Suc m" using NBranch.prems(7) by (cases fuel) auto
  have wf: "wfn (NBranch cs w)" using canon_wfn [OF NBranch.prems(1)] .
  have len: "length cs = 16" and w: "w = []" using wf NBranch.prems(2) by simp_all
  have count: "rlp_itemCount R (ser R (NBranch cs w)) = 17" using ser_count [OF wf] by simp
  obtain x xs where Cons: "nibbles_of k = x # xs"
    using NBranch.prems(2) length_nibbles_of [of k] by (cases "nibbles_of k") auto
  have x: "unat x < 16" using Cons nibs_nibbles_of [of k] by simp
  note hd = slice_nth_hd [OF Cons]
  let ?k = "slice_mid k 1" and ?c = "cs ! unat x" and ?N = "M + big R (NBranch cs w)"
  have mem: "?c \<in> set cs" using x len by simp
  have mid: "nibbles_of ?k = xs" "slice_ok ?k" "slice_size ?k = length xs"
    using NBranch.prems(3) Cons hd by (simp_all add: nibbles_of_mid slice_ok_mid size_mid)
  obtain L where L: "node_refs R (NBranch cs w) = own R ?c + L"
    using own_child [OF mem, of w] by (metis subset_mset.le_iff_add)
  have c: "canon ?c" "deep ?c (slice_size ?k)" using NBranch.prems(1,2) mem hd mid(3) by simp_all
  have ts: "tsize ?c \<le> tsize (NBranch cs w)" using tsize_member [OF mem] by simp
  have h: "held U s (?N + L + own R ?c)" using NBranch.prems(4) unfolding own_def [of R "NBranch cs w"] L by (simp only: ac_simps)
  have sz: "size (?N + L + own R ?c) + tsize ?c < 2 ^ 32"
    using NBranch.prems(5) ts unfolding own_def [of R "NBranch cs w"] L by simp
  have dU: "ser_data R ` (set_option (tdel ?c xs) \<union> dtouched ?c xs) \<subseteq> U"
    using NBranch.prems(6) x len Cons by simp
  have "slice_size ?k < m" using NBranch.prems(7) f hd mid(3) by simp
  note IH = NBranch.IH [OF mem c mid(2) h sz _ this, unfolded mid(1)]
  have IH: "case tdel ?c xs of None \<Rightarrow> deleteAt m R D (ser R ?c) ?k s = (Inr [], s)
    | Some u \<Rightarrow> ser_data R u \<in> U \<and> (\<exists>s1. deleteAt m R D (ser R ?c) ?k s = (Inr (ser_data R u), s1) \<and> held U s1 (?N + L + node_refs R u))"
    using IH dU by (auto split: option.splits)
  have step: "case tdel ?c xs of None \<Rightarrow> deleteAtAux (deleteAt m R D) R D (cref R ?c) ?k s = (Inr None, s)
      | Some u \<Rightarrow> \<exists>s2. deleteAtAux (deleteAt m R D) R D (cref R ?c) ?k s = (Inr (Some (cref R u)), s2) \<and> held U s2 (?N + L + own R u)"
  proof (cases "?c = NNull")
    case True
    then show ?thesis using deleteAtAux_null by simp
  next
    case False
    from deleteAtAux_step [where rec = "deleteAt m R D", OF False h IH] show ?thesis .
  qed
  show ?case
  proof (cases "tdel ?c xs")
    case None
    with step count hd x len Cons show ?thesis by (simp add: f ser_list ser_at Let_def bind_def)
  next
    case (Some u)
    with step obtain s2 where s2: "deleteAtAux (deleteAt m R D) R D (cref R ?c) ?k s = (Inr (Some (cref R u)), s2)"
      "held U s2 (M + (L + own R u) + big R (NBranch cs w))"
      by (auto simp: ac_simps)
    let ?cs = "cs[unat x := u]"
    have u: "canon u" "tsize u \<le> tsize ?c" using tdel_props [OF c, of xs] Some mid(1,3) nibs_nibbles_of [of ?k] by auto
    have refs: "node_refs R (NBranch ?cs []) = L + own R u"
      using own_update [of "unat x" cs u] x len L by (simp add: w)
    have size: "size (M + node_refs R (NBranch ?cs [])) + size (big R (NBranch cs w)) < 2 ^ 32"
      using size_own [of u] u(2) ts NBranch.prems(5) unfolding own_def [of R "NBranch cs w"] L refs by simp
    obtain s3 where s3: "killNode R D (ser R (NBranch cs w)) s2 = (Inr (), s3)" "held U s3 (M + node_refs R (NBranch ?cs []))"
      using kill_big [OF s2(2)] size unfolding refs by auto
    have l: "length ?cs = 16" "\<forall>c \<in> set ?cs. wfn c" using len wf canon_wfn [OF u(1)] by (auto dest: set_update_subset_insert [THEN subsetD])
    obtain s4 where s4: "(let used = uniqueInUse (\<lambda>i. rlp_isEmpty R (rlp_at R (ser R (NBranch ?cs [])) i)) 255
      in if used = 255 then ret (ser_data R (NBranch ?cs [])) else rejig R D (ser R (NBranch ?cs [])) used) s3
      = (Inr (ser_data R (rejigged ?cs)), s4)" "held U s4 (M + node_refs R (rejigged ?cs))"
      using collapse_branch [OF l s3(2)] size by auto
    have "deleteAt fuel R D (ser R (NBranch cs w)) k s = (Inr (ser_data R (rejigged ?cs)), s4)"
      using count hd x len s4(1) unfolding f deleteAt.simps Let_def
      by (simp add: ser_list ser_at bind_def [of "deleteAtAux _ _ _ _ _"] s2(1) [unfolded One_nat_def]
          bind_def [of "killNode _ _ _"] s3(1) [unfolded w] branch_items_ser out_eqs w cong: if_cong)
    with s4(2) Some Cons x len show ?thesis by simp
  qed
qed

end

end
