(* ===== verification/TrieRuns.thy ===== *)
theory TrieRuns
  imports TrieInsert TrieDelete
begin

text \<open>
  The operations of the trie class on its state, and sequences of them: what a trie holds after a
  sequence that \<open>ops_ok\<close> allows is the tree of the content that the sequence leaves in a map.
\<close>

section \<open>Sequences of operations\<close>

datatype trie_op = Put bytes bytes | Del bytes

primrec op_act :: "'i rlp \<Rightarrow> 's db_ops \<Rightarrow> trie_op \<Rightarrow> ('s GenericTrieDB, unit) act" where
  "op_act R D (Put k v) = trie_insert R D k v"
| "op_act R D (Del k) = trie_remove R D k"

primrec trie_run :: "'i rlp \<Rightarrow> 's db_ops \<Rightarrow> trie_op list \<Rightarrow> ('s GenericTrieDB, unit) act" where
  "trie_run R D [] = ret ()"
| "trie_run R D (p # ps) = bind (op_act R D p) (\<lambda>_. trie_run R D ps)"

primrec tree_op :: "trie_op \<Rightarrow> node \<Rightarrow> node" where
  "tree_op (Put k v) t = tins t (asNibbles k) v"
| "tree_op (Del k) t = (case tdel t (asNibbles k) of None \<Rightarrow> t | Some u \<Rightarrow> u)"

primrec map_op :: "trie_op \<Rightarrow> (bytes \<times> bytes) list \<Rightarrow> (bytes \<times> bytes) list" where
  "map_op (Put k v) m = (k, v) # filter (\<lambda>p. fst p \<noteq> k) m"
| "map_op (Del k) m = filter (\<lambda>p. fst p \<noteq> k) m"

definition content :: "trie_op list \<Rightarrow> (bytes \<times> bytes) list" where
  "content ps = fold map_op ps []"

text \<open>What the operations may be: insertions of values that are not empty, and removals if all keys have one length.\<close>

primrec put_only :: "trie_op \<Rightarrow> bool" where
  "put_only (Put k v) = (v \<noteq> [] \<and> length k < 2 ^ 31)"
| "put_only (Del k) = False"

primrec sized :: "nat \<Rightarrow> trie_op \<Rightarrow> bool" where
  "sized n (Put k v) = (v \<noteq> [] \<and> length k = n)"
| "sized n (Del k) = (length k = n)"

definition ops_ok :: "nat \<Rightarrow> trie_op list \<Rightarrow> bool" where
  "ops_ok n ps \<longleftrightarrow> n < 2 ^ 31 \<and> length ps < 2 ^ 28 \<and> (list_all put_only ps \<or> list_all (sized n) ps)"

text \<open>Everything written to the database on the way.\<close>

primrec op_data :: "'i rlp \<Rightarrow> trie_op \<Rightarrow> node \<Rightarrow> bytes set" where
  "op_data R (Put k v) t = ser_data R ` touched t (asNibbles k) v"
| "op_data R (Del k) t = ser_data R ` (set_option (tdel t (asNibbles k)) \<union> dtouched t (asNibbles k))"

primrec run_data :: "'i rlp \<Rightarrow> trie_op list \<Rightarrow> node \<Rightarrow> bytes set" where
  "run_data R [] t = {}"
| "run_data R (p # ps) t = op_data R p t \<union> run_data R ps (tree_op p t)"

lemma run_data_append: "run_data R (ps @ qs) t = run_data R ps t \<union> run_data R qs (fold tree_op ps t)"
  by (induction ps arbitrary: t) auto

text \<open>The nodes a trie keeps in the database: the root, and every other node of 32 bytes or more.\<close>

definition trie_data :: "'i rlp \<Rightarrow> node \<Rightarrow> bytes multiset" where
  "trie_data R t = add_mset (ser_data R t) (node_refs R t)"

section \<open>The content\<close>

lemma map_of_map_op: "map_of (map_op p m) = (case p of Put k v \<Rightarrow> (map_of m)(k \<mapsto> v) | Del k \<Rightarrow> (map_of m)(k := None))"
proof -
  have "map_of (filter (\<lambda>p. fst p \<noteq> k) m) = (map_of m)(k := None)" for k
    by (induction m) auto
  then show ?thesis by (cases p) simp_all
qed

lemma hexMap_keys: "(l, v) \<in> set (hexMap s) \<Longrightarrow> \<exists>k. l = asNibbles k"
proof -
  have "set (foldl hm_step m xs) \<subseteq> set m \<union> {(asNibbles k, v) | k v. True}" for m xs
  proof (induction xs arbitrary: m)
    case (Cons x xs)
    have "set (hm_step m x) \<subseteq> set m \<union> {(asNibbles k, v) | k v. True}"
      using set_bm_insert [of "asNibbles (fst x)" "snd x" m] by (auto simp: hm_step_def)
    with Cons [of "hm_step m x"] show ?case by auto
  qed simp
  from this [of "[]" "rev s"] show "(l, v) \<in> set (hexMap s) \<Longrightarrow> ?thesis" unfolding hexMap_def by auto
qed

definition no_empty :: "(bytes \<times> bytes) list \<Rightarrow> bool" where
  "no_empty s \<longleftrightarrow> (\<forall>(k, v) \<in> set s. v \<noteq> [] \<and> length k < 2 ^ 31)"

lemma no_empty_op: "no_empty m \<Longrightarrow> put_only p \<or> sized n p \<and> n < 2 ^ 31 \<Longrightarrow> no_empty (map_op p m)"
  by (cases p) (auto simp: no_empty_def)

text \<open>\<open>t\<close> holds the map \<open>m\<close>.\<close>

definition holds :: "node \<Rightarrow> (bytes \<times> bytes) list \<Rightarrow> bool" where
  "holds t m \<longleftrightarrow> canon t \<and> trie_get t = map_of (hexMap m)"

lemma hexMap_get:
  assumes "no_empty m"
  shows "map_of (hexMap m) (asNibbles k) = map_of m k" "(\<And>k. l \<noteq> asNibbles k) \<Longrightarrow> map_of (hexMap m) l = None"
proof -
  have "\<forall>(k, v) \<in> set m. v \<noteq> []" using assms by (auto simp: no_empty_def)
  then show "map_of (hexMap m) (asNibbles k) = map_of m k" by (rule hexMap_ok(2))
  show "(\<And>k. l \<noteq> asNibbles k) \<Longrightarrow> map_of (hexMap m) l = None"
    using hexMap_keys [of l _ m] by (metis map_of_SomeD not_None_eq)
qed

lemma hexMap_op:
  assumes "no_empty m" "no_empty (map_op p m)"
  shows "map_of (hexMap (map_op p m)) = (case p of Put k v \<Rightarrow> (map_of (hexMap m))(asNibbles k \<mapsto> v)
    | Del k \<Rightarrow> (map_of (hexMap m))(asNibbles k := None))"
proof
  fix l
  show "map_of (hexMap (map_op p m)) l = (case p of Put k v \<Rightarrow> (map_of (hexMap m))(asNibbles k \<mapsto> v)
    | Del k \<Rightarrow> (map_of (hexMap m))(asNibbles k := None)) l"
  proof (cases "\<exists>k. l = asNibbles k")
    case True
    then obtain k where l: "l = asNibbles k" by blast
    show ?thesis
      unfolding l hexMap_get(1) [OF assms(2)] map_of_map_op
      using hexMap_get(1) [OF assms(1)] by (auto dest: asNibbles_inj split: trie_op.split)
  next
    case False
    then show ?thesis using hexMap_get(2) [OF assms(1), of l] hexMap_get(2) [OF assms(2), of l]
      by (auto split: trie_op.split)
  qed
qed

lemma asNibbles_nibs [simp]: "nibs (asNibbles k)"
  using asNibbles_small [of _ k] by (auto simp: nibs_def)

lemma holds_trie: "holds t m \<Longrightarrow> no_empty m \<Longrightarrow> t = trie m"
  unfolding holds_def no_empty_def by (intro canon_is_trie) auto

lemma holds_get: "holds t m \<Longrightarrow> no_empty m \<Longrightarrow> trie_get t (asNibbles k) = map_of m k"
  using hexMap_get(1) by (simp add: holds_def)

lemma holds_op:
  assumes "holds t m" "no_empty m" "put_only p \<or> sized n p \<and> n < 2 ^ 31 \<and> deep t (2 * n)"
  shows "holds (tree_op p t) (map_op p m)" "no_empty (map_op p m)" "tsize (tree_op p t) \<le> tsize t + 3"
    "sized n p \<Longrightarrow> deep t (2 * n) \<Longrightarrow> deep (tree_op p t) (2 * n)"
proof -
  have c: "canon t" and g: "trie_get t = map_of (hexMap m)" using assms(1) by (simp_all add: holds_def)
  show ne: "no_empty (map_op p m)" using no_empty_op assms by blast
  have "holds (tree_op p t) (map_op p m) \<and> tsize (tree_op p t) \<le> tsize t + 3
    \<and> (sized n p \<longrightarrow> deep t (2 * n) \<longrightarrow> deep (tree_op p t) (2 * n))"
  proof (cases p)
    case (Put k v)
    then have v: "v \<noteq> []" using assms(3) by auto
    have "trie_get (tins t (asNibbles k) v) = (trie_get t)(asNibbles k \<mapsto> v)"
      using get_tins [OF c _ v, of "asNibbles k"] by (auto simp: fun_eq_iff)
    then show ?thesis
      using canon_tins [OF c _ v, of "asNibbles k"] hexMap_op [OF assms(2) ne] tsize_tins [OF c, of "asNibbles k" v]
        deep_tins [OF c, of "asNibbles k" v] Put g by (auto simp: holds_def)
  next
    case (Del k)
    then have k: "length k = n" "deep t (2 * n)" using assms(3) by auto
    have r: "map_of (hexMap (map_op p m)) = (trie_get t)(asNibbles k := None)"
      using hexMap_op [OF assms(2) ne] Del g by simp
    show ?thesis
      using tdel_props [OF c k(2), of "asNibbles k"] k c Del r
      by (cases "tdel t (asNibbles k)") (auto simp: holds_def fun_eq_iff)
  qed
  then show "holds (tree_op p t) (map_op p m)" "tsize (tree_op p t) \<le> tsize t + 3"
    "sized n p \<Longrightarrow> deep t (2 * n) \<Longrightarrow> deep (tree_op p t) (2 * n)" by blast+
qed

definition map_at :: "(bytes \<times> bytes) list \<Rightarrow> bytes \<Rightarrow> bytes" where
  "map_at m k = (case map_of m k of None \<Rightarrow> [] | Some v \<Rightarrow> v)"

definition fits :: "nat \<Rightarrow> trie_op list \<Rightarrow> node \<Rightarrow> bool" where
  "fits n ps t \<longleftrightarrow> list_all put_only ps \<or> n < 2 ^ 31 \<and> deep t (2 * n) \<and> list_all (sized n) ps"

lemma fits_step: "fits n (p # ps) t \<Longrightarrow> holds t m \<Longrightarrow> no_empty m \<Longrightarrow> fits n ps (tree_op p t)"
  using holds_op(4) [of t m p n] by (auto simp: fits_def)

lemma fold_holds:
  "holds t m \<Longrightarrow> no_empty m \<Longrightarrow> fits n (ps @ qs) t \<Longrightarrow> holds (fold tree_op ps t) (fold map_op ps m) \<and> no_empty (fold map_op ps m)
     \<and> fits n qs (fold tree_op ps t) \<and> tsize (fold tree_op ps t) \<le> tsize t + 3 * length ps"
proof (induction ps arbitrary: t m)
  case (Cons p ps)
  have "put_only p \<or> sized n p \<and> n < 2 ^ 31 \<and> deep t (2 * n)" using Cons.prems(3) by (auto simp: fits_def)
  note op = holds_op [OF Cons.prems(1,2) this]
  have "fits n (ps @ qs) (tree_op p t)" using fits_step [OF _ Cons.prems(1,2)] Cons.prems(3) by simp
  from Cons.IH [OF op(1,2) this] op(3) show ?case by simp
qed simp

lemma hash256_trie:
  assumes "no_empty m"
  shows "hash256 R m = sha3 (ser_data R (trie m))"
proof -
  have "\<forall>(k, v) \<in> set m. v \<noteq> []" using assms by (auto simp: no_empty_def)
  from hash256rlp_ser [OF hexMap_ok(1) [OF this], of R] show ?thesis
    by (simp add: hash256_def rlp256_def trie_def hexMap_Nil ser_data_def)
qed

section \<open>A trie in a database\<close>

context trie_reader
begin

definition reps :: "bytes set \<Rightarrow> bytes multiset \<Rightarrow> 's GenericTrieDB \<Rightarrow> node \<Rightarrow> bool" where
  "reps U B td t \<longleftrightarrow> tr_root td = sha3 (ser_data R t) \<and> held U (tr_db td) (B + trie_data R t)"

lemma slice_size_of [simp]: "slice_size (slice_of k) = 2 * length k"
  using length_nibbles_of [of "slice_of k"] by simp

lemma read_root: "held U s (B + trie_data R t) \<Longrightarrow> db_node D (sha3 (ser_data R t)) s = (Inr (ser_data R t), s)"
  using held_look [of U s "B + trie_data R t" "ser_data R t"] by (simp add: db_node_def trie_data_def)

lemma read_reps:
  assumes "reps U B td t" "holds t m" "no_empty m"
  shows "trie_at R D k td = (Inr (map_at m k), td)"
proof -
  have h: "held U (tr_db td) (B + trie_data R t)" "tr_root td = sha3 (ser_data R t)" using assms(1) by (simp_all add: reps_def)
  have "wfn t" using assms(2) canon_wfn by (simp add: holds_def)
  moreover have "node_refs R t \<subseteq># B + trie_data R t" by (simp add: trie_data_def subset_mset.add_increasing)
  ultimately have "atAux (trie_fuel k) R D (ser R t) (slice_of k) (tr_db td) = (Inr (map_at m k), tr_db td)"
    using atAux_get [OF h(1), of t "slice_of k" "trie_fuel k"] holds_get [OF assms(2,3), of k]
    by (simp add: trie_fuel_def map_at_def)
  with read_root [OF h(1)] h(2) show ?thesis
    by (simp add: trie_at_def bind_def get_root_def db_act_def)
qed

lemma root_reps: "reps U B td t \<Longrightarrow> holds t m \<Longrightarrow> no_empty m \<Longrightarrow> tr_root td = hash256 R m"
  using holds_trie [of t m] by (simp add: reps_def hash256_trie)

end

section \<open>One operation\<close>

context trie_lib
begin

lemma root_own: "B + trie_data R t = B + (if length (ser_data R t) < 32 then {#ser_data R t#} else {#}) + own R t"
  by (simp add: trie_data_def own_def big_def)

lemma size_trie_data: "size (trie_data R t) \<le> tsize t + 1"
  using size_own [of t] by (auto simp: trie_data_def own_def big_def split: if_splits) 

lemma force_insert: "held U s M \<Longrightarrow> b \<in> U \<Longrightarrow> b \<noteq> [] \<Longrightarrow>
    \<exists>s'. forceInsertNode D b s = (Inr (sha3 b), s') \<and> held U s' (add_mset b M)"
  using held_ins [of U s M b] by (simp add: forceInsertNode_def forceInsertNode_at_def bind_def Let_def)

text \<open>The old root is released, by the recursion if it has 32 bytes, else by the caller.\<close>

lemma swap_root:
  assumes "held U s ((if length (ser_data R t) < 32 then {#ser_data R t#} else {#}) + N)"
    and "size ((if length (ser_data R t) < 32 then {#ser_data R t#} else {#}) + N) < 2 ^ 32" "ser_data R u \<in> U"
  shows "\<exists>s'. bind (if length (ser_data R t) < 32 then forceKillNode D (sha3 (ser_data R t)) else ret ())
      (\<lambda>_. forceInsertNode D (ser_data R u)) s = (Inr (sha3 (ser_data R u)), s') \<and> held U s' (add_mset (ser_data R u) N)"
proof (cases "length (ser_data R t) < 32")
  case True
  let ?b = "ser_data R t"
  have h: "held U s (add_mset ?b N)" using assms(1) True by simp
  have "?b \<in> U" using held_in [OF h] by simp
  from held_kill [OF h this] assms(2) True have "held U (db_kill D (sha3 ?b) s) N" by simp
  from force_insert [OF this assms(3)] True show ?thesis by (auto simp: forceKillNode_def bind_def)
next
  case False
  with force_insert [OF _ assms(3), of s N] assms(1) show ?thesis by simp
qed

lemma insert_step:
  assumes "reps U B td t" "canon t" "clean R B" "op_data R (Put k v) t \<subseteq> U" "size B + tsize t + 4 < 2 ^ 32"
    and "tsize (tins t (asNibbles k) v) \<le> tsize t + 3"
  shows "\<exists>td'. trie_insert R D k v td = (Inr (), td') \<and> reps U B td' (tins t (asNibbles k) v)"
proof -
  let ?t = "tins t (asNibbles k) v" and ?S = "if length (ser_data R t) < 32 then {#ser_data R t#} else {#}"
  have h: "held U (tr_db td) (B + ?S + own R t)" and r: "tr_root td = sha3 (ser_data R t)"
    using assms(1) unfolding reps_def root_own by simp_all
  have size: "size (B + ?S + own R t) + 2 < 2 ^ 32"
    using size_trie_data [of t] assms(5) unfolding root_own [symmetric] by simp
  have cl: "clean R (B + ?S)" using assms(3) not_lonely [OF assms(2)] by simp
  have U: "ser_data R ` touched t (nibbles_of (slice_of k)) v \<subseteq> U" using assms(4) by simp
  obtain s1 where s1: "mergeAt (trie_fuel k) R D (ser R t) (sha3 (ser_data R t)) (slice_of k) v False (tr_db td) = (Inr (ser_data R ?t), s1)"
      "held U s1 (B + ?S + node_refs R ?t)"
    using mergeAt_tins [OF assms(2) _ h size cl U, of "trie_fuel k" False] by (auto simp: trie_fuel_def)
  have tU: "ser_data R ?t \<in> U" using assms(4) by (auto simp: touched_def)
  have "size (B + ?S + node_refs R ?t) < 2 ^ 32"
  proof -
    have "size (node_refs R ?t) \<le> tsize t + 3" using size_own [of ?t] assms(6) by (simp add: own_def)
    then have "size (B + ?S + node_refs R ?t) \<le> size B + tsize t + 4" by simp
    then show ?thesis using assms(5) by linarith
  qed
  then obtain s2 where s2: "bind (if length (ser_data R t) < 32 then forceKillNode D (sha3 (ser_data R t)) else ret ())
      (\<lambda>_. forceInsertNode D (ser_data R ?t)) s1 = (Inr (sha3 (ser_data R ?t)), s2)" "held U s2 (B + trie_data R ?t)"
    using swap_root [of U s1 t "B + node_refs R ?t" ?t] s1(2) tU by (auto simp: ac_simps trie_data_def)
  have "trie_insert R D k v td = (Inr (), td\<lparr>tr_db := s2, tr_root := sha3 (ser_data R ?t)\<rparr>)"
    unfolding trie_insert_def using read_root [of U "tr_db td" B t] h s1(1) s2(1)
    by (simp add: bind_def get_root_def db_act_def set_root_def r root_own cong: if_cong)
  with s2(2) show ?thesis by (simp add: reps_def)
qed

lemma remove_step:
  assumes "reps U B td t" "canon t" "deep t (2 * length k)" "op_data R (Del k) t \<subseteq> U" "size B + 2 * tsize t + 1 < 2 ^ 32"
  shows "\<exists>td'. trie_remove R D k td = (Inr (), td') \<and> reps U B td' (tree_op (Del k) t)"
proof -
  let ?S = "if length (ser_data R t) < 32 then {#ser_data R t#} else {#}"
  have h: "held U (tr_db td) (B + ?S + own R t)" and r: "tr_root td = sha3 (ser_data R t)"
    using assms(1) unfolding reps_def root_own by simp_all
  have size: "size (B + ?S + own R t) + tsize t < 2 ^ 32"
    using size_trie_data [of t] assms(5) unfolding root_own [symmetric] by simp
  have dp: "deep t (slice_size (slice_of k))"
    using assms(3) by simp
  have fuel: "slice_size (slice_of k) < trie_fuel k"
    by (simp add: trie_fuel_def)
  have U: "ser_data R ` dtouched t (nibbles_of (slice_of k)) \<subseteq> U" using assms(4) by auto
  note del = deleteAt_tdel [OF assms(2) dp _ h size U fuel]
  note read = read_root [of U "tr_db td" B t, unfolded root_own, OF h]
  show ?thesis
  proof (cases "tdel t (asNibbles k)")
    case None
    with del have "deleteAt (trie_fuel k) R D (ser R t) (slice_of k) (tr_db td) = (Inr [], tr_db td)" by simp
    then have "trie_remove R D k td = (Inr (), td)"
      unfolding trie_remove_def using read by (simp add: bind_def get_root_def db_act_def r)
    with None assms(1) show ?thesis by simp
  next
    case (Some u)
    with del obtain s1 where s1: "deleteAt (trie_fuel k) R D (ser R t) (slice_of k) (tr_db td) = (Inr (ser_data R u), s1)"
        "held U s1 (B + ?S + node_refs R u)" by auto
    have uU: "ser_data R u \<in> U" using assms(4) Some by simp
    have "length (nibbles_of (slice_of k)) = 2 * length k" by simp
    then have "tsize u \<le> tsize t" using tdel_props [OF assms(2,3), of "asNibbles k"] Some by simp
    then have "size (node_refs R u) \<le> tsize t" using size_own [of u] by (simp add: own_def)
    then have "size (B + ?S + node_refs R u) \<le> size B + 1 + tsize t" by simp
    also have "\<dots> < 2 ^ 32" using assms(5) by simp
    finally obtain s2 where s2: "bind (if length (ser_data R t) < 32 then forceKillNode D (sha3 (ser_data R t)) else ret ())
        (\<lambda>_. forceInsertNode D (ser_data R u)) s1 = (Inr (sha3 (ser_data R u)), s2)" "held U s2 (B + trie_data R u)"
      using swap_root [of U s1 t "B + node_refs R u" u] s1(2) uU by (auto simp: ac_simps trie_data_def)
    have "bind (if length (ser_data R t) < 32 then forceKillNode D (sha3 (ser_data R t)) else ret ())
        (\<lambda>_. bind (forceInsertNode D (ser_data R u)) (\<lambda>h. ret (Some h))) s1 = (Inr (Some (sha3 (ser_data R u))), s2)"
      unfolding bind_assoc [symmetric] bind_def [of "bind _ _"] s2(1) by simp
    then have "trie_remove R D k td = (Inr (), td\<lparr>tr_db := s2, tr_root := sha3 (ser_data R u)\<rparr>)"
      unfolding trie_remove_def using read s1(1)
      by (simp add: bind_def [of get_root] bind_def [of "db_act _"] bind_def [of "db_node _ _"] bind_def [of "deleteAt _ _ _ _ _"]
          get_root_def db_act_def set_root_def r)
    with s2(2) Some show ?thesis by (simp add: reps_def)
  qed
qed

section \<open>A sequence of operations\<close>

lemma run_reps:
  "reps U B td t \<Longrightarrow> holds t m \<Longrightarrow> no_empty m \<Longrightarrow> fits n ps t \<Longrightarrow> clean R B \<Longrightarrow> run_data R ps t \<subseteq> U
    \<Longrightarrow> size B + 2 * tsize t + 6 * length ps + 4 < 2 ^ 32
    \<Longrightarrow> \<exists>td'. trie_run R D ps td = (Inr (), td') \<and> reps U B td' (fold tree_op ps t)"
proof (induction ps arbitrary: td t m)
  case Nil
  then show ?case by simp
next
  case (Cons p ps)
  have "put_only p \<or> sized n p \<and> n < 2 ^ 31 \<and> deep t (2 * n)" using Cons.prems(4) by (auto simp: fits_def)
  note op = holds_op [OF Cons.prems(2,3) this]
  have c: "canon t" using Cons.prems(2) by (simp add: holds_def)
  have "\<exists>td'. op_act R D p td = (Inr (), td') \<and> reps U B td' (tree_op p t)"
  proof (cases p)
    case (Put k v)
    have "op_data R (Put k v) t \<subseteq> U" "size B + tsize t + 4 < 2 ^ 32" using Cons.prems(6,7) Put by simp_all
    from insert_step [OF Cons.prems(1) c Cons.prems(5) this] op(3) Put show ?thesis by simp
  next
    case (Del k)
    have "op_data R (Del k) t \<subseteq> U" "size B + 2 * tsize t + 1 < 2 ^ 32" "deep t (2 * length k)"
      using Cons.prems(4,6,7) Del by (simp_all add: fits_def)
    from remove_step [OF Cons.prems(1) c this(3,1,2)] Del show ?thesis by simp
  qed
  then obtain td1 where td1: "op_act R D p td = (Inr (), td1)" "reps U B td1 (tree_op p t)" by blast
  have "\<exists>td'. trie_run R D ps td1 = (Inr (), td') \<and> reps U B td' (fold tree_op ps (tree_op p t))"
    by (rule Cons.IH [OF td1(2) op(1,2) fits_step [OF Cons.prems(4,2,3)] Cons.prems(5)])
      (use Cons.prems(6,7) op(3) in simp_all)
  with td1(1) show ?case by (simp add: bind_def)
qed

lemma null_data: "RLPNull R = ser_data R NNull"
  by (simp add: RLPNull_def ser_data_def ser_NNull)

lemma open_reps:
  assumes "reps U B td t"
  shows "trie_open R D (tr_db td) (tr_root td) normal td0 = (Inr (), td0\<lparr>tr_db := tr_db td, tr_root := tr_root td\<rparr>)"
proof -
  have h: "held U (tr_db td) (B + trie_data R t)" "tr_root td = sha3 (ser_data R t)" using assms by (simp_all add: reps_def)
  have "db_exists D (tr_db td) (tr_root td)"
    using held_exists [OF h(1), of "ser_data R t"] h(2) by (simp add: trie_data_def)
  moreover have "db_node D (tr_root td) (tr_db td) = (Inr (ser_data R t), tr_db td)"
    using read_root [OF h(1)] h(2) by simp
  ultimately show ?thesis
    by (simp add: trie_open_def setRoot_def numeral_2_eq_2 bind_def set_root_def get_root_def db_act_def)
qed

lemma init_reps:
  assumes "held U (tr_db td) B" "RLPNull R \<in> U"
  shows "\<exists>td'. trie_init R D td = (Inr (), td') \<and> reps U B td' NNull"
proof -
  let ?b = "ser_data R NNull"
  obtain s1 where s1: "forceInsertNode D ?b (tr_db td) = (Inr (sha3 ?b), s1)" "held U s1 (add_mset ?b B)"
    using force_insert [OF assms(1), of ?b] assms(2) by (auto simp: null_data)
  let ?td = "\<lparr>tr_root = sha3 ?b, tr_db = s1\<rparr>"
  have r: "reps U B ?td NNull" using s1(2) by (simp add: reps_def trie_data_def)
  have "trie_init R D td = trie_open R D (tr_db ?td) (tr_root ?td) True (td\<lparr>tr_db := s1\<rparr>)"
    using s1(1) by (simp add: trie_init_def trie_open_def bind_def db_act_def null_data)
  with open_reps [OF r, of True "td\<lparr>tr_db := s1\<rparr>"] r show ?thesis by (simp add: reps_def)
qed

lemma empty_held: "canon NNull" "holds NNull []" "no_empty []"
  by (simp_all add: holds_def no_empty_def hexMap_Nil fun_eq_iff)

text \<open>From an empty trie.\<close>

lemma build_reps:
  assumes "held U (tr_db td) B" "RLPNull R \<in> U" "clean R B" "ops_ok n ps" "run_data R ps NNull \<subseteq> U" "size B < 2 ^ 31"
  shows "\<exists>td'. bind (trie_init R D) (\<lambda>_. trie_run R D ps) td = (Inr (), td') \<and> reps U B td' (fold tree_op ps NNull)"
proof -
  obtain td1 where td1: "trie_init R D td = (Inr (), td1)" "reps U B td1 NNull"
    using init_reps [OF assms(1,2)] by blast
  have f: "fits n ps NNull" using assms(4) by (auto simp: ops_ok_def fits_def)
  have "size B + 2 * tsize NNull + 6 * length ps + 4 < 2 ^ 32" using assms(4,6) by (simp add: ops_ok_def)
  from run_reps [OF td1(2) empty_held(2,3) f assms(3,5) this] td1(1) show ?thesis by (simp add: bind_def)
qed

end

lemma content_holds:
  assumes "ops_ok n ps"
  shows "holds (fold tree_op ps NNull) (content ps)" "no_empty (content ps)" "fold tree_op ps NNull = trie (content ps)"
proof -
  have "fits n ps NNull" using assms by (auto simp: ops_ok_def fits_def)
  moreover have "holds NNull []" "no_empty []" by (simp_all add: holds_def no_empty_def hexMap_Nil fun_eq_iff)
  ultimately show h: "holds (fold tree_op ps NNull) (content ps)" "no_empty (content ps)"
    using fold_holds [of NNull "[]" n ps "[]"] by (simp_all add: content_def)
  from holds_trie [OF h] show "fold tree_op ps NNull = trie (content ps)" .
qed

end
