(* ===== verification/TrieProps.thy ===== *)
theory TrieProps
  imports TrieRuns
begin

text \<open>
  The properties of the trie over its databases. Two nodes with one hash would be stored in one place, so every
  statement has the alternative of such a collision among the data it names.
\<close>

section \<open>Collisions\<close>

definition collision :: "bytes set \<Rightarrow> bool" where
  "collision U \<longleftrightarrow> (\<exists>a \<in> U. \<exists>b \<in> U. sha3 a = sha3 b \<and> a \<noteq> b)"

lemma no_collision: "\<not> collision U \<Longrightarrow> inj_on sha3 U"
  by (auto simp: collision_def inj_on_def)

text \<open>Everything written by a sequence of operations on an empty trie.\<close>

definition written :: "'i rlp \<Rightarrow> trie_op list \<Rightarrow> bytes set" where
  "written R ps = insert (RLPNull R) (run_data R ps NNull)"

definition trie_build :: "'i rlp \<Rightarrow> 's db_ops \<Rightarrow> trie_op list \<Rightarrow> ('s GenericTrieDB, unit) act" where
  "trie_build R D ps = bind (trie_init R D) (\<lambda>_. trie_run R D ps)"

lemmas strict_lib = trie_reader.intro [OF rlp_lib.intro mdb_strict.node_source_axioms]
lemmas mdb_reader = trie_reader.intro [OF rlp_lib.intro mdb_refs.node_source_axioms]
lemmas mdb_lib = trie_lib.intro [OF mdb_reader mdb_refs.ref_store_axioms]
lemmas odb_reader = trie_reader.intro [OF rlp_lib.intro odb_refs.node_source_axioms]
lemmas odb_lib = trie_lib.intro [OF odb_reader odb_refs.ref_store_axioms]

section \<open>A trie in memory\<close>

lemma mdb_held_new: "inj_on sha3 U \<Longrightarrow> mdb_held U MemoryDB_new {#}"
  by (simp add: mdb_held_def MemoryDB_new_def counts_def refs_def mdb_ok_def)

lemma mdb_held_counts: "mdb_held U s M \<Longrightarrow> refs s h = of_nat (count (image_mset sha3 M) h)"
  by (simp add: mdb_held_def counts_def)

text \<open>Reading with the reference counts enforced, or not.\<close>

definition enforcing :: "bool \<Rightarrow> MemoryDB GenericTrieDB \<Rightarrow> MemoryDB GenericTrieDB" where
  "enforcing e td = td\<lparr>tr_db := with_EnforceRefs e id (tr_db td)\<rparr>"

lemma read_any:
  assumes "rlp_ok R" "trie_reader.reps R mdb_held U B td t" "holds t m" "no_empty m" "size (B + trie_data R t) < 2 ^ 32"
  shows "trie_at R mdb_ops k (enforcing e td) = (Inr (map_at m k), enforcing e td)"
proof -
  note mr = mdb_reader [OF assms(1)] and sr = strict_lib [OF assms(1)]
  have off: "s\<lparr>m_enforceRefs := False\<rparr> = s" if "\<not> m_enforceRefs s" for s :: MemoryDB using that by (cases s) simp
  have h: "tr_root td = sha3 (ser_data R t)" "mdb_held U (tr_db td) (B + trie_data R t)" "\<not> m_enforceRefs (tr_db td)"
    using assms(2) by (simp_all add: trie_reader.reps_def [OF mr] mdb_held_def)
  show ?thesis
  proof (cases e)
    case True
    have off': "mdb_held U ((tr_db td)\<lparr>m_enforceRefs := False\<rparr>) (B + trie_data R t)" unfolding off [OF h(3)] by (rule h(2))
    have "trie_reader.reps R mdb_enforced U B (enforcing True td) t"
      using h(1) assms(5) off' by (simp add: trie_reader.reps_def [OF sr] mdb_enforced_def enforcing_def with_EnforceRefs_def)
    from trie_reader.read_reps [OF sr this assms(3,4)] True show ?thesis by simp
  next
    case False
    then have "enforcing e td = td" using off [OF h(3)] by (simp add: enforcing_def with_EnforceRefs_def)
    with trie_reader.read_reps [OF mr assms(2-4)] show ?thesis by simp
  qed
qed

lemma content_tsize:
  assumes "ops_ok n ps"
  shows "tsize (trie (content ps)) \<le> 3 * length ps"
proof -
  have "fits n ps NNull" using assms by (auto simp: ops_ok_def fits_def)
  moreover have "holds NNull []" "no_empty []" by (simp_all add: holds_def no_empty_def hexMap_Nil fun_eq_iff)
  ultimately show ?thesis using fold_holds [of NNull "[]" n ps "[]"] content_holds(3) [OF assms] by simp
qed

lemma content_size:
  assumes "ops_ok n ps" "rlp_ok R"
  shows "size (trie_data R (trie (content ps))) \<le> 3 * length ps + 1"
  using content_tsize [OF assms(1)] trie_lib.size_trie_data [OF mdb_lib [OF assms(2)], of "trie (content ps)"] by simp

text \<open>C2: the trie over a \<open>MemoryDB\<close> is the map, for every sequence of fewer than \<open>2 ^ 28\<close> operations (\<open>ops_ok\<close>) that inserts non-empty values
  and either inserts and removes keys of one length, or only inserts, with keys of any lengths. Removals among keys of different
  lengths are outside: there \<open>deleteAt\<close> may take a stored value for the hash of a node. Unless two of the byte strings
  hashed on the way collide, no operation fails, the root is the one \<open>hash256\<close> computes from the
  whole content, every key, whether in the map or not, reads as the map has it, also when nodes without references are hidden
  (\<open>EnforceRefs\<close>), and the reference count of each hash is
  exactly the number of places it has in the tree of the content, so that no node is lost and none is kept too long.\<close>

theorem trie_memory:
  assumes "rlp_ok R" "ops_ok n ps"
  shows "collision (written R ps) \<or> (\<exists>td.
      trie_build R mdb_ops ps \<lparr>tr_root = h, tr_db = MemoryDB_new\<rparr> = (Inr (), td)
    \<and> tr_root td = hash256 R (content ps)
    \<and> (\<forall>e k. trie_at R mdb_ops k (enforcing e td) = (Inr (map_at (content ps) k), enforcing e td))
    \<and> (\<forall>h. refs (tr_db td) h = of_nat (count (image_mset sha3 (trie_data R (trie (content ps)))) h)))"
proof (cases "collision (written R ps)")
  case False
  note lib = mdb_lib [OF assms(1)] and lib' = mdb_reader [OF assms(1)]
  note c = content_holds [OF assms(2)]
  have U: "mdb_held (written R ps) MemoryDB_new {#}" using mdb_held_new no_collision [OF False] by blast
  obtain td where td: "trie_build R mdb_ops ps \<lparr>tr_root = h, tr_db = MemoryDB_new\<rparr> = (Inr (), td)"
      "trie_reader.reps R mdb_held (written R ps) {#} td (trie (content ps))"
    using trie_lib.build_reps [OF lib, of "written R ps" "\<lparr>tr_root = h, tr_db = MemoryDB_new\<rparr>" "{#}" n ps] U assms(2) c(3)
    by (auto simp: written_def trie_build_def)
  moreover have "refs (tr_db td) h = of_nat (count (image_mset sha3 (trie_data R (trie (content ps)))) h)" for h
    using td(2) by (intro mdb_held_counts [of "written R ps"]) (simp add: trie_reader.reps_def [OF lib'])
  moreover have "size ({#} + trie_data R (trie (content ps))) < 2 ^ 32"
    using content_size [OF assms(2,1)] assms(2) by (simp add: ops_ok_def)
  ultimately show ?thesis
    using trie_reader.root_reps [OF lib' td(2)] read_any [OF assms(1) td(2)] c by metis
qed simp

theorem trie_memory_witness:
  "collision (written tree_rlp [Put [0x12] [7], Put [0x13] [8], Del [0x12]]) \<or> (\<exists>td.
      trie_build tree_rlp mdb_ops [Put [0x12] [7], Put [0x13] [8], Del [0x12]] \<lparr>tr_root = [], tr_db = MemoryDB_new\<rparr> = (Inr (), td)
    \<and> tr_root td = hash256 tree_rlp [([0x13], [8])]
    \<and> fst (trie_at tree_rlp mdb_ops [0x13] (enforcing True td)) = Inr [8] \<and> fst (trie_at tree_rlp mdb_ops [0x12] (enforcing False td)) = Inr [])"
proof -
  have c: "content [Put [0x12] [7], Put [0x13] [8], Del [0x12]] = [([0x13], [8])]" by (simp add: content_def)
  have "map_at [([0x13], [8])] [0x13] = [8]" "map_at [([0x13], [8])] [0x12] = []" by (simp_all add: map_at_def)
  then show ?thesis
    using trie_memory [OF tree_rlp_ok, of 1 "[Put [0x12] [7], Put [0x13] [8], Del [0x12]]" "[]"]
    unfolding c by (simp add: ops_ok_def) (metis fst_conv)
qed

text \<open>What a sequence of operations on an empty trie in memory leaves.\<close>

lemma memory_reps:
  assumes "rlp_ok R" "ops_ok n ps" "\<not> collision (written R ps)"
    and "trie_build R mdb_ops ps \<lparr>tr_root = h, tr_db = MemoryDB_new\<rparr> = (r, td)"
  shows "r = Inr ()" "trie_reader.reps R mdb_held (written R ps) {#} td (trie (content ps))"
    "tsize (trie (content ps)) \<le> 3 * length ps"
proof -
  note lib = mdb_lib [OF assms(1)]
  note c = content_holds [OF assms(2)]
  have U: "mdb_held (written R ps) MemoryDB_new {#}" using mdb_held_new no_collision [OF assms(3)] by blast
  then show "r = Inr ()" "trie_reader.reps R mdb_held (written R ps) {#} td (trie (content ps))"
    using trie_lib.build_reps [OF lib, of "written R ps" "\<lparr>tr_root = h, tr_db = MemoryDB_new\<rparr>" "{#}" n ps] assms(2,4) c(3)
    by (auto simp: written_def trie_build_def)
  show "tsize (trie (content ps)) \<le> 3 * length ps" by (rule content_tsize [OF assms(2)])
qed

section \<open>Two tries in one database\<close>

lemma shared_reps:
  assumes "rlp_ok R" "ops_ok n ps" "ops_ok m qs" "length ps + length qs < 2 ^ 27" "\<not> collision (written R ps \<union> written R qs)"
    and "trie_build R mdb_ops ps \<lparr>tr_root = h, tr_db = MemoryDB_new\<rparr> = (r, td)"
    and "trie_build R mdb_ops qs \<lparr>tr_root = h', tr_db = tr_db td\<rparr> = (r', td')"
  shows "r = Inr ()" "trie_reader.reps R mdb_held (written R ps \<union> written R qs) {#} td (trie (content ps))"
    "r' = Inr ()" "trie_reader.reps R mdb_held (written R ps \<union> written R qs) (trie_data R (trie (content ps))) td' (trie (content qs))"
    "tsize (trie (content ps)) \<le> 3 * length ps" "tsize (trie (content qs)) \<le> 3 * length qs"
proof -
  let ?U = "written R ps \<union> written R qs" and ?t = "trie (content ps)" and ?t' = "trie (content qs)"
  note lib = mdb_lib [OF assms(1)] and lib' = mdb_reader [OF assms(1)]
  note c = content_holds [OF assms(2)] and c' = content_holds [OF assms(3)]
  have U: "mdb_held ?U MemoryDB_new {#}" using mdb_held_new no_collision [OF assms(5)] by blast
  have td: "r = Inr ()" "trie_reader.reps R mdb_held ?U {#} td ?t"
    using trie_lib.build_reps [OF lib, of ?U "\<lparr>tr_root = h, tr_db = MemoryDB_new\<rparr>" "{#}" n ps] U assms(2,6) c(3)
    by (auto simp: written_def trie_build_def)
  from td(2) have held: "mdb_held ?U (tr_db td) (trie_data R ?t)" by (simp add: trie_reader.reps_def [OF lib'])
  have canon: "canon ?t" using c by (simp add: holds_def)
  have "clean R (trie_data R ?t)"
    using rlp_lib.clean_own [OF rlp_lib.intro [OF assms(1)] canon] rlp_lib.not_lonely [OF rlp_lib.intro [OF assms(1)] canon]
    by (simp add: trie_data_def rlp_lib.parse_ser [OF rlp_lib.intro [OF assms(1)]])
  moreover note s = content_size [OF assms(2,1)] content_size [OF assms(3,1)]
  ultimately show "r' = Inr ()" "trie_reader.reps R mdb_held ?U (trie_data R ?t) td' ?t'"
    using trie_lib.build_reps [OF lib, of ?U "\<lparr>tr_root = h', tr_db = tr_db td\<rparr>" "trie_data R ?t" m qs] held assms(3,4,7) c'(3)
    by (auto simp: written_def trie_build_def)
  show "tsize ?t \<le> 3 * length ps" "tsize ?t' \<le> 3 * length qs"
    by (rule content_tsize [OF assms(2)], rule content_tsize [OF assms(3)])
  show "r = Inr ()" "trie_reader.reps R mdb_held ?U {#} td ?t" by (rule td(1), rule td(2))
qed

text \<open>C17: tries share a database without disturbing each other, although they share nodes: after one trie has been
  built, operations on a second one in the same \<open>MemoryDB\<close> leave every key of the first
  readable under its root, also when nodes without references are hidden. The operations of each trie are those of \<open>ops_ok\<close>: insertions of
  non-empty values and removals, all for keys of one length, or insertions alone for keys of any lengths. Where keys of different lengths are removed
  \<open>deleteAt\<close> may take a stored value for the hash of a node and release it, and nothing is claimed.\<close>

theorem tries_share:
  assumes "rlp_ok R" "ops_ok n ps" "ops_ok m qs" "length ps + length qs < 2 ^ 27"
    and "trie_build R mdb_ops ps \<lparr>tr_root = h, tr_db = MemoryDB_new\<rparr> = (r, td)"
    and "trie_build R mdb_ops qs \<lparr>tr_root = h', tr_db = tr_db td\<rparr> = (r', td')"
  shows "collision (written R ps \<union> written R qs) \<or> r = Inr () \<and> r' = Inr ()
    \<and> fst (trie_at R mdb_ops k (enforcing e (td'\<lparr>tr_root := tr_root td\<rparr>))) = Inr (map_at (content ps) k)
    \<and> fst (trie_at R mdb_ops k (enforcing e td')) = Inr (map_at (content qs) k)"
proof (cases "collision (written R ps \<union> written R qs)")
  case False
  let ?U = "written R ps \<union> written R qs" and ?t = "trie (content ps)" and ?t' = "trie (content qs)"
  note m = shared_reps [OF assms(1-4) False assms(5,6)]
  note c = content_holds [OF assms(2)] and c' = content_holds [OF assms(3)]
  note s = content_size [OF assms(2,1)] content_size [OF assms(3,1)]
  have first: "trie_reader.reps R mdb_held ?U (trie_data R ?t') (td'\<lparr>tr_root := tr_root td\<rparr>) ?t"
    using m(2,4) by (simp add: trie_reader.reps_def [OF mdb_reader [OF assms(1)]] add.commute)
  have "size (trie_data R ?t + trie_data R ?t') < 2 ^ 32" "size (trie_data R ?t' + trie_data R ?t) < 2 ^ 32" using s assms(4) by simp_all
  with read_any [OF assms(1) first] read_any [OF assms(1) m(4)] m(1,3) c c' show ?thesis by simp
qed simp

theorem tries_share_witness:
  "let qs = [Put [0x12] [7], Del [0x12]]; (r, td) = trie_build tree_rlp mdb_ops [Put [0x12] [7]] \<lparr>tr_root = [], tr_db = MemoryDB_new\<rparr>;
     (r', td') = trie_build tree_rlp mdb_ops qs \<lparr>tr_root = [], tr_db = tr_db td\<rparr>
   in collision (written tree_rlp [Put [0x12] [7]] \<union> written tree_rlp qs)
     \<or> fst (trie_at tree_rlp mdb_ops [0x12] (enforcing True (td'\<lparr>tr_root := tr_root td\<rparr>))) = Inr [7]"
proof -
  obtain r td where 1: "trie_build tree_rlp mdb_ops [Put [0x12] [7]] \<lparr>tr_root = [], tr_db = MemoryDB_new\<rparr> = (r, td)" by force
  obtain r' td' where 2: "trie_build tree_rlp mdb_ops [Put [0x12] [7], Del [0x12]] \<lparr>tr_root = [], tr_db = tr_db td\<rparr> = (r', td')"
    by force
  have "map_at (content [Put [0x12] [7]]) [0x12] = [7]" by (simp add: content_def map_at_def)
  then show ?thesis
    using tries_share [OF tree_rlp_ok _ _ _ 1 2, of 1 1 "[0x12]" True] 1 2 by (auto simp: ops_ok_def)
qed

section \<open>A trie on disk\<close>

text \<open>A run of the program between two commits: operations, the commit, and the trie opened again at its root.\<close>

primrec sessions :: "'i rlp \<Rightarrow> 'd ldb \<Rightarrow> trie_op list list \<Rightarrow> 'd OverlayDB GenericTrieDB
    \<Rightarrow> ((trie_error + unit) \<times> 'd OverlayDB GenericTrieDB) option" where
  "sessions R L [] td = Some (Inr (), td)"
| "sessions R L (ps # pss) td = (case trie_run R (odb_ops L) ps td of
     (Inl e, td1) \<Rightarrow> Some (Inl e, td1)
   | (Inr _, td1) \<Rightarrow> (case commit L (tr_db td1) of None \<Rightarrow> None
     | Some s \<Rightarrow> (case trie_open R (odb_ops L) s (tr_root td1) True td1 of
         (Inl e, td2) \<Rightarrow> Some (Inl e, td2)
       | (Inr _, td2) \<Rightarrow> sessions R L pss td2)))"

lemma commit_held:
  assumes "odb_held L U s M" "ldb_ok L" "size M < 2 ^ 32" "commit L s = Some s'"
  shows "odb_held L U s' M \<and> m_main s' = []"
proof -
  obtain d where Some: "m_db s = Some d" using assms(1) by (auto simp: odb_held_def)
  have s: "inj_on sha3 U" "set_mset M \<subseteq> U" "\<not> m_enforceRefs s" "mdb_ok s" "keys_ok s" "agrees L U s"
    "counts (\<lambda>h. db_read L s h = []) s M" and look: "\<And>b. b \<in># M \<Longrightarrow> b \<noteq> [] \<and> odb_lookup L s (sha3 b) = b"
    using assms(1) by (simp_all add: odb_held_def)
  have e: "\<not> m_enforceRefs s'" using assms(4) Some s(3) by (auto simp: commit_def)
  note r = commit_reads [OF assms(2) s(4,5) assms(4) Some]
  have main: "m_main s' = []" "m_aux s' = []" "m_db s' \<noteq> None" using r(3-5) [of "sha3 []"] by simp_all
  have read: "db_read L s' (sha3 b) \<in> {[], b}" if "b \<in> U" for b
    using r(1) [of "sha3 b"] s(6) that by (auto simp: agrees_def split: option.splits if_splits)
  have keep: "db_read L s' (sha3 b) = b" if b: "b \<in># M" for b
  proof -
    have U: "b \<in> U" using b s(2) by auto
    show ?thesis
    proof (cases "db_read L s (sha3 b) = []")
      case True
      have "0 < refs s (sha3 b)" using counts_pos [OF s(7) b assms(3)] True by simp
      then obtain v c where m: "map_of (m_main s) (sha3 b) = Some (v, c)" "c \<noteq> 0"
        by (auto simp: refs_def split: option.splits)
      with s(6) U have "v = b" by (auto simp: agrees_def)
      with r(1) [of "sha3 b"] m show ?thesis by simp
    next
      case False
      with s(6) U have "db_read L s (sha3 b) = b" by (auto simp: agrees_def)
      with r(1) [of "sha3 b"] s(6) U show ?thesis by (auto simp: agrees_def split: option.splits)
    qed
  qed
  have "counts (\<lambda>h. db_read L s' h = []) s' M"
    unfolding counts_def
  proof (intro allI impI)
    fix h assume h: "db_read L s' h = []"
    have "h \<notin># image_mset sha3 M" using keep look h by auto
    then have "count (image_mset sha3 M) h = 0" unfolding not_in_iff .
    then show "refs s' h = of_nat (count (image_mset sha3 M) h)" by (simp add: refs_def main)
  qed
  moreover have "odb_lookup L s' (sha3 b) = b" if "b \<in># M" for b
    using keep [OF that] by (simp add: odb_lookup_stored e stored_def main)
  ultimately show ?thesis
    using s(1,2) e read look main by (simp add: odb_held_def agrees_def mdb_ok_def keys_ok_def)
qed

text \<open>The database holds its nodes under their hashes.\<close>

definition db_values :: "'d ldb \<Rightarrow> 'd \<Rightarrow> bytes set" where
  "db_values L d = {v. \<exists>h. length h = 32 \<and> ldb_get L d h = Some v}"

definition addressed :: "'d ldb \<Rightarrow> 'd \<Rightarrow> bool" where
  "addressed L d \<longleftrightarrow> (\<forall>h v. length h = 32 \<longrightarrow> ldb_get L d h = Some v \<longrightarrow> sha3 v = h)"

definition OverlayDB_new :: "'d \<Rightarrow> 'd OverlayDB" where
  "OverlayDB_new d = \<lparr>m_main = [], m_aux = [], m_enforceRefs = False, m_db = Some d\<rparr>"

lemma odb_held_new:
  assumes "inj_on sha3 (U \<union> db_values L d)" "addressed L d"
  shows "odb_held L U (OverlayDB_new d) {#}"
proof -
  have "db_read L (OverlayDB_new d) (sha3 b) \<in> {[], b}" if "b \<in> U" for b
  proof (cases "ldb_get L d (sha3 b)")
    case (Some v)
    then have "sha3 v = sha3 b" using assms(2) by (simp add: addressed_def)
    moreover have "v \<in> db_values L d" using Some unfolding db_values_def by (blast intro: length_sha3)
    ultimately have "v = b" using assms(1) that by (auto dest: inj_onD)
    with Some show ?thesis by (simp add: db_read_def OverlayDB_new_def)
  qed (simp add: db_read_def OverlayDB_new_def)
  then show ?thesis using inj_on_subset [OF assms(1), of U]
    by (simp add: odb_held_def OverlayDB_new_def counts_def refs_def agrees_def mdb_ok_def keys_ok_def)
qed

text \<open>One of ten attempts to write a batch succeeds.\<close>

definition writes :: "'d ldb \<Rightarrow> bool" where
  "writes L \<longleftrightarrow> (\<forall>b d. \<exists>i<10. fst (ldb_write L b (((\<lambda>d. snd (ldb_write L b d)) ^^ i) d)))"

lemma writes_commit: "writes L \<Longrightarrow> \<exists>s'. commit L s = Some s'"
  unfolding writes_def commit_def using try_write_None [of L "commit_batch s" 10]
  by (auto split: option.split) (metis option.exhaust)

lemma sessions_reps:
  assumes lib: "trie_lib R (odb_ops L) (odb_held L)" and lib': "trie_reader R (odb_ops L) (odb_held L)"
    and "ldb_ok L" "writes L"
  shows "trie_reader.reps R (odb_held L) U {#} td t \<Longrightarrow> holds t m \<Longrightarrow> no_empty m \<Longrightarrow> fits n (concat pss) t
    \<Longrightarrow> run_data R (concat pss) t \<subseteq> U \<Longrightarrow> 2 * tsize t + 6 * length (concat pss) + 4 < 2 ^ 32
    \<Longrightarrow> \<exists>td'. sessions R L pss td = Some (Inr (), td') \<and> trie_reader.reps R (odb_held L) U {#} td' (fold tree_op (concat pss) t)
      \<and> (pss \<noteq> [] \<longrightarrow> m_main (tr_db td') = [])"
proof (induction pss arbitrary: td t m)
  case (Cons ps pss)
  let ?t = "fold tree_op ps t"
  note reps_def = trie_reader.reps_def [OF lib']
  have "fits n ps t" using Cons.prems(4) by (auto simp: fits_def)
  note fh = fold_holds [OF Cons.prems(2,3), of n ps "concat pss"]
  then have fh: "holds ?t (fold map_op ps m)" "no_empty (fold map_op ps m)" "fits n (concat pss) ?t"
    "tsize ?t \<le> tsize t + 3 * length ps" using Cons.prems(4) by simp_all
  obtain td1 where td1: "trie_run R (odb_ops L) ps td = (Inr (), td1)" "trie_reader.reps R (odb_held L) U {#} td1 ?t"
    using trie_lib.run_reps [OF lib Cons.prems(1-3) \<open>fits n ps t\<close>] Cons.prems(5,6) by (auto simp: run_data_append)
  obtain s where s: "commit L (tr_db td1) = Some s" using writes_commit [OF assms(4)] by blast
  have "size (trie_data R ?t) < 2 ^ 32"
    using trie_lib.size_trie_data [OF lib, of ?t] fh(4) Cons.prems(6) by simp
  from commit_held [OF _ assms(3) this s, of U] td1(2)
  have s1: "odb_held L U s (trie_data R ?t)" "m_main s = []" by (simp_all add: reps_def)
  let ?td = "td1\<lparr>tr_db := s\<rparr>"
  have r: "trie_reader.reps R (odb_held L) U {#} ?td ?t" using s1 td1(2) by (simp add: reps_def)
  have o: "trie_open R (odb_ops L) s (tr_root td1) True td1 = (Inr (), ?td)"
    using trie_lib.open_reps [OF lib r, of True td1] by simp
  have "run_data R (concat pss) ?t \<subseteq> U" "2 * tsize ?t + 6 * length (concat pss) + 4 < 2 ^ 32"
    using Cons.prems(5,6) fh(4) by (simp_all add: run_data_append)
  from Cons.IH [OF r fh(1-3) this]
  show ?case using td1(1) s o s1(2) by (cases pss) auto
qed simp

text \<open>C6: a trie kept in an \<open>OverlayDB\<close> survives: over any number of sessions, each ended by a commit and the next begun by
  opening the trie at its root, no operation fails, the root is the one of the whole content, and every key reads as
  the content of all sessions together has it, from a database whose memory part is empty. The operations of all sessions together
  are those of \<open>ops_ok\<close>: insertions of non-empty values and removals for keys of one length, or insertions alone.\<close>

theorem trie_persists:
  assumes "rlp_ok R" "ldb_ok L" "writes L" "addressed L d" "ops_ok n (concat pss)" "pss \<noteq> []"
    and "trie_init R (odb_ops L) \<lparr>tr_root = h, tr_db = OverlayDB_new d\<rparr> = (r, td)"
  shows "collision (written R (concat pss) \<union> db_values L d) \<or> r = Inr () \<and> (\<exists>td'. sessions R L pss td = Some (Inr (), td')
    \<and> m_main (tr_db td') = [] \<and> tr_root td' = hash256 R (content (concat pss))
    \<and> (\<forall>k. trie_at R (odb_ops L) k td' = (Inr (map_at (content (concat pss)) k), td')))"
proof (cases "collision (written R (concat pss) \<union> db_values L d)")
  case False
  let ?U = "written R (concat pss)"
  note lib = odb_lib [OF assms(1), of L] and lib' = odb_reader [OF assms(1), of L]
  note c = content_holds [OF assms(5)]
  have "odb_held L ?U (OverlayDB_new d) {#}" using odb_held_new [OF no_collision [OF False] assms(4)] .
  then have td: "r = Inr ()" "trie_reader.reps R (odb_held L) ?U {#} td NNull"
    using trie_lib.init_reps [OF lib, of ?U "\<lparr>tr_root = h, tr_db = OverlayDB_new d\<rparr>" "{#}"] assms(7)
    by (auto simp: written_def)
  have f: "fits n (concat pss) NNull" "2 * tsize NNull + 6 * length (concat pss) + 4 < 2 ^ 32"
    using assms(5) by (auto simp: ops_ok_def fits_def)
  obtain td' where td': "sessions R L pss td = Some (Inr (), td')" "m_main (tr_db td') = []"
      "trie_reader.reps R (odb_held L) ?U {#} td' (trie (content (concat pss)))"
    using sessions_reps [OF lib lib' assms(2,3) td(2) trie_lib.empty_held(2,3) [OF lib] f(1) _ f(2)] c(3) assms(6)
    by (auto simp: written_def)
  with td(1) trie_reader.root_reps [OF lib' td'(3)] trie_reader.read_reps [OF lib' td'(3)] c show ?thesis by metis
qed simp

lemma list_db_writes: "writes list_db"
  unfolding writes_def list_db_def by (auto intro: exI [of _ 0])

theorem trie_persists_witness:
  "let pss = [[Put [0x12] [7]], [Put [0x13] [8], Del [0x12]]];
       (r, td) = trie_init tree_rlp (odb_ops list_db) \<lparr>tr_root = [], tr_db = OverlayDB_new []\<rparr>
   in collision (written tree_rlp (concat pss) \<union> db_values list_db [])
     \<or> (\<exists>td'. sessions tree_rlp list_db pss td = Some (Inr (), td') \<and> tr_root td' = hash256 tree_rlp [([0x13], [8])])"
proof -
  let ?pss = "[[Put [0x12] [7]], [Put [0x13] [8], Del [0x12]]]"
  obtain r td where 1: "trie_init tree_rlp (odb_ops list_db) \<lparr>tr_root = [], tr_db = OverlayDB_new []\<rparr> = (r, td)" by force
  have c: "content (concat ?pss) = [([0x13], [8])]" by (simp add: content_def)
  have "addressed list_db []" by (simp add: addressed_def list_db_def)
  from trie_persists [OF tree_rlp_ok list_db_ok list_db_writes this, of 1 ?pss, OF _ _ 1, unfolded c] 1
  show ?thesis by (auto simp: ops_ok_def)
qed

section \<open>Opening a trie\<close>

text \<open>Opening a trie at a root over a \<open>MemoryDB\<close> succeeds exactly when the root's node is there, or when the root is that
  of the empty trie, the caller allows it and the database has no entry for it: then the empty node is stored first.
  Otherwise it fails with \<open>RootNotFound\<close>, but the object already has the new database and the new root.\<close>

theorem open_memory:
  assumes "rlp_ok R"
  shows "trie_open R mdb_ops db root normal td
    = (if mdb_lookup db root \<noteq> [] then (Inr (), td\<lparr>tr_db := db, tr_root := root\<rparr>)
       else if normal \<and> root = c_shaNull R \<and> \<not> mdb_exists db root
       then (Inr (), td\<lparr>tr_db := mdb_insert root (RLPNull R) db, tr_root := root\<rparr>)
       else (Inl RootNotFound, td\<lparr>tr_db := db, tr_root := root\<rparr>))"
proof -
  have null: "RLPNull R \<noteq> []" using rlp_ok_views [OF assms] by (simp add: RLPNull_def)
  have ins: "mdb_lookup (mdb_insert root v db) root = v" "mdb_exists (mdb_insert root v db) root" if "\<not> mdb_exists db root" for v
    using that by (auto simp: mdb_lookup_def mdb_exists_def mdb_insert_def update_conv word_neq_0_conv [symmetric] split: option.splits)
  have ex: "mdb_lookup db root \<noteq> [] \<Longrightarrow> mdb_exists db root"
    by (auto simp: mdb_lookup_def mdb_exists_def split: option.splits if_split_asm)
  have s: "sha3 (RLPNull R) = c_shaNull R" by (simp add: c_shaNull_def)
  show ?thesis
  proof (cases "normal \<and> root = c_shaNull R \<and> \<not> mdb_exists db root")
    case True
    then show ?thesis using ex null ins [of "RLPNull R"]
      by (simp add: trie_open_def setRoot_def numeral_2_eq_2 bind_def set_root_def get_root_def db_act_def mdb_ops_def
          forceInsertNode_def forceInsertNode_at_def db_node_def s Let_def)
  next
    case False
    then show ?thesis
      by (auto simp: trie_open_def setRoot_def numeral_2_eq_2 bind_def set_root_def get_root_def db_act_def mdb_ops_def db_node_def)
  qed
qed

theorem open_memory_witness:
  "fst (trie_open tree_rlp mdb_ops MemoryDB_new [1] False \<lparr>tr_root = [], tr_db = MemoryDB_new\<rparr>) = Inl RootNotFound"
  using open_memory [OF tree_rlp_ok, of MemoryDB_new "[1]" False "\<lparr>tr_root = [], tr_db = MemoryDB_new\<rparr>"]
  by (simp add: mdb_lookup_def MemoryDB_new_def)

section \<open>Hashed keys\<close>

primrec op_key :: "trie_op \<Rightarrow> bytes" where
  "op_key (Put k v) = k"
| "op_key (Del k) = k"

primrec hash_op :: "trie_op \<Rightarrow> trie_op" where
  "hash_op (Put k v) = Put (sha3 k) v"
| "hash_op (Del k) = Del (sha3 k)"

primrec hashed_act :: "'i rlp \<Rightarrow> 's db_ops \<Rightarrow> trie_op \<Rightarrow> ('s GenericTrieDB, unit) act" where
  "hashed_act R D (Put k v) = hashed_insert R D k v"
| "hashed_act R D (Del k) = hashed_remove R D k"

primrec hashed_run :: "'i rlp \<Rightarrow> 's db_ops \<Rightarrow> trie_op list \<Rightarrow> ('s GenericTrieDB, unit) act" where
  "hashed_run R D [] = ret ()"
| "hashed_run R D (p # ps) = bind (hashed_act R D p) (\<lambda>_. hashed_run R D ps)"

lemma hashed_run: "hashed_run R D ps = trie_run R D (map hash_op ps)"
proof (induction ps)
  case (Cons p ps)
  then show ?case by (cases p) (simp_all add: hashed_insert_def hashed_remove_def)
qed simp

lemma hashed_content:
  assumes "inj_on sha3 (insert k (op_key ` set ps))"
  shows "map_of (content (map hash_op ps)) (sha3 k) = map_of (content ps) k"
proof -
  have "map_of (fold map_op (map hash_op ps) m') (sha3 k) = map_of (fold map_op ps m) k"
    if "map_of m' (sha3 k) = map_of m k" "inj_on sha3 (insert k (op_key ` set ps))" for m m'
    using that
  proof (induction ps arbitrary: m m')
    case (Cons p ps)
    have eq: "sha3 (op_key p) = sha3 k \<longleftrightarrow> op_key p = k" using Cons.prems(2) by (auto simp: inj_on_def)
    have "inj_on sha3 (insert k (op_key ` set ps))" using Cons.prems(2) by (rule inj_on_subset) auto
    moreover have "map_of (map_op (hash_op p) m') (sha3 k) = map_of (map_op p m) k"
      unfolding map_of_map_op using eq Cons.prems(1) by (cases p) auto
    ultimately show ?case using Cons.IH by simp
  qed simp
  with assms show ?thesis unfolding content_def by simp
qed

text \<open>C29: the trie with hashed keys, which holds the accounts and their storage, is the map on the keys themselves: after
  any insertions of non-empty values and removals (fewer than \<open>2 ^ 28\<close>), under keys of any lengths, for their hashes have one length,
  every key reads as the map has it.\<close>

theorem secure_trie:
  assumes "rlp_ok R" "list_all (\<lambda>p. case p of Put k v \<Rightarrow> v \<noteq> [] | Del k \<Rightarrow> True) ps" "length ps < 2 ^ 28"
  shows "collision (written R (map hash_op ps)) \<or> collision (insert k (op_key ` set ps)) \<or> (\<exists>td.
      bind (trie_init R mdb_ops) (\<lambda>_. hashed_run R mdb_ops ps) \<lparr>tr_root = h, tr_db = MemoryDB_new\<rparr> = (Inr (), td)
    \<and> hashed_at R mdb_ops k td = (Inr (map_at (content ps) k), td)
    \<and> hashed_contains R mdb_ops k td = (Inr (map_at (content ps) k \<noteq> []), td))"
proof (cases "collision (written R (map hash_op ps)) \<or> collision (insert k (op_key ` set ps))")
  case False
  note lib = mdb_lib [OF assms(1)] and lib' = mdb_reader [OF assms(1)]
  let ?ps = "map hash_op ps"
  have "sized 32 (hash_op p) \<longleftrightarrow> (case p of Put k v \<Rightarrow> v \<noteq> [] | Del k \<Rightarrow> True)" for p by (cases p) auto
  then have ok: "ops_ok 32 ?ps" using assms(2,3) by (simp add: ops_ok_def list_all_iff)
  note c = content_holds [OF ok]
  have U: "mdb_held (written R ?ps) MemoryDB_new {#}" using mdb_held_new no_collision False by blast
  obtain td where td: "bind (trie_init R mdb_ops) (\<lambda>_. hashed_run R mdb_ops ps) \<lparr>tr_root = h, tr_db = MemoryDB_new\<rparr> = (Inr (), td)"
      "trie_reader.reps R mdb_held (written R ?ps) {#} td (trie (content ?ps))"
    using trie_lib.build_reps [OF lib, of "written R ?ps" "\<lparr>tr_root = h, tr_db = MemoryDB_new\<rparr>" "{#}" 32 ?ps] U ok c(3)
    unfolding hashed_run by (auto simp: written_def)
  have "map_of (content ?ps) (sha3 k) = map_of (content ps) k"
    by (rule hashed_content) (use no_collision False in blast)
  then have at: "hashed_at R mdb_ops k td = (Inr (map_at (content ps) k), td)"
    using trie_reader.read_reps [OF lib' td(2), of "content ?ps" "sha3 k"] c by (simp add: hashed_at_def map_at_def)
  then have "hashed_contains R mdb_ops k td = (Inr (map_at (content ps) k \<noteq> []), td)"
    by (simp add: hashed_contains_def trie_contains_def hashed_at_def bind_def)
  with td(1) at show ?thesis by blast
qed blast

theorem secure_trie_witness:
  "collision (written tree_rlp [Put (sha3 [1]) [7]]) \<or> collision {[1]} \<or> (\<exists>td.
      bind (trie_init tree_rlp mdb_ops) (\<lambda>_. hashed_run tree_rlp mdb_ops [Put [1] [7]]) \<lparr>tr_root = [], tr_db = MemoryDB_new\<rparr> = (Inr (), td)
    \<and> hashed_at tree_rlp mdb_ops [1] td = (Inr [7], td))"
proof -
  have "map_at (content [Put [1] [7]]) [1] = [7]" by (simp add: content_def map_at_def)
  then show ?thesis
    using secure_trie [OF tree_rlp_ok, of "[Put [1] [7]]" "[1]" "[]"] by auto
qed

text \<open>The fat trie also keeps the key, under its hash.\<close>

lemma fat_recovers:
  assumes "fat_insert R mdb_ops k v td = (Inr (), td')"
  shows "fat_key mdb_ops (sha3 k) td' = k"
  using assms
  by (auto simp: fat_insert_def fat_key_def Let_def bind_def mdb_ops_def mdb_lookupAux_def mdb_insertAux_def update_conv
      split: prod.splits sum.splits)

end
