(* ===== verification/TrieIter.thy ===== *)
theory TrieIter
  imports TrieDB
begin

text \<open>
  The iterators of \<open>libdevcore/TrieDB.h\<close> and its debugging walk. An iterator is its trail, with the
  last node first; the end iterator is the empty trail. The loops of \<open>next\<close> go on until they find an entry, and
  take their fuel as an argument. The flag an advance gives beside the trail is \<open>m_that\<close>, unless it is the null pointer.
\<close>

section \<open>The trail\<close>

record iter_node =
  nd_rlp :: bytes
  nd_key :: bytes
  nd_child :: byte

definition incrementChild :: "byte \<Rightarrow> byte" where
  "incrementChild c = (if c = 16 then 0 else if c = 15 then 17 else c + 1)"

text \<open>The inner loop: the first child from \<open>c\<close> on, in the order 16, 0, .., 15, that is not empty, or 17.\<close>

primrec next_child :: "nat \<Rightarrow> 'i rlp \<Rightarrow> 'i \<Rightarrow> byte \<Rightarrow> byte" where
  "next_child 0 R r c = 17"
| "next_child (Suc n) R r c =
     (if c = 17 then 17 else if \<not> rlp_isEmpty R (rlp_at R r (unat c)) then c else next_child n R r (incrementChild c))"

definition push_child :: "'i rlp \<Rightarrow> 's db_ops \<Rightarrow> 'i \<Rightarrow> byte \<Rightarrow> iter_node \<Rightarrow> ('s, iter_node list) act" where
  "push_child R D r c b = bind (deref R D (rlp_at R r (unat c))) (\<lambda>x. ret
     [\<lparr>nd_rlp = x, nd_key = hexPrefixEncode_slices (keyOf (nd_key b)) \<lparr>ns_data = [c], ns_offset = 1\<rparr> False, nd_child = 255\<rparr>,
      b\<lparr>nd_child := c\<rparr>])"

section \<open>Advancing\<close>

primrec iter_next :: "nat \<Rightarrow> 'i rlp \<Rightarrow> 's db_ops \<Rightarrow> iter_node list \<Rightarrow> ('s, iter_node list \<times> bool) act" where
  "iter_next 0 R D trail = raise OutOfFuel"
| "iter_next (Suc n) R D trail = (case trail of [] \<Rightarrow> ret ([], False) | b # bs \<Rightarrow>
     let r = rlp_parse R (nd_rlp b);
         children = (\<lambda>c. let c' = next_child 18 R r c
           in if c' = 17 then iter_next n R D bs
              else if c' = 16 then ret (b\<lparr>nd_child := 16\<rparr> # bs, True)
              else bind (push_child R D r c' b) (\<lambda>fs. iter_next n R D (fs @ bs)))
     in if nd_child b = 255
        then if rlp_isEmpty R r then iter_next n R D bs
             else if \<not> (rlp_isList R r \<and> (rlp_itemCount R r = 2 \<or> rlp_itemCount R r = 17)) then ret (trail, False)
             else if rlp_itemCount R r = 2
             then (let b' = b\<lparr>nd_key := hexPrefixEncode_slices (keyOf (nd_key b)) (node_key R r) False\<rparr>
                   in if node_isLeaf R r then ret (b'\<lparr>nd_child := 0\<rparr> # bs, True)
                      else bind (deref R D (rlp_at R r 1)) (\<lambda>x. iter_next n R D (b'\<lparr>nd_rlp := x\<rparr> # bs)))
             else children 16
        else if \<not> (rlp_isList R r \<and> rlp_itemCount R r = 17) then iter_next n R D bs
        else children (incrementChild (nd_child b)))"

text \<open>\<open>next\<close> with a key: the rest of the key is dropped where the path leaves it.\<close>

definition slice_clear :: NibbleSlice where
  "slice_clear = \<lparr>ns_data = [], ns_offset = 0\<rparr>"

primrec iter_seek :: "nat \<Rightarrow> 'i rlp \<Rightarrow> 's db_ops \<Rightarrow> NibbleSlice \<Rightarrow> iter_node list \<Rightarrow> ('s, iter_node list \<times> bool) act" where
  "iter_seek 0 R D k trail = raise OutOfFuel"
| "iter_seek (Suc n) R D k trail = (case trail of [] \<Rightarrow> ret ([], False) | b # bs \<Rightarrow>
     let r = rlp_parse R (nd_rlp b);
         children = (\<lambda>k c. let c' = next_child 18 R r c; k' = if c' = c then k else slice_clear
           in if c' = 17 then iter_seek n R D slice_clear bs
              else if c' = 16 then ret (b\<lparr>nd_child := 16\<rparr> # bs, True)
              else bind (push_child R D r c' b) (\<lambda>fs. iter_seek n R D k' (fs @ bs)))
     in if nd_child b = 255
        then if rlp_isEmpty R r then iter_seek n R D slice_clear bs
             else if \<not> (rlp_isList R r \<and> (rlp_itemCount R r = 2 \<or> rlp_itemCount R r = 17)) then ret (trail, False)
             else if rlp_itemCount R r = 2
             then (let kk = node_key R r
                   in if \<not> slice_contains k kk \<and> \<not> isEarlierThan k kk then iter_seek n R D slice_clear bs
                      else let k1 = if slice_contains k kk then k else slice_clear;
                               k2 = slice_mid k1 (min (slice_size k1) (slice_size kk));
                               b' = b\<lparr>nd_key := hexPrefixEncode_slices (keyOf (nd_key b)) kk False\<rparr>
                           in if node_isLeaf R r
                              then if slice_size k2 = 0 then ret (b'\<lparr>nd_child := 0\<rparr> # bs, True)
                                   else iter_seek n R D slice_clear bs
                              else bind (deref R D (rlp_at R r 1)) (\<lambda>x. iter_seek n R D k2 (b'\<lparr>nd_rlp := x\<rparr> # bs)))
             else if slice_size k \<noteq> 0 then children (slice_mid k 1) (slice_nth k 0)
             else children k 16
        else if \<not> (rlp_isList R r \<and> rlp_itemCount R r = 17) then iter_seek n R D slice_clear bs
        else children k (incrementChild (nd_child b)))"

text \<open>An entry: the bytes of the key after the first, which holds the flags, and the payload of the value.\<close>

definition iter_at :: "'i rlp \<Rightarrow> iter_node \<Rightarrow> bytes \<times> bytes" where
  "iter_at R b = (drop 1 (nd_key b), rlp_payload R (rlp_at R (rlp_parse R (nd_rlp b))
     (if rlp_itemCount R (rlp_parse R (nd_rlp b)) = 2 then 1 else 16)))"

definition iter_root :: "bytes \<Rightarrow> iter_node list" where
  "iter_root b = [\<lparr>nd_rlp = b, nd_key = [0], nd_child = 255\<rparr>]"

definition iter_begin :: "nat \<Rightarrow> 'i rlp \<Rightarrow> 's db_ops \<Rightarrow> ('s GenericTrieDB, iter_node list \<times> bool) act" where
  "iter_begin n R D = bind get_root (\<lambda>h. db_act (bind (db_node D h) (\<lambda>b. iter_next n R D (iter_root b))))"

definition trie_lower_bound :: "nat \<Rightarrow> 'i rlp \<Rightarrow> 's db_ops \<Rightarrow> bytes \<Rightarrow> ('s GenericTrieDB, iter_node list \<times> bool) act" where
  "trie_lower_bound n R D k = bind get_root (\<lambda>h. db_act (bind (db_node D h) (\<lambda>b. iter_seek n R D (slice_of k) (iter_root b))))"

text \<open>The loop of \<open>operator<<\<close>: the entries from an iterator to the end.\<close>

primrec iter_rest :: "nat \<Rightarrow> nat \<Rightarrow> 'i rlp \<Rightarrow> 's db_ops \<Rightarrow> iter_node list \<Rightarrow> ('s, (bytes \<times> bytes) list) act" where
  "iter_rest 0 n R D trail = raise OutOfFuel"
| "iter_rest (Suc m) n R D trail = (if trail = [] then ret []
     else bind (iter_next n R D trail) (\<lambda>(t, live). bind (iter_rest m n R D t) (\<lambda>xs. ret (iter_at R (hd trail) # xs))))"

text \<open>The iterator of the fat trie gives the key that was hashed.\<close>

definition fat_at :: "'i rlp \<Rightarrow> 's db_ops \<Rightarrow> iter_node \<Rightarrow> 's GenericTrieDB \<Rightarrow> bytes \<times> bytes" where
  "fat_at R D b t = (let hashed = iter_at R b in (db_lookupAux D (tr_db t) (fst hashed), snd hashed))"

section \<open>The walk over the whole trie\<close>

text \<open>The stream for the printed structure is absent, as it is in \<open>leftOvers\<close> and \<open>check\<close>.\<close>

definition descendKey :: "('i \<Rightarrow> h256 list \<Rightarrow> bool \<Rightarrow> ('s, h256 list) act) \<Rightarrow> 'i rlp \<Rightarrow> 's db_ops \<Rightarrow> h256 \<Rightarrow> h256 \<Rightarrow> h256 list \<Rightarrow> bool
    \<Rightarrow> ('s, h256 list) act" where
  "descendKey rec R D root k ks wasExt = (let ks = removeAll k ks
     in if k = root \<and> k = c_shaNull R then ret ks
        else bind (db_node D k) (\<lambda>b. rec (rlp_parse R b) ks wasExt))"

definition descendEntry :: "('i \<Rightarrow> h256 list \<Rightarrow> bool \<Rightarrow> ('s, h256 list) act) \<Rightarrow> 'i rlp \<Rightarrow> 's db_ops \<Rightarrow> h256 \<Rightarrow> 'i \<Rightarrow> h256 list \<Rightarrow> bool
    \<Rightarrow> ('s, h256 list) act" where
  "descendEntry rec R D root r ks wasExt =
     (if rlp_isData R r \<and> length (rlp_payload R r) = 32
      then bind (demand BadCast (rlp_toHash R 32 r)) (\<lambda>h. descendKey rec R D root h ks wasExt)
      else if rlp_isList R r then rec r ks wasExt
      else raise InvalidTrie)"

definition descend_children :: "('i \<Rightarrow> h256 list \<Rightarrow> ('s, h256 list) act) \<Rightarrow> 'i rlp \<Rightarrow> 'i \<Rightarrow> h256 list \<Rightarrow> ('s, h256 list) act" where
  "descend_children f R r ks = foldl (\<lambda>m i. bind m (\<lambda>ks.
     if rlp_isEmpty R (rlp_at R r i) then ret ks else f (rlp_at R r i) ks)) (ret ks) [0..<16]"

primrec descendList :: "nat \<Rightarrow> 'i rlp \<Rightarrow> 's db_ops \<Rightarrow> h256 \<Rightarrow> 'i \<Rightarrow> h256 list \<Rightarrow> bool \<Rightarrow> ('s, h256 list) act" where
  "descendList 0 R D root r ks wasExt = raise OutOfFuel"
| "descendList (Suc n) R D root r ks wasExt =
     (if rlp_isList R r \<and> rlp_itemCount R r = 2 \<and> \<not> wasExt
      then if node_isLeaf R r then ret ks
           else descendEntry (descendList n R D root) R D root (rlp_at R r 1) ks True
      else if rlp_isList R r \<and> rlp_itemCount R r = 17
      then descend_children (\<lambda>c ks. descendEntry (descendList n R D root) R D root c ks False) R r ks
      else raise InvalidTrie)"

definition leftOvers :: "nat \<Rightarrow> 'i rlp \<Rightarrow> 's db_ops \<Rightarrow> ('s GenericTrieDB, h256 list) act" where
  "leftOvers n R D = bind get_root (\<lambda>root. db_act (bind (\<lambda>s. (Inr (db_keys D s), s)) (\<lambda>k.
     descendKey (descendList n R D root) R D root root k False)))"

definition trie_check :: "nat \<Rightarrow> 'i rlp \<Rightarrow> 's db_ops \<Rightarrow> bool \<Rightarrow> 's GenericTrieDB \<Rightarrow> bool" where
  "trie_check n R D requireNoLeftOvers t = (case leftOvers n R D t of (Inl e, t') \<Rightarrow> False
     | (Inr k, t') \<Rightarrow> k = [] \<or> \<not> requireNoLeftOvers)"

end
