(* ===== verification/TrieWalk.thy ===== *)
theory TrieWalk
  imports TrieProps TrieIter
begin

text \<open>
  What the iterators find: a trail stands for the entries still to come, and \<open>next\<close> takes the first one
  off. The weight of a trail bounds the steps to its end.
\<close>

section \<open>The entries of a tree in order\<close>

primrec entries :: "node \<Rightarrow> (bytes \<times> bytes) list" where
  "entries NNull = []"
| "entries (NLeaf ns v) = [(ns, v)]"
| "entries (NExt ns c) = map (apfst ((@) ns)) (entries c)"
| "entries (NBranch cs w) = (if w = [] then [] else [([], w)])
     @ concat (map (\<lambda>i. map (apfst (Cons (of_nat i))) (if i < length cs then map entries cs ! i else [])) [0..<16])"

definition child_entries :: "node list \<Rightarrow> nat \<Rightarrow> (bytes \<times> bytes) list" where
  "child_entries cs i = map (apfst (Cons (of_nat i))) (entries (cs ! i))"

definition from_child :: "node list \<Rightarrow> nat \<Rightarrow> (bytes \<times> bytes) list" where
  "from_child cs i = concat (map (child_entries cs) [i..<16])"

lemma entries_branch [simp]:
  "length cs = 16 \<Longrightarrow> entries (NBranch cs w) = (if w = [] then [] else [([], w)]) @ from_child cs 0"
proof -
  assume l: "length cs = 16"
  then have "map (\<lambda>i. map (apfst (Cons (of_nat i))) (if i < length cs then map entries cs ! i else [])) [0..<16] = map (child_entries cs) [0..<16]"
    by (intro map_cong [OF refl]) (simp add: child_entries_def)
  then show ?thesis by (simp only: entries.simps(4) from_child_def)
qed

declare entries.simps(4) [simp del]

definition weight_from :: "node list \<Rightarrow> nat \<Rightarrow> nat" where
  "weight_from cs i = 3 * sum_list (map (\<lambda>j. tsize (cs ! j)) [i..<16])"

lemma weight_from_0: "length cs = 16 \<Longrightarrow> weight_from cs 0 = 3 * sum_list (map tsize cs)"
proof -
  assume "length cs = 16"
  then have "map (\<lambda>j. tsize (cs ! j)) [0..<16] = map tsize cs" by (intro nth_equalityI) simp_all
  then show ?thesis by (simp only: weight_from_def)
qed

text \<open>The children up to the first that is there hold nothing.\<close>

lemma from_child_skip:
  assumes "find (\<lambda>j. cs ! j \<noteq> NNull) [i..<16] = Some j"
  shows "i \<le> j" "j < 16" "cs ! j \<noteq> NNull" "from_child cs i = child_entries cs j @ from_child cs (Suc j)"
    "weight_from cs i = 3 * tsize (cs ! j) + weight_from cs (Suc j)"
proof -
  obtain m where m: "m < length [i..<16]" "cs ! ([i..<16] ! m) \<noteq> NNull" "j = [i..<16] ! m"
      "\<And>l. l < m \<Longrightarrow> cs ! ([i..<16] ! l) = NNull"
    using assms unfolding find_Some_iff by auto
  then have j: "j = i + m" "j < 16" by auto
  then show "i \<le> j" "j < 16" "cs ! j \<noteq> NNull" using m by auto
  have null: "cs ! l = NNull" if "l \<in> set [i..<j]" for l
  proof -
    have "l - i < m" "i + (l - i) < 16" using that j by auto
    with m(4) [of "l - i"] that show ?thesis by simp
  qed
  have split: "[i..<16] = [i..<j] @ j # [Suc j..<16]"
    using j upt_add_eq_append [of i j "16 - j"] upt_conv_Cons [of j 16] by simp
  have "concat (map (child_entries cs) [i..<j]) = []" using null by (simp add: child_entries_def)
  then show "from_child cs i = child_entries cs j @ from_child cs (Suc j)"
    unfolding from_child_def split by (simp del: upt_Suc)
  have "sum_list (map (\<lambda>l. tsize (cs ! l)) [i..<j]) = 0" using null by simp
  then show "weight_from cs i = 3 * tsize (cs ! j) + weight_from cs (Suc j)"
    unfolding weight_from_def split by (simp del: upt_Suc)
qed

lemma from_child_none:
  assumes "find (\<lambda>j. cs ! j \<noteq> NNull) [i..<16] = None"
  shows "from_child cs i = []"
  using assms unfolding find_None_iff by (simp add: from_child_def child_entries_def)

section \<open>Frames\<close>

text \<open>A node of the trail: the path to it, the tree, and the child it is at.\<close>

type_synonym frame = "bytes \<times> node \<times> byte"

definition conc :: "'i rlp \<Rightarrow> frame \<Rightarrow> iter_node" where
  "conc R f = (case f of (p, t, c) \<Rightarrow> \<lparr>nd_rlp = ser_data R t, nd_key = hp_spec False p, nd_child = c\<rparr>)"

lemma conc_simp: "conc R (p, t, c) = \<lparr>nd_rlp = ser_data R t, nd_key = hp_spec False p, nd_child = c\<rparr>"
  by (simp add: conc_def)

definition start :: "byte \<Rightarrow> nat" where
  "start c = (if c = 16 then 0 else Suc (unat c))"

definition pend :: "frame \<Rightarrow> (bytes \<times> bytes) list" where
  "pend f = (case f of (p, t, c) \<Rightarrow> map (apfst ((@) p))
     (if c = 255 then entries t else case t of NBranch cs w \<Rightarrow> from_child cs (start c) | _ \<Rightarrow> []))"

definition weight :: "frame \<Rightarrow> nat" where
  "weight f = (case f of (p, t, c) \<Rightarrow> if c = 255 then max 1 (3 * tsize t - 1)
     else case t of NBranch cs w \<Rightarrow> 1 + weight_from cs (start c) | _ \<Rightarrow> 1)"

text \<open>An entry as the iterator gives it: the path is packed into bytes again.\<close>

definition entry :: "bytes \<times> bytes \<Rightarrow> bytes \<times> bytes" where
  "entry e = (drop 1 (hp_spec False (fst e)), snd e)"

definition frame_ok :: "'i rlp \<Rightarrow> bytes multiset \<Rightarrow> frame \<Rightarrow> bool" where
  "frame_ok R M f = (case f of (p, t, c) \<Rightarrow> nibs p \<and> canon t \<and> node_refs R t \<subseteq># M
     \<and> (c = 255 \<or> is_branch t \<and> (unat c < 16 \<or> c = 16) \<or> (\<exists>ns v. t = NLeaf ns v) \<and> c = 0))"

lemma frame_simp: "frame_ok R M (p, t, c) \<longleftrightarrow> nibs p \<and> canon t \<and> node_refs R t \<subseteq># M
     \<and> (c = 255 \<or> is_branch t \<and> (unat c < 16 \<or> c = 16) \<or> (\<exists>ns v. t = NLeaf ns v) \<and> c = 0)"
  by (simp add: frame_ok_def)

definition pends :: "frame list \<Rightarrow> (bytes \<times> bytes) list" where
  "pends fs = concat (map pend fs)"

definition weights :: "frame list \<Rightarrow> nat" where
  "weights fs = sum_list (map weight fs)"

lemma pends_simps [simp]: "pends [] = []" "pends (f # fs) = pend f @ pends fs"
  "weights [] = 0" "weights (f # fs) = weight f + weights fs"
  by (simp_all add: pends_def weights_def)

text \<open>What an advance of the iterator has to do with the entries to come.\<close>

definition finds :: "'i rlp \<Rightarrow> bytes multiset \<Rightarrow> (trie_error + iter_node list \<times> bool) \<times> 's \<Rightarrow> 's \<Rightarrow> (bytes \<times> bytes) list \<Rightarrow> nat \<Rightarrow> bool" where
  "finds R M x s es b = (case es of [] \<Rightarrow> x = (Inr ([], False), s)
     | e # es' \<Rightarrow> \<exists>fs. x = (Inr (map (conc R) fs, True), s) \<and> fs \<noteq> [] \<and> list_all (frame_ok R M) fs
         \<and> iter_at R (conc R (hd fs)) = entry e \<and> pends fs = es' \<and> weights fs \<le> b)"

lemma finds_mono: "finds R M x s es b \<Longrightarrow> b \<le> b' \<Longrightarrow> finds R M x s es b'"
  by (auto simp: finds_def split: list.splits)

section \<open>The next child\<close>

definition child_byte :: "nat \<Rightarrow> byte" where
  "child_byte i = (if i = 16 then 17 else of_nat i)"

lemma child_byte_simps: "incrementChild 16 = child_byte 0" "i < 16 \<Longrightarrow> incrementChild (of_nat i) = child_byte (Suc i)"
  "i < 16 \<Longrightarrow> unat (of_nat i :: byte) = i" "i < 16 \<Longrightarrow> (of_nat i :: byte) \<noteq> 17" "i < 16 \<Longrightarrow> (of_nat i :: byte) \<noteq> 16"
  "i < 16 \<Longrightarrow> (of_nat i :: byte) \<noteq> 255"
proof -
  have u: "unat (of_nat i :: byte) = i" if "i < 16" for i using that by (simp add: unat_of_nat)
  show "i < 16 \<Longrightarrow> unat (of_nat i :: byte) = i" by (rule u)
  have ne: "(of_nat i :: byte) \<noteq> c" if "i < 16" "16 \<le> unat c" for c using u [OF that(1)] that by auto
  show "i < 16 \<Longrightarrow> (of_nat i :: byte) \<noteq> 17" "i < 16 \<Longrightarrow> (of_nat i :: byte) \<noteq> 16" "i < 16 \<Longrightarrow> (of_nat i :: byte) \<noteq> 255"
    by (simp_all add: ne)
  show "incrementChild 16 = child_byte 0" by (simp add: incrementChild_def child_byte_def)
  show "incrementChild (of_nat i) = child_byte (Suc i)" if i: "i < 16"
  proof (cases "i = 15")
    case False
    then have "(of_nat i :: byte) \<noteq> 15" using u [OF i] by auto
    with ne [OF i, of 16] False i show ?thesis by (simp add: incrementChild_def child_byte_def)
  qed (simp add: incrementChild_def child_byte_def)
qed

context rlp_lib
begin

lemma next_child_find:
  assumes "length cs = 16"
  shows "i \<le> 16 \<Longrightarrow> 17 - i \<le> m \<Longrightarrow> next_child m R (ser R (NBranch cs w)) (child_byte i)
    = (case find (\<lambda>j. cs ! j \<noteq> NNull) [i..<16] of None \<Rightarrow> 17 | Some j \<Rightarrow> of_nat j)"
proof (induction m arbitrary: i)
  case 0
  then show ?case by simp
next
  case (Suc m)
  show ?case
  proof (cases "i = 16")
    case False
    then have i: "i < 16" using Suc.prems by simp
    have "child_byte i = of_nat i" using False by (simp add: child_byte_def)
    moreover have "[i..<16] = i # [Suc i..<16]" using i by (rule upt_conv_Cons)
    moreover have "17 - Suc i \<le> m" using Suc.prems by simp
    ultimately show ?thesis
      using Suc.IH [of "Suc i"] i child_byte_simps(2-5) [OF i] assms by (simp add: ser_at cref_empty del: upt_Suc)
  qed (simp add: child_byte_def)
qed

lemma key_of_hp: "nibs p \<Longrightarrow> nibbles_of (keyOf (hp_spec False p)) = p"
  using hexPrefix_decode(2) [of p False] by (simp add: small_nibs)

end

section \<open>Advancing\<close>

context trie_reader
begin

lemma deref_child:
  assumes "c \<noteq> NNull" "held U s M" "own R c \<subseteq># M"
  shows "deref R D (cref R c) s = (Inr (ser_data R c), s)"
proof (cases "32 \<le> length (ser_data R c)")
  case True
  then have "ser_data R c \<in># M" using assms(3) by (simp add: own_def big_def mset_subset_eq_insertD)
  then have "db_lookup D s (sha3 (ser_data R c)) = ser_data R c" by (rule held_look [OF assms(2)])
  moreover have "rlp_toHash R 32 (rlp_bytes R (sha3 (ser_data R c))) = Some (sha3 (ser_data R c))" by (rule R(8)) simp
  ultimately show ?thesis
    using True by (simp add: deref_def cref_cases R db_node_def bind_Inr)
next
  case False
  then show ?thesis using assms(1) by (simp add: deref_def cref_cases ser_list ser_data_def)
qed

lemma frame_child:
  assumes "frame_ok R M (p, NBranch cs w, c)" "j < 16"
  shows "frame_ok R M (p @ [of_nat j], cs ! j, 255)" "frame_ok R M (p, NBranch cs w, of_nat j)" "own R (cs ! j) \<subseteq># M"
proof -
  have len: "length cs = 16" and mem: "cs ! j \<in> set cs" using assms by (simp_all add: frame_simp)
  have "own R (cs ! j) \<subseteq># node_refs R (NBranch cs w)" by (rule own_child [OF mem])
  also have "\<dots> \<subseteq># M" using assms(1) by (simp add: frame_simp)
  finally show own: "own R (cs ! j) \<subseteq># M" .
  show "frame_ok R M (p @ [of_nat j], cs ! j, 255)" "frame_ok R M (p, NBranch cs w, of_nat j)"
    using assms mem own_refs [OF own] child_byte_simps(3) [OF assms(2)] by (auto simp: frame_simp)
qed

lemma push_frame:
  assumes "frame_ok R M (p, NBranch cs w, c)" "j < 16" "cs ! j \<noteq> NNull" "held U s M"
  shows "push_child R D (ser R (NBranch cs w)) (of_nat j) (conc R (p, NBranch cs w, c)) s
    = (Inr (map (conc R) [(p @ [of_nat j], cs ! j, 255), (p, NBranch cs w, of_nat j)]), s)"
proof -
  have u: "unat (of_nat j :: byte) = j" and p: "nibs p" and len: "length cs = 16"
    using child_byte_simps(3) [OF assms(2)] assms(1) by (simp_all add: frame_simp)
  have one: "slice_ok \<lparr>ns_data = [of_nat j :: byte], ns_offset = 1\<rparr>" by (simp add: slice_ok_def)
  have "hexPrefixEncode_slices (keyOf (hp_spec False p)) \<lparr>ns_data = [of_nat j], ns_offset = 1\<rparr> False = hp_spec False (p @ [of_nat j])"
    using hexPrefixEncode_slices_spec [OF hp_slice_ok one, of False p False] key_of_hp [OF p] nibbles_of_one [of "of_nat j"] u assms(2)
    by simp
  then show ?thesis
    using deref_child [OF assms(3,4) frame_child(3) [OF assms(1,2)]] u len assms(2)
    by (simp add: push_child_def conc_simp ser_at bind_def)
qed

lemma pend_push:
  assumes "find (\<lambda>j. cs ! j \<noteq> NNull) [i..<16] = Some j"
  shows "pend (p @ [of_nat j], cs ! j, 255) @ pend (p, NBranch cs w, of_nat j) = map (apfst ((@) p)) (from_child cs i)"
    "weight (p @ [of_nat j], cs ! j, 255) + weight (p, NBranch cs w, of_nat j) = weight_from cs i"
proof -
  note sk = from_child_skip [OF assms]
  note cb = child_byte_simps(3-6) [OF sk(2)]
  have "map (apfst ((@) p)) (child_entries cs j) = map (apfst ((@) (p @ [of_nat j]))) (entries (cs ! j))"
    by (simp add: child_entries_def apfst_def map_prod_def case_prod_beta)
  then show "pend (p @ [of_nat j], cs ! j, 255) @ pend (p, NBranch cs w, of_nat j) = map (apfst ((@) p)) (from_child cs i)"
    unfolding sk(4) using cb by (simp add: pend_def start_def)
  have "1 \<le> tsize (cs ! j)" using sk(3) by (cases "cs ! j") simp_all
  then show "weight (p @ [of_nat j], cs ! j, 255) + weight (p, NBranch cs w, of_nat j) = weight_from cs i"
    unfolding sk(5) using cb by (simp add: weight_def start_def)
qed

lemma children_finds:
  assumes "\<And>fs. list_all (frame_ok R M) fs \<Longrightarrow> weights fs < n \<Longrightarrow> finds R M (step (map (conc R) fs) s) s (pends fs) (weights fs)"
    and "frame_ok R M (p, NBranch cs w, c)" "list_all (frame_ok R M) fs" "held U s M" "i \<le> 16" "weight_from cs i + weights fs < n"
  shows "finds R M (case find (\<lambda>j. cs ! j \<noteq> NNull) [i..<16] of None \<Rightarrow> step (map (conc R) fs) s
      | Some j \<Rightarrow> bind (push_child R D (ser R (NBranch cs w)) (of_nat j) (conc R (p, NBranch cs w, c))) (\<lambda>gs. step (gs @ map (conc R) fs)) s)
    s (map (apfst ((@) p)) (from_child cs i) @ pends fs) (weight_from cs i + weights fs)"
proof (cases "find (\<lambda>j. cs ! j \<noteq> NNull) [i..<16]")
  case None
  have "weights fs < n" using assms(6) by simp
  from finds_mono [OF assms(1) [OF assms(3) this]] show ?thesis
    using None from_child_none [OF None] by simp
next
  case (Some j)
  note sk = from_child_skip [OF Some]
  let ?gs = "[(p @ [of_nat j], cs ! j, 255), (p, NBranch cs w, of_nat j)]"
  have "list_all (frame_ok R M) (?gs @ fs)" using frame_child [OF assms(2) sk(2)] assms(3) by simp
  moreover have w: "weights (?gs @ fs) = weight_from cs i + weights fs" using pend_push(2) [OF Some, of p w] by simp
  ultimately have "finds R M (step (map (conc R) (?gs @ fs)) s) s (pends (?gs @ fs)) (weights (?gs @ fs))"
    by (intro assms(1)) (use assms(6) in simp_all)
  moreover have "pends (?gs @ fs) = map (apfst ((@) p)) (from_child cs i) @ pends fs" using pend_push(1) [OF Some, of p w] by simp
  moreover have b: "bind (push_child R D (ser R (NBranch cs w)) (of_nat j) (conc R (p, NBranch cs w, c))) (\<lambda>gs. step (gs @ map (conc R) fs)) s
      = step (map (conc R) (?gs @ fs)) s"
    unfolding bind_def push_frame [OF assms(2) sk(2,3) assms(4)] by simp
  ultimately show ?thesis unfolding w Some option.case b by (simp only:)
qed

text \<open>Entering a node with two items, and the child a branch is entered at.\<close>

lemma two_item_key:
  assumes "nibs p" "wfn t" "t = NLeaf ns v \<or> t = NExt ns c"
  shows "hexPrefixEncode_slices (keyOf (hp_spec False p)) (node_key R (ser R t)) False = hp_spec False (p @ ns)"
  using hexPrefixEncode_slices_spec [OF hp_slice_ok ser_key(2) [OF assms(2,3)], of False p False] key_of_hp [OF assms(1)]
    ser_key(1) [OF assms(2,3)] by simp

lemma ser_kind:
  assumes "canon t"
  shows "rlp_isEmpty R (ser R t) \<longleftrightarrow> t = NNull" "rlp_isList R (ser R t) \<longleftrightarrow> t \<noteq> NNull"
    "rlp_itemCount R (ser R t) = 17 \<longleftrightarrow> is_branch t" "rlp_itemCount R (ser R t) = 2 \<longleftrightarrow> (\<exists>ns v c. t = NLeaf ns v \<or> t = NExt ns c)"
  using ser_count [OF canon_wfn [OF assms]] ser_list [of t] by (cases t; simp)+

lemma enter_branch:
  assumes "canon (NBranch cs w)"
  shows "next_child 18 R (ser R (NBranch cs w)) 16 = (if w = [] then case find (\<lambda>j. cs ! j \<noteq> NNull) [0..<16] of None \<Rightarrow> 17 | Some j \<Rightarrow> of_nat j else 16)"
proof -
  have len: "length cs = 16" using assms by simp
  have "(18 :: nat) = Suc 17" by simp
  then have "next_child 18 R (ser R (NBranch cs w)) 16
      = (if w \<noteq> [] then 16 else next_child 17 R (ser R (NBranch cs w)) (incrementChild 16))"
    using len by (simp only: next_child.simps) (simp add: ser_at R)
  then show ?thesis using next_child_find [OF len, of 0 17 w] by (cases "w = []") (simp_all add: child_byte_simps(1))
qed

lemma iter_at_leaf: "wfn (NLeaf ns v) \<Longrightarrow> iter_at R \<lparr>nd_rlp = ser_data R (NLeaf ns v), nd_key = hp_spec False q, nd_child = c\<rparr> = entry (q, v)"
  using ser_count [of "NLeaf ns v"] by (simp add: iter_at_def entry_def ser_at R)

lemma iter_at_branch: "length cs = 16 \<Longrightarrow> iter_at R (conc R (q, NBranch cs w, c)) = entry (q, w)"
  by (simp add: iter_at_def entry_def conc_simp ser_at R rlp_itemCount_def ser_items ser_list)

lemma tsize_pos: "t \<noteq> NNull \<Longrightarrow> 1 \<le> tsize t"
  by (cases t) simp_all

lemma iter_next_finds:
  assumes "held U s M"
  shows "list_all (frame_ok R M) fs \<Longrightarrow> weights fs < n \<Longrightarrow> finds R M (iter_next n R D (map (conc R) fs) s) s (pends fs) (weights fs)"
proof (induction n arbitrary: fs)
  case 0
  then show ?case by simp
next
  case (Suc n)
  show ?case
  proof (cases fs)
    case Nil
    then show ?thesis by (simp add: finds_def)
  next
    case (Cons f gs)
    obtain p t c where f: "f = (p, t, c)" by (cases f)
    have ok: "frame_ok R M (p, t, c)" "list_all (frame_ok R M) gs" using Suc.prems(1) Cons f by simp_all
    have t: "nibs p" "canon t" "node_refs R t \<subseteq># M" and wf: "wfn t" using ok(1) canon_wfn by (auto simp: frame_simp)
    have w: "weight (p, t, c) + weights gs < Suc n" using Suc.prems(2) Cons f by simp
    have "0 < weight (p, t, c)" by (auto simp: weight_def split: node.split)
    then have gs: "finds R M (iter_next n R D (map (conc R) gs) s) s (pends gs) (weights gs)"
      using Suc.IH [OF ok(2)] w by simp
    note kind = ser_kind [OF t(2)]
    have children: "finds R M (case find (\<lambda>j. cs ! j \<noteq> NNull) [i..<16] of None \<Rightarrow> iter_next n R D (map (conc R) gs) s
        | Some j \<Rightarrow> bind (push_child R D (ser R t) (of_nat j) (conc R (p, t, c))) (\<lambda>xs. iter_next n R D (xs @ map (conc R) gs)) s)
      s (map (apfst ((@) p)) (from_child cs i) @ pends gs) (weight_from cs i + weights gs)"
      if "t = NBranch cs v" "i \<le> 16" "weight_from cs i + weights gs < n" for cs v i
      using children_finds [where step = "iter_next n R D", OF Suc.IH ok(1) [unfolded that(1)] ok(2) assms that(2,3)]
      unfolding that(1) .
    show ?thesis
    proof (cases "c = 255")
      case True
      show ?thesis
      proof (cases t)
        case NNull
        with gs kind True show ?thesis
          by (simp add: Cons f conc_simp pend_def finds_mono)
      next
        case (NLeaf ns v)
        note key = two_item_key [OF t(1) wf, of ns v] ser_key(4) [OF wf, of ns v]
        have "finds R M (iter_next (Suc n) R D (map (conc R) fs) s) s ((p @ ns, v) # pends gs) (1 + weights gs)"
          using kind key True NLeaf t ok(2)
          by (auto simp: finds_def Cons f conc_simp Let_def frame_simp pend_def weight_def iter_at_leaf [OF wf [unfolded NLeaf]] intro!: exI [of _ "(p @ ns, NLeaf ns v, 0) # gs"])
        from finds_mono [OF this] show ?thesis by (simp add: Cons f pend_def weight_def True NLeaf del: iter_next.simps)
      next
        case (NExt ns d)
        note key = two_item_key [OF t(1) wf, of ns _ d] ser_key(4) [OF wf, of ns _ d]
        have d: "canon d" "d \<noteq> NNull" "nibs ns" "own R d \<subseteq># M" using t(2,3) wf NExt by simp_all
        have wd: "weight (p @ ns, d, 255) \<le> weight (p, t, c)" "weight (p @ ns, d, 255) < weight (p, t, c)"
          using tsize_pos [OF d(2)] by (simp_all add: weight_def NExt True)
        have "finds R M (iter_next n R D (map (conc R) ((p @ ns, d, 255) # gs)) s) s (pends ((p @ ns, d, 255) # gs)) (weights ((p @ ns, d, 255) # gs))"
          by (rule Suc.IH) (use d ok(2) t(1) w wd own_refs [OF d(4)] in \<open>simp_all add: frame_simp\<close>)
        moreover have "iter_next (Suc n) R D (map (conc R) fs) s = iter_next n R D (map (conc R) ((p @ ns, d, 255) # gs)) s"
          using kind key True NExt deref_child [OF d(2) assms d(4)] by (simp add: Cons f conc_simp Let_def ser_at bind_def)
        moreover have "pends ((p @ ns, d, 255) # gs) = pends fs"
          by (simp add: Cons f pend_def True NExt apfst_def map_prod_def case_prod_beta)
        ultimately have "finds R M (iter_next (Suc n) R D (map (conc R) fs) s) s (pends fs) (weights ((p @ ns, d, 255) # gs))"
          by metis
        from finds_mono [OF this] show ?thesis using wd(1) by (simp add: Cons f del: iter_next.simps)
      next
        case (NBranch cs v)
        have len: "length cs = 16" using t(2) NBranch by simp
        have k: "is_branch t" "\<not> rlp_isEmpty R (ser R t)" "rlp_isList R (ser R t)" "rlp_itemCount R (ser R t) = 17"
          using kind NBranch by auto
        have wb: "weight (p, t, c) = 2 + weight_from cs 0" using len by (simp add: weight_def True NBranch weight_from_0)
        note enter = enter_branch [of cs v, folded NBranch, OF t(2)]
        have p: "pend (p, t, c) = (if v = [] then [] else [(p, v)]) @ map (apfst ((@) p)) (from_child cs 0)"
          using len by (simp add: pend_def True NBranch)
        show ?thesis
        proof (cases "v = []")
          case v: True
          have "iter_next (Suc n) R D (map (conc R) fs) s
            = (case find (\<lambda>j. cs ! j \<noteq> NNull) [0..<16] of None \<Rightarrow> iter_next n R D (map (conc R) gs) s
               | Some j \<Rightarrow> bind (push_child R D (ser R t) (of_nat j) (conc R (p, t, c))) (\<lambda>xs. iter_next n R D (xs @ map (conc R) gs)) s)"
            using k enter v True child_byte_simps(4,5) from_child_skip(2) [of cs 0]
            by (auto simp: Cons f conc_simp Let_def split: option.split)
          moreover have "finds R M (case find (\<lambda>j. cs ! j \<noteq> NNull) [0..<16] of None \<Rightarrow> iter_next n R D (map (conc R) gs) s
               | Some j \<Rightarrow> bind (push_child R D (ser R t) (of_nat j) (conc R (p, t, c))) (\<lambda>xs. iter_next n R D (xs @ map (conc R) gs)) s)
            s (map (apfst ((@) p)) (from_child cs 0) @ pends gs) (weight_from cs 0 + weights gs)"
            by (rule children [OF NBranch]) (use w wb in simp_all)
          ultimately have "finds R M (iter_next (Suc n) R D (map (conc R) fs) s) s (map (apfst ((@) p)) (from_child cs 0) @ pends gs) (weight_from cs 0 + weights gs)"
            by (simp only:)
          from finds_mono [OF this] show ?thesis by (simp add: Cons f p v wb del: iter_next.simps)
        next
          case v: False
          have "frame_ok R M (p, t, 16)" using ok(1) k by (simp add: frame_simp)
          then have "finds R M (iter_next (Suc n) R D (map (conc R) fs) s) s ((p, v) # map (apfst ((@) p)) (from_child cs 0) @ pends gs)
              (1 + weight_from cs 0 + weights gs)"
            using k enter v True ok(2)
            using iter_at_branch [OF len, of p v 16]
            by (auto simp: finds_def Cons f conc_simp Let_def NBranch pend_def weight_def start_def intro!: exI [of _ "(p, t, 16) # gs"])
          from finds_mono [OF this] show ?thesis by (simp add: Cons f p v wb del: iter_next.simps)
        qed
      qed
    next
      case False
      then consider cs v where "t = NBranch cs v" "unat c < 16 \<or> c = 16" | ns v where "t = NLeaf ns v"
        using ok(1) by (cases t) (auto simp: frame_simp)
      then show ?thesis
      proof cases
        case 1
        have k: "rlp_isList R (ser R t)" "rlp_itemCount R (ser R t) = 17" using kind 1(1) by auto
        have len: "length cs = 16" using t(2) 1(1) by simp
        have st: "incrementChild c = child_byte (start c)" "start c \<le> 16"
          using 1(2) child_byte_simps(1) child_byte_simps(2) [of "unat c"] by (auto simp: start_def)
        note nc = next_child_find [OF len st(2), of 18 v, folded 1(1) st(1)]
        have "iter_next (Suc n) R D (map (conc R) fs) s
            = (case find (\<lambda>j. cs ! j \<noteq> NNull) [start c..<16] of None \<Rightarrow> iter_next n R D (map (conc R) gs) s
               | Some j \<Rightarrow> bind (push_child R D (ser R t) (of_nat j) (conc R (p, t, c))) (\<lambda>xs. iter_next n R D (xs @ map (conc R) gs)) s)"
          using k nc False child_byte_simps(4,5) from_child_skip(2) [of cs "start c"]
          by (auto simp: Cons f conc_simp Let_def split: option.split)
        moreover have "finds R M (case find (\<lambda>j. cs ! j \<noteq> NNull) [start c..<16] of None \<Rightarrow> iter_next n R D (map (conc R) gs) s
               | Some j \<Rightarrow> bind (push_child R D (ser R t) (of_nat j) (conc R (p, t, c))) (\<lambda>xs. iter_next n R D (xs @ map (conc R) gs)) s)
            s (map (apfst ((@) p)) (from_child cs (start c)) @ pends gs) (weight_from cs (start c) + weights gs)"
          by (rule children [OF 1(1) st(2)]) (use w in \<open>simp add: weight_def False 1(1)\<close>)
        ultimately have "finds R M (iter_next (Suc n) R D (map (conc R) fs) s) s
            (map (apfst ((@) p)) (from_child cs (start c)) @ pends gs) (weight_from cs (start c) + weights gs)"
          by (simp only:)
        from finds_mono [OF this] show ?thesis by (simp add: Cons f pend_def weight_def False 1(1) del: iter_next.simps)
      next
        case mid: 2
        then have "rlp_itemCount R (ser R t) \<noteq> 17" using kind by auto
        then have "iter_next (Suc n) R D (map (conc R) fs) = iter_next n R D (map (conc R) gs)"
          using False by (simp add: Cons f conc_simp fun_eq_iff)
        with finds_mono [OF gs] show ?thesis by (simp add: Cons f pend_def False mid)
      qed
    qed
  qed
qed

end

end
