(* ===== verification/TrieSeek.thy ===== *)
theory TrieSeek
  imports TrieWalk
begin

text \<open>
  Searching a key: \<open>next\<close> with a key finds the first entry that is not before it. The iteration from any
  iterator gives the entries in the order of their keys.
\<close>

section \<open>The order of entries\<close>

definition at_least :: "bytes \<Rightarrow> (bytes \<times> bytes) list \<Rightarrow> (bytes \<times> bytes) list" where
  "at_least k = filter (\<lambda>(l, v). \<not> bytes_less l k)"

lemma less_Nil [simp]: "\<not> bytes_less l []" "bytes_less [] l \<longleftrightarrow> l \<noteq> []"
  by (cases l; simp)+

lemma less_append [simp]: "bytes_less (p @ k) (p @ l) \<longleftrightarrow> bytes_less k l"
  by (induction p) auto

lemma less_outside: "take (length ns) k \<noteq> ns \<Longrightarrow> bytes_less (ns @ l) k \<longleftrightarrow> \<not> bytes_less k ns"
proof (induction ns arbitrary: k)
  case (Cons n ns)
  then show ?case by (cases k) (auto simp: not_less_iff_gr_or_eq)
qed simp

lemma less_leaf: "take (length ns) k \<noteq> ns \<Longrightarrow> bytes_less ns k \<longleftrightarrow> \<not> bytes_less k ns"
  using less_outside [of ns k "[]"] by simp

lemma at_least_Nil [simp]: "at_least [] es = es" "at_least k [] = []"
  by (induction es) (auto simp: at_least_def)

lemma at_least_append: "at_least k (xs @ ys) = at_least k xs @ at_least k ys"
  by (simp add: at_least_def)

lemma at_least_prefix:
  "at_least k (map (apfst ((@) ns)) es) = (if take (length ns) k = ns then map (apfst ((@) ns)) (at_least (drop (length ns) k) es)
    else if bytes_less k ns then map (apfst ((@) ns)) es else [])"
proof (induction es)
  case (Cons e es)
  show ?case
  proof (cases "take (length ns) k = ns")
    case True
    then have "k = ns @ drop (length ns) k" by (metis append_take_drop_id)
    then have "bytes_less (ns @ l) k \<longleftrightarrow> bytes_less l (drop (length ns) k)" for l by (metis less_append)
    with Cons True show ?thesis by (cases e) (simp add: at_least_def)
  next
    case False
    with Cons less_outside [OF False] show ?thesis by (cases e) (simp add: at_least_def)
  qed
qed (simp add: at_least_def)

lemma at_least_child:
  assumes "i < 16" "unat x < 16"
  shows "at_least (x # xs) (child_entries cs i) = (if i = unat x then map (apfst (Cons x)) (at_least xs (entries (cs ! i)))
    else if unat x < i then child_entries cs i else [])"
proof -
  have u: "unat (of_nat i :: byte) = i" by (rule child_byte_simps(3) [OF assms(1)])
  have "of_nat i < x \<longleftrightarrow> i < unat x" "x < of_nat i \<longleftrightarrow> unat x < i" "of_nat i = x \<longleftrightarrow> i = unat x"
    using u by (auto simp: word_less_nat_alt)
  then have "at_least (x # xs) (map (apfst (Cons (of_nat i))) es) = (if i = unat x then map (apfst (Cons x)) (at_least xs es)
    else if unat x < i then map (apfst (Cons (of_nat i))) es else [])" for es
    by (induction es) (auto simp: at_least_def)
  then show ?thesis unfolding child_entries_def .
qed

lemma at_least_branch:
  assumes "unat x < 16"
  shows "at_least (x # xs) (from_child cs 0) = map (apfst (Cons x)) (at_least xs (entries (cs ! unat x))) @ from_child cs (Suc (unat x))"
proof -
  have split: "[0..<16] = [0..<unat x] @ unat x # [Suc (unat x)..<16]"
    using assms upt_add_eq_append [of 0 "unat x" "16 - unat x"] upt_conv_Cons [of "unat x" 16] by simp
  have con: "at_least k (concat (map f js)) = concat (map (\<lambda>i. at_least k (f i)) js)" for k f and js :: "nat list"
    by (induction js) (simp_all add: at_least_append)
  have f1: "concat (map (\<lambda>i. at_least (x # xs) (child_entries cs i)) [0..<unat x]) = []"
    using at_least_child [OF _ assms] assms by simp
  have f2: "map (\<lambda>i. at_least (x # xs) (child_entries cs i)) [Suc (unat x)..<16] = map (child_entries cs) [Suc (unat x)..<16]"
    using at_least_child [OF _ assms] by (intro map_cong [OF refl]) simp
  show ?thesis
    unfolding from_child_def con unfolding split map_append concat_append f1 list.map concat.simps f2
    by (simp add: at_least_child assms del: upt_Suc)
qed

section \<open>Searching\<close>

lemma slice_clear_simps [simp]: "slice_size slice_clear = 0" "slice_ok slice_clear" "nibbles_of slice_clear = []"
  by (simp_all add: slice_clear_def slice_size_def slice_ok_def nibbles_of_def)

context trie_reader
begin

lemma slice_empty: "slice_size k = 0 \<longleftrightarrow> nibbles_of k = []"
  using length_nibbles_of [of k] by (metis length_0_conv)

lemma frame_key:
  assumes "frame_ok R M (p, t, 255)" "t = NLeaf ns v \<or> t = NExt ns c" "slice_ok k"
  shows "slice_contains k (node_key R (ser R t)) \<longleftrightarrow> take (length ns) (nibbles_of k) = ns"
    "isEarlierThan k (node_key R (ser R t)) \<longleftrightarrow> bytes_less (nibbles_of k) ns"
    "slice_size (node_key R (ser R t)) = length ns" "node_isLeaf R (ser R t) \<longleftrightarrow> t = NLeaf ns v"
proof -
  have wf: "wfn t" using assms(1) canon_wfn by (simp add: frame_simp)
  show "slice_contains k (node_key R (ser R t)) \<longleftrightarrow> take (length ns) (nibbles_of k) = ns"
    by (rule key_tests(3) [OF wf assms(2,3)])
  show "isEarlierThan k (node_key R (ser R t)) \<longleftrightarrow> bytes_less (nibbles_of k) ns"
    using ser_key(1) [OF wf assms(2)] by (simp add: isEarlierThan_lex bytes_less_lex)
  show "slice_size (node_key R (ser R t)) = length ns" "node_isLeaf R (ser R t) \<longleftrightarrow> t = NLeaf ns v"
    by (rule ser_key(3,4) [OF wf assms(2)])+
qed

text \<open>Once the key is used up, the search is the plain advance.\<close>

lemma seek_empty: "slice_size k = 0 \<Longrightarrow> iter_seek n R D k trail = iter_next n R D trail"
proof (induction n arbitrary: k trail)
  case (Suc n)
  have clear: "iter_seek n R D slice_clear = iter_next n R D" using Suc.IH [of slice_clear] by (simp add: fun_eq_iff)
  have k: "iter_seek n R D k = iter_next n R D" using Suc.IH [OF Suc.prems] by (simp add: fun_eq_iff)
  have mid: "iter_seek n R D (slice_mid (if b then k else slice_clear) 0) = iter_next n R D" for b
    using Suc.IH [of "slice_mid (if b then k else slice_clear) 0"] Suc.prems by (auto simp: size_mid)
  have e: "slice_size kk \<noteq> 0 \<Longrightarrow> isEarlierThan k kk" for kk
    using Suc.prems unfolding slice_empty isEarlierThan_lex by simp
  have c: "slice_contains k kk" if "slice_size kk = 0" for kk
    using that Suc.prems by (simp add: slice_contains_def slice_shared_def slice_size_def sharedNibbles.simps)
  have m: "min (slice_size (if b then k else slice_clear)) j = 0" for b j using Suc.prems by simp
  have sm: "slice_size (slice_mid (if b then k else slice_clear) 0) = 0" for b using Suc.prems by (simp add: size_mid)
  have "\<not> slice_contains k kk \<and> \<not> isEarlierThan k kk \<longleftrightarrow> False" for kk using e c by blast
  moreover have "iter_seek n R D (if b then k else slice_clear) = iter_next n R D" for b using clear k by simp
  ultimately show ?case
    using Suc.prems by (simp only: iter_seek.simps iter_next.simps Let_def clear mid m sm if_False if_True simp_thms k)
qed simp

lemma weight_from_0_le: "weight_from cs i \<le> weight_from cs 0"
proof -
  have "[0..<16] = [0..<min i 16] @ [min i 16..<16]" using upt_add_eq_append [of 0 "min i 16" "16 - min i 16"] by simp
  moreover have "weight_from cs i = weight_from cs (min i 16)" by (cases "i \<le> 16") (simp_all add: weight_from_def)
  ultimately show ?thesis unfolding weight_from_def by (simp del: upt_Suc)
qed

lemma iter_seek_finds:
  assumes "held U s M"
  shows "frame_ok R M (p, t, 255) \<Longrightarrow> list_all (frame_ok R M) fs \<Longrightarrow> slice_ok k \<Longrightarrow> weights ((p, t, 255) # fs) < n
    \<Longrightarrow> finds R M (iter_seek n R D k (map (conc R) ((p, t, 255) # fs)) s) s
      (map (apfst ((@) p)) (at_least (nibbles_of k) (entries t)) @ pends fs) (weights ((p, t, 255) # fs))"
proof (induction n arbitrary: p t fs k)
  case 0
  then show ?case by simp
next
  case (Suc n)
  note next_finds = iter_next_finds [OF assms]
  show ?case
  proof (cases "slice_size k = 0")
    case True
    have "list_all (frame_ok R M) ((p, t, 255) # fs)" using Suc.prems(1,2) by simp
    from next_finds [OF this Suc.prems(4)] True show ?thesis
      unfolding seek_empty [OF True] by (simp add: slice_empty pend_def)
  next
    case False
    have t: "nibs p" "canon t" "node_refs R t \<subseteq># M" and wf: "wfn t" using Suc.prems(1) canon_wfn by (auto simp: frame_simp)
    note kind = ser_kind [OF t(2)] and key = frame_key [OF Suc.prems(1) _ Suc.prems(3)]
    have w: "weight (p, t, 255) + weights fs < Suc n" using Suc.prems(4) by simp
    have "0 < weight (p, t, 255)" by (simp add: weight_def)
    then have "weights fs < n" using w by simp
    from next_finds [OF Suc.prems(2) this] have "finds R M (iter_seek n R D slice_clear (map (conc R) fs) s) s (pends fs) (weights fs)"
      by (simp add: seek_empty)
    from finds_mono [OF this] have pop: "finds R M (iter_seek n R D slice_clear (map (conc R) fs) s) s (pends fs) (weights ((p, t, 255) # fs))"
      by simp
    show ?thesis
    proof (cases t)
      case NNull
      with pop kind show ?thesis by (simp add: conc_simp)
    next
      case (NLeaf ns v)
      note key = key [OF disjI1, OF NLeaf]
      have enc: "hexPrefixEncode_slices (keyOf (hp_spec False p)) (node_key R (ser R t)) False = hp_spec False (p @ ns)"
        using two_item_key [OF t(1) wf, of ns v] NLeaf by simp
      have al: "at_least (nibbles_of k) [(ns, v)] = (if bytes_less ns (nibbles_of k) then [] else [(ns, v)])" by (simp add: at_least_def)
      have found: "finds R M (Inr (conc R (p @ ns, t, 0) # map (conc R) fs, True), s) s ((p @ ns, v) # pends fs) (weights ((p, t, 255) # fs))"
        using t Suc.prems(2) iter_at_leaf [OF wf [unfolded NLeaf]] NLeaf
        by (auto simp: finds_def conc_simp frame_simp pend_def weight_def intro!: exI [of _ "(p @ ns, t, 0) # fs"])
      have less: "bytes_less ns (nibbles_of k) \<longleftrightarrow> (if slice_contains k (node_key R (ser R t)) then slice_size k \<noteq> length ns
          else \<not> isEarlierThan k (node_key R (ser R t)))"
      proof (cases "take (length ns) (nibbles_of k) = ns")
        case True
        then have "nibbles_of k = ns @ drop (length ns) (nibbles_of k)" by (metis append_take_drop_id)
        then have "bytes_less ns (nibbles_of k) \<longleftrightarrow> drop (length ns) (nibbles_of k) \<noteq> []"
          by (metis append_Nil2 less_Nil(2) less_append)
        moreover have "length ns \<le> slice_size k"
          using True length_nibbles_of [of k] by (metis length_take min.cobounded2 min_def nat_le_linear)
        ultimately show ?thesis using key True by (simp add: min_def split: if_splits)
      qed (use key less_leaf in auto)
      have size: "slice_contains k (node_key R (ser R t)) \<Longrightarrow> length ns \<le> slice_size k"
        using key length_nibbles_of [of k] by (metis length_take min.cobounded2 min_def nat_le_linear)
      have "iter_seek (Suc n) R D k (map (conc R) ((p, t, 255) # fs)) s
          = (if bytes_less ns (nibbles_of k) then iter_seek n R D slice_clear (map (conc R) fs) s
             else (Inr (conc R (p @ ns, t, 0) # map (conc R) fs, True), s))"
        unfolding less using kind key NLeaf enc size
        by (auto simp: conc_simp Let_def size_mid min_def)
      then show ?thesis using pop found al NLeaf by simp
    next
      case (NExt ns d)
      note key = key [of ns _ d, OF disjI2, OF NExt]
      have enc: "hexPrefixEncode_slices (keyOf (hp_spec False p)) (node_key R (ser R t)) False = hp_spec False (p @ ns)"
        using two_item_key [OF t(1) wf, of ns _ d] NExt by simp
      have d: "canon d" "d \<noteq> NNull" "nibs ns" "own R d \<subseteq># M" using t(2,3) wf NExt by simp_all
      have wd: "weight (p @ ns, d, 255) < weight (p, t, 255)"
        using tsize_pos [OF d(2)] by (simp add: weight_def NExt)
      have fd: "frame_ok R M (p @ ns, d, 255)" using d t(1) own_refs [OF d(4)] by (simp add: frame_simp)
      define con where "con \<longleftrightarrow> take (length ns) (nibbles_of k) = ns"
      define k2 where "k2 = slice_mid (if con then k else slice_clear) (min (slice_size (if con then k else slice_clear)) (length ns))"
      have size: "con \<Longrightarrow> length ns \<le> slice_size k"
        unfolding con_def using length_nibbles_of [of k] by (metis length_take min.cobounded2 min_def nat_le_linear)
      have k2: "slice_ok k2" "nibbles_of k2 = (if con then drop (length ns) (nibbles_of k) else [])"
        using Suc.prems(3) size by (auto simp: k2_def nibbles_of_mid slice_ok_mid)
      have eq: "iter_seek (Suc n) R D k (map (conc R) ((p, t, 255) # fs)) s
          = (if \<not> con \<and> \<not> bytes_less (nibbles_of k) ns then iter_seek n R D slice_clear (map (conc R) fs) s
             else iter_seek n R D k2 (map (conc R) ((p @ ns, d, 255) # fs)) s)"
        using kind key NExt enc deref_child [OF d(2) assms d(4)]
        by (simp add: conc_simp Let_def ser_at bind_def k2_def con_def [symmetric])
      have "weights ((p @ ns, d, 255) # fs) < n" using w wd by simp
      from Suc.IH [OF fd Suc.prems(2) k2(1) this]
      have "finds R M (iter_seek n R D k2 (map (conc R) ((p @ ns, d, 255) # fs)) s) s
        (map (apfst ((@) p)) (map (apfst ((@) ns)) (at_least (nibbles_of k2) (entries d))) @ pends fs) (weights ((p @ ns, d, 255) # fs))"
        by (simp add: apfst_def map_prod_def case_prod_beta comp_def)
      from finds_mono [OF this, of "weights ((p, t, 255) # fs)"] wd
      have down: "finds R M (iter_seek n R D k2 (map (conc R) ((p @ ns, d, 255) # fs)) s) s
        (map (apfst ((@) p)) (map (apfst ((@) ns)) (at_least (nibbles_of k2) (entries d))) @ pends fs) (weights ((p, t, 255) # fs))"
        by simp
      have al: "at_least (nibbles_of k) (entries t) = (if \<not> con \<and> \<not> bytes_less (nibbles_of k) ns then []
          else map (apfst ((@) ns)) (at_least (nibbles_of k2) (entries d)))"
        unfolding NExt entries.simps at_least_prefix k2(2) con_def by simp
      show ?thesis unfolding eq al using pop down by simp
    next
      case (NBranch cs v)
      have len: "length cs = 16" using t(2) NBranch by simp
      have kb: "is_branch t" "\<not> rlp_isEmpty R (ser R t)" "rlp_isList R (ser R t)" "rlp_itemCount R (ser R t) = 17"
        using kind NBranch by auto
      obtain x xs where ks: "nibbles_of k = x # xs" using False slice_empty by (cases "nibbles_of k") auto
      have x: "unat x < 16" using ks nibs_nibbles_of [of k] by simp
      note hd = slice_nth_hd [OF ks]
      have cb: "child_byte (unat x) = x" "x \<noteq> 17" "x \<noteq> 16" using x child_byte_simps(4,5) [OF x] by (simp_all add: child_byte_def)
      have mid: "slice_ok (slice_mid k 1)" "nibbles_of (slice_mid k 1) = xs" using Suc.prems(3) hd ks by (auto simp: nibbles_of_mid slice_ok_mid)
      have wb: "weight (p, t, 255) = 2 + weight_from cs 0" using len by (simp add: weight_def NBranch weight_from_0)
      have "unat x \<le> 16" using x by simp
      note nc = next_child_find [OF len this, of 18 v, folded NBranch, unfolded cb(1)]
      have al: "at_least (nibbles_of k) (entries t)
          = map (apfst (Cons x)) (at_least xs (entries (cs ! unat x))) @ from_child cs (Suc (unat x))"
        using at_least_branch [OF x, of xs cs] len by (simp add: ks NBranch at_least_append) (simp add: at_least_def)
      show ?thesis
      proof (cases "find (\<lambda>j. cs ! j \<noteq> NNull) [unat x..<16]")
        case None
        have "from_child cs (unat x) = child_entries cs (unat x) @ from_child cs (Suc (unat x))"
          using upt_conv_Cons [OF x] by (simp add: from_child_def)
        then have "child_entries cs (unat x) = []" "from_child cs (Suc (unat x)) = []"
          using from_child_none [OF None] by simp_all
        then have "at_least (nibbles_of k) (entries t) = []" unfolding al by (auto simp: child_entries_def)
        moreover have "iter_seek (Suc n) R D k (map (conc R) ((p, t, 255) # fs)) s = iter_seek n R D slice_clear (map (conc R) fs) s"
          using kb nc hd None False by (simp add: conc_simp Let_def)
        ultimately show ?thesis using pop by simp
      next
        case (Some j)
        note sk = from_child_skip [OF Some]
        let ?gs = "[(p @ [of_nat j], cs ! j, 255), (p, t, of_nat j)]"
        have ok: "frame_ok R M (p @ [of_nat j], cs ! j, 255)" "list_all (frame_ok R M) ((p, t, of_nat j) # fs)"
          using frame_child [of M p cs v 255 j] Suc.prems(1,2) NBranch sk(2) by simp_all
        have wg: "weights (?gs @ fs) = weight_from cs (unat x) + weights fs" using pend_push(2) [OF Some, of p v] by (simp add: NBranch)
        then have wn: "weights (?gs @ fs) < n" using w wb weight_from_0_le [of cs "unat x"] by simp
        have wm: "weights (?gs @ fs) \<le> weights ((p, t, 255) # fs)" using wg wb weight_from_0_le [of cs "unat x"] by simp
        note push = push_frame [of M p cs v 255 j, folded NBranch, OF Suc.prems(1) sk(2,3) assms]
        have jx: "(of_nat j = x) \<longleftrightarrow> j = unat x" using child_byte_simps(3) [OF sk(2)] by auto
        have eq: "iter_seek (Suc n) R D k (map (conc R) ((p, t, 255) # fs)) s
            = iter_seek n R D (if j = unat x then slice_mid k 1 else slice_clear) (map (conc R) (?gs @ fs)) s"
          using kb nc hd Some False push child_byte_simps(4,5) [OF sk(2)] jx by (simp add: conc_simp Let_def bind_def cong: if_cong)
        show ?thesis
        proof (cases "j = unat x")
          case True
          have "weights ((p @ [of_nat j], cs ! j, 255) # (p, t, of_nat j) # fs) < n" using wn by simp
          from Suc.IH [OF ok mid(1) this, unfolded mid(2)] have "finds R M (iter_seek n R D (slice_mid k 1) (map (conc R) (?gs @ fs)) s) s
              (map (apfst ((@) (p @ [of_nat j]))) (at_least xs (entries (cs ! j))) @ pend (p, t, of_nat j) @ pends fs) (weights (?gs @ fs))"
            by (simp only: append.simps pends_simps(2))
          moreover have pe: "pend (p, t, of_nat j) = map (apfst ((@) p)) (from_child cs (Suc j))"
            using child_byte_simps(3,5,6) [OF sk(2)] by (simp add: pend_def start_def NBranch)
          moreover have e: "map (apfst ((@) (p @ [of_nat j]))) es = map (apfst ((@) p)) (map (apfst (Cons x)) es)" for es :: "(bytes \<times> bytes) list"
            using True by (simp add: apfst_def map_prod_def case_prod_beta)
          have "map (apfst ((@) (p @ [of_nat j]))) (at_least xs (entries (cs ! j))) @ pend (p, t, of_nat j) @ pends fs
              = map (apfst ((@) p)) (at_least (nibbles_of k) (entries t)) @ pends fs"
            unfolding al pe e map_append append_assoc by (simp only: True)
          ultimately have "finds R M (iter_seek n R D (slice_mid k 1) (map (conc R) (?gs @ fs)) s) s
              (map (apfst ((@) p)) (at_least (nibbles_of k) (entries t)) @ pends fs) (weights (?gs @ fs))"
            by (simp only:)
          from finds_mono [OF this wm] show ?thesis unfolding eq using True by simp
        next
          case other: False
          then have "cs ! unat x = NNull"
            using Some x upt_conv_Cons [OF x] by (auto split: if_splits)
          then have "from_child cs (unat x) = from_child cs (Suc (unat x))" "at_least xs (entries (cs ! unat x)) = []"
            using upt_conv_Cons [OF x] by (simp_all add: from_child_def child_entries_def)
          then have "pends (?gs @ fs) = map (apfst ((@) p)) (at_least (nibbles_of k) (entries t)) @ pends fs"
            using pend_push(1) [OF Some, of p v, folded NBranch] by (simp add: al)
          moreover have "finds R M (iter_seek n R D slice_clear (map (conc R) (?gs @ fs)) s) s (pends (?gs @ fs)) (weights (?gs @ fs))"
            unfolding seek_empty [OF slice_clear_simps(1)] by (rule next_finds) (use ok wn in simp_all)
          ultimately have "finds R M (iter_seek n R D slice_clear (map (conc R) (?gs @ fs)) s) s
              (map (apfst ((@) p)) (at_least (nibbles_of k) (entries t)) @ pends fs) (weights (?gs @ fs))" by (simp only:)
          from finds_mono [OF this wm] show ?thesis unfolding eq using other by simp
        qed
      qed
    qed
  qed
qed

end

end
