(* ===== verification/TrieIterProps.thy ===== *)
theory TrieIterProps
  imports TrieSeek
begin

text \<open>
  Iterating over a trie gives its content in the order of the keys, from any key on; and the walk of \<open>check\<close>
  finds every node of the trie and nothing else.
\<close>

section \<open>The entries are the content\<close>

lemma entries_set: "canon t \<Longrightarrow> (l, v) \<in> set (entries t) \<longleftrightarrow> trie_get t l = Some v"
proof (induction t arbitrary: l)
  case (NExt ns c)
  have "(l, v) \<in> apfst ((@) ns) ` S \<longleftrightarrow> take (length ns) l = ns \<and> (drop (length ns) l, v) \<in> S" for S
    by (auto simp: image_iff apfst_def map_prod_def case_prod_beta) (metis append_take_drop_id fst_conv snd_conv)
  with NExt show ?case by simp
next
  case (NBranch cs w)
  have len: "length cs = 16" using NBranch.prems by simp
  show ?case
  proof (cases l)
    case Nil
    have "([], v) \<notin> set (from_child cs 0)" by (auto simp: from_child_def child_entries_def)
    with Nil len show ?thesis by auto
  next
    case (Cons x xs)
    have "(l, v) \<in> set (from_child cs 0) \<longleftrightarrow> (\<exists>i<16. x = of_nat i \<and> (xs, v) \<in> set (entries (cs ! i)))"
    proof
      assume "(l, v) \<in> set (from_child cs 0)"
      then obtain i where "i < 16" "(l, v) \<in> set (child_entries cs i)" by (auto simp: from_child_def)
      then show "\<exists>i<16. x = of_nat i \<and> (xs, v) \<in> set (entries (cs ! i))" by (auto simp: child_entries_def Cons)
    next
      assume "\<exists>i<16. x = of_nat i \<and> (xs, v) \<in> set (entries (cs ! i))"
      then obtain i where i: "i < 16" "(l, v) \<in> set (child_entries cs i)" by (force simp: child_entries_def Cons)
      then show "(l, v) \<in> set (from_child cs 0)" by (auto simp: from_child_def)
    qed
    also have "\<dots> \<longleftrightarrow> unat x < 16 \<and> (xs, v) \<in> set (entries (cs ! unat x))"
      using child_byte_simps(3) by (auto intro!: exI [of _ "unat x"])
    also have "\<dots> \<longleftrightarrow> unat x < 16 \<and> trie_get (cs ! unat x) xs = Some v"
      using NBranch.IH [of "cs ! unat x" xs] NBranch.prems len by auto
    finally show ?thesis using len Cons by auto
  qed
qed auto

lemma bm_sorted_prefix:
  assumes "bm_sorted es"
  shows "bm_sorted (map (apfst ((@) p)) es)" "bm_sorted (map (apfst (Cons x)) es)"
  using assms by (auto simp: bm_sorted_def sorted_wrt_map case_prod_beta elim: sorted_wrt_mono_rel [rotated])

lemma bm_sorted_distinct: "bm_sorted es \<Longrightarrow> distinct (map fst es)"
proof (induction es)
  case (Cons e es)
  then have "fst e \<notin> set (map fst es)" using bytes_less_irrefl by (fastforce simp: bm_sorted_def)
  with Cons show ?case by (simp add: bm_sorted_def)
qed simp

lemma entries_sorted: "canon t \<Longrightarrow> bm_sorted (entries t)"
proof (induction t)
  case (NExt ns c)
  then show ?case by (simp add: bm_sorted_prefix(1))
next
  case (NBranch cs w)
  have len: "length cs = 16" using NBranch.prems by simp
  have child: "bm_sorted (child_entries cs i)" if "i < 16" for i
  unfolding child_entries_def by (rule bm_sorted_prefix(2)) (use NBranch that len in simp)
  have "n \<le> 16 \<Longrightarrow> bm_sorted (concat (map (child_entries cs) [0..<n]))" for n
  proof (induction n)
    case (Suc n)
    have "bytes_less (fst a) (fst b)" if "a \<in> set (child_entries cs i)" "i < n" "b \<in> set (child_entries cs n)" for a b i
    proof -
      have "(of_nat i :: byte) < of_nat n"
        using that(2) Suc.prems child_byte_simps(3) [of i] child_byte_simps(3) [of n] by (simp add: word_less_nat_alt)
      with that show ?thesis by (auto simp: child_entries_def)
    qed
    with Suc child [of n] show ?case by (auto simp: bm_sorted_def sorted_wrt_append)
  qed (simp add: bm_sorted_def)
  from this [of 16] have "bm_sorted (from_child cs 0)" by (simp add: from_child_def)
  moreover have "([], v) \<notin> set (from_child cs 0)" for v by (auto simp: from_child_def child_entries_def)
  ultimately show ?case using len by (auto simp: bm_sorted_def)
qed (simp_all add: bm_sorted_def)

lemma entries_length: "canon t \<Longrightarrow> length (entries t) \<le> tsize t"
proof (induction t)
  case (NBranch cs w)
  have len: "length cs = 16" using NBranch.prems by simp
  have "length (from_child cs 0) = sum_list (map (\<lambda>i. length (entries (cs ! i))) [0..<16])"
    unfolding from_child_def length_concat child_entries_def map_map comp_def length_map ..
  also have "\<dots> \<le> sum_list (map (\<lambda>i. tsize (cs ! i)) [0..<16])"
    using NBranch len by (intro sum_list_mono) simp
  also have "map (\<lambda>i. tsize (cs ! i)) [0..<16] = map tsize cs" using len by (intro nth_equalityI) simp_all
  finally show ?case using len by simp
qed simp_all

section \<open>Nibbles and bytes\<close>

lemma less_nat_split:
  fixes m n :: nat
  shows "m < n \<longleftrightarrow> m div 16 < n div 16 \<or> m div 16 = n div 16 \<and> m mod 16 < n mod 16"
proof -
  have "m = 16 * (m div 16) + m mod 16" "n = 16 * (n div 16) + n mod 16" "m mod 16 < 16" "n mod 16 < 16" by simp_all
  then show ?thesis by linarith
qed

lemma less_byte_split:
  fixes x y :: byte
  shows "x < y \<longleftrightarrow> x div 16 < y div 16 \<or> x div 16 = y div 16 \<and> x mod 16 < y mod 16"
  using less_nat_split [of "unat x" "unat y"] by (simp add: word_less_nat_alt unat_div unat_mod word_unat_eq_iff)

lemma less_Cons: "bytes_less (x # xs) (y # ys) \<longleftrightarrow> x < y \<or> x = y \<and> bytes_less xs ys"
  by auto

lemma less_asNibbles [simp]: "bytes_less (asNibbles k) (asNibbles l) \<longleftrightarrow> bytes_less k l"
proof (induction k l rule: bytes_less.induct)
  case (4 x xs y ys)
  have "x = y \<longleftrightarrow> x div 16 = y div 16 \<and> x mod 16 = y mod 16" using less_byte_split [of x y] less_byte_split [of y x] by (metis less_irrefl not_less_iff_gr_or_eq)
  moreover have "bytes_less (asNibbles xs) (asNibbles ys) \<longleftrightarrow> bytes_less xs ys" if "x = y" using 4 that by simp
  ultimately show ?case unfolding asNibbles_Cons append.simps less_Cons less_byte_split [of x y] by blast
qed (simp_all add: asNibbles_Cons asNibbles_def)

lemma entry_key: "entry (asNibbles k, v) = (k, v)"
proof -
  have "\<forall>n \<in> set (asNibbles k). small n" using small_nibs [of "asNibbles k"] by simp
  then have "unpack (pack (asNibbles k)) = asNibbles k" by (intro unpack_pack) simp_all
  then have "pack (asNibbles k) = k" using asNibbles_inj [of "pack (asNibbles k)" k] by (simp add: asNibbles_unpack)
  then show ?thesis by (simp add: entry_def hp_spec_def)
qed

lemma content_entries:
  assumes "holds t m" "no_empty m"
  shows "bm_sorted (map entry (entries t))" "map_of (map entry (entries t)) = map_of m"
    "map entry (at_least (asNibbles k) (entries t)) = at_least k (map entry (entries t))"
proof -
  have c: "canon t" and g: "trie_get t = map_of (hexMap m)" using assms(1) by (simp_all add: holds_def)
  have key: "\<exists>l. e = (asNibbles l, snd e) \<and> entry e = (l, snd e)" if "e \<in> set (entries t)" for e
  proof -
    have "map_of (hexMap m) (fst e) = Some (snd e)" using entries_set [OF c, of "fst e" "snd e"] that g by simp
    then obtain l where "fst e = asNibbles l" using hexMap_keys map_of_SomeD by metis
    then have "e = (asNibbles l, snd e)" by (metis prod.collapse)
    with entry_key [of l "snd e"] show ?thesis by metis
  qed
  have "sorted_wrt (\<lambda>a b. bytes_less (fst (entry a)) (fst (entry b))) (entries t)"
    using entries_sorted [OF c] unfolding bm_sorted_def
  proof (rule sorted_wrt_mono_rel [rotated])
    fix a b assume "a \<in> set (entries t)" "b \<in> set (entries t)" "bytes_less (fst a) (fst b)"
    then show "bytes_less (fst (entry a)) (fst (entry b))" using key [of a] key [of b] by (metis fst_conv less_asNibbles)
  qed
  then show s: "bm_sorted (map entry (entries t))" by (simp add: bm_sorted_def sorted_wrt_map)
  note d = bm_sorted_distinct [OF s]
  have "map_of (map entry (entries t)) l = Some v \<longleftrightarrow> map_of m l = Some v" for l v
  proof -
    have "map_of (map entry (entries t)) l = Some v \<longleftrightarrow> (l, v) \<in> entry ` set (entries t)" using d by simp
    also have "\<dots> \<longleftrightarrow> (asNibbles l, v) \<in> set (entries t)"
    proof
      assume "(l, v) \<in> entry ` set (entries t)"
      then obtain e where "e \<in> set (entries t)" "(l, v) = entry e" by blast
      with key [of e] show "(asNibbles l, v) \<in> set (entries t)" by auto
    qed (use entry_key [of l v] in \<open>metis image_eqI\<close>)
    finally show ?thesis using entries_set [OF c] g hexMap_get(1) [OF assms(2)] by simp
  qed
  then show "map_of (map entry (entries t)) = map_of m" by (metis option.exhaust ext)
  have "entry e = (l, w) \<Longrightarrow> bytes_less (fst e) (asNibbles k) \<longleftrightarrow> bytes_less l k" if "e \<in> set (entries t)" for e l w
    using key [OF that] by (metis fst_conv less_asNibbles)
  then show "map entry (at_least (asNibbles k) (entries t)) = at_least k (map entry (entries t))"
    unfolding at_least_def filter_map comp_def case_prod_beta
    by (intro arg_cong [of _ _ "map entry"] filter_cong [OF refl]) (metis prod.collapse)
qed

section \<open>From an iterator to the end\<close>

definition iter_all :: "nat \<Rightarrow> 'i rlp \<Rightarrow> 's db_ops \<Rightarrow> ('s GenericTrieDB, (bytes \<times> bytes) list) act" where
  "iter_all n R D = bind (iter_begin n R D) (\<lambda>(t, live). db_act (iter_rest n n R D t))"

definition iter_from :: "nat \<Rightarrow> 'i rlp \<Rightarrow> 's db_ops \<Rightarrow> bytes \<Rightarrow> ('s GenericTrieDB, (bytes \<times> bytes) list) act" where
  "iter_from n R D k = bind (trie_lower_bound n R D k) (\<lambda>(t, live). db_act (iter_rest n n R D t))"

context trie_reader
begin

lemma iter_rest_finds:
  assumes "held U s M"
  shows "finds R M x s es b \<Longrightarrow> b < n \<Longrightarrow> length es < m \<Longrightarrow> \<exists>t live. x = (Inr (t, live), s) \<and> iter_rest m n R D t s = (Inr (map entry es), s)"
proof (induction es arbitrary: x b m)
  case Nil
  then obtain i where "m = Suc i" by (cases m) simp_all
  with Nil show ?case by (auto simp: finds_def)
next
  case (Cons e es)
  then obtain i where m: "m = Suc i" by (cases m) simp_all
  obtain fs where fs: "x = (Inr (map (conc R) fs, True), s)" "fs \<noteq> []" "list_all (frame_ok R M) fs"
      "iter_at R (conc R (hd fs)) = entry e" "pends fs = es" "weights fs \<le> b"
    using Cons.prems(1) by (auto simp: finds_def)
  have "weights fs < n" using fs(6) Cons.prems(2) by simp
  from iter_next_finds [OF assms fs(3) this] have "finds R M (iter_next n R D (map (conc R) fs) s) s es (weights fs)" by (simp add: fs(5))
  from Cons.IH [OF this \<open>weights fs < n\<close>, of i] obtain t live where "iter_next n R D (map (conc R) fs) s = (Inr (t, live), s)"
      "iter_rest i n R D t s = (Inr (map entry es), s)"
    using Cons.prems(3) m by auto
  with fs(1,2,4) m show ?case by (auto simp: bind_def hd_map)
qed

lemma iter_root_conc: "iter_root (ser_data R t) = map (conc R) [([], t, 255)]"
  by (simp add: iter_root_def conc_simp hp_spec_def hp_flags_def)

lemma iter_reps:
  assumes "reps U B td t" "holds t m" "no_empty m" "3 * tsize t + 1 < n"
  shows "iter_all n R D td = (Inr (map entry (entries t)), td)"
    "iter_from n R D k td = (Inr (map entry (at_least (asNibbles k) (entries t))), td)"
proof -
  have h: "held U (tr_db td) (B + trie_data R t)" "tr_root td = sha3 (ser_data R t)" using assms(1) by (simp_all add: reps_def)
  have c: "canon t" using assms(2) by (simp add: holds_def)
  have ok: "frame_ok R (B + trie_data R t) ([], t, 255)"
    using c by (simp add: frame_simp trie_data_def subset_mset.add_increasing)
  have w: "weights [([], t, 255)] < n" using assms(4) by (simp add: weight_def)
  have len: "length (at_least l (entries t)) < n" for l
  proof -
    have "length (at_least l (entries t)) \<le> length (entries t)" by (simp add: at_least_def)
    also have "\<dots> \<le> tsize t" by (rule entries_length [OF c])
    finally show ?thesis using assms(4) by simp
  qed
  have p: "pends [([], t, 255)] = entries t" by (simp add: pend_def apfst_def map_prod_def case_prod_beta)
  note root = read_root [OF h(1)]
  have "finds R (B + trie_data R t) (iter_next n R D (iter_root (ser_data R t)) (tr_db td)) (tr_db td) (entries t) (weights [([], t, 255)])"
    using iter_next_finds [OF h(1), of "[([], t, 255)]" n] ok w unfolding iter_root_conc p by simp
  from iter_rest_finds [OF h(1) this w, of n] len [of "[]"] show "iter_all n R D td = (Inr (map entry (entries t)), td)"
    using root h(2) by (auto simp: iter_all_def iter_begin_def bind_def get_root_def db_act_def)
  have "finds R (B + trie_data R t) (iter_seek n R D (slice_of k) (iter_root (ser_data R t)) (tr_db td)) (tr_db td)
      (at_least (asNibbles k) (entries t)) (weights [([], t, 255)])"
    using iter_seek_finds [OF h(1) ok _ _ w, of "slice_of k"]
    unfolding iter_root_conc by (simp add: apfst_def map_prod_def case_prod_beta)
  from iter_rest_finds [OF h(1) this w, of n] len show "iter_from n R D k td = (Inr (map entry (at_least (asNibbles k) (entries t))), td)"
    using root h(2) by (auto simp: iter_from_def trie_lower_bound_def bind_def get_root_def db_act_def)
qed

end

section \<open>The walk\<close>

definition outside :: "'i rlp \<Rightarrow> bytes multiset \<Rightarrow> h256 list \<Rightarrow> h256 list" where
  "outside R M = filter (\<lambda>k. k \<notin> sha3 ` set_mset M)"

lemma outside_simps [simp]: "outside R {#} ks = ks" "outside R (add_mset b M) ks = outside R M (removeAll (sha3 b) ks)"
  "outside R (M + N) ks = outside R N (outside R M ks)"
  by (auto simp: outside_def removeAll_filter_not_eq intro: filter_cong)

lemma outside_sum: "outside R (sum_list (map f cs)) ks = foldl (\<lambda>ks c. outside R (f c) ks) ks cs"
  by (induction cs arbitrary: ks) simp_all

context trie_reader
begin

lemma data_not_null: "t \<noteq> NNull \<Longrightarrow> ser_data R t \<noteq> RLPNull R"
  using parse_ser [of t] parse_ser [of NNull] ser_list(1) [of t] ser_list(1) [of NNull]
  by (metis RLPNull_def ser_data_def ser_NNull)

lemma descendEntry_own:
  assumes "c \<noteq> NNull" "held U s M" "own R c \<subseteq># M" "\<And>b. b \<in># M \<Longrightarrow> b \<noteq> RLPNull R \<Longrightarrow> sha3 b \<noteq> c_shaNull R"
    and "\<And>ks. rec (ser R c) ks e s = (Inr (outside R (node_refs R c) ks), s)"
  shows "descendEntry rec R D root (cref R c) ks e s = (Inr (outside R (own R c) ks), s)"
proof (cases "32 \<le> length (ser_data R c)")
  case True
  then have mem: "ser_data R c \<in># M" using assms(3) by (simp add: own_def big_def mset_subset_eq_insertD)
  then have "db_lookup D s (sha3 (ser_data R c)) = ser_data R c" by (rule held_look [OF assms(2)])
  moreover have "rlp_toHash R 32 (rlp_bytes R (sha3 (ser_data R c))) = Some (sha3 (ser_data R c))" by (rule R(8)) simp
  moreover have "sha3 (ser_data R c) \<noteq> c_shaNull R" using assms(4) [OF mem] data_not_null [OF assms(1)] by blast
  ultimately show ?thesis
    using True assms(5) by (simp add: descendEntry_def descendKey_def cref_cases R db_node_def bind_def demand_def own_def big_def Let_def)
next
  case False
  then show ?thesis using assms(1,5) by (simp add: descendEntry_def cref_cases ser_list own_def big_def)
qed

lemma foldl_acts: "(\<And>c ks. c \<in> set cs \<Longrightarrow> f c ks s = (Inr (g c ks), s))
    \<Longrightarrow> foldl (\<lambda>m c. bind m (f c)) (ret ks) cs s = (Inr (foldl (\<lambda>ks c. g c ks) ks cs), s)"
proof (induction cs rule: rev_induct)
  case (snoc c cs)
  then show ?case by (simp add: bind_def)
qed simp

lemma descendList_refs:
  assumes "held U s M" "\<And>b. b \<in># M \<Longrightarrow> b \<noteq> RLPNull R \<Longrightarrow> sha3 b \<noteq> c_shaNull R"
  shows "canon t \<Longrightarrow> t \<noteq> NNull \<Longrightarrow> node_refs R t \<subseteq># M \<Longrightarrow> e \<longrightarrow> is_branch t \<Longrightarrow> tsize t \<le> n
    \<Longrightarrow> descendList n R D root (ser R t) ks e s = (Inr (outside R (node_refs R t) ks), s)"
proof (induction t arbitrary: e ks n)
  case (NLeaf ns v)
  have wf: "wfn (NLeaf ns v)" using canon_wfn [OF NLeaf.prems(1)] .
  obtain i where "n = Suc i" using NLeaf.prems(5) by (cases n) simp_all
  then show ?case using NLeaf.prems(4) ser_count [OF wf] ser_key(4) [OF wf, of ns v] by (simp add: ser_list)
next
  case (NExt ns c)
  have wf: "wfn (NExt ns c)" using canon_wfn [OF NExt.prems(1)] .
  obtain i where n: "n = Suc i" using NExt.prems(5) by (cases n) simp_all
  have c: "canon c" "c \<noteq> NNull" "is_branch c" "own R c \<subseteq># M" using NExt.prems(1,3) wf by simp_all
  have "descendList i R D root (ser R c) ks True s = (Inr (outside R (node_refs R c) ks), s)" for ks
    by (rule NExt.IH) (use c own_refs [OF c(4)] NExt.prems(5) n in simp_all)
  from descendEntry_own [where rec = "descendList i R D root" and e = True, OF c(2) assms(1) c(4) assms(2) this]
  show ?case using NExt.prems(4) ser_count [OF wf] ser_key(4) [OF wf, of ns _ c] n by (simp add: ser_list ser_at)
next
  case (NBranch cs w)
  have len: "length cs = 16" and wf: "wfn (NBranch cs w)" using NBranch.prems(1) canon_wfn by simp_all
  obtain i where n: "n = Suc i" using NBranch.prems(5) by (cases n) simp_all
  have child: "(if rlp_isEmpty R (cref R c) then ret ks else descendEntry (descendList i R D root) R D root (cref R c) ks False) s
      = (Inr (outside R (own R c) ks), s)" if "c \<in> set cs" for c ks
  proof (cases "c = NNull")
    case False
    have own: "own R c \<subseteq># M" using own_child [OF that] NBranch.prems(3) by (rule subset_mset.order_trans)
    have "tsize c \<le> sum_list (map tsize cs)" using that by (simp add: member_le_sum_list)
    then have "descendList i R D root (ser R c) ks False s = (Inr (outside R (node_refs R c) ks), s)" for ks
      using NBranch.IH [OF that _ False own_refs [OF own], of False i ks] NBranch.prems(1,5) n that by simp
    from descendEntry_own [where rec = "descendList i R D root" and e = False, OF False assms(1) own assms(2) this] False show ?thesis by (simp add: cref_empty)
  qed (simp add: cref_empty)
  have "map (\<lambda>i. rlp_at R (ser R (NBranch cs w)) i) [0..<16] = map (cref R) cs"
    using len by (intro nth_equalityI) (simp_all add: ser_at)
  then have "descend_children f R (ser R (NBranch cs w)) ks
      = foldl (\<lambda>m c. bind m (\<lambda>ks. if rlp_isEmpty R (cref R c) then ret ks else f (cref R c) ks)) (ret ks) cs"
    for f :: "'i \<Rightarrow> h256 list \<Rightarrow> ('s, h256 list) act"
    unfolding descend_children_def
    using foldl_map [of "\<lambda>m x. bind m (\<lambda>ks. if rlp_isEmpty R x then ret ks else f x ks)" "ret ks" "\<lambda>i. rlp_at R (ser R (NBranch cs w)) i" "[0..<16]"]
      foldl_map [of "\<lambda>m x. bind m (\<lambda>ks. if rlp_isEmpty R x then ret ks else f x ks)" "ret ks" "cref R" cs] by simp
  moreover have "foldl (\<lambda>m c. bind m (\<lambda>ks. if rlp_isEmpty R (cref R c) then ret ks
        else descendEntry (descendList i R D root) R D root (cref R c) ks False)) (ret ks) cs s
      = (Inr (outside R (node_refs R (NBranch cs w)) ks), s)"
    using foldl_acts [of cs "\<lambda>c ks. if rlp_isEmpty R (cref R c) then ret ks else descendEntry (descendList i R D root) R D root (cref R c) ks False"
      s "\<lambda>c. outside R (own R c)" ks] child by (simp add: outside_sum)
  ultimately have "descend_children (\<lambda>c ks. descendEntry (descendList i R D root) R D root c ks False) R (ser R (NBranch cs w)) ks s
      = (Inr (outside R (node_refs R (NBranch cs w)) ks), s)" by (simp only:)
  then show ?case using ser_count [OF wf] n by (simp add: ser_list)
qed simp

lemma leftOvers_reps:
  assumes "reps U B td t" "holds t m" "tsize t < n"
    and "\<And>b. b \<in># B + trie_data R t \<Longrightarrow> b \<noteq> RLPNull R \<Longrightarrow> sha3 b \<noteq> c_shaNull R"
  shows "leftOvers n R D td = (Inr (outside R (trie_data R t) (db_keys D (tr_db td))), td)"
proof -
  have h: "held U (tr_db td) (B + trie_data R t)" "tr_root td = sha3 (ser_data R t)" using assms(1) by (simp_all add: reps_def)
  have c: "canon t" using assms(2) by (simp add: holds_def)
  have sub: "node_refs R t \<subseteq># B + trie_data R t" by (simp add: trie_data_def subset_mset.add_increasing)
  show ?thesis
  proof (cases "t = NNull")
    case True
    have "sha3 (ser_data R t) = c_shaNull R" by (simp add: True c_shaNull_def RLPNull_def ser_data_def ser_NNull)
    then show ?thesis using h(2) True
      by (simp add: leftOvers_def descendKey_def bind_def get_root_def db_act_def Let_def trie_data_def)
  next
    case False
    have d: "descendList n R D root (ser R t) ks False (tr_db td) = (Inr (outside R (node_refs R t) ks), tr_db td)" for root ks
      using descendList_refs [OF h(1) assms(4) c False sub, of False n] assms(3) by simp
    have ne: "sha3 (ser_data R t) \<noteq> c_shaNull R"
      using assms(4) [of "ser_data R t"] data_not_null [OF False] by (simp add: trie_data_def)
    show ?thesis using h(2) read_root [OF h(1)] d ne
      by (simp add: leftOvers_def descendKey_def bind_def get_root_def db_act_def Let_def trie_data_def)
  qed
qed

end

section \<open>The properties\<close>

lemma keys_refs: "mdb_ok s \<Longrightarrow> h \<in> set (mdb_keys s) \<longleftrightarrow> 0 < refs s h"
proof -
  assume ok: "mdb_ok s"
  then have "h \<in> set (mdb_keys s) \<longleftrightarrow> (\<exists>v r. map_of (m_main s) h = Some (v, r) \<and> r \<noteq> 0)"
    by (force simp: mdb_keys_def mdb_ok_def)
  then show ?thesis by (auto simp: refs_def word_neq_0_conv split: option.splits)
qed

text \<open>C36: iterating over a trie in memory, from the beginning or from any key, ends after enough steps, changes nothing, and
  gives the pairs of the content in the order of their keys, each once, beginning with the first key that is not before
  the one searched for. The trie is one that operations within \<open>ops_ok\<close> built.\<close>

theorem trie_iterates:
  assumes "rlp_ok R" "ops_ok n ps" "9 * length ps + 2 \<le> N"
    and "trie_build R mdb_ops ps \<lparr>tr_root = h, tr_db = MemoryDB_new\<rparr> = (r, td)"
  shows "collision (written R ps) \<or> (\<exists>xs. iter_all N R mdb_ops td = (Inr xs, td) \<and> bm_sorted xs
    \<and> map_of xs = map_of (content ps) \<and> (\<forall>k. iter_from N R mdb_ops k td = (Inr (at_least k xs), td)))"
proof (cases "collision (written R ps)")
  case False
  note m = memory_reps [OF assms(1,2) False assms(4)] and c = content_holds [OF assms(2)]
  have h: "holds (trie (content ps)) (content ps)" using c(1,3) by simp
  have "3 * tsize (trie (content ps)) + 1 < N" using m(3) assms(3) by simp
  note it = trie_reader.iter_reps [OF mdb_reader [OF assms(1)] m(2) h c(2) this] and ce = content_entries [OF h c(2)]
  from it ce(1,2) ce(3) [symmetric] show ?thesis by metis
qed simp

theorem trie_iterates_witness:
  "let (r, td) = trie_build tree_rlp mdb_ops [Put [0x12] [7], Put [0x10, 3] [8]] \<lparr>tr_root = [], tr_db = MemoryDB_new\<rparr>
   in collision (written tree_rlp [Put [0x12] [7], Put [0x10, 3] [8]]) \<or> fst (iter_from 100 tree_rlp mdb_ops [0x13] td) = Inr []"
proof -
  let ?ps = "[Put [0x12] [7], Put [0x10, 3] [8]]"
  obtain r td where 1: "trie_build tree_rlp mdb_ops ?ps \<lparr>tr_root = [], tr_db = MemoryDB_new\<rparr> = (r, td)" by force
  have none: "at_least [0x13] xs = []" if "map_of xs = map_of (content ?ps)" for xs
  proof -
    have "fst ` set xs = {[0x12], [0x10, 3]}"
      unfolding dom_map_of_conv_image_fst [symmetric] that by (auto simp: content_def split: if_splits)
    then have "k = [0x12] \<or> k = [0x10, 3]" if "(k, v) \<in> set xs" for k v using that by force
    then show ?thesis by (fastforce simp: at_least_def filter_empty_conv)
  qed
  show ?thesis
    using trie_iterates [OF tree_rlp_ok _ _ 1, of 5 100] none 1 by (auto simp: ops_ok_def)
qed

text \<open>The debugging check that wants nothing left over succeeds on every trie built alone in its database. After a second
  trie was built in the same database, the walk of the second one leaves exactly the hashes of those nodes of the first
  that it does not share, so the check succeeds then only without that demand, or when it shares them all.\<close>

theorem trie_check_exact:
  assumes "rlp_ok R" "ops_ok n ps" "ops_ok m qs" "3 * length ps + 3 * length qs < N" "length ps + length qs < 2 ^ 27"
    and "trie_build R mdb_ops ps \<lparr>tr_root = h, tr_db = MemoryDB_new\<rparr> = (r, td)"
    and "trie_build R mdb_ops qs \<lparr>tr_root = h', tr_db = tr_db td\<rparr> = (r', td')"
  shows "collision (written R ps \<union> written R qs) \<or> trie_check N R mdb_ops True td
    \<and> (\<exists>ks. leftOvers N R mdb_ops td' = (Inr ks, td')
        \<and> set ks = sha3 ` (set_mset (trie_data R (trie (content ps))) - set_mset (trie_data R (trie (content qs)))))"
proof (cases "collision (written R ps \<union> written R qs)")
  case False
  let ?U = "written R ps \<union> written R qs" and ?t = "trie (content ps)" and ?t' = "trie (content qs)"
  note lib' = mdb_reader [OF assms(1)]
  note m = shared_reps [OF assms(1-3,5) False assms(6,7)]
  note c = content_holds [OF assms(2)] and c' = content_holds [OF assms(3)]
  have h: "holds ?t (content ps)" "holds ?t' (content qs)" using c c' by simp_all
  have size: "tsize ?t < N" "tsize ?t' < N" using m(5,6) assms(4) by simp_all
  have held: "mdb_held ?U (tr_db td) (trie_data R ?t)" "mdb_held ?U (tr_db td') (trie_data R ?t + trie_data R ?t')"
    using m(2,4) by (simp_all add: trie_reader.reps_def [OF lib'])
  have null: "sha3 b \<noteq> c_shaNull R" if "b \<in># M" "b \<noteq> RLPNull R" "mdb_held ?U s M" for b M s
  proof -
    have "b \<in> ?U" "RLPNull R \<in> ?U" "inj_on sha3 ?U" using that by (auto simp: mdb_held_def written_def)
    with that(2) show ?thesis by (auto simp: c_shaNull_def dest: inj_onD)
  qed
  have keys: "set (mdb_keys s) = sha3 ` set_mset M" if "mdb_held ?U s M" "size M < 2 ^ 32" for s M
  proof -
    have "mdb_ok s" "counts (\<lambda>h. True) s M" using that(1) by (simp_all add: mdb_held_def)
    have "h \<in> set (mdb_keys s) \<longleftrightarrow> h \<in># image_mset sha3 M" for h
    proof -
      have "count (image_mset sha3 M) h < 2 ^ 32" using count_le_size [of "image_mset sha3 M" h] that(2) by simp
      then have "(of_nat (count (image_mset sha3 M) h) :: u32) = 0 \<longleftrightarrow> count (image_mset sha3 M) h = 0"
        by (simp add: word_unat_eq_iff unat_of_nat)
      then have "refs s h = 0 \<longleftrightarrow> h \<notin># image_mset sha3 M" using \<open>counts _ s M\<close> unfolding counts_def not_in_iff by simp
      with keys_refs [OF \<open>mdb_ok s\<close>, of h] show ?thesis by (simp add: word_neq_0_conv [symmetric])
    qed
    then show ?thesis by auto
  qed
  have fresh: "leftOvers N R mdb_ops td = (Inr (outside R (trie_data R ?t) (mdb_keys (tr_db td))), td)"
    using trie_reader.leftOvers_reps [OF lib' m(2) h(1) size(1)] null [OF _ _ held(1)] by (simp add: mdb_ops_def)
  have "outside R (trie_data R ?t) (mdb_keys (tr_db td)) = []"
    using keys [OF held(1)] m(5) assms(5) content_size [OF assms(2,1)] by (auto simp: outside_def filter_empty_conv)
  then have check: "trie_check N R mdb_ops True td" using fresh by (simp add: trie_check_def)
  have both: "leftOvers N R mdb_ops td' = (Inr (outside R (trie_data R ?t') (mdb_keys (tr_db td'))), td')"
    using trie_reader.leftOvers_reps [OF lib' m(4) h(2) size(2)] null [OF _ _ held(2)] by (simp add: mdb_ops_def)
  have "size (trie_data R ?t + trie_data R ?t') < 2 ^ 32"
    using content_size [OF assms(2,1)] content_size [OF assms(3,1)] assms(5) by simp
  note k = keys [OF held(2) this]
  have inj: "inj_on sha3 (set_mset (trie_data R ?t) \<union> set_mset (trie_data R ?t'))"
    using held(2) by (auto simp: mdb_held_def intro: inj_on_subset)
  have "set (outside R (trie_data R ?t') (mdb_keys (tr_db td'))) = sha3 ` (set_mset (trie_data R ?t) - set_mset (trie_data R ?t'))"
    unfolding outside_def set_filter k using inj_on_image_set_diff [OF inj, of "set_mset (trie_data R ?t)" "set_mset (trie_data R ?t')"] by auto
  with check both show ?thesis by blast
qed simp

theorem trie_check_exact_witness:
  "let (r, td) = trie_build tree_rlp mdb_ops [Put [1] [7]] \<lparr>tr_root = [], tr_db = MemoryDB_new\<rparr>;
     (r', td') = trie_build tree_rlp mdb_ops [Put [2] [8]] \<lparr>tr_root = [], tr_db = tr_db td\<rparr>
   in collision (written tree_rlp [Put [1] [7]] \<union> written tree_rlp [Put [2] [8]]) \<or> trie_check 10 tree_rlp mdb_ops True td"
proof -
  obtain r td where 1: "trie_build tree_rlp mdb_ops [Put [1] [7]] \<lparr>tr_root = [], tr_db = MemoryDB_new\<rparr> = (r, td)" by force
  obtain r' td' where 2: "trie_build tree_rlp mdb_ops [Put [2] [8]] \<lparr>tr_root = [], tr_db = tr_db td\<rparr> = (r', td')" by force
  show ?thesis using trie_check_exact [OF tree_rlp_ok _ _ _ _ 1 2, of 1 1 10] 1 2 by (auto simp: ops_ok_def)
qed

end
