(* ===== verification/Discovery.thy ===== *)
theory Discovery
  imports RlpFace FixedHash Keccak
begin

text \<open>
  Addresses, endpoints and the signed datagrams of the node discovery (\<open>libp2p/Common.h\<close>, \<open>Common.cpp\<close>,
  \<open>UDP.cpp\<close> and the packets of \<open>NodeTable.h\<close>). The signatures and the readers of \<open>RLP.h\<close> that the record \<open>rlp\<close>
  lacks are fields of the environment \<open>p2p_env\<close>.
\<close>

section \<open>Addresses and endpoints\<close>

text \<open>An address is its bytes, four or sixteen; the default one is the unspecified IPv4 address.\<close>

datatype address_bytes = V4 bytes | V6 bytes

primrec is_unspecified :: "address_bytes \<Rightarrow> bool" where
  "is_unspecified (V4 b) = (b = replicate 4 0)"
| "is_unspecified (V6 b) = (b = replicate 16 0)"

primrec isPrivateAddress :: "address_bytes \<Rightarrow> bool" where
  "isPrivateAddress (V4 b) = (b ! 0 = 10 \<or> b ! 0 = 127 \<or> b ! 0 = 172 \<and> 16 \<le> b ! 1 \<and> b ! 1 \<le> 31 \<or> b ! 0 = 192 \<and> b ! 1 = 168)"
| "isPrivateAddress (V6 b) = (b ! 0 = 0xfd \<and> b ! 1 = 0
     \<or> list_all (\<lambda>i. b ! i = 0) [0..<15] \<and> (b ! 15 = 0 \<or> b ! 15 = 1))"

definition isLocalHostAddress :: "address_bytes \<Rightarrow> bool" where
  "isLocalHostAddress a \<longleftrightarrow> a \<in> {V4 [127, 0, 0, 1], V4 [0, 0, 0, 0], V6 (replicate 15 0 @ [1]), V6 (replicate 16 0)}"

definition isPublicAddress :: "address_bytes \<Rightarrow> bool" where
  "isPublicAddress a \<longleftrightarrow> \<not> (isPrivateAddress a \<or> isLocalHostAddress a)"

type_synonym u16 = "16 word"
type_synonym udp_endpoint = "address_bytes \<times> u16"

record NodeIPEndpoint =
  ep_address :: address_bytes
  ep_udpPort :: u16
  ep_tcpPort :: u16

definition endpoint_default :: NodeIPEndpoint where
  "endpoint_default = \<lparr>ep_address = V4 [0, 0, 0, 0], ep_udpPort = 0, ep_tcpPort = 0\<rparr>"

definition ep_udp :: "NodeIPEndpoint \<Rightarrow> udp_endpoint" where
  "ep_udp e = (ep_address e, ep_udpPort e)"

text \<open>The conversion to \<open>bool\<close>, and \<open>isAllowed\<close> with the static \<open>test_allowLocal\<close> as its first argument.\<close>

definition ep_given :: "NodeIPEndpoint \<Rightarrow> bool" where
  "ep_given e \<longleftrightarrow> \<not> is_unspecified (ep_address e) \<and> 0 < ep_udpPort e \<and> 0 < ep_tcpPort e"

definition ep_isAllowed :: "bool \<Rightarrow> NodeIPEndpoint \<Rightarrow> bool" where
  "ep_isAllowed allowLocal e = (if allowLocal then \<not> is_unspecified (ep_address e) else isPublicAddress (ep_address e))"

section \<open>The environment\<close>

type_synonym NodeID = bytes

text \<open>\<open>pe_size\<close> is \<open>RLP::size\<close>, \<open>pe_toInt k\<close> is \<open>RLP::toInt\<close> for the unsigned type of \<open>k\<close> bytes.\<close>

record 'i p2p_env =
  pe_rlp :: "'i rlp"
  pe_size :: "'i \<Rightarrow> nat"
  pe_toInt :: "nat \<Rightarrow> 'i \<Rightarrow> int option"
  pe_sign :: "bytes \<Rightarrow> h256 \<Rightarrow> bytes"
  pe_recover :: "bytes \<Rightarrow> h256 \<Rightarrow> NodeID"
  pe_toPublic :: "bytes \<Rightarrow> NodeID"
  pe_secret :: bytes
  pe_allowLocal :: bool

definition p2p_ok :: "'i p2p_env \<Rightarrow> bool" where
  "p2p_ok E \<longleftrightarrow> rlp_ok (pe_rlp E) \<and> (\<forall>b. pe_size E (rlp_bytes (pe_rlp E) b) = length b)
     \<and> (\<forall>k n. 0 \<le> n \<and> n < 2 ^ (8 * k) \<longrightarrow> pe_toInt E k (rlp_int (pe_rlp E) n) = Some n)
     \<and> (\<forall>xs. rlp_null (pe_rlp E) \<notin> set xs \<longrightarrow> length xs < length (rlp_data (pe_rlp E) (rlp_list (pe_rlp E) xs)))
     \<and> (\<forall>k h. length (pe_sign E k h) = 65 \<and> pe_recover E (pe_sign E k h) h = pe_toPublic E k)"

section \<open>Endpoints on the wire\<close>

primrec addr_bytes :: "address_bytes \<Rightarrow> bytes" where
  "addr_bytes (V4 b) = b"
| "addr_bytes (V6 b) = b"

definition ep_items :: "'i p2p_env \<Rightarrow> NodeIPEndpoint \<Rightarrow> 'i list" where
  "ep_items E e = (let R = pe_rlp E
     in [rlp_bytes R (addr_bytes (ep_address e)), rlp_int R (uint (ep_udpPort e)), rlp_int R (uint (ep_tcpPort e))])"

definition ep_streamRLP :: "'i p2p_env \<Rightarrow> NodeIPEndpoint \<Rightarrow> 'i" where
  "ep_streamRLP E e = rlp_list (pe_rlp E) (ep_items E e)"

text \<open>What is thrown while reading a packet is one exception here: all of them are caught in one place.\<close>

datatype packet_error = PacketError

definition toUInt :: "'i p2p_env \<Rightarrow> nat \<Rightarrow> 'i \<Rightarrow> packet_error + int" where
  "toUInt E k it = need PacketError (pe_toInt E k it)"

definition ep_interpretRLP :: "'i p2p_env \<Rightarrow> 'i \<Rightarrow> packet_error + NodeIPEndpoint" where
  "ep_interpretRLP E r = (let R = pe_rlp E; a = rlp_at R r 0 in
     andThen (toUInt E 2 (rlp_at R r 1)) (\<lambda>u. andThen (toUInt E 2 (rlp_at R r 2)) (\<lambda>t. Inr
       \<lparr>ep_address = if pe_size E a = 4 then V4 (rlp_toBytes R a) else if pe_size E a = 16 then V6 (rlp_toBytes R a)
          else ep_address endpoint_default, ep_udpPort = word_of_int u, ep_tcpPort = word_of_int t\<rparr>)))"

section \<open>Packets\<close>

record Neighbour =
  nb_endpoint :: NodeIPEndpoint
  nb_node :: NodeID

datatype packet = PingNode NodeIPEndpoint NodeIPEndpoint | Pong NodeIPEndpoint h256 | FindNode NodeID | Neighbours "Neighbour list"

text \<open>A datagram: the packet with its time stamp. The version a ping has on the wire is the constant of the sender; the field
  of a ping that is read is checked for its width, but its value, which no code looks at, is not kept.\<close>

record datagram =
  dg_packet :: packet
  dg_ts :: u32

definition c_protocolVersion :: int where
  "c_protocolVersion = 4"

primrec packetType :: "packet \<Rightarrow> byte" where
  "packetType (PingNode s d) = 1"
| "packetType (Pong d e) = 2"
| "packetType (FindNode t) = 3"
| "packetType (Neighbours ns) = 4"

definition nb_streamRLP :: "'i p2p_env \<Rightarrow> Neighbour \<Rightarrow> 'i" where
  "nb_streamRLP E n = rlp_list (pe_rlp E) (ep_items E (nb_endpoint n) @ [rlp_bytes (pe_rlp E) (nb_node n)])"

definition streamRLP :: "'i p2p_env \<Rightarrow> datagram \<Rightarrow> 'i" where
  "streamRLP E d = (let R = pe_rlp E; ts = rlp_int R (uint (dg_ts d)) in
     case dg_packet d of
       PingNode src dest \<Rightarrow> rlp_list R [rlp_int R c_protocolVersion, ep_streamRLP E src, ep_streamRLP E dest, ts]
     | Pong dest echo \<Rightarrow> rlp_list R [ep_streamRLP E dest, rlp_bytes R echo, ts]
     | FindNode target \<Rightarrow> rlp_list R [rlp_bytes R target, ts]
     | Neighbours ns \<Rightarrow> rlp_list R [rlp_list R (map (nb_streamRLP E) ns), ts])"

definition nb_interpretRLP :: "'i p2p_env \<Rightarrow> 'i \<Rightarrow> packet_error + Neighbour" where
  "nb_interpretRLP E r = andThen (ep_interpretRLP E r) (\<lambda>e. Inr
     \<lparr>nb_endpoint = e, nb_node = FixedHash_of_bytes 64 (rlp_toBytes (pe_rlp E) (rlp_at (pe_rlp E) r 3)) FailIfDifferent\<rparr>)"

primrec interpret_neighbours :: "'i p2p_env \<Rightarrow> 'i list \<Rightarrow> packet_error + Neighbour list" where
  "interpret_neighbours E [] = Inr []"
| "interpret_neighbours E (r # rs) = andThen (nb_interpretRLP E r) (\<lambda>n. andThen (interpret_neighbours E rs) (\<lambda>ns. Inr (n # ns)))"

definition interpretRLP :: "'i p2p_env \<Rightarrow> byte \<Rightarrow> bytes \<Rightarrow> packet_error + datagram" where
  "interpretRLP E ty b = (let R = pe_rlp E; r = rlp_parse R b;
       stamped = (\<lambda>p i. andThen (toUInt E 4 (rlp_at R r i)) (\<lambda>ts. Inr \<lparr>dg_packet = p, dg_ts = word_of_int ts\<rparr>)) in
     if ty = 1 then andThen (toUInt E 4 (rlp_at R r 0)) (\<lambda>v. andThen (ep_interpretRLP E (rlp_at R r 1)) (\<lambda>s.
       andThen (ep_interpretRLP E (rlp_at R r 2)) (\<lambda>d. stamped (PingNode s d) 3)))
     else if ty = 2 then andThen (ep_interpretRLP E (rlp_at R r 0)) (\<lambda>d.
       andThen (need PacketError (rlp_toHash R 32 (rlp_at R r 1))) (\<lambda>e. stamped (Pong d e) 2))
     else if ty = 3 then andThen (need PacketError (rlp_toHash R 64 (rlp_at R r 0))) (\<lambda>t. stamped (FindNode t) 1)
     else andThen (interpret_neighbours E (rlp_items R (rlp_at R r 0))) (\<lambda>ns. stamped (Neighbours ns) 1))"

section \<open>Datagrams\<close>

text \<open>\<open>sign\<close> gives the datagram; the time of expiry is 60 seconds after the clock \<open>epoch\<close>, which has 32 bits.\<close>

definition futureFromEpoch :: "nat \<Rightarrow> nat \<Rightarrow> u32" where
  "futureFromEpoch epoch sec = of_nat (epoch + sec)"

definition secondsSinceEpoch :: "nat \<Rightarrow> u32" where
  "secondsSinceEpoch epoch = of_nat epoch"

definition isExpired :: "nat \<Rightarrow> datagram \<Rightarrow> bool" where
  "isExpired epoch d \<longleftrightarrow> dg_ts d < secondsSinceEpoch epoch"

definition outgoing :: "nat \<Rightarrow> packet \<Rightarrow> datagram" where
  "outgoing epoch p = \<lparr>dg_packet = p, dg_ts = futureFromEpoch epoch 60\<rparr>"

definition dg_sign :: "'i p2p_env \<Rightarrow> datagram \<Rightarrow> bytes" where
  "dg_sign E d = (let rlpx = packetType (dg_packet d) # rlp_data (pe_rlp E) (streamRLP E d);
       sig = pe_sign E (pe_secret E) (sha3 rlpx)
     in sha3 (sig @ rlpx) @ sig @ rlpx)"

definition authenticate :: "'i p2p_env \<Rightarrow> bytes \<Rightarrow> bytes \<Rightarrow> NodeID" where
  "authenticate E sig rlp = pe_recover E sig (sha3 rlp)"

text \<open>Reading a datagram gives the sender, the hash that answers refer to, and the packet; \<open>None\<close> is the null pointer.\<close>

record inbound =
  in_sourceid :: NodeID
  in_echo :: h256
  in_datagram :: datagram

definition interpretUDP :: "'i p2p_env \<Rightarrow> bytes \<Rightarrow> packet_error + inbound option" where
  "interpretUDP E packet = (if length packet < 32 + 65 + 1 + 3 then Inr None
     else let hashedBytes = drop 32 packet; signedBytes = drop 65 hashedBytes; signatureBytes = bslice 32 65 packet;
              bodyBytes = drop (32 + 65 + 1) packet; echo = sha3 hashedBytes
          in if take 32 packet \<noteq> echo then Inr None
             else let sourceid = pe_recover E signatureBytes (sha3 signedBytes)
                  in if sourceid = zero_hash 64 then Inr None
                     else if \<not> (1 \<le> hd signedBytes \<and> hd signedBytes \<le> 4) then Inr None
                     else andThen (interpretRLP E (hd signedBytes) bodyBytes) (\<lambda>d.
                       Inr (Some \<lparr>in_sourceid = sourceid, in_echo = echo, in_datagram = d\<rparr>)))"

section \<open>Reading back\<close>

primrec addr_ok :: "address_bytes \<Rightarrow> bool" where
  "addr_ok (V4 b) = (length b = 4)"
| "addr_ok (V6 b) = (length b = 16)"

definition ep_ok :: "NodeIPEndpoint \<Rightarrow> bool" where
  "ep_ok e \<longleftrightarrow> addr_ok (ep_address e)"

primrec packet_ok :: "packet \<Rightarrow> bool" where
  "packet_ok (PingNode s d) = (ep_ok s \<and> ep_ok d)"
| "packet_ok (Pong d e) = (ep_ok d \<and> length e = 32)"
| "packet_ok (FindNode t) = (length t = 64)"
| "packet_ok (Neighbours ns) = (\<forall>n \<in> set ns. ep_ok (nb_endpoint n) \<and> length (nb_node n) = 64)"

locale p2p_lib =
  fixes E :: "'i p2p_env"
  assumes ok: "p2p_ok E"
begin

lemma rlp: "rlp_ok (pe_rlp E)"
  using ok by (simp add: p2p_ok_def)

lemmas R = rlp_okD [OF rlp] rlp_ok_views [OF rlp]

lemma nulls [simp]: "rlp_list (pe_rlp E) xs \<noteq> rlp_null (pe_rlp E)" "rlp_bytes (pe_rlp E) b \<noteq> rlp_null (pe_rlp E)"
  "rlp_int (pe_rlp E) n \<noteq> rlp_null (pe_rlp E)" "rlp_null (pe_rlp E) \<noteq> rlp_list (pe_rlp E) xs"
  "rlp_null (pe_rlp E) \<noteq> rlp_bytes (pe_rlp E) b" "rlp_null (pe_rlp E) \<noteq> rlp_int (pe_rlp E) n"
  using R(9) [of xs] R(10) [of b] R(11) [of n] by simp_all

lemma size_bytes [simp]: "pe_size E (rlp_bytes (pe_rlp E) b) = length b"
  using ok by (simp add: p2p_ok_def)

lemma toUInt_word [simp]: "LENGTH('a :: len) = 8 * k \<Longrightarrow> toUInt E k (rlp_int (pe_rlp E) (uint (w :: 'a word))) = Inr (uint w)"
  using ok uint_lt2p [of w] by (simp add: p2p_ok_def toUInt_def)

lemma at_list: "rlp_null (pe_rlp E) \<notin> set xs \<Longrightarrow> i < length xs \<Longrightarrow> rlp_at (pe_rlp E) (rlp_list (pe_rlp E) xs) i = xs ! i"
  by (simp add: rlp_at_def R)

lemma interpret_items:
  assumes "ep_ok e" "rlp_null (pe_rlp E) \<notin> set xs"
  shows "ep_interpretRLP E (rlp_list (pe_rlp E) (ep_items E e @ xs)) = Inr e"
proof -
  show ?thesis using assms(1)
    by (cases e; cases "ep_address e") (simp_all add: ep_interpretRLP_def at_list assms(2) ep_items_def Let_def R ep_ok_def)
qed

lemma interpret_ep [simp]: "ep_ok e \<Longrightarrow> ep_interpretRLP E (ep_streamRLP E e) = Inr e"
  using interpret_items [of e "[]"] by (simp add: ep_streamRLP_def)

lemma interpret_nb: "ep_ok (nb_endpoint n) \<Longrightarrow> length (nb_node n) = 64 \<Longrightarrow> nb_interpretRLP E (nb_streamRLP E n) = Inr n"
proof -
  assume n: "ep_ok (nb_endpoint n)" "length (nb_node n) = 64"
  have "rlp_null (pe_rlp E) \<notin> set (ep_items E (nb_endpoint n) @ [rlp_bytes (pe_rlp E) (nb_node n)])"
    by (simp add: ep_items_def Let_def)
  from at_list [OF this, of 3] have "rlp_at (pe_rlp E) (nb_streamRLP E n) 3 = rlp_bytes (pe_rlp E) (nb_node n)"
    by (simp add: nb_streamRLP_def ep_items_def Let_def)
  with n interpret_items [OF n(1), of "[rlp_bytes (pe_rlp E) (nb_node n)]"] show ?thesis
    by (simp add: nb_interpretRLP_def nb_streamRLP_def R FixedHash_of_bytes_def)
qed

lemma interpret_nbs: "\<forall>n \<in> set ns. ep_ok (nb_endpoint n) \<and> length (nb_node n) = 64 \<Longrightarrow>
    interpret_neighbours E (map (nb_streamRLP E) ns) = Inr ns"
  by (induction ns) (simp_all add: interpret_nb)

lemma streams_not_null [simp]: "ep_streamRLP E e \<noteq> rlp_null (pe_rlp E)" "rlp_null (pe_rlp E) \<noteq> ep_streamRLP E e"
  "rlp_null (pe_rlp E) \<notin> nb_streamRLP E ` S"
  by (auto simp: ep_streamRLP_def nb_streamRLP_def)

lemma interpret_stream:
  assumes "packet_ok (dg_packet d)"
  shows "interpretRLP E (packetType (dg_packet d)) (rlp_data (pe_rlp E) (streamRLP E d)) = Inr d"
proof -
  have v: "toUInt E 4 (rlp_int (pe_rlp E) c_protocolVersion) = Inr 4"
    using ok by (simp add: p2p_ok_def toUInt_def c_protocolVersion_def)
  show ?thesis using assms
    by (cases d; cases "dg_packet d") (simp_all add: interpretRLP_def streamRLP_def Let_def R at_list v interpret_nbs)
qed

lemma stream_length: "3 \<le> length (rlp_data (pe_rlp E) (streamRLP E d))"
proof -
  have l: "rlp_null (pe_rlp E) \<notin> set xs \<Longrightarrow> length xs < length (rlp_data (pe_rlp E) (rlp_list (pe_rlp E) xs))" for xs
    using ok by (simp add: p2p_ok_def)
  obtain xs where "streamRLP E d = rlp_list (pe_rlp E) xs" "rlp_null (pe_rlp E) \<notin> set xs" "2 \<le> length xs"
    by (cases d; cases "dg_packet d") (auto simp: streamRLP_def Let_def)
  with l [of xs] show ?thesis by simp
qed

lemma interpret_sign:
  assumes "packet_ok (dg_packet d)" "pe_toPublic E (pe_secret E) \<noteq> zero_hash 64"
  shows "interpretUDP E (dg_sign E d) = Inr (Some \<lparr>in_sourceid = pe_toPublic E (pe_secret E),
    in_echo = sha3 (drop 32 (dg_sign E d)), in_datagram = d\<rparr>)"
proof -
  define x where "x = packetType (dg_packet d) # rlp_data (pe_rlp E) (streamRLP E d)"
  define sig where "sig = pe_sign E (pe_secret E) (sha3 x)"
  have len: "length sig = 65" "length (sha3 (sig @ x)) = 32" "4 \<le> length x" and rec: "pe_recover E sig (sha3 x) = pe_toPublic E (pe_secret E)"
    using ok stream_length [of d] by (simp_all add: p2p_ok_def sig_def x_def)
  have s: "dg_sign E d = sha3 (sig @ x) @ sig @ x" by (simp add: dg_sign_def Let_def x_def sig_def)
  have ty: "1 \<le> packetType (dg_packet d)" "packetType (dg_packet d) \<le> 4" by (cases "dg_packet d"; simp)+
  have body: "drop 98 (dg_sign E d) = rlp_data (pe_rlp E) (streamRLP E d)" using len by (simp add: s x_def)
  have "bslice 32 65 (dg_sign E d) = sig" using len by (simp add: s bslice_def)
  moreover have "drop 65 (drop 32 (dg_sign E d)) = x" "drop 32 (dg_sign E d) = sig @ x" "take 32 (dg_sign E d) = sha3 (sig @ x)"
    using len by (simp_all add: s)
  moreover have "hd x = packetType (dg_packet d)" by (simp add: x_def)
  moreover have "\<not> length (dg_sign E d) < 101" using len by (simp add: s)
  ultimately show ?thesis
    using interpret_stream [OF assms(1)] rec ty assms(2) body by (simp add: interpretUDP_def Let_def)
qed

end

end
