(* ===== verification/NodeTable.thy ===== *)
theory NodeTable
  imports Discovery "HOL-Library.AList"
begin

text \<open>
  The node table of \<open>libp2p/NodeTable.cpp\<close>: a table in the manner of Kademlia of the nodes seen on the network.
  Entries are objects that are shared: an entry is its index in \<open>nt_entries\<close>, \<open>m_nodes\<close> and other owners hold strong
  references, the buckets weak ones. Both clocks are arguments: \<open>now\<close> the steady one in milliseconds, \<open>epoch\<close> the system
  clock in seconds. Operations that index the array of buckets out of its bounds give \<open>None\<close>.
\<close>

section \<open>State\<close>

datatype PeerType = Optional | Required

record Node =
  nd_id :: NodeID
  nd_endpoint :: NodeIPEndpoint
  nd_peerType :: PeerType

record NodeEntry = Node +
  ne_distance :: u32
  ne_pending :: bool

datatype NodeTableEventType = NodeEntryAdded | NodeEntryDropped

text \<open>The event handler, if one is set: the list of the nodes and the last event of each.\<close>

record NodeTableEventHandler =
  eh_list :: "NodeID list"
  eh_events :: "(NodeID \<times> NodeTableEventType) list"

text \<open>What is scheduled on the timers. A round of discovery holds the entries it has tried.\<close>

datatype task = CheckEvictions | Discovery | Discover NodeID nat "nat list"

record node_table =
  nt_node :: Node
  nt_entries :: "NodeEntry list"
  nt_nodes :: "(NodeID \<times> nat) list"
  nt_state :: "nat list list"
  nt_evictions :: "((NodeID \<times> nat) \<times> NodeID) list"
  nt_pubkDiscoverPings :: "(address_bytes \<times> nat) list"
  nt_findNodeTimeout :: "(NodeID \<times> nat) list"
  nt_handler :: "NodeTableEventHandler option"
  nt_open :: bool
  nt_stopped :: bool
  nt_sent :: "(udp_endpoint \<times> bytes) list"
  nt_tasks :: "task list"
  nt_held :: "nat list"

definition s_bins :: nat where "s_bins = 255"
definition s_maxSteps :: nat where "s_maxSteps = 8"
definition s_bucketSize :: nat where "s_bucketSize = 16"
definition s_alpha :: nat where "s_alpha = 3"
definition c_reqTimeout :: nat where "c_reqTimeout = 300"
definition maxDatagramSize :: nat where "maxDatagramSize = 1280"

section \<open>Distance\<close>

function dist_loop :: "u256 \<Rightarrow> u32 \<Rightarrow> u32" where
  "dist_loop d n = (if drop_bit 1 d = 0 then n else dist_loop (drop_bit 1 d) (n + 1))"
  by auto
termination
proof (relation "measure (\<lambda>(d, n). unat d)")
  fix d :: u256 and n :: u32
  assume "drop_bit 1 d \<noteq> 0"
  moreover have u: "unat (drop_bit 1 d) = unat d div 2" by (simp add: unat_drop_bit_eq drop_bit_eq_div unat_div)
  ultimately have "unat d div 2 \<noteq> 0" by (metis unat_eq_zero)
  then show "((drop_bit 1 d, n + 1), d, n) \<in> measure (\<lambda>(d, n). unat d)" unfolding in_measure prod.case u by simp
qed simp

declare dist_loop.simps [simp del]

definition distance :: "NodeID \<Rightarrow> NodeID \<Rightarrow> u32" where
  "distance a b = dist_loop (word_rcat (hash_xor (sha3 a) (sha3 b))) 0"

definition NodeEntry_new :: "NodeID \<Rightarrow> NodeID \<Rightarrow> NodeIPEndpoint \<Rightarrow> NodeEntry" where
  "NodeEntry_new src pubk gw = \<lparr>nd_id = pubk, nd_endpoint = gw, nd_peerType = Optional,
     ne_distance = distance src pubk, ne_pending = True\<rparr>"

definition NodeTable_new :: "Node \<Rightarrow> bool \<Rightarrow> NodeTableEventHandler option \<Rightarrow> node_table" where
  "NodeTable_new n enabled h = \<lparr>nt_node = n, nt_entries = [], nt_nodes = [], nt_state = replicate s_bins [], nt_evictions = [],
     nt_pubkDiscoverPings = [], nt_findNodeTimeout = [], nt_handler = h, nt_open = enabled, nt_stopped = False, nt_sent = [],
     nt_tasks = (if enabled then [Discovery] else []), nt_held = []\<rparr>"

section \<open>References\<close>

primrec task_held :: "task \<Rightarrow> nat list" where
  "task_held CheckEvictions = []"
| "task_held Discovery = []"
| "task_held (Discover n r tried) = tried"

text \<open>\<open>lock\<close> on a weak reference succeeds while an owner is left.\<close>

definition alive :: "node_table \<Rightarrow> nat \<Rightarrow> bool" where
  "alive s a \<longleftrightarrow> a \<in> snd ` set (nt_nodes s) \<or> a \<in> set (nt_held s) \<or> (\<exists>k \<in> set (nt_tasks s). a \<in> set (task_held k))"

abbreviation entry_of :: "node_table \<Rightarrow> nat \<Rightarrow> NodeEntry" where
  "entry_of s a \<equiv> nt_entries s ! a"

definition nodeEntry :: "node_table \<Rightarrow> NodeID \<Rightarrow> nat option" where
  "nodeEntry s i = map_of (nt_nodes s) i"

definition haveNode :: "node_table \<Rightarrow> NodeID \<Rightarrow> bool" where
  "haveNode s i \<longleftrightarrow> map_of (nt_nodes s) i \<noteq> None"

definition nodes :: "node_table \<Rightarrow> NodeID list" where
  "nodes s = map (\<lambda>(i, a). nd_id (entry_of s a)) (nt_nodes s)"

definition nt_count :: "node_table \<Rightarrow> nat" where
  "nt_count s = length (nt_nodes s)"

definition snapshot :: "node_table \<Rightarrow> NodeEntry list" where
  "snapshot s = map (entry_of s) (filter (alive s) (concat (nt_state s)))"

definition UnspecifiedNode :: Node where
  "UnspecifiedNode = \<lparr>nd_id = zero_hash 64, nd_endpoint = endpoint_default, nd_peerType = Optional\<rparr>"

definition node :: "node_table \<Rightarrow> NodeID \<Rightarrow> Node" where
  "node s i = (case map_of (nt_nodes s) i of
     Some a \<Rightarrow> \<lparr>nd_id = i, nd_endpoint = nd_endpoint (entry_of s a), nd_peerType = nd_peerType (entry_of s a)\<rparr>
   | None \<Rightarrow> UnspecifiedNode)"

text \<open>A new entry, registered under its node.\<close>

definition new_entry :: "NodeEntry \<Rightarrow> node_table \<Rightarrow> nat \<times> node_table" where
  "new_entry e s = (length (nt_entries s),
     s\<lparr>nt_entries := nt_entries s @ [e], nt_nodes := AList.update (nd_id e) (length (nt_entries s)) (nt_nodes s)\<rparr>)"

definition set_entry :: "nat \<Rightarrow> NodeEntry \<Rightarrow> node_table \<Rightarrow> node_table" where
  "set_entry a e s = s\<lparr>nt_entries := (nt_entries s)[a := e]\<rparr>"

definition set_pending :: "nat \<Rightarrow> node_table \<Rightarrow> node_table" where
  "set_pending a s = set_entry a ((entry_of s a)\<lparr>ne_pending := False\<rparr>) s"

section \<open>Events\<close>

definition appendEvent :: "NodeID \<Rightarrow> NodeTableEventType \<Rightarrow> node_table \<Rightarrow> node_table" where
  "appendEvent i e s = (case nt_handler s of None \<Rightarrow> s
     | Some h \<Rightarrow> s\<lparr>nt_handler := Some \<lparr>eh_list = eh_list h @ [i], eh_events = AList.update i e (eh_events h)\<rparr>\<rparr>)"

text \<open>\<open>std::list::unique\<close> removes consecutive repetitions.\<close>

fun list_unique :: "'a list \<Rightarrow> 'a list" where
  "list_unique (x # y # xs) = (if x = y then list_unique (x # xs) else x # list_unique (y # xs))"
| "list_unique xs = xs"

text \<open>\<open>processEvents\<close> gives the events in the order in which they are handed to \<open>processEvent\<close>.\<close>

definition processEvents :: "node_table \<Rightarrow> (NodeID \<times> NodeTableEventType) list \<times> node_table" where
  "processEvents s = (case nt_handler s of None \<Rightarrow> ([], s)
     | Some h \<Rightarrow> if eh_list h = [] then ([], s)
         else (map (\<lambda>i. (i, case map_of (eh_events h) i of Some e \<Rightarrow> e | None \<Rightarrow> NodeEntryAdded)) (list_unique (eh_list h)),
               s\<lparr>nt_handler := Some \<lparr>eh_list = [], eh_events = []\<rparr>\<rparr>))"

section \<open>Sending and scheduling\<close>

definition send :: "'i p2p_env \<Rightarrow> nat \<Rightarrow> udp_endpoint \<Rightarrow> packet \<Rightarrow> node_table \<Rightarrow> node_table" where
  "send E epoch to p s = (if nt_open s then s\<lparr>nt_sent := nt_sent s @ [(to, dg_sign E (outgoing epoch p))]\<rparr> else s)"

definition ping :: "'i p2p_env \<Rightarrow> nat \<Rightarrow> NodeIPEndpoint \<Rightarrow> node_table \<Rightarrow> node_table" where
  "ping E epoch to s = send E epoch (ep_udp to) (PingNode (nd_endpoint (nt_node s)) to) s"

definition schedule :: "task \<Rightarrow> node_table \<Rightarrow> node_table" where
  "schedule k s = (if nt_stopped s then s else s\<lparr>nt_tasks := nt_tasks s @ [k]\<rparr>)"

definition doCheckEvictions :: "node_table \<Rightarrow> node_table" where
  "doCheckEvictions = schedule CheckEvictions"

definition doDiscovery :: "node_table \<Rightarrow> node_table" where
  "doDiscovery = schedule Discovery"

section \<open>Buckets\<close>

text \<open>The index of a bucket: an unsigned number, so distance 0 wraps around.\<close>

definition bucket_index :: "NodeEntry \<Rightarrow> nat" where
  "bucket_index e = unat (ne_distance e - 1)"

definition bucket_UNSAFE :: "node_table \<Rightarrow> NodeEntry \<Rightarrow> nat list option" where
  "bucket_UNSAFE s e = (if bucket_index e < length (nt_state s) then Some (nt_state s ! bucket_index e) else None)"

definition set_bucket :: "NodeEntry \<Rightarrow> nat list \<Rightarrow> node_table \<Rightarrow> node_table" where
  "set_bucket e b s = s\<lparr>nt_state := (nt_state s)[bucket_index e := b]\<rparr>"

text \<open>The predicate given to \<open>remove_if\<close> by \<open>noteActiveNode\<close> returns its flag, which stays set: the list and the flag.\<close>

primrec remove_active :: "nat \<Rightarrow> bool \<Rightarrow> nat list \<Rightarrow> nat list \<times> bool" where
  "remove_active a removed [] = ([], removed)"
| "remove_active a removed (b # bs) = (let removed = (b = a \<or> removed); (xs, r) = remove_active a removed bs
     in (if removed then xs else b # xs, r))"

definition evict :: "'i p2p_env \<Rightarrow> nat \<Rightarrow> nat \<Rightarrow> nat \<Rightarrow> nat \<Rightarrow> node_table \<Rightarrow> node_table" where
  "evict E now epoch leastSeen new s = (if \<not> nt_open s then s
     else let s = s\<lparr>nt_evictions := nt_evictions s @ [((nd_id (entry_of s leastSeen), now), nd_id (entry_of s new))]\<rparr>;
              s = (if length (nt_evictions s) = 1 then doCheckEvictions s else s)
          in ping E epoch (nd_endpoint (entry_of s leastSeen)) s)"

text \<open>The entry with the address a packet of its node came from.\<close>

definition refreshed :: "node_table \<Rightarrow> nat \<Rightarrow> udp_endpoint \<Rightarrow> NodeEntry" where
  "refreshed s a from = (entry_of s a)\<lparr>nd_endpoint := (nd_endpoint (entry_of s a))\<lparr>ep_address := fst from, ep_udpPort := snd from\<rparr>\<rparr>"

definition noteActiveNode :: "'i p2p_env \<Rightarrow> nat \<Rightarrow> nat \<Rightarrow> NodeID \<Rightarrow> udp_endpoint \<Rightarrow> node_table \<Rightarrow> node_table option" where
  "noteActiveNode E now epoch pubk from s =
     (if pubk = nd_id (nt_node s)
         \<or> \<not> ep_isAllowed (pe_allowLocal E) \<lparr>ep_address = fst from, ep_udpPort = snd from, ep_tcpPort = snd from\<rparr> then Some s
      else case nodeEntry s pubk of None \<Rightarrow> Some s
      | Some a \<Rightarrow> if ne_pending (entry_of s a) then Some s
        else let e = refreshed s a from;
                 s = set_entry a e s
             in case bucket_UNSAFE s e of None \<Rightarrow> None
             | Some b \<Rightarrow> let (b, removed) = remove_active a False b;
                 added = (\<lambda>s. if \<not> removed then appendEvent (nd_id e) NodeEntryAdded s else s)
               in if s_bucketSize \<le> length b
                  then if alive s (hd b) then Some (evict E now epoch (hd b) a (set_bucket e b s))
                       else Some (added (set_bucket e (tl b @ [a]) s))
                  else Some (added (set_bucket e (b @ [a]) s)))"

definition dropNode :: "nat \<Rightarrow> node_table \<Rightarrow> node_table option" where
  "dropNode a s = (case bucket_UNSAFE s (entry_of s a) of None \<Rightarrow> None
     | Some b \<Rightarrow> Some (appendEvent (nd_id (entry_of s a)) NodeEntryDropped (set_bucket (entry_of s a) (removeAll a b) s)))"

section \<open>Adding nodes\<close>

datatype NodeRelation = Unknown | Known

definition addNode :: "'i p2p_env \<Rightarrow> nat \<Rightarrow> nat \<Rightarrow> Node \<Rightarrow> NodeRelation \<Rightarrow> node_table \<Rightarrow> (nat option \<times> node_table) option" where
  "addNode E now epoch n r s = (let e = NodeEntry_new (nd_id (nt_node s)) (nd_id n) (nd_endpoint n) in
     if r = Known
     then (let (a, s) = new_entry (e\<lparr>ne_pending := False\<rparr>) s
           in map_option (Pair (Some a)) (noteActiveNode E now epoch (nd_id n) (ep_udp (nd_endpoint n)) s))
     else if \<not> ep_given (nd_endpoint n) then Some (None, s)
     else if nd_id n = zero_hash 64
     then Some (None, ping E epoch (nd_endpoint n)
       (s\<lparr>nt_pubkDiscoverPings := AList.update (ep_address (nd_endpoint n)) now (nt_pubkDiscoverPings s)\<rparr>))
     else case nodeEntry s (nd_id n) of Some a \<Rightarrow> Some (Some a, s)
     | None \<Rightarrow> (let (a, s) = new_entry e s in Some (Some a, ping E epoch (nd_endpoint n) s)))"

section \<open>The nearest nodes\<close>

text \<open>The bins that are visited, in order: up from the distance and down from below it, only up, or only down. The
  counter that should stop the visit is never increased, so it is always 0.\<close>

function bins_spread :: "nat \<Rightarrow> nat \<Rightarrow> nat list" where
  "bins_spread head tail = (if head \<noteq> tail \<and> head < s_bins
     then head # (if tail \<noteq> 0 then [tail] else []) @ bins_spread (Suc head) (tail - 1) else [])"
  by auto
termination by (relation "measure (\<lambda>(head, tail). s_bins - head)") auto

function bins_up :: "nat \<Rightarrow> nat list" where
  "bins_up head = (if head < s_bins then head # bins_up (Suc head) else [])"
  by auto
termination by (relation "measure (\<lambda>head. s_bins - head)") auto

primrec bins_down :: "nat \<Rightarrow> nat list" where
  "bins_down 0 = []"
| "bins_down (Suc tail) = Suc tail # bins_down tail"

declare bins_spread.simps [simp del] bins_up.simps [simp del]

definition visited_bins :: "nat \<Rightarrow> nat list" where
  "visited_bins head = (let lastBin = s_bins - 1; tail = (if head = 0 then lastBin else (head - 1) mod s_bins)
     in if 1 < head \<and> tail \<noteq> lastBin then bins_spread head tail
        else if head < 2 then bins_up head
        else bins_down tail)"

text \<open>\<open>found\<close> is a map from distances to lists, here the sorted list of its pairs.\<close>

fun found_push :: "u32 \<Rightarrow> nat \<Rightarrow> (u32 \<times> nat list) list \<Rightarrow> (u32 \<times> nat list) list" where
  "found_push d a [] = [(d, [a])]"
| "found_push d a ((d', as) # m) = (if d < d' then (d, [a]) # (d', as) # m
     else if d = d' then (d', as @ [a]) # m else (d', as) # found_push d a m)"

definition nearestNodeEntries :: "'i p2p_env \<Rightarrow> NodeID \<Rightarrow> node_table \<Rightarrow> nat list" where
  "nearestNodeEntries E target s =
     (let cands = filter (alive s) (concat (map ((!) (nt_state s)) (visited_bins (unat (distance (nd_id (nt_node s)) target)))));
          found = foldl (\<lambda>m a. found_push (distance target (nd_id (entry_of s a))) a m) [] cands;
          usable = (\<lambda>a. ep_given (nd_endpoint (entry_of s a)) \<and> ep_isAllowed (pe_allowLocal E) (nd_endpoint (entry_of s a)))
      in foldl (\<lambda>ret a. if length ret < s_bucketSize \<and> usable a then ret @ [a] else ret) [] (concat (map snd found)))"

section \<open>Discovery\<close>

text \<open>The requests of one round, to the first nodes that were not tried before.\<close>

fun ask_nearest :: "'i p2p_env \<Rightarrow> nat \<Rightarrow> nat \<Rightarrow> NodeID \<Rightarrow> nat list \<Rightarrow> nat list \<Rightarrow> nat list \<Rightarrow> node_table \<Rightarrow> nat list \<times> node_table" where
  "ask_nearest E now epoch target already [] tried s = (tried, s)"
| "ask_nearest E now epoch target already (a # nearest) tried s =
     (if s_alpha \<le> length tried then (tried, s)
      else if a \<in> set already then ask_nearest E now epoch target already nearest tried s
      else ask_nearest E now epoch target already nearest (tried @ [a])
        (send E epoch (ep_udp (nd_endpoint (entry_of s a))) (FindNode target)
          (s\<lparr>nt_findNodeTimeout := nt_findNodeTimeout s @ [(nd_id (entry_of s a), now)]\<rparr>)))"

definition doDiscover :: "'i p2p_env \<Rightarrow> nat \<Rightarrow> nat \<Rightarrow> NodeID \<Rightarrow> nat \<Rightarrow> nat list \<Rightarrow> node_table \<Rightarrow> node_table" where
  "doDiscover E now epoch target round already s = (if \<not> nt_open s then s
     else if round = s_maxSteps then doDiscovery s
     else let (tried, s) = ask_nearest E now epoch target already (nearestNodeEntries E target s) [] s
          in if tried = [] then doDiscovery s
             else schedule (Discover target (Suc round) (already @ tried)) s)"

section \<open>Timers\<close>

definition check_evictions :: "nat \<Rightarrow> node_table \<Rightarrow> node_table option" where
  "check_evictions now s =
     (let drop = concat (map (\<lambda>e. if c_reqTimeout < now - snd (fst e)
            then (case map_of (nt_nodes s) (snd e) of Some a \<Rightarrow> [a] | None \<Rightarrow> []) else []) (nt_evictions s));
          evictionsRemain = length drop < length (nt_evictions s)
      in map_option (\<lambda>s. if evictionsRemain then doCheckEvictions s else s)
           (foldl (\<lambda>r a. Option.bind r (dropNode a)) (Some s) (list_unique drop)))"

text \<open>A timer that fires; it does nothing when it was aborted or when the timers are stopped. A discovery begins
  with the random target \<open>rand\<close>.\<close>

definition run_task :: "'i p2p_env \<Rightarrow> nat \<Rightarrow> nat \<Rightarrow> bool \<Rightarrow> NodeID \<Rightarrow> task \<Rightarrow> node_table \<Rightarrow> node_table option" where
  "run_task E now epoch aborted rand k s = (if aborted \<or> nt_stopped s then Some s
     else case k of CheckEvictions \<Rightarrow> check_evictions now s
     | Discovery \<Rightarrow> Some (doDiscover E now epoch rand 0 [] s)
     | Discover target round tried \<Rightarrow> Some (doDiscover E now epoch target round tried s))"

section \<open>Received packets\<close>

text \<open>The eviction a pong answers: one of that node whose time point lies in the future.\<close>

fun take_eviction :: "nat \<Rightarrow> NodeID \<Rightarrow> ((NodeID \<times> nat) \<times> NodeID) list
    \<Rightarrow> (((NodeID \<times> nat) \<times> NodeID) \<times> ((NodeID \<times> nat) \<times> NodeID) list) option" where
  "take_eviction now i [] = None"
| "take_eviction now i (e # es) = (if fst (fst e) = i \<and> now < snd (fst e) then Some (e, es)
     else map_option (\<lambda>(f, fs). (f, e # fs)) (take_eviction now i es))"

definition forget_pending :: "NodeID \<Rightarrow> node_table \<Rightarrow> node_table" where
  "forget_pending i s = (case nodeEntry s i of Some a \<Rightarrow> set_pending a s | None \<Rightarrow> s)"

text \<open>The flag says whether the handler goes on to note the sender as active.\<close>

definition on_pong :: "'i p2p_env \<Rightarrow> nat \<Rightarrow> nat \<Rightarrow> udp_endpoint \<Rightarrow> NodeID \<Rightarrow> NodeIPEndpoint \<Rightarrow> node_table
    \<Rightarrow> (bool \<times> node_table) option" where
  "on_pong E now epoch from source dest s =
     (let learn = (\<lambda>s. let n = nt_node s; ep = nd_endpoint n;
            ep = (if (\<not> ep_given ep \<or> \<not> ep_isAllowed (pe_allowLocal E) ep) \<and> isPublicAddress (ep_address dest)
              then ep\<lparr>ep_address := ep_address dest\<rparr> else ep)
          in s\<lparr>nt_node := n\<lparr>nd_endpoint := ep\<lparr>ep_udpPort := ep_udpPort dest\<rparr>\<rparr>\<rparr>)
      in case take_eviction now source (nt_evictions s) of
           Some (e, es) \<Rightarrow> (let s = s\<lparr>nt_evictions := es\<rparr>
             in map_option (\<lambda>s. (True, learn (forget_pending (fst (fst e)) s)))
                  (case nodeEntry s (snd e) of Some a \<Rightarrow> dropNode a s | None \<Rightarrow> Some s))
         | None \<Rightarrow> (case nodeEntry s source of
             Some a \<Rightarrow> Some (True, learn (set_pending a s))
           | None \<Rightarrow> if map_of (nt_pubkDiscoverPings s) (fst from) = None then Some (False, s)
               else map_option (\<lambda>(a, s). (True, learn s)) (let s = s\<lparr>nt_pubkDiscoverPings := AList.delete (fst from) (nt_pubkDiscoverPings s)\<rparr>
                 in if haveNode s source then Some (None, s)
                    else addNode E now epoch \<lparr>nd_id = source,
                      nd_endpoint = \<lparr>ep_address = fst from, ep_udpPort = snd from, ep_tcpPort = snd from\<rparr>, nd_peerType = Optional\<rparr> Unknown s)))"

fun add_neighbours :: "'i p2p_env \<Rightarrow> nat \<Rightarrow> nat \<Rightarrow> Neighbour list \<Rightarrow> node_table \<Rightarrow> node_table option" where
  "add_neighbours E now epoch [] s = Some s"
| "add_neighbours E now epoch (n # ns) s = Option.bind
     (addNode E now epoch \<lparr>nd_id = nb_node n, nd_endpoint = nb_endpoint n, nd_peerType = Optional\<rparr> Unknown s)
     (\<lambda>(a, s). add_neighbours E now epoch ns s)"

definition on_neighbours :: "'i p2p_env \<Rightarrow> nat \<Rightarrow> nat \<Rightarrow> NodeID \<Rightarrow> Neighbour list \<Rightarrow> node_table \<Rightarrow> node_table option" where
  "on_neighbours E now epoch source ns s =
     (let expected = (\<exists>t \<in> set (nt_findNodeTimeout s). fst t = source \<and> now - snd t < c_reqTimeout);
          s = s\<lparr>nt_findNodeTimeout := filter (\<lambda>t. fst t = source \<longrightarrow> now - snd t < c_reqTimeout) (nt_findNodeTimeout s)\<rparr>
      in if \<not> expected then Some s else add_neighbours E now epoch ns s)"

definition Neighbours_of :: "nat list \<Rightarrow> nat \<Rightarrow> nat \<Rightarrow> node_table \<Rightarrow> packet" where
  "Neighbours_of nearest offset limit s = (let lim = (if limit \<noteq> 0 then min (length nearest) (offset + limit) else length nearest)
     in Neighbours (map (\<lambda>i. \<lparr>nb_endpoint = nd_endpoint (entry_of s (nearest ! i)), nb_node = nd_id (entry_of s (nearest ! i))\<rparr>)
       [offset..<lim]))"

definition nlimit :: nat where
  "nlimit = (maxDatagramSize - 109) div 90"

function send_neighbours :: "'i p2p_env \<Rightarrow> nat \<Rightarrow> udp_endpoint \<Rightarrow> nat list \<Rightarrow> nat \<Rightarrow> node_table \<Rightarrow> node_table" where
  "send_neighbours E epoch from nearest offset s = (if offset < length nearest
     then send_neighbours E epoch from nearest (offset + nlimit) (send E epoch from (Neighbours_of nearest offset nlimit s) s)
     else s)"
  by auto
termination by (relation "measure (\<lambda>(E, epoch, from, nearest, offset, s). length nearest - offset)")
  (simp_all add: nlimit_def maxDatagramSize_def)

declare send_neighbours.simps [simp del]

definition on_ping :: "'i p2p_env \<Rightarrow> nat \<Rightarrow> nat \<Rightarrow> udp_endpoint \<Rightarrow> NodeID \<Rightarrow> h256 \<Rightarrow> NodeIPEndpoint \<Rightarrow> node_table \<Rightarrow> node_table option" where
  "on_ping E now epoch from source echo src s =
     (let src = src\<lparr>ep_address := fst from, ep_udpPort := snd from\<rparr>
      in map_option (\<lambda>(a, s). send E epoch (ep_udp src) (Pong src (sha3 echo)) s)
           (addNode E now epoch \<lparr>nd_id = source, nd_endpoint = src, nd_peerType = Optional\<rparr> Unknown s))"

definition on_packet :: "'i p2p_env \<Rightarrow> nat \<Rightarrow> nat \<Rightarrow> udp_endpoint \<Rightarrow> inbound \<Rightarrow> node_table \<Rightarrow> (bool \<times> node_table) option" where
  "on_packet E now epoch from p s = (case dg_packet (in_datagram p) of
     Pong dest echo \<Rightarrow> on_pong E now epoch from (in_sourceid p) dest s
   | Neighbours ns \<Rightarrow> map_option (Pair True) (on_neighbours E now epoch (in_sourceid p) ns s)
   | FindNode target \<Rightarrow> Some (True, send_neighbours E epoch from (nearestNodeEntries E target s) 0 s)
   | PingNode src dest \<Rightarrow> map_option (Pair True) (on_ping E now epoch from (in_sourceid p) (in_echo p) src s))"

definition onReceived :: "'i p2p_env \<Rightarrow> nat \<Rightarrow> nat \<Rightarrow> udp_endpoint \<Rightarrow> bytes \<Rightarrow> node_table \<Rightarrow> node_table option" where
  "onReceived E now epoch from packet s = (case interpretUDP E packet of
     Inl e \<Rightarrow> Some s | Inr None \<Rightarrow> Some s
   | Inr (Some p) \<Rightarrow> if isExpired epoch (in_datagram p) then Some s
       else (case on_packet E now epoch from p s of None \<Rightarrow> None
         | Some (go, t) \<Rightarrow> if go then noteActiveNode E now epoch (in_sourceid p) from t else Some t))"

end
