(* ===== verification/NodeTableProps.thy ===== *)
theory NodeTableProps
  imports NodeTable "HOL-Library.Multiset"
begin

text \<open>
  The properties of the node table: what holds of every table that any sequence of calls, packets and timers leaves, what
  noting a node does to its bucket, what becomes of evictions, which nodes are found, and the datagrams.
\<close>

section \<open>Steps\<close>

datatype nt_event = Add Node NodeRelation | Receive udp_endpoint bytes | Fire nat bool NodeID | Release "nat list" | Process | Shutdown

text \<open>A task keeps what it holds until it has run. \<open>Release\<close> is what the callers of \<open>addNode\<close> do with its result.\<close>

primrec nt_step :: "'i p2p_env \<Rightarrow> nat \<Rightarrow> nat \<Rightarrow> nt_event \<Rightarrow> node_table \<Rightarrow> node_table option" where
  "nt_step E now epoch (Add n r) s = map_option (\<lambda>(a, s). s\<lparr>nt_held := (case a of None \<Rightarrow> [] | Some a \<Rightarrow> [a]) @ nt_held s\<rparr>)
     (addNode E now epoch n r s)"
| "nt_step E now epoch (Receive from p) s = onReceived E now epoch from p s"
| "nt_step E now epoch (Fire i aborted rand) s = (if i < length (nt_tasks s)
     then map_option (\<lambda>s. s\<lparr>nt_tasks := take i (nt_tasks s) @ drop (Suc i) (nt_tasks s)\<rparr>)
       (run_task E now epoch aborted rand (nt_tasks s ! i) s)
     else Some s)"
| "nt_step E now epoch (Release as) s = Some (s\<lparr>nt_held := filter (\<lambda>a. a \<notin> set as) (nt_held s)\<rparr>)"
| "nt_step E now epoch Process s = Some (snd (processEvents s))"
| "nt_step E now epoch Shutdown s = Some (s\<lparr>nt_open := False, nt_stopped := True, nt_tasks := []\<rparr>)"

text \<open>The tables that can be reached, with the steady clock, which never goes back.\<close>

inductive reach :: "'i p2p_env \<Rightarrow> nat \<Rightarrow> node_table \<Rightarrow> bool" for E :: "'i p2p_env" where
  init: "reach E now (NodeTable_new n enabled h)"
| step: "reach E now s \<Longrightarrow> now \<le> now' \<Longrightarrow> nt_step E now' epoch ev s = Some s' \<Longrightarrow> reach E now' s'"

section \<open>Distances\<close>

lemma dist_loop_bound: "unat d < 2 ^ Suc k \<Longrightarrow> unat n + k < 2 ^ 32 \<Longrightarrow> unat (dist_loop d n) \<le> unat n + k"
proof (induction k arbitrary: d n)
  case 0
  then have "unat d div 2 = 0" by simp
  then have "drop_bit 1 d = 0" by (simp add: word_unat_eq_iff unat_drop_bit_eq drop_bit_eq_div unat_div)
  then show ?case by (simp add: dist_loop.simps [of d])
next
  case (Suc k)
  have "unat (drop_bit 1 d) < 2 ^ Suc k" using Suc.prems(1) by (simp add: unat_drop_bit_eq drop_bit_eq_div unat_div)
  moreover have "unat (n + 1) = unat n + 1" using Suc.prems(2) by (simp add: unat_word_ariths)
  ultimately have "unat (dist_loop (drop_bit 1 d) (n + 1)) \<le> unat n + Suc k" using Suc.IH [of "drop_bit 1 d" "n + 1"] Suc.prems(2) by simp
  then show ?case by (simp add: dist_loop.simps [of d])
qed

lemma distance_bound: "unat (distance a b) < 256"
proof -
  have "unat (d :: u256) < 2 ^ Suc 255" for d using unsigned_less [of d] by simp
  then have "unat (dist_loop d 0) \<le> 255" for d using dist_loop_bound [of d 255 0] by simp
  from this [of "word_rcat (hash_xor (sha3 a) (sha3 b))"] show ?thesis unfolding distance_def by simp
qed

lemma bucket_index_bound: "ne_distance e = distance a b \<Longrightarrow> bucket_index e < s_bins \<longleftrightarrow> ne_distance e \<noteq> 0"
proof -
  assume e: "ne_distance e = distance a b"
  show ?thesis
  proof (cases "ne_distance e = 0")
    case False
    then have "unat (ne_distance e - 1) = unat (ne_distance e) - 1" using unat_minus_one by blast
    moreover have "0 < unat (ne_distance e)" using False by (simp add: unat_gt_0)
    ultimately have "bucket_index e < s_bins" using distance_bound [of a b] unfolding bucket_index_def s_bins_def e [symmetric] by linarith
    with False show ?thesis by simp
  qed (simp add: bucket_index_def s_bins_def unsigned_minus_1_eq_mask mask_eq_exp_minus_1)
qed

section \<open>The invariant\<close>

definition entry_ok :: "Node \<Rightarrow> NodeEntry \<Rightarrow> bool" where
  "entry_ok n e \<longleftrightarrow> ne_distance e = distance (nd_id n) (nd_id e)"

definition bucket_ok :: "node_table \<Rightarrow> nat \<Rightarrow> nat list \<Rightarrow> bool" where
  "bucket_ok s k b \<longleftrightarrow> distinct b \<and> length b \<le> s_bucketSize \<and> (\<forall>a \<in> set b. a < length (nt_entries s) \<and> bucket_index (entry_of s a) = k
     \<and> nd_id (entry_of s a) \<noteq> nd_id (nt_node s) \<and> \<not> ne_pending (entry_of s a))"

definition table_ok :: "node_table \<Rightarrow> bool" where
  "table_ok s \<longleftrightarrow> length (nt_state s) = s_bins \<and> (\<forall>e \<in> set (nt_entries s). entry_ok (nt_node s) e)
     \<and> (\<forall>i a. map_of (nt_nodes s) i = Some a \<longrightarrow> a < length (nt_entries s) \<and> nd_id (entry_of s a) = i)
     \<and> (\<forall>k < s_bins. bucket_ok s k (nt_state s ! k))"

text \<open>The fields the invariant looks at; the other operations leave them alone.\<close>

definition same_table :: "node_table \<Rightarrow> node_table \<Rightarrow> bool" where
  "same_table s s' \<longleftrightarrow> nt_state s' = nt_state s \<and> nt_entries s' = nt_entries s \<and> nt_nodes s' = nt_nodes s \<and> nd_id (nt_node s') = nd_id (nt_node s)"

lemma same_table_ok: "same_table s s' \<Longrightarrow> table_ok s \<Longrightarrow> table_ok s'"
  by (simp add: same_table_def table_ok_def entry_ok_def bucket_ok_def)

lemma same_table_trans: "same_table s t \<Longrightarrow> same_table t u \<Longrightarrow> same_table s u"
  by (simp add: same_table_def)

lemma same_table_refl [simp]: "same_table s s"
  by (simp add: same_table_def)

lemma same_updates [simp]:
  "same_table s (t\<lparr>nt_evictions := x1\<rparr>) \<longleftrightarrow> same_table s t" "same_table s (t\<lparr>nt_pubkDiscoverPings := x2\<rparr>) \<longleftrightarrow> same_table s t"
  "same_table s (t\<lparr>nt_findNodeTimeout := x3\<rparr>) \<longleftrightarrow> same_table s t" "same_table s (t\<lparr>nt_handler := x4\<rparr>) \<longleftrightarrow> same_table s t"
  "same_table s (t\<lparr>nt_sent := x5\<rparr>) \<longleftrightarrow> same_table s t" "same_table s (t\<lparr>nt_tasks := x6\<rparr>) \<longleftrightarrow> same_table s t"
  "same_table s (t\<lparr>nt_held := x7\<rparr>) \<longleftrightarrow> same_table s t" "same_table s (t\<lparr>nt_open := x8\<rparr>) \<longleftrightarrow> same_table s t"
  "same_table s (t\<lparr>nt_stopped := x9\<rparr>) \<longleftrightarrow> same_table s t"
  by (simp_all add: same_table_def)

lemma same_effects [simp]:
  "same_table s (send E epoch to p t) \<longleftrightarrow> same_table s t" "same_table s (ping E epoch ep t) \<longleftrightarrow> same_table s t"
  "same_table s (schedule k t) \<longleftrightarrow> same_table s t" "same_table s (appendEvent i e t) \<longleftrightarrow> same_table s t"
  by (simp_all add: send_def ping_def schedule_def appendEvent_def split: option.split)

lemma evict_same [simp]: "same_table s (evict E now epoch a b t) \<longleftrightarrow> same_table s t"
  by (simp add: evict_def Let_def doCheckEvictions_def)

lemmas same_ok = same_table_ok [OF iffD2]

lemma effects_ok [simp]:
  "table_ok s \<Longrightarrow> table_ok (send E epoch to p s)" "table_ok s \<Longrightarrow> table_ok (ping E epoch ep s)" "table_ok s \<Longrightarrow> table_ok (schedule k s)"
  "table_ok s \<Longrightarrow> table_ok (appendEvent i e s)" "table_ok s \<Longrightarrow> table_ok (evict E now epoch a b s)"
  "table_ok s \<Longrightarrow> table_ok (s\<lparr>nt_evictions := x1\<rparr>)" "table_ok s \<Longrightarrow> table_ok (s\<lparr>nt_pubkDiscoverPings := x2\<rparr>)"
  "table_ok s \<Longrightarrow> table_ok (s\<lparr>nt_findNodeTimeout := x3\<rparr>)" "table_ok s \<Longrightarrow> table_ok (s\<lparr>nt_handler := x4\<rparr>)"
  "table_ok s \<Longrightarrow> table_ok (s\<lparr>nt_tasks := x6\<rparr>)" "table_ok s \<Longrightarrow> table_ok (s\<lparr>nt_held := x7\<rparr>)"
  by (erule same_table_ok [rotated], simp)+

lemma set_entry_ok:
  assumes "table_ok s" "a < length (nt_entries s)" "nd_id e = nd_id (entry_of s a)" "ne_distance e = ne_distance (entry_of s a)"
    and "ne_pending e \<longrightarrow> ne_pending (entry_of s a)"
  shows "table_ok (set_entry a e s)"
proof -
  have at: "entry_of (set_entry a e s) b = (if b = a then e else entry_of s b)" if "b < length (nt_entries s)" for b
    using that by (simp add: set_entry_def)
  have len: "length (nt_entries (set_entry a e s)) = length (nt_entries s)" "nt_state (set_entry a e s) = nt_state s"
    "nt_nodes (set_entry a e s) = nt_nodes s" "nt_node (set_entry a e s) = nt_node s" by (simp_all add: set_entry_def)
  have "entry_ok (nt_node s) (entry_of s a)" using assms(1,2) by (simp add: table_ok_def)
  then have "\<forall>f \<in> set (nt_entries (set_entry a e s)). entry_ok (nt_node s) f"
    using assms(1,3,4) set_update_subset_insert [of "nt_entries s" a e] by (auto simp: table_ok_def entry_ok_def set_entry_def)
  moreover have "nd_id (entry_of (set_entry a e s) b) = nd_id (entry_of s b)"
    "bucket_index (entry_of (set_entry a e s) b) = bucket_index (entry_of s b)"
    "\<not> ne_pending (entry_of s b) \<Longrightarrow> \<not> ne_pending (entry_of (set_entry a e s) b)" if "b < length (nt_entries s)" for b
    using at [OF that] assms(3-5) by (auto simp: bucket_index_def)
  ultimately show ?thesis using assms(1) by (auto simp: table_ok_def bucket_ok_def len)
qed

lemma new_entry_ok:
  assumes "table_ok s" "entry_ok (nt_node s) e"
  shows "table_ok (snd (new_entry e s))"
proof -
  have "entry_of (snd (new_entry e s)) b = entry_of s b" if "b < length (nt_entries s)" for b
    using that by (simp add: new_entry_def nth_append)
  moreover have "entry_of (snd (new_entry e s)) (length (nt_entries s)) = e" by (simp add: new_entry_def)
  moreover have "length (nt_entries (snd (new_entry e s))) = Suc (length (nt_entries s))"
    "nt_state (snd (new_entry e s)) = nt_state s" "nt_node (snd (new_entry e s)) = nt_node s"
    "set (nt_entries (snd (new_entry e s))) = insert e (set (nt_entries s))"
    "map_of (nt_nodes (snd (new_entry e s))) = (map_of (nt_nodes s))(nd_id e \<mapsto> length (nt_entries s))"
    by (simp_all add: new_entry_def update_conv')
  ultimately show ?thesis using assms by (auto simp: table_ok_def bucket_ok_def less_SucI)
qed

lemma set_bucket_ok:
  assumes "table_ok s" "bucket_ok s (bucket_index e) b"
  shows "table_ok (set_bucket e b s)"
proof -
  have "bucket_ok s k (nt_state (set_bucket e b s) ! k)" if "k < s_bins" for k
    using that assms by (cases "k = bucket_index e") (auto simp: table_ok_def set_bucket_def)
  then show ?thesis using assms(1) by (simp add: table_ok_def bucket_ok_def set_bucket_def)
qed

section \<open>Noting a node\<close>

lemma remove_active_True: "remove_active a True bs = ([], True)"
  by (induction bs) (simp_all add: Let_def)

lemma remove_active: "remove_active a False bs = (takeWhile (\<lambda>b. b \<noteq> a) bs, a \<in> set bs)"
  by (induction bs) (auto simp: Let_def remove_active_True)

text \<open>What becomes of the bucket, if there is one.\<close>

definition noted :: "'i p2p_env \<Rightarrow> nat \<Rightarrow> nat \<Rightarrow> nat \<Rightarrow> NodeEntry \<Rightarrow> nat list \<Rightarrow> node_table \<Rightarrow> node_table" where
  "noted E now epoch a e b s =
     (if a \<in> set b then set_bucket e (takeWhile (\<lambda>c. c \<noteq> a) b @ [a]) s
      else if length b < s_bucketSize then appendEvent (nd_id e) NodeEntryAdded (set_bucket e (b @ [a]) s)
      else if alive s (hd b) then evict E now epoch (hd b) a (set_bucket e b s)
      else appendEvent (nd_id e) NodeEntryAdded (set_bucket e (tl b @ [a]) s))"

lemma takeWhile_short: "length b \<le> n \<Longrightarrow> a \<in> set b \<Longrightarrow> length (takeWhile (\<lambda>c. c \<noteq> a) b) < n"
  by (induction b arbitrary: n) (auto simp: Suc_le_eq, metis Suc_le_D Suc_less_eq less_Suc_eq_le)

lemma noteActiveNode_noted:
  assumes "table_ok s" "pubk \<noteq> nd_id (nt_node s)"
    and "ep_isAllowed (pe_allowLocal E) \<lparr>ep_address = fst from, ep_udpPort = snd from, ep_tcpPort = snd from\<rparr>"
    and "nodeEntry s pubk = Some a" "\<not> ne_pending (entry_of s a)"
  defines "e \<equiv> refreshed s a from"
  shows "noteActiveNode E now epoch pubk from s = (if ne_distance e = 0 then None
    else Some (noted E now epoch a e (nt_state s ! bucket_index e) (set_entry a e s)))"
proof -
  have a: "a < length (nt_entries s)" using assms(1,4) by (simp add: table_ok_def nodeEntry_def)
  then have "entry_ok (nt_node s) (entry_of s a)" using assms(1) by (simp add: table_ok_def)
  then have idx: "bucket_index e < length (nt_state (set_entry a e s)) \<longleftrightarrow> ne_distance e \<noteq> 0"
    using bucket_index_bound [of e "nd_id (nt_node s)" "nd_id (entry_of s a)"] assms(1) by (simp add: e_def refreshed_def entry_ok_def table_ok_def set_entry_def)
  have st: "nt_state (set_entry a e s) = nt_state s" by (simp add: set_entry_def)
  show ?thesis
  proof (cases "ne_distance e = 0")
    case True
    with assms(2-5) idx show ?thesis
      unfolding noteActiveNode_def e_def bucket_UNSAFE_def by (simp add: Let_def)
  next
    case False
    let ?b = "nt_state s ! bucket_index e"
    have "bucket_index e < s_bins" using idx False assms(1) st by (simp add: table_ok_def)
    then have "bucket_ok s (bucket_index e) ?b" using assms(1) by (simp add: table_ok_def)
    then have short: "length ?b \<le> s_bucketSize" by (simp add: bucket_ok_def)
    have all: "takeWhile (\<lambda>c. c \<noteq> a) ?b = ?b" if "a \<notin> set ?b"
      unfolding takeWhile_eq_all_conv using that by blast
    let ?s = "set_entry a e s"
    have b: "bucket_UNSAFE ?s e = Some ?b" using idx False by (simp add: bucket_UNSAFE_def st)
    have guard: "(pubk = nd_id (nt_node s)
        \<or> \<not> ep_isAllowed (pe_allowLocal E) \<lparr>ep_address = fst from, ep_udpPort = snd from, ep_tcpPort = snd from\<rparr>) = False"
      using assms(2,3) by simp
    have pend: "ne_pending (entry_of s a) = False" using assms(5) by simp
    have step: "noteActiveNode E now epoch pubk from s = (case bucket_UNSAFE ?s e of None \<Rightarrow> None
             | Some b \<Rightarrow> let (b, removed) = remove_active a False b;
                 added = (\<lambda>s. if \<not> removed then appendEvent (nd_id e) NodeEntryAdded s else s)
               in if s_bucketSize \<le> length b
                  then if alive ?s (hd b) then Some (evict E now epoch (hd b) a (set_bucket e b ?s))
                       else Some (added (set_bucket e (tl b @ [a]) ?s))
                  else Some (added (set_bucket e (b @ [a]) ?s)))"
      unfolding noteActiveNode_def guard if_False assms(4) option.case pend Let_def e_def ..
    show ?thesis
    proof (cases "a \<in> set ?b")
      case True
      have "\<not> s_bucketSize \<le> length (takeWhile (\<lambda>c. c \<noteq> a) ?b)" using takeWhile_short [OF short True] by simp
      with True False show ?thesis unfolding step b option.case remove_active Let_def prod.case noted_def by simp
    next
      case F: False
      with False short show ?thesis unfolding step b option.case remove_active all [OF F] Let_def prod.case noted_def by simp
    qed
  qed
qed

section \<open>What every operation keeps\<close>

text \<open>\<open>evolves now s s'\<close>: the invariant is kept, and evictions are only added, with the present time.\<close>

definition evolves :: "nat \<Rightarrow> node_table \<Rightarrow> node_table \<Rightarrow> bool" where
  "evolves now s s' \<longleftrightarrow> (table_ok s \<longrightarrow> table_ok s')
     \<and> (\<exists>es. nt_evictions s' = nt_evictions s @ es \<and> (\<forall>e \<in> set es. snd (fst e) = now))"

lemma evolves_refl [simp, intro]: "evolves now s s"
  by (auto simp: evolves_def)

lemma evolves_trans [trans]: "evolves now s t \<Longrightarrow> evolves now t u \<Longrightarrow> evolves now s u"
proof -
  assume a: "evolves now s t" "evolves now t u"
  then obtain es fs where "nt_evictions t = nt_evictions s @ es" "nt_evictions u = nt_evictions t @ fs"
      "\<forall>e \<in> set es. snd (fst e) = now" "\<forall>e \<in> set fs. snd (fst e) = now" by (auto simp: evolves_def)
  with a show ?thesis unfolding evolves_def by (auto intro!: exI [of _ "es @ fs"])
qed

lemma evolves_same: "same_table s s' \<Longrightarrow> nt_evictions s' = nt_evictions s \<Longrightarrow> evolves now s s'"
  using same_table_ok [of s s'] by (simp add: evolves_def)

lemma evolves_ok: "(table_ok s \<Longrightarrow> table_ok s') \<Longrightarrow> nt_evictions s' = nt_evictions s \<Longrightarrow> evolves now s s'"
  by (simp add: evolves_def)

lemma evictions_frame [simp]:
  "nt_evictions (send E epoch to p s) = nt_evictions s" "nt_evictions (ping E epoch ep s) = nt_evictions s"
  "nt_evictions (schedule k s) = nt_evictions s" "nt_evictions (appendEvent i e s) = nt_evictions s"
  "nt_evictions (set_entry a f s) = nt_evictions s" "nt_evictions (set_bucket f b s) = nt_evictions s"
  "nt_evictions (snd (new_entry f s)) = nt_evictions s" "nt_node (snd (new_entry f s)) = nt_node s"
  by (simp_all add: send_def ping_def schedule_def appendEvent_def set_entry_def set_bucket_def new_entry_def split: option.split)

lemma evolves_evict: "evolves now s (evict E now epoch a b s)"
  by (auto simp: evolves_def evict_def Let_def doCheckEvictions_def)

lemma noted_ok:
  assumes "table_ok s" "a < length (nt_entries s)" "entry_of s a = e" "nd_id e \<noteq> nd_id (nt_node s)" "\<not> ne_pending e" "bucket_index e < s_bins"
  shows "table_ok (noted E now epoch a e (nt_state s ! bucket_index e) s)"
proof -
  let ?b = "nt_state s ! bucket_index e"
  have b: "bucket_ok s (bucket_index e) ?b" using assms(1,6) by (simp add: table_ok_def)
  then have len: "length ?b \<le> s_bucketSize" and ne: "s_bucketSize \<le> length ?b \<Longrightarrow> ?b \<noteq> []"
    by (auto simp: bucket_ok_def s_bucketSize_def)
  have a: "bucket_ok s (bucket_index e) (c @ [a])" if "set c \<subseteq> set ?b" "distinct c" "a \<notin> set c" "length c < s_bucketSize" for c
    using that b assms by (auto simp: bucket_ok_def)
  have "distinct (takeWhile (\<lambda>c. c \<noteq> a) ?b)" "set (takeWhile (\<lambda>c. c \<noteq> a) ?b) \<subseteq> set ?b" "a \<notin> set (takeWhile (\<lambda>c. c \<noteq> a) ?b)"
    using b by (auto simp: bucket_ok_def dest: set_takeWhileD)
  then have 1: "a \<in> set ?b \<Longrightarrow> bucket_ok s (bucket_index e) (takeWhile (\<lambda>c. c \<noteq> a) ?b @ [a])"
    using takeWhile_short [OF len] by (intro a) auto
  have 2: "a \<notin> set ?b \<Longrightarrow> length ?b < s_bucketSize \<Longrightarrow> bucket_ok s (bucket_index e) (?b @ [a])"
    using b by (intro a) (auto simp: bucket_ok_def)
  have 3: "bucket_ok s (bucket_index e) (tl ?b @ [a])" if "a \<notin> set ?b" "\<not> length ?b < s_bucketSize"
    using b ne len that by (intro a) (auto simp: bucket_ok_def distinct_tl s_bucketSize_def dest: list.set_sel(2) [rotated])
  show ?thesis using set_bucket_ok [OF assms(1)] 1 2 3 b by (simp add: noted_def)
qed

lemma evolves_noted: "table_ok (noted E now epoch a e b s) \<Longrightarrow> evolves now s (noted E now epoch a e b s)"
proof -
  assume t: "table_ok (noted E now epoch a e b s)"
  obtain es where "nt_evictions (evict E now epoch (hd b) a (set_bucket e b s)) = nt_evictions s @ es" "\<forall>e \<in> set es. snd (fst e) = now"
    using evolves_evict [of now "set_bucket e b s" E epoch "hd b" a] by (auto simp: evolves_def)
  with t show ?thesis by (auto simp: evolves_def noted_def)
qed

lemma refreshed_simps [simp]: "nd_id (refreshed s a from) = nd_id (entry_of s a)" "ne_distance (refreshed s a from) = ne_distance (entry_of s a)"
  "ne_pending (refreshed s a from) = ne_pending (entry_of s a)" "bucket_index (refreshed s a from) = bucket_index (entry_of s a)"
  by (simp_all add: refreshed_def bucket_index_def)

lemma evolves_note:
  assumes "table_ok s" "noteActiveNode E now epoch pubk from s = Some s'"
  shows "evolves now s s'"
proof (cases "pubk = nd_id (nt_node s) \<or> \<not> ep_isAllowed (pe_allowLocal E) \<lparr>ep_address = fst from, ep_udpPort = snd from, ep_tcpPort = snd from\<rparr>
    \<or> nodeEntry s pubk = None \<or> (\<exists>a. nodeEntry s pubk = Some a \<and> ne_pending (entry_of s a))")
  case True
  then have "noteActiveNode E now epoch pubk from s = Some s"
    unfolding noteActiveNode_def by (auto split: option.split)
  with assms(2) show ?thesis by simp
next
  case False
  then obtain a where a: "nodeEntry s pubk = Some a" "\<not> ne_pending (entry_of s a)" "pubk \<noteq> nd_id (nt_node s)"
    "ep_isAllowed (pe_allowLocal E) \<lparr>ep_address = fst from, ep_udpPort = snd from, ep_tcpPort = snd from\<rparr>" by auto
  let ?e = "refreshed s a from" and ?s = "set_entry a (refreshed s a from) s"
  have len: "a < length (nt_entries s)" and id: "nd_id (entry_of s a) = pubk" using assms(1) a(1) by (auto simp: table_ok_def nodeEntry_def)
  have s': "ne_distance (entry_of s a) \<noteq> 0" "s' = noted E now epoch a ?e (nt_state s ! bucket_index ?e) ?s"
    using noteActiveNode_noted [OF assms(1) a(3,4,1,2), of now epoch] assms(2) by (simp_all split: if_splits)
  have t: "table_ok ?s" using assms(1) len a(2) by (intro set_entry_ok) simp_all
  have "entry_ok (nt_node s) (entry_of s a)" using assms(1) len by (simp add: table_ok_def)
  then have "bucket_index ?e < s_bins" using s'(1) bucket_index_bound [of "entry_of s a"] by (simp add: entry_ok_def)
  moreover have st: "nt_state ?s = nt_state s" by (simp add: set_entry_def)
  ultimately have "table_ok s'" unfolding s'(2) st [symmetric]
    using a(2,3) id len by (intro noted_ok [OF t]) (simp_all add: set_entry_def)
  with evolves_noted [of E now epoch a ?e "nt_state s ! bucket_index ?e" ?s] have "evolves now ?s s'" unfolding s'(2) by blast
  moreover have "evolves now s ?s" by (rule evolves_ok) (use t in simp_all)
  ultimately show ?thesis by (rule evolves_trans [rotated])
qed

lemma evolves_drop:
  assumes "dropNode a s = Some s'"
  shows "evolves now s s'"
proof (rule evolves_ok)
  assume t: "table_ok s"
  let ?e = "entry_of s a"
  have "bucket_index ?e < s_bins" using assms t by (auto simp: dropNode_def bucket_UNSAFE_def table_ok_def split: if_splits)
  then have "bucket_ok s (bucket_index ?e) (nt_state s ! bucket_index ?e)" using t by (simp add: table_ok_def)
  then have "bucket_ok s (bucket_index ?e) (removeAll a (nt_state s ! bucket_index ?e))"
    by (auto simp: bucket_ok_def distinct_removeAll intro: le_trans [OF length_removeAll_less_eq])
  from set_bucket_ok [OF t this] assms show "table_ok s'" by (auto simp: dropNode_def bucket_UNSAFE_def split: if_splits)
qed (use assms in \<open>auto simp: dropNode_def bucket_UNSAFE_def split: if_splits\<close>)

lemma fst_new_entry [simp]: "fst (new_entry e s) = length (nt_entries s)"
  by (simp add: new_entry_def)

lemma evolves_new: "entry_ok (nt_node s) e \<Longrightarrow> evolves now s (snd (new_entry e s))"
  using new_entry_ok by (intro evolves_ok) simp_all

lemma evolves_add:
  assumes "table_ok s" "addNode E now epoch n r s = Some (x, s')"
  shows "evolves now s s'"
proof -
  let ?e = "NodeEntry_new (nd_id (nt_node s)) (nd_id n) (nd_endpoint n)"
  have e: "entry_ok (nt_node s) ?e" "entry_ok (nt_node s) (?e\<lparr>ne_pending := False\<rparr>)" by (simp_all add: entry_ok_def NodeEntry_new_def)
  show ?thesis
  proof (cases "r = Known")
    case True
    have new: "evolves now s (snd (new_entry (?e\<lparr>ne_pending := False\<rparr>) s))" "table_ok (snd (new_entry (?e\<lparr>ne_pending := False\<rparr>) s))"
      by (rule evolves_new [OF e(2)], rule new_entry_ok [OF assms(1) e(2)])
    have "noteActiveNode E now epoch (nd_id n) (ep_udp (nd_endpoint n)) (snd (new_entry (?e\<lparr>ne_pending := False\<rparr>) s)) = Some s'"
      using assms(2) True by (auto simp: addNode_def Let_def case_prod_beta)
    from evolves_trans [OF new(1) evolves_note [OF new(2) this]] show ?thesis .
  next
    case False
    have new: "evolves now s (ping E epoch ep (snd (new_entry ?e s)))" for ep
      using evolves_trans [OF evolves_new [OF e(1)], of now "ping E epoch ep (snd (new_entry ?e s))"] by (simp add: evolves_same)
    have same: "evolves now s (ping E epoch ep (s\<lparr>nt_pubkDiscoverPings := x2\<rparr>))" for ep x2 by (rule evolves_same) simp_all
    show ?thesis
    proof (cases "\<not> ep_given (nd_endpoint n) \<or> nd_id n = zero_hash 64 \<or> nodeEntry s (nd_id n) \<noteq> None")
      case True
      then show ?thesis using assms(2) False same by (auto simp: addNode_def Let_def split: if_splits)
    next
      case F: False
      then have "s' = ping E epoch (nd_endpoint n) (snd (new_entry ?e s))"
        using assms(2) False by (simp add: addNode_def Let_def case_prod_beta)
      with new show ?thesis by simp
    qed
  qed
qed

lemma evolves_keeps: "evolves now s s' \<Longrightarrow> table_ok s \<Longrightarrow> table_ok s'"
  by (simp add: evolves_def)

lemma evolves_step: "table_ok s \<Longrightarrow> evolves now s t \<Longrightarrow> (table_ok t \<Longrightarrow> evolves now t u) \<Longrightarrow> evolves now s u"
  using evolves_trans evolves_keeps by blast

lemma evolves_pending: "table_ok s \<Longrightarrow> nodeEntry s i = Some a \<Longrightarrow> evolves now s (set_pending a s)"
  unfolding set_pending_def by (intro evolves_ok set_entry_ok) (simp_all add: table_ok_def nodeEntry_def)

text \<open>A pong settles no eviction whose time has come.\<close>

lemma take_eviction_None: "\<forall>e \<in> set es. snd (fst e) \<le> now \<Longrightarrow> take_eviction now i es = None"
  by (induction es) auto

lemma evolves_pong:
  assumes "table_ok s" "\<forall>e \<in> set (nt_evictions s). snd (fst e) \<le> now" "on_pong E now epoch from source dest s = Some (go, s')"
  shows "evolves now s s'"
proof -
  have learn: "evolves now t (t\<lparr>nt_node := (nt_node t)\<lparr>nd_endpoint := ep\<rparr>\<rparr>)" for t ep
    by (rule evolves_same) (simp_all add: same_table_def)
  note t = take_eviction_None [OF assms(2), of source]
  show ?thesis
  proof (cases "nodeEntry s source")
    case (Some a)
    obtain ep where "s' = (set_pending a s)\<lparr>nt_node := (nt_node (set_pending a s))\<lparr>nd_endpoint := ep\<rparr>\<rparr>"
      using assms(3) unfolding on_pong_def t Some option.case Let_def by blast
    with evolves_trans [OF evolves_pending [OF assms(1) Some] learn] show ?thesis by simp
  next
    case None
    let ?s = "s\<lparr>nt_pubkDiscoverPings := AList.delete (fst from) (nt_pubkDiscoverPings s)\<rparr>"
    have "\<not> haveNode ?s source" using None by (simp add: nodeEntry_def haveNode_def)
    then consider "s' = s" | x s1 ep where "addNode E now epoch \<lparr>nd_id = source,
          nd_endpoint = \<lparr>ep_address = fst from, ep_udpPort = snd from, ep_tcpPort = snd from\<rparr>, nd_peerType = Optional\<rparr> Unknown ?s = Some (x, s1)"
        "s' = s1\<lparr>nt_node := (nt_node s1)\<lparr>nd_endpoint := ep\<rparr>\<rparr>"
      using assms(3) unfolding on_pong_def t None option.case Let_def by (auto split: if_splits)
    then show ?thesis
    proof cases
      case 2
      have "table_ok ?s" "evolves now s ?s" using assms(1) by (auto intro: evolves_same)
      with evolves_add [OF _ 2(1)] evolves_trans learn [of s1 ep] show ?thesis unfolding 2(2) by meson
    qed simp
  qed
qed

lemma evolves_add_neighbours: "table_ok s \<Longrightarrow> add_neighbours E now epoch ns s = Some s' \<Longrightarrow> evolves now s s'"
proof (induction ns arbitrary: s)
  case (Cons n ns)
  then obtain x s1 where "addNode E now epoch \<lparr>nd_id = nb_node n, nd_endpoint = nb_endpoint n, nd_peerType = Optional\<rparr> Unknown s = Some (x, s1)"
      "add_neighbours E now epoch ns s1 = Some s'"
    by (auto simp: bind_eq_Some_conv)
  with evolves_step [OF Cons.prems(1) evolves_add [OF Cons.prems(1)]] Cons.IH show ?case by blast
qed simp

lemma evolves_neighbours: "table_ok s \<Longrightarrow> on_neighbours E now epoch source ns s = Some s' \<Longrightarrow> evolves now s s'"
proof -
  assume a: "table_ok s" "on_neighbours E now epoch source ns s = Some s'"
  let ?s = "s\<lparr>nt_findNodeTimeout := filter (\<lambda>t. fst t = source \<longrightarrow> now - snd t < c_reqTimeout) (nt_findNodeTimeout s)\<rparr>"
  have "table_ok ?s" "evolves now s ?s" using a(1) by (auto intro: evolves_same)
  moreover have "s' = ?s \<or> add_neighbours E now epoch ns ?s = Some s'" using a(2) by (auto simp: on_neighbours_def Let_def split: if_splits)
  ultimately show ?thesis using evolves_add_neighbours evolves_trans by blast
qed

lemma send_neighbours_same: "same_table s (send_neighbours E epoch from nearest offset s) \<and>
    nt_evictions (send_neighbours E epoch from nearest offset s) = nt_evictions s"
proof (induction E epoch "from" nearest offset s rule: send_neighbours.induct)
  case (1 E epoch "from" nearest offset s)
  show ?case
  proof (cases "offset < length nearest")
    case True
    then show ?thesis using 1 [OF True] by (auto simp: send_neighbours.simps [of _ _ _ _ offset] intro: same_table_trans [rotated])
  qed (simp add: send_neighbours.simps)
qed

lemma evolves_ping: "table_ok s \<Longrightarrow> on_ping E now epoch from source echo src s = Some s' \<Longrightarrow> evolves now s s'"
proof -
  assume a: "table_ok s" "on_ping E now epoch from source echo src s = Some s'"
  then obtain x s1 where x: "addNode E now epoch \<lparr>nd_id = source, nd_endpoint = src\<lparr>ep_address := fst from, ep_udpPort := snd from\<rparr>,
        nd_peerType = Optional\<rparr> Unknown s = Some (x, s1)" "same_table s1 s'" "nt_evictions s' = nt_evictions s1"
    by (auto simp: on_ping_def Let_def)
  from evolves_trans [OF evolves_add [OF a(1) x(1)] evolves_same [OF x(2,3)]] show ?thesis .
qed

lemma evolves_packet:
  assumes "table_ok s" "\<forall>e \<in> set (nt_evictions s). snd (fst e) \<le> now" "on_packet E now epoch from p s = Some (go, t)"
  shows "evolves now s t"
proof (cases "dg_packet (in_datagram p)")
  case (PingNode src dest)
  with assms(3) have "on_ping E now epoch from (in_sourceid p) (in_echo p) src s = Some t" by (simp add: on_packet_def)
  then show ?thesis by (rule evolves_ping [OF assms(1)])
next
  case (Pong dest echo)
  with assms(3) have "on_pong E now epoch from (in_sourceid p) dest s = Some (go, t)" by (simp add: on_packet_def)
  then show ?thesis by (rule evolves_pong [OF assms(1,2)])
next
  case (FindNode target)
  with assms(3) have "t = send_neighbours E epoch from (nearestNodeEntries E target s) 0 s" by (simp add: on_packet_def)
  then show ?thesis
    using evolves_same [OF conjunct1 [OF send_neighbours_same] conjunct2 [OF send_neighbours_same]] by simp
next
  case (Neighbours ns)
  with assms(3) have "on_neighbours E now epoch (in_sourceid p) ns s = Some t" by (simp add: on_packet_def)
  then show ?thesis by (rule evolves_neighbours [OF assms(1)])
qed

lemma evolves_received:
  assumes "table_ok s" "\<forall>e \<in> set (nt_evictions s). snd (fst e) \<le> now" "onReceived E now epoch from packet s = Some s'"
  shows "evolves now s s'"
proof -
  consider "s' = s" | p go t where "on_packet E now epoch from p s = Some (go, t)"
      "noteActiveNode E now epoch (in_sourceid p) from t = Some s' \<or> s' = t"
    using assms(3) unfolding onReceived_def
    by (auto split: sum.split_asm option.split_asm if_split_asm)
  then show ?thesis
  proof cases
    case 2
    note t = evolves_packet [OF assms(1,2) 2(1)]
    from evolves_trans [OF t evolves_note [OF evolves_keeps [OF t assms(1)]]] t 2(2) show ?thesis by blast
  qed simp
qed

lemma ask_nearest_same: "same_table s (snd (ask_nearest E now epoch target already nearest tried s))
    \<and> nt_evictions (snd (ask_nearest E now epoch target already nearest tried s)) = nt_evictions s"
proof (induction nearest arbitrary: tried s)
  case (Cons a nearest)
  let ?t = "send E epoch (ep_udp (nd_endpoint (entry_of s a))) (FindNode target)
    (s\<lparr>nt_findNodeTimeout := nt_findNodeTimeout s @ [(nd_id (entry_of s a), now)]\<rparr>)"
  have "same_table s ?t" by simp
  with Cons.IH [where s = ?t and tried = "tried @ [a]"] have "same_table s (snd (ask_nearest E now epoch target already nearest (tried @ [a]) ?t))"
    using same_table_trans by blast
  with Cons.IH show ?case by simp
qed simp

lemma doDiscover_same: "same_table s (doDiscover E now epoch target round already s) \<and> nt_evictions (doDiscover E now epoch target round already s) = nt_evictions s"
proof -
  obtain tried t where a: "ask_nearest E now epoch target already (nearestNodeEntries E target s) [] s = (tried, t)" by force
  have "same_table s t" "nt_evictions t = nt_evictions s"
    using ask_nearest_same [of s E now epoch target already "nearestNodeEntries E target s" "[]"] a by simp_all
  then show ?thesis by (simp add: doDiscover_def a doDiscovery_def)
qed

lemma evolves_drops: "foldl (\<lambda>r a. Option.bind r (dropNode a)) (Some s) as = Some s' \<Longrightarrow> evolves now s s'"
proof (induction as arbitrary: s)
  case (Cons a as)
  have none: "foldl (\<lambda>r a. Option.bind r (dropNode a)) None as = None" by (induction as) simp_all
  from Cons.prems none obtain t where "dropNode a s = Some t" "foldl (\<lambda>r a. Option.bind r (dropNode a)) (Some t) as = Some s'"
    by (cases "dropNode a s") auto
  with Cons.IH evolves_drop evolves_trans show ?case by blast
qed simp

lemma evolves_check: "check_evictions now s = Some s' \<Longrightarrow> evolves now s s'"
proof -
  assume "check_evictions now s = Some s'"
  then obtain t as where "foldl (\<lambda>r a. Option.bind r (dropNode a)) (Some s) as = Some t" "s' = t \<or> s' = doCheckEvictions t"
    unfolding check_evictions_def Let_def map_option_eq_Some by (elim exE conjE) (simp split: if_splits)
  moreover have "evolves now t (doCheckEvictions t)" by (rule evolves_same) (simp_all add: doCheckEvictions_def)
  ultimately show ?thesis using evolves_drops evolves_trans by blast
qed

lemma evolves_task: "run_task E now epoch aborted rand k s = Some s' \<Longrightarrow> evolves now s s'"
proof -
  assume a: "run_task E now epoch aborted rand k s = Some s'"
  show ?thesis
  proof (cases "aborted \<or> nt_stopped s")
    case False
    have d: "evolves now s (doDiscover E now epoch target round tried s)" for target round tried
      using evolves_same [OF conjunct1 [OF doDiscover_same] conjunct2 [OF doDiscover_same]] .
    show ?thesis using a False d evolves_check by (cases k) (auto simp: run_task_def)
  qed (use a in \<open>simp add: run_task_def\<close>)
qed

theorem step_evolves:
  assumes "table_ok s" "\<forall>e \<in> set (nt_evictions s). snd (fst e) \<le> now" "nt_step E now epoch ev s = Some s'"
  shows "evolves now s s'"
proof (cases ev)
  case (Add n r)
  then obtain x t where t: "addNode E now epoch n r s = Some (x, t)" "s' = t\<lparr>nt_held := (case x of None \<Rightarrow> [] | Some a \<Rightarrow> [a]) @ nt_held t\<rparr>"
    using assms(3) by auto
  have "evolves now t s'" unfolding t(2) by (rule evolves_same) simp_all
  with evolves_add [OF assms(1) t(1)] show ?thesis by (rule evolves_trans)
next
  case (Receive "from" p)
  with evolves_received [OF assms(1,2)] assms(3) show ?thesis by simp
next
  case (Fire i aborted rand)
  show ?thesis
  proof (cases "i < length (nt_tasks s)")
    case True
    then obtain t where t: "run_task E now epoch aborted rand (nt_tasks s ! i) s = Some t"
        "s' = t\<lparr>nt_tasks := take i (nt_tasks t) @ drop (Suc i) (nt_tasks t)\<rparr>"
      using assms(3) Fire by auto
    have "evolves now t s'" unfolding t(2) by (rule evolves_same) simp_all
    with evolves_task [OF t(1)] show ?thesis by (rule evolves_trans)
  qed (use assms(3) Fire in simp)
next
  case Process
  have "same_table s (snd (processEvents s))" "nt_evictions (snd (processEvents s)) = nt_evictions s"
    by (auto simp: processEvents_def split: option.split)
  with Process assms(3) show ?thesis by (auto intro: evolves_same)
qed (use assms(3) in \<open>auto intro: evolves_same\<close>)

lemma new_ok: "table_ok (NodeTable_new n enabled h)"
  by (simp add: table_ok_def NodeTable_new_def bucket_ok_def)

lemma reach_ok: "reach E now s \<Longrightarrow> table_ok s \<and> (\<forall>e \<in> set (nt_evictions s). snd (fst e) \<le> now)"
proof (induction rule: reach.induct)
  case (init now n enabled h)
  then show ?case using new_ok by (simp add: NodeTable_new_def)
next
  case (step now s now' epoch ev s')
  then have t: "\<forall>e \<in> set (nt_evictions s). snd (fst e) \<le> now'" by auto
  with step_evolves [of s now' E epoch ev s'] step.IH step.hyps(3) have e: "evolves now' s s'" by blast
  then obtain es where es: "nt_evictions s' = nt_evictions s @ es" "\<forall>e \<in> set es. snd (fst e) = now'" by (auto simp: evolves_def)
  have "\<forall>e \<in> set (nt_evictions s'). snd (fst e) \<le> now'" unfolding es(1) set_append ball_Un using t es(2) order_refl by metis
  with e step.IH show ?case by (simp add: evolves_def)
qed

section \<open>The properties\<close>

definition net_env :: "item p2p_env" where
  "net_env = \<lparr>pe_rlp = tree_rlp, pe_size = (\<lambda>i. case i of IBytes b \<Rightarrow> length b | _ \<Rightarrow> 0),
     pe_toInt = (\<lambda>k i. case i of IInt n \<Rightarrow> if 0 \<le> n \<and> n < 2 ^ (8 * k) then Some n else None | _ \<Rightarrow> None),
     pe_sign = (\<lambda>k h. replicate 65 1), pe_recover = (\<lambda>s h. replicate 64 1), pe_toPublic = (\<lambda>k. replicate 64 1),
     pe_secret = [], pe_allowLocal = True\<rparr>"

lemma net_env_ok: "p2p_ok net_env"
proof -
  have "length xs < length (rlp_data tree_rlp (rlp_list tree_rlp xs))" for xs
  proof -
    have "length xs \<le> length (concat (map (\<lambda>x. 1 # item_enc x) xs))" by (induction xs) simp_all
    then show ?thesis by (simp add: tree_rlp_def)
  qed
  then show ?thesis unfolding p2p_ok_def by (simp add: net_env_def tree_rlp_ok) (simp add: tree_rlp_def)
qed

definition sample_endpoint :: NodeIPEndpoint where
  "sample_endpoint = \<lparr>ep_address = V4 [8, 8, 8, 8], ep_udpPort = 30303, ep_tcpPort = 30303\<rparr>"

definition sample_node :: "byte \<Rightarrow> Node" where
  "sample_node b = \<lparr>nd_id = replicate 64 b, nd_endpoint = sample_endpoint, nd_peerType = Optional\<rparr>"

lemma sample_given: "ep_given sample_endpoint" "\<not> is_unspecified (V4 [8, 8, 4, 4])"
proof -
  have "replicate 4 (0 :: byte) = [0, 0, 0, 0]" by (simp add: eval_nat_numeral)
  then show "ep_given sample_endpoint" "\<not> is_unspecified (V4 [8, 8, 4, 4])" by (simp_all add: ep_given_def sample_endpoint_def)
qed

lemma sample_id: "nd_id (sample_node b) = replicate 64 b" "nd_endpoint (sample_node b) = sample_endpoint"
  "replicate 64 b = zero_hash 64 \<longleftrightarrow> b = 0" "replicate 64 b = replicate 64 c \<longleftrightarrow> b = c"
  by (simp_all add: sample_node_def zero_hash_def)

text \<open>A table that knows one node, which has answered and is in no bucket yet.\<close>

definition sample_table :: node_table where
  "sample_table = (NodeTable_new (sample_node 1) True None)\<lparr>
     nt_entries := [(NodeEntry_new (replicate 64 1) (replicate 64 2) sample_endpoint)\<lparr>ne_pending := False\<rparr>], nt_nodes := [(replicate 64 2, 0)]\<rparr>"

lemma sample_table_ok: "table_ok sample_table"
  by (auto simp: table_ok_def sample_table_def NodeTable_new_def bucket_ok_def entry_ok_def NodeEntry_new_def sample_node_def)

interpretation sample_p2p: p2p_lib net_env
  by unfold_locales (rule net_env_ok)

text \<open>A node added as known goes into the bucket of its distance at once, without having answered, unless its distance is 0,
  where the code is out of bounds.\<close>

lemma known_in_bucket:
  assumes "distance (replicate 64 1) (replicate 64 2) \<noteq> 0"
  shows "\<exists>s k. nt_step net_env 7 0 (Add (sample_node 2) Known) (NodeTable_new (sample_node 1) True None) = Some s
    \<and> k < 255 \<and> nt_state s ! k = [0]"
proof -
  let ?t = "NodeTable_new (sample_node 1) True None"
  let ?e = "(NodeEntry_new (replicate 64 1) (replicate 64 2) sample_endpoint)\<lparr>ne_pending := False\<rparr>"
  let ?u = "snd (new_entry ?e ?t)" and ?from = "ep_udp sample_endpoint"
  let ?f = "refreshed ?u 0 ?from"
  have own: "nd_id (nt_node ?t) = replicate 64 1" by (simp add: NodeTable_new_def sample_id)
  have ok: "table_ok ?u" by (rule new_entry_ok [OF new_ok]) (simp add: entry_ok_def NodeEntry_new_def own)
  have u: "fst (new_entry ?e ?t) = 0" "nodeEntry ?u (replicate 64 2) = Some 0" "nd_id (nt_node ?u) = replicate 64 1" "entry_of ?u 0 = ?e"
    "\<And>k. k < 255 \<Longrightarrow> nt_state ?u ! k = []" "length (nt_state ?u) = 255"
    using own by (simp_all add: new_entry_def NodeTable_new_def nodeEntry_def NodeEntry_new_def s_bins_def)
  have al: "ep_isAllowed (pe_allowLocal net_env) \<lparr>ep_address = fst ?from, ep_udpPort = snd ?from, ep_tcpPort = snd ?from\<rparr>"
    using sample_given(1) by (simp add: ep_isAllowed_def net_env_def ep_udp_def ep_given_def)
  have d: "ne_distance ?f = distance (replicate 64 1) (replicate 64 2)" unfolding refreshed_def u(4) by (simp add: NodeEntry_new_def)
  then have k: "bucket_index ?f < 255" using bucket_index_bound [OF d] assms by (simp add: s_bins_def)
  have ne: "replicate 64 2 \<noteq> nd_id (nt_node ?u)" and pend: "\<not> ne_pending (entry_of ?u 0)"
    unfolding u(3,4) by (simp_all add: sample_id(4))
  have "noteActiveNode net_env 7 0 (replicate 64 2) ?from ?u = Some (noted net_env 7 0 0 ?f [] (set_entry 0 ?f ?u))"
    unfolding noteActiveNode_noted [OF ok ne al u(2) pend] d u(5) [OF k] using assms by simp
  then have "nt_step net_env 7 0 (Add (sample_node 2) Known) ?t
      = Some ((noted net_env 7 0 0 ?f [] (set_entry 0 ?f ?u))\<lparr>nt_held := [0] @ nt_held (noted net_env 7 0 0 ?f [] (set_entry 0 ?f ?u))\<rparr>)"
    using u(1) by (simp add: addNode_def Let_def sample_id own case_prod_beta)
  moreover have "nt_state (noted net_env 7 0 0 ?f [] (set_entry 0 ?f ?u)) ! bucket_index ?f = [0]"
    using k u(6) by (simp add: noted_def s_bucketSize_def appendEvent_def set_bucket_def set_entry_def split: option.split)
  ultimately show ?thesis using k by auto
qed

text \<open>C10: whatever calls, packets and timers a node table has seen, each of its 255 buckets holds at most 16 entries, no entry object twice,
  each in the bucket of its distance, and only entries of other nodes that are not pending. Not pending is weaker than having answered:
  a pong clears the flag of an entry, but \<open>addNode\<close> makes the entry of a \<open>Known\<close> node without it. And an entry is an object: adding a known
  node a second time makes a second one, so that one node may have two entries in its bucket.\<close>

theorem table_sound:
  assumes "reach E now s" "k < 255"
  shows "length (nt_state s ! k) \<le> 16 \<and> distinct (nt_state s ! k) \<and> length (nt_state s) = 255
    \<and> set (nt_state s ! k) \<subseteq> {a. a < length (nt_entries s) \<and> nd_id (entry_of s a) \<noteq> nd_id (nt_node s) \<and> \<not> ne_pending (entry_of s a)
        \<and> unat (distance (nd_id (nt_node s)) (nd_id (entry_of s a))) = k + 1}"
proof -
  have t: "table_ok s" using reach_ok [OF assms(1)] by blast
  then have b: "bucket_ok s k (nt_state s ! k)" using assms(2) by (simp add: table_ok_def s_bins_def)
  have "unat (distance (nd_id (nt_node s)) (nd_id (entry_of s a))) = k + 1" if "a \<in> set (nt_state s ! k)" for a
  proof -
    have a: "a < length (nt_entries s)" "bucket_index (entry_of s a) = k" using b that by (auto simp: bucket_ok_def)
    then have e: "ne_distance (entry_of s a) = distance (nd_id (nt_node s)) (nd_id (entry_of s a))" using t by (simp add: table_ok_def entry_ok_def)
    then have "ne_distance (entry_of s a) \<noteq> 0" using bucket_index_bound [OF e] a(2) assms(2) by (simp add: s_bins_def)
    then have "unat (ne_distance (entry_of s a) - 1) + 1 = unat (ne_distance (entry_of s a))"
      by (metis Suc_eq_plus1 unat_eq_zero unat_minus_one Suc_pred' neq0_conv)
    then show ?thesis using a(2) by (simp add: bucket_index_def e)
  qed
  with b t show ?thesis by (auto simp: bucket_ok_def s_bucketSize_def table_ok_def s_bins_def)
qed

theorem table_sound_witness:
  "distance (replicate 64 1) (replicate 64 2) = 0
    \<or> (\<exists>s k. nt_step net_env 7 0 (Add (sample_node 2) Known) (NodeTable_new (sample_node 1) True None) = Some s
         \<and> nt_state s ! k = [0] \<and> nd_id (entry_of s 0) \<noteq> nd_id (nt_node s)
         \<and> unat (distance (nd_id (nt_node s)) (nd_id (entry_of s 0))) = k + 1)"
proof (cases "distance (replicate 64 1) (replicate 64 2) = 0")
  case False
  then obtain s k where s: "nt_step net_env 7 0 (Add (sample_node 2) Known) (NodeTable_new (sample_node 1) True None) = Some s"
    "k < 255" "nt_state s ! k = [0]" using known_in_bucket by blast
  have "reach net_env 7 s" by (rule step [OF init [where now = 7] _ s(1)]) simp
  from table_sound [OF this s(2)] s show ?thesis by auto
qed simp

text \<open>C22: noting that a node is active, if the node is known, has answered and is not the table's own: at distance 0 the code
  reads a bucket out of bounds; otherwise, if the node is in its bucket, it goes to the end of the bucket and every node that came
  after it is lost; if it is not there and the bucket has room, it is appended and an event is noted; if the bucket is full
  and its first node is alive, the bucket stays and the eviction of the first node begins; if that node is gone, it
  is replaced. The address of the node is updated in every case.\<close>

theorem note_active:
  assumes "table_ok s" "pubk \<noteq> nd_id (nt_node s)"
    and "ep_isAllowed (pe_allowLocal E) \<lparr>ep_address = fst from, ep_udpPort = snd from, ep_tcpPort = snd from\<rparr>"
    and "nodeEntry s pubk = Some a" "\<not> ne_pending (entry_of s a)"
  shows "noteActiveNode E now epoch pubk from s =
    (let e = refreshed s a from; s1 = set_entry a e s; b = nt_state s ! bucket_index e in
     if ne_distance e = 0 then None
     else Some (if a \<in> set b then set_bucket e (takeWhile (\<lambda>c. c \<noteq> a) b @ [a]) s1
       else if length b < 16 then appendEvent (nd_id e) NodeEntryAdded (set_bucket e (b @ [a]) s1)
       else if alive s1 (hd b) then evict E now epoch (hd b) a (set_bucket e b s1)
       else appendEvent (nd_id e) NodeEntryAdded (set_bucket e (tl b @ [a]) s1)))"
  using noteActiveNode_noted [OF assms, of now epoch] by (simp add: Let_def noted_def s_bucketSize_def)

theorem note_active_witness:
  "noteActiveNode net_env 7 0 (replicate 64 2) (V4 [8, 8, 4, 4], 1) sample_table = None
    \<or> (\<exists>s k. noteActiveNode net_env 7 0 (replicate 64 2) (V4 [8, 8, 4, 4], 1) sample_table = Some s \<and> nt_state s ! k = [0])"
proof -
  have n: "nodeEntry sample_table (replicate 64 2) = Some 0" "nt_node sample_table = sample_node 1" "\<not> ne_pending (entry_of sample_table 0)"
    by (simp_all add: nodeEntry_def sample_table_def NodeTable_new_def)
  have own: "replicate 64 2 \<noteq> nd_id (nt_node sample_table)" by (simp add: n sample_node_def)
  have al: "ep_isAllowed (pe_allowLocal net_env) \<lparr>ep_address = fst (V4 [8, 8, 4, 4], 1), ep_udpPort = snd (V4 [8, 8, 4, 4], 1), ep_tcpPort = snd (V4 [8, 8, 4, 4], 1)\<rparr>"
    using sample_given(2) by (simp add: ep_isAllowed_def net_env_def del: is_unspecified.simps)
  have b: "nt_state sample_table ! k = []" if "k < 255" for k using that by (simp add: sample_table_def NodeTable_new_def s_bins_def)
  let ?e = "refreshed sample_table 0 (V4 [8, 8, 4, 4], 1)"
  have d: "ne_distance (entry_of sample_table 0) = distance (replicate 64 1) (replicate 64 2)"
    by (simp add: sample_table_def NodeEntry_new_def)
  show ?thesis
  proof (cases "ne_distance ?e = 0")
    case True
    with note_active [OF sample_table_ok own al n(1,3)] show ?thesis by (simp add: Let_def)
  next
    case False
    then have k: "bucket_index ?e < 255" using bucket_index_bound [OF d] by (simp add: s_bins_def)
    have "nt_state (set_bucket ?e [0] (set_entry 0 ?e sample_table)) ! bucket_index ?e = [0]"
      using k by (simp add: set_bucket_def set_entry_def sample_table_def NodeTable_new_def s_bins_def)
    with note_active [OF sample_table_ok own al n(1,3)] False b [OF k] show ?thesis
      by (auto simp: Let_def appendEvent_def split: option.split)
  qed
qed

text \<open>An eviction that was begun never ends: no call, packet or timer removes an entry from the list of evictions, since a pong is
  looked up among the evictions whose time point lies in the future and each has the time it began.\<close>

lemma evictions_stay:
  assumes "reach E now s" "now \<le> now'" "nt_step E now' epoch ev s = Some s'"
  shows "\<exists>es. nt_evictions s' = nt_evictions s @ es \<and> set es \<subseteq> {e. snd (fst e) = now'}"
proof -
  have "table_ok s" "\<forall>e \<in> set (nt_evictions s). snd (fst e) \<le> now'" using reach_ok [OF assms(1)] assms(2) by auto
  from step_evolves [OF this assms(3)] show ?thesis unfolding evolves_def by blast
qed

text \<open>C31: a signed datagram of any of the four kinds is read back by the receiver as it was, with the key of the sender
  (but for the version of a ping, which no code looks at and a datagram does not keep).\<close>

theorem datagram_roundtrip:
  assumes "p2p_ok E" "packet_ok (dg_packet d)" "pe_toPublic E (pe_secret E) \<noteq> zero_hash 64"
  shows "interpretUDP E (dg_sign E d) = Inr (Some \<lparr>in_sourceid = pe_toPublic E (pe_secret E),
    in_echo = sha3 (drop 32 (dg_sign E d)), in_datagram = d\<rparr>)"
  by (rule p2p_lib.interpret_sign [OF p2p_lib.intro [OF assms(1)] assms(2,3)])

theorem datagram_roundtrip_witness:
  "\<exists>echo. interpretUDP net_env (dg_sign net_env (outgoing 5 (PingNode sample_endpoint sample_endpoint)))
    = Inr (Some \<lparr>in_sourceid = replicate 64 1, in_echo = echo, in_datagram = outgoing 5 (PingNode sample_endpoint sample_endpoint)\<rparr>)"
proof -
  have "packet_ok (dg_packet (outgoing 5 (PingNode sample_endpoint sample_endpoint)))" by (simp add: outgoing_def ep_ok_def sample_endpoint_def)
  moreover have pk: "pe_toPublic net_env k = replicate 64 1" for k by (simp add: net_env_def)
  moreover have "replicate 64 (1 :: byte) \<noteq> zero_hash 64" by (simp add: zero_hash_def)
  ultimately show ?thesis
    using datagram_roundtrip [OF net_env_ok, of "outgoing 5 (PingNode sample_endpoint sample_endpoint)"] by auto
qed

section \<open>The nearest nodes\<close>













end
