(* ===== verification/BlockHeader.thy ===== *)
theory BlockHeader
  imports SealEngine TrieHash
begin

text \<open>
  Block headers (\<open>libethcore/BlockHeader.h\<close> and \<open>.cpp\<close>), and what every seal engine does with them (\<open>SealEngine.h\<close>
  and \<open>.cpp\<close>). The two memoised hashes are
  \<open>mutable\<close> members and other code reads them directly, so they are fields, with all zero for a hash not computed, and \<open>hash\<close>
  returns the header it leaves. Items that were appended raw are the items they encode.
\<close>

section \<open>Headers\<close>

datatype IncludeSeal = WithoutSeal | WithSeal | OnlySeal
datatype Strictness = SCheckEverything | JustSeal | QuickNonce | IgnoreSeal | CheckNothingNew
datatype BlockDataType = HeaderData | BlockData

datatype header_exception = BadHeaderField nat | InvalidBlockFormat nat | InvalidNumber | TooMuchGasUsed | InvalidParentHash
  | InvalidTimestamp | InvalidTransactionsRoot | InvalidUnclesHash | InvalidBlockNonce

record BlockHeader =
  h_parentHash :: h256
  h_sha3Uncles :: h256
  h_stateRoot :: h256
  h_transactionsRoot :: h256
  h_receiptsRoot :: h256
  h_logBloom :: bytes
  h_number :: u256
  h_gasLimit :: u256
  h_gasUsed :: u256
  h_extraData :: bytes
  h_timestamp :: u256
  h_author :: address
  h_difficulty :: u256
  h_seal :: "bytes list"
  h_hash :: h256
  h_hashWithout :: h256
  h_gen_idx :: u256
  h_node_list :: "bytes list"

definition BasicFields :: nat where "BasicFields = 13"

definition Invalid256 :: u256 where "Invalid256 = - 1"

definition EmptyListSHA3 :: "'i rlp \<Rightarrow> h256" where
  "EmptyListSHA3 R = sha3 (rlp_data R (rlp_list R []))"

definition EmptyTrie :: "'i rlp \<Rightarrow> h256" where
  "EmptyTrie R = sha3 (rlp_data R (rlp_bytes R []))"

definition BlockHeader_new :: BlockHeader where
  "BlockHeader_new = \<lparr>h_parentHash = zero_hash 32, h_sha3Uncles = zero_hash 32, h_stateRoot = zero_hash 32,
     h_transactionsRoot = zero_hash 32, h_receiptsRoot = zero_hash 32, h_logBloom = zero_hash 256, h_number = 0, h_gasLimit = 0,
     h_gasUsed = 0, h_extraData = [], h_timestamp = Invalid256, h_author = 0, h_difficulty = 0, h_seal = [],
     h_hash = zero_hash 32, h_hashWithout = zero_hash 32, h_gen_idx = 0, h_node_list = []\<rparr>"

definition header_bool :: "BlockHeader \<Rightarrow> bool" where
  "header_bool h \<longleftrightarrow> h_timestamp h \<noteq> Invalid256"

text \<open>\<open>operator==\<close>: neither seals nor the fields that are never written count.\<close>

definition header_eq :: "BlockHeader \<Rightarrow> BlockHeader \<Rightarrow> bool" where
  "header_eq a b \<longleftrightarrow> h_parentHash a = h_parentHash b \<and> h_sha3Uncles a = h_sha3Uncles b \<and> h_author a = h_author b
     \<and> h_stateRoot a = h_stateRoot b \<and> h_transactionsRoot a = h_transactionsRoot b \<and> h_receiptsRoot a = h_receiptsRoot b
     \<and> h_logBloom a = h_logBloom b \<and> h_difficulty a = h_difficulty b \<and> h_number a = h_number b \<and> h_gasLimit a = h_gasLimit b
     \<and> h_gasUsed a = h_gasUsed b \<and> h_timestamp a = h_timestamp b \<and> h_extraData a = h_extraData b"

definition noteDirty :: "BlockHeader \<Rightarrow> BlockHeader" where
  "noteDirty h = h\<lparr>h_hashWithout := zero_hash 32, h_hash := zero_hash 32\<rparr>"

definition header_clear :: "'i rlp \<Rightarrow> BlockHeader \<Rightarrow> BlockHeader" where
  "header_clear R h = noteDirty (h\<lparr>h_parentHash := zero_hash 32, h_sha3Uncles := EmptyListSHA3 R, h_author := 0,
     h_stateRoot := EmptyTrie R, h_transactionsRoot := EmptyTrie R, h_receiptsRoot := EmptyTrie R, h_logBloom := zero_hash 256,
     h_difficulty := 0, h_number := 0, h_gasLimit := 0, h_gasUsed := 0, h_timestamp := Invalid256, h_extraData := [], h_seal := []\<rparr>)"

section \<open>Setters\<close>

definition setParentHash :: "h256 \<Rightarrow> BlockHeader \<Rightarrow> BlockHeader" where
  "setParentHash v h = noteDirty (h\<lparr>h_parentHash := v\<rparr>)"

definition setSha3Uncles :: "h256 \<Rightarrow> BlockHeader \<Rightarrow> BlockHeader" where
  "setSha3Uncles v h = noteDirty (h\<lparr>h_sha3Uncles := v\<rparr>)"

definition setTimestamp :: "u256 \<Rightarrow> BlockHeader \<Rightarrow> BlockHeader" where
  "setTimestamp v h = noteDirty (h\<lparr>h_timestamp := v\<rparr>)"

definition setAuthor :: "address \<Rightarrow> BlockHeader \<Rightarrow> BlockHeader" where
  "setAuthor v h = noteDirty (h\<lparr>h_author := v\<rparr>)"

definition setRoots :: "h256 \<Rightarrow> h256 \<Rightarrow> h256 \<Rightarrow> h256 \<Rightarrow> BlockHeader \<Rightarrow> BlockHeader" where
  "setRoots t r u s h = noteDirty (h\<lparr>h_transactionsRoot := t, h_receiptsRoot := r, h_stateRoot := s, h_sha3Uncles := u\<rparr>)"

definition setGasUsed :: "u256 \<Rightarrow> BlockHeader \<Rightarrow> BlockHeader" where
  "setGasUsed v h = noteDirty (h\<lparr>h_gasUsed := v\<rparr>)"

definition setNumber :: "u256 \<Rightarrow> BlockHeader \<Rightarrow> BlockHeader" where
  "setNumber v h = noteDirty (h\<lparr>h_number := v\<rparr>)"

definition setGasLimit :: "u256 \<Rightarrow> BlockHeader \<Rightarrow> BlockHeader" where
  "setGasLimit v h = noteDirty (h\<lparr>h_gasLimit := v\<rparr>)"

definition setExtraData :: "bytes \<Rightarrow> BlockHeader \<Rightarrow> BlockHeader" where
  "setExtraData v h = noteDirty (h\<lparr>h_extraData := v\<rparr>)"

definition setLogBloom :: "bytes \<Rightarrow> BlockHeader \<Rightarrow> BlockHeader" where
  "setLogBloom v h = noteDirty (h\<lparr>h_logBloom := v\<rparr>)"

definition setDifficulty :: "u256 \<Rightarrow> BlockHeader \<Rightarrow> BlockHeader" where
  "setDifficulty v h = noteDirty (h\<lparr>h_difficulty := v\<rparr>)"

text \<open>The new value is given as its encoding.\<close>

definition setSeal :: "nat \<Rightarrow> bytes \<Rightarrow> BlockHeader \<Rightarrow> BlockHeader" where
  "setSeal i v h = noteDirty (h\<lparr>h_seal := (h_seal h @ replicate (Suc i - length (h_seal h)) [])[i := v]\<rparr>)"

definition setIndex :: "u256 \<Rightarrow> BlockHeader \<Rightarrow> BlockHeader" where
  "setIndex v h = noteDirty (h\<lparr>h_gen_idx := v\<rparr>)"

definition setNodeList :: "bytes list \<Rightarrow> BlockHeader \<Rightarrow> BlockHeader" where
  "setNodeList v h = noteDirty (h\<lparr>h_node_list := v\<rparr>)"

definition hasUncles :: "'i rlp \<Rightarrow> BlockHeader \<Rightarrow> bool" where
  "hasUncles R h \<longleftrightarrow> h_sha3Uncles h \<noteq> EmptyListSHA3 R"

section \<open>Serialisation\<close>

definition header_fields :: "'i rlp \<Rightarrow> BlockHeader \<Rightarrow> 'i list" where
  "header_fields R h = [rlp_bytes R (h_parentHash h), rlp_bytes R (h_sha3Uncles h), rlp_bytes R (toBigEndian 20 (h_author h)),
     rlp_bytes R (h_stateRoot h), rlp_bytes R (h_transactionsRoot h), rlp_bytes R (h_receiptsRoot h), rlp_bytes R (h_logBloom h),
     rlp_int R (uint (h_difficulty h)), rlp_int R (uint (h_number h)), rlp_int R (uint (h_gasLimit h)),
     rlp_int R (uint (h_gasUsed h)), rlp_int R (uint (h_timestamp h)), rlp_bytes R (h_extraData h)]"

definition header_stream :: "'i rlp \<Rightarrow> IncludeSeal \<Rightarrow> BlockHeader \<Rightarrow> bytes" where
  "header_stream R i h = (case i of
     OnlySeal \<Rightarrow> concat (h_seal h)
   | WithoutSeal \<Rightarrow> rlp_data R (rlp_list R (header_fields R h))
   | WithSeal \<Rightarrow> rlp_data R (rlp_list R (header_fields R h @ map (rlp_parse R) (h_seal h))))"

definition header_hash :: "'i rlp \<Rightarrow> IncludeSeal \<Rightarrow> BlockHeader \<Rightarrow> h256 \<times> BlockHeader" where
  "header_hash R i h =
     (let memo = (case i of WithSeal \<Rightarrow> h_hash h | WithoutSeal \<Rightarrow> h_hashWithout h | OnlySeal \<Rightarrow> zero_hash 32)
      in if memo \<noteq> zero_hash 32 then (memo, h)
         else let v = sha3 (header_stream R i h)
              in (v, case i of WithSeal \<Rightarrow> h\<lparr>h_hash := v\<rparr> | WithoutSeal \<Rightarrow> h\<lparr>h_hashWithout := v\<rparr> | OnlySeal \<Rightarrow> h))"

definition field :: "'a option \<Rightarrow> nat \<Rightarrow> header_exception + 'a" where
  "field r i = need (BadHeaderField i) r"

definition header_populate :: "'i rlp \<Rightarrow> 'i \<Rightarrow> BlockHeader \<Rightarrow> header_exception + BlockHeader" where
  "header_populate R it h =
     andThen (field (rlp_toHash R 32 (rlp_at R it 0)) 0) (\<lambda>parentHash.
     andThen (field (rlp_toHash R 32 (rlp_at R it 1)) 1) (\<lambda>uncles.
     andThen (field (rlp_toHash R 20 (rlp_at R it 2)) 2) (\<lambda>author.
     andThen (field (rlp_toHash R 32 (rlp_at R it 3)) 3) (\<lambda>stateRoot.
     andThen (field (rlp_toHash R 32 (rlp_at R it 4)) 4) (\<lambda>transactionsRoot.
     andThen (field (rlp_toHash R 32 (rlp_at R it 5)) 5) (\<lambda>receiptsRoot.
     andThen (field (rlp_toHash R 256 (rlp_at R it 6)) 6) (\<lambda>bloom.
     andThen (field (rlp_toU256 R (rlp_at R it 7)) 7) (\<lambda>difficulty.
     andThen (field (rlp_toU256 R (rlp_at R it 8)) 8) (\<lambda>number.
     andThen (field (rlp_toU256 R (rlp_at R it 9)) 9) (\<lambda>gasLimit.
     andThen (field (rlp_toU256 R (rlp_at R it 10)) 10) (\<lambda>gasUsed.
     andThen (field (rlp_toU256 R (rlp_at R it 11)) 11) (\<lambda>timestamp.
     Inr (h\<lparr>h_parentHash := parentHash, h_sha3Uncles := uncles, h_author := fromBigEndian author, h_stateRoot := stateRoot,
       h_transactionsRoot := transactionsRoot, h_receiptsRoot := receiptsRoot, h_logBloom := bloom, h_difficulty := difficulty,
       h_number := number, h_gasLimit := gasLimit, h_gasUsed := gasUsed, h_timestamp := timestamp,
       h_extraData := rlp_toBytes R (rlp_at R it 12),
       h_seal := map (\<lambda>i. rlp_data R (rlp_at R it i)) [13..<rlp_itemCount R it]\<rparr>)))))))))))))"

definition extractHeader :: "'i rlp \<Rightarrow> bytes \<Rightarrow> header_exception + 'i" where
  "extractHeader R block =
     (let root = rlp_parse R block in
      andThen (ensure (rlp_isList R root) (InvalidBlockFormat 0)) (\<lambda>_.
      andThen (ensure (rlp_isList R (rlp_at R root 0)) (InvalidBlockFormat 0)) (\<lambda>_.
      andThen (ensure (rlp_isList R (rlp_at R root 1)) (InvalidBlockFormat 1)) (\<lambda>_.
      andThen (ensure (rlp_isList R (rlp_at R root 2)) (InvalidBlockFormat 2)) (\<lambda>_.
      Inr (rlp_at R root 0))))))"

definition headerHashFromBlock :: "'i rlp \<Rightarrow> bytes \<Rightarrow> h256" where
  "headerHashFromBlock R block = sha3 (rlp_data R (rlp_at R (rlp_parse R block) 0))"

definition BlockHeader_of :: "'i rlp \<Rightarrow> BlockDataType \<Rightarrow> h256 \<Rightarrow> bytes \<Rightarrow> header_exception + BlockHeader" where
  "BlockHeader_of R bdt hashWith block =
     andThen (if bdt = BlockData then extractHeader R block else Inr (rlp_parse R block)) (\<lambda>header.
     header_populate R header (BlockHeader_new\<lparr>h_hash := if hashWith \<noteq> zero_hash 32 then hashWith else sha3 (rlp_data R header)\<rparr>))"

section \<open>Parents and checks\<close>

text \<open>The child takes the hash its parent has memoised, if any, and keeps its own.\<close>

definition header_populateFromParent :: "BlockHeader \<Rightarrow> BlockHeader \<Rightarrow> BlockHeader" where
  "header_populateFromParent parent h = h\<lparr>h_stateRoot := h_stateRoot parent, h_number := h_number parent + 1,
     h_parentHash := h_hash parent, h_gasLimit := h_gasLimit parent, h_difficulty := 1, h_gasUsed := 0\<rparr>"

definition verify_parent :: "'i rlp \<Rightarrow> BlockHeader \<Rightarrow> BlockHeader \<Rightarrow> header_exception + unit" where
  "verify_parent R parent h =
     andThen (ensure (\<not> (h_parentHash h \<noteq> zero_hash 32 \<and> fst (header_hash R WithSeal parent) \<noteq> h_parentHash h)) InvalidParentHash) (\<lambda>_.
     andThen (ensure (h_timestamp h > h_timestamp parent) InvalidTimestamp) (\<lambda>_.
     ensure (h_number h = h_number parent + 1) InvalidNumber))"

definition verify_block :: "'i rlp \<Rightarrow> bytes \<Rightarrow> BlockHeader \<Rightarrow> header_exception + unit" where
  "verify_block R block h =
     (let root = rlp_parse R block; txList = rlp_at R root 1;
          expectedRoot = trieRootOver R (rlp_itemCount R txList) (\<lambda>i. rlp_data R (rlp_int R (int i)))
            (\<lambda>i. rlp_data R (rlp_at R txList i)) in
      andThen (ensure (h_transactionsRoot h = expectedRoot) InvalidTransactionsRoot) (\<lambda>_.
      ensure (h_sha3Uncles h = sha3 (rlp_data R (rlp_at R root 2))) InvalidUnclesHash))"

text \<open>A default-constructed parent and an empty block stand for none. What the hash of the parent memoises is left out: the
  callers' parents come with their hash.\<close>

definition header_verify :: "'i rlp \<Rightarrow> Strictness \<Rightarrow> BlockHeader \<Rightarrow> bytes \<Rightarrow> BlockHeader \<Rightarrow> header_exception + unit" where
  "header_verify R s parent block h =
     andThen (ensure (\<not> h_number h > 0xffffffff) InvalidNumber) (\<lambda>_.
     andThen (ensure (\<not> (s \<noteq> CheckNothingNew \<and> h_gasUsed h > h_gasLimit h)) TooMuchGasUsed) (\<lambda>_.
     andThen (if header_bool parent then verify_parent R parent h else Inr ()) (\<lambda>_.
     if block \<noteq> [] then verify_block R block h else Inr ())))"

end
