(* ===== verification/Block.thy ===== *)
theory Block
  imports BlockHeader Executive
begin

text \<open>
  The block being worked on (\<open>libethereum/Block.h\<close> and \<open>Block.cpp\<close>): transactions are executed on it, it is sealed, or the
  blocks of others are played back on it. Not in the repository, so parameters: the accounts (\<open>State.h\<close>: \<open>chain_state\<close>, which
  extends \<open>state_ops\<close>), the chain (\<open>BlockChain.cpp\<close>: \<open>chain\<close>), the queue of transactions (\<open>TransactionQueue.cpp\<close>: \<open>queue\<close>)
  and what a receipt writes (\<open>TransactionReceipt.cpp\<close>).

  Operations give \<open>Inl\<close> of an exception and the block as the throw leaves it, or \<open>Inr\<close>. What C++ leaves undefined is the
  exception \<open>Undefined\<close>. Logging, timing and the assertions of debug builds are left out; the hashes that headers memoise are not,
  as a child takes what its parent has memoised.
\<close>

section \<open>The world of a block\<close>

datatype Permanence = Reverted | Committed

text \<open>What \<open>State::execute\<close> throws, with the error information that is read.\<close>

datatype exec_exception = XInvalidNonce int int | XBlockGasLimitReached int | XException | XStdException

datatype block_exception = InvalidOperationOnSealedBlock | ChainOperationWithUnknownBlockChain | BlockNotFound | InvalidRoot
  | HeaderThrown header_exception | TransactionThrown eth_exception | ExecutionThrown exec_exception | VerifyThrown
  | InvalidReceiptsStateRoot | InvalidLogBloom | TooManyUncles | UncleInChain | UnknownParent | UncleTooOld | UncleIsBrother
  | UncleParentNotInChain | InvalidStateRoot | InvalidGasUsed | Undefined

record 'l TransactionReceipt =
  rc_stateRoot :: h256
  rc_gasUsed :: u256
  rc_bloom :: bytes
  rc_log :: "'l list"

text \<open>What a block calls of its seal engine.\<close>

record seal_engine =
  se_params :: ChainParams
  se_populateFromParent :: "BlockHeader \<Rightarrow> BlockHeader \<Rightarrow> BlockHeader"

text \<open>Executing takes the seal engine; \<open>EnvInfo\<close> is made of a header, the last hashes and the gas used.\<close>

record ('w, 'l) chain_state = "'w state_ops" +
  sb_execute :: "seal_engine \<Rightarrow> BlockHeader \<Rightarrow> h256 list \<Rightarrow> u256 \<Rightarrow> TransactionBase \<Rightarrow> Permanence \<Rightarrow> 'w
    \<Rightarrow> (exec_exception \<times> 'w) + (ExecutionResult \<times> 'l TransactionReceipt \<times> 'w)"
  sb_rootHash :: "'w \<Rightarrow> h256"
  sb_setRoot :: "h256 \<Rightarrow> 'w \<Rightarrow> 'w option"
  sb_commit :: "bool \<Rightarrow> 'w \<Rightarrow> 'w"
  sb_db_commit :: "'w \<Rightarrow> 'w"
  sb_db_rollback :: "'w \<Rightarrow> 'w"
  sb_db_lookup :: "h256 \<Rightarrow> 'w \<Rightarrow> bytes"
  sb_empty :: "'w \<Rightarrow> 'w"
  sb_noteAccountStartNonce :: "u256 \<Rightarrow> 'w \<Rightarrow> 'w"

record VerifiedBlockRef =
  vb_block :: bytes
  vb_info :: BlockHeader
  vb_transactions :: "TransactionBase list"

record BlockDetails =
  bd_number :: u32
  bd_totalDifficulty :: u256
  bd_parent :: h256
  bd_children :: "h256 list"

definition NoProof :: "ChainParams \<Rightarrow> seal_engine" where
  "NoProof P = \<lparr>se_params = P, se_populateFromParent = header_populateFromParent\<rparr>"

record chain =
  bc_params :: ChainParams
  bc_engine :: seal_engine
  bc_genesisHash :: h256
  bc_currentHash :: h256
  bc_isKnown :: "h256 \<Rightarrow> bool"
  bc_block :: "h256 \<Rightarrow> bytes"
  bc_headerData :: "h256 \<Rightarrow> bytes"
  bc_details :: "h256 \<Rightarrow> BlockDetails"
  bc_allKinFrom :: "h256 \<Rightarrow> nat \<Rightarrow> h256 list"
  bc_lastHashes :: "h256 \<Rightarrow> h256 list"
  bc_verifyBlock :: "bytes \<Rightarrow> u32 \<Rightarrow> VerifiedBlockRef option"

record 'q queue =
  tq_topTransactions :: "nat \<Rightarrow> h256 set \<Rightarrow> 'q \<Rightarrow> TransactionBase list"
  tq_drop :: "h256 \<Rightarrow> 'q \<Rightarrow> 'q"
  tq_setFuture :: "h256 \<Rightarrow> 'q \<Rightarrow> 'q"
  tq_waiting :: "address \<Rightarrow> 'q \<Rightarrow> u32"

record ('w, 'l, 'i) blk_env =
  be_rlp :: "'i rlp"
  be_crypto :: crypto
  be_st :: "('w, 'l) chain_state"
  be_receipt :: "'l TransactionReceipt \<Rightarrow> bytes"
  be_childDaos :: "address list"

section \<open>State\<close>

record ('w, 'l) block =
  b_state :: 'w
  b_transactions :: "TransactionBase list"
  b_receipts :: "'l TransactionReceipt list"
  b_transactionSet :: "h256 set"
  b_precommit :: 'w
  b_previousBlock :: BlockHeader
  b_currentBlock :: BlockHeader
  b_currentBytes :: bytes
  b_committedToSeal :: bool
  b_currentTxs :: bytes
  b_currentUncles :: bytes
  b_author :: address
  b_sealEngine :: "seal_engine option"

type_synonym ('w, 'l) thrown = "block_exception \<times> ('w, 'l) block"

definition throw :: "block_exception \<Rightarrow> ('w, 'l) block \<Rightarrow> ('w, 'l) thrown + 'a" where
  "throw e b = Inl (e, b)"

definition t_sha3 :: "('w, 'l, 'i) blk_env \<Rightarrow> TransactionBase \<Rightarrow> h256" where
  "t_sha3 E t = fst (tx_sha3 (be_rlp E) WithSignature t)"

definition t_noted :: "('w, 'l, 'i) blk_env \<Rightarrow> TransactionBase \<Rightarrow> TransactionBase" where
  "t_noted E t = snd (tx_sha3 (be_rlp E) WithSignature t)"

text \<open>A result that may throw, used from a block.\<close>

definition lift_header :: "('w, 'l) block \<Rightarrow> header_exception + 'a \<Rightarrow> ('w, 'l) thrown + 'a" where
  "lift_header b r = (case r of Inl e \<Rightarrow> Inl (HeaderThrown e, b) | Inr x \<Rightarrow> Inr x)"

definition bc_info :: "('w, 'l, 'i) blk_env \<Rightarrow> chain \<Rightarrow> h256 \<Rightarrow> header_exception + BlockHeader" where
  "bc_info E C h = BlockHeader_of (be_rlp E) HeaderData (zero_hash 32) (bc_headerData C h)"

definition isSealed :: "('w, 'l) block \<Rightarrow> bool" where
  "isSealed b \<longleftrightarrow> b_currentBytes b \<noteq> []"

definition b_gasUsed :: "('w, 'l) block \<Rightarrow> u256" where
  "b_gasUsed b = (if b_receipts b \<noteq> [] then rc_gasUsed (last (b_receipts b)) else 0)"

definition gasLimitRemaining :: "('w, 'l) block \<Rightarrow> u256" where
  "gasLimitRemaining b = h_gasLimit (b_currentBlock b) - b_gasUsed b"

definition logBloom :: "('w, 'l) block \<Rightarrow> bytes" where
  "logBloom b = foldl (\<lambda>ret i. hash_or ret (rc_bloom i)) (zero_hash 256) (b_receipts b)"

section \<open>Making and resetting blocks\<close>

text \<open>A block with the accounts \<open>w\<close>, on no chain.\<close>

definition Block_null :: "'w \<Rightarrow> address \<Rightarrow> ('w, 'l) block" where
  "Block_null w auth = \<lparr>b_state = w, b_transactions = [], b_receipts = [], b_transactionSet = {}, b_precommit = w,
     b_previousBlock = BlockHeader_new, b_currentBlock = BlockHeader_new, b_currentBytes = [], b_committedToSeal = False,
     b_currentTxs = [], b_currentUncles = [], b_author = auth, b_sealEngine = None\<rparr>"

definition noteChain :: "('w, 'l, 'i) blk_env \<Rightarrow> chain \<Rightarrow> ('w, 'l) block \<Rightarrow> ('w, 'l) block" where
  "noteChain E C b = (if b_sealEngine b = None
     then b\<lparr>b_state := sb_noteAccountStartNonce (be_st E) (accountStartNonce (bc_params C)) (b_state b),
       b_precommit := sb_noteAccountStartNonce (be_st E) (accountStartNonce (bc_params C)) (b_precommit b),
       b_sealEngine := Some (bc_engine C)\<rparr>
     else b)"

definition clear_headers :: "('w, 'l, 'i) blk_env \<Rightarrow> ('w, 'l) block \<Rightarrow> ('w, 'l) block" where
  "clear_headers E b = b\<lparr>b_previousBlock := header_clear (be_rlp E) (b_previousBlock b),
     b_currentBlock := header_clear (be_rlp E) (b_currentBlock b)\<rparr>"

definition Block_of_chain :: "('w, 'l, 'i) blk_env \<Rightarrow> chain \<Rightarrow> 'w \<Rightarrow> 'w \<Rightarrow> address \<Rightarrow> ('w, 'l) block" where
  "Block_of_chain E C w pre auth = clear_headers E (noteChain E C ((Block_null w auth)\<lparr>b_precommit := pre\<rparr>))"

definition Block_of_root :: "('w, 'l, 'i) blk_env \<Rightarrow> chain \<Rightarrow> 'w \<Rightarrow> 'w \<Rightarrow> h256 \<Rightarrow> address \<Rightarrow> ('w, 'l) block option" where
  "Block_of_root E C w pre root auth =
     (let b = noteChain E C ((Block_null w auth)\<lparr>b_precommit := pre\<rparr>)
      in map_option (\<lambda>w. clear_headers E (b\<lparr>b_state := w\<rparr>)) (sb_setRoot (be_st E) root (b_state b)))"

text \<open>A copy has the members of the original but those of sealing; assigning to a block keeps the block's own.\<close>

definition Block_copy :: "('w, 'l) block \<Rightarrow> ('w, 'l) block" where
  "Block_copy s = s\<lparr>b_precommit := b_state s, b_committedToSeal := False, b_currentTxs := [], b_currentUncles := []\<rparr>"

definition Block_assign :: "('w, 'l) block \<Rightarrow> ('w, 'l) block \<Rightarrow> ('w, 'l) block" where
  "Block_assign s b = s\<lparr>b_precommit := b_state s, b_committedToSeal := False, b_currentTxs := b_currentTxs b,
     b_currentUncles := b_currentUncles b\<rparr>"

definition b_engine :: "('w, 'l) block \<Rightarrow> ('w, 'l) thrown + seal_engine" where
  "b_engine b = (case b_sealEngine b of None \<Rightarrow> throw ChainOperationWithUnknownBlockChain b | Some e \<Rightarrow> Inr e)"

definition dao_recipient :: address where
  "dao_recipient = 0xbf4ed7b27f1d666546e30d74d50d173d20bca754"

primrec move_daos :: "('w, 'l, 'i) blk_env \<Rightarrow> address list \<Rightarrow> ('w, 'l) block \<Rightarrow> ('w, 'l) thrown + ('w, 'l) block" where
  "move_daos E [] b = Inr b"
| "move_daos E (d # ds) b =
     (case st_transferBalance (be_st E) d dao_recipient (st_balance (be_st E) d (b_state b)) (b_state b) of
        None \<Rightarrow> throw (TransactionThrown NotEnoughCash) b
      | Some w \<Rightarrow> move_daos E ds (b\<lparr>b_state := w\<rparr>))"

definition performIrregularModifications :: "('w, 'l, 'i) blk_env \<Rightarrow> seal_engine \<Rightarrow> ('w, 'l) block \<Rightarrow> ('w, 'l) thrown + ('w, 'l) block" where
  "performIrregularModifications E e b =
     (let daoHardfork = u256Param (se_params e) ''daoHardforkBlock''
      in if daoHardfork \<noteq> 0 \<and> h_number (b_currentBlock b) = daoHardfork
         then andThen (move_daos E (be_childDaos E) b) (\<lambda>b. Inr (b\<lparr>b_state := sb_commit (be_st E) False (b_state b)\<rparr>))
         else Inr b)"

definition resetCurrentTime :: "u256 \<Rightarrow> ('w, 'l) block \<Rightarrow> ('w, 'l) block" where
  "resetCurrentTime ts b = b\<lparr>b_currentBlock := setTimestamp (max (h_timestamp (b_previousBlock b) + 1) ts) (b_currentBlock b)\<rparr>"

definition b_setIndex :: "u256 \<Rightarrow> ('w, 'l) block \<Rightarrow> ('w, 'l) block" where
  "b_setIndex i b = b\<lparr>b_currentBlock := setIndex i (b_currentBlock b)\<rparr>"

definition b_setNodeList :: "bytes list \<Rightarrow> ('w, 'l) block \<Rightarrow> ('w, 'l) block" where
  "b_setNodeList ns b = b\<lparr>b_currentBlock := setNodeList ns (b_currentBlock b)\<rparr>"

definition cleared :: "u256 \<Rightarrow> ('w, 'l) block \<Rightarrow> ('w, 'l) block" where
  "cleared ts b = resetCurrentTime ts (b\<lparr>b_transactions := [], b_receipts := [], b_transactionSet := {},
     b_currentBlock := setAuthor (b_author b) BlockHeader_new, b_currentBytes := []\<rparr>)"

definition resetCurrent :: "('w, 'l, 'i) blk_env \<Rightarrow> u256 \<Rightarrow> ('w, 'l) block \<Rightarrow> ('w, 'l) thrown + ('w, 'l) block" where
  "resetCurrent E ts b =
     (let b = cleared ts b
      in andThen (b_engine b) (\<lambda>e.
         let b = b\<lparr>b_currentBlock := se_populateFromParent e (b_previousBlock b) (b_currentBlock b)\<rparr>
         in case sb_setRoot (be_st E) (h_stateRoot (b_previousBlock b)) (b_state b) of
              None \<Rightarrow> throw InvalidRoot b
            | Some w \<Rightarrow> performIrregularModifications E e (b\<lparr>b_state := w, b_precommit := w, b_committedToSeal := False\<rparr>)))"

definition b_setAuthor :: "('w, 'l, 'i) blk_env \<Rightarrow> u256 \<Rightarrow> address \<Rightarrow> ('w, 'l) block \<Rightarrow> ('w, 'l) thrown + ('w, 'l) block" where
  "b_setAuthor E now a b = resetCurrent E now (b\<lparr>b_author := a\<rparr>)"

text \<open>To a given block; \<open>bi\<close> is looked up unless it is given. The value says whether the block was reset.\<close>

definition sync_to :: "('w, 'l, 'i) blk_env \<Rightarrow> chain \<Rightarrow> u256 \<Rightarrow> h256 \<Rightarrow> BlockHeader \<Rightarrow> ('w, 'l) block
    \<Rightarrow> ('w, 'l) thrown + bool \<times> ('w, 'l) block" where
  "sync_to E C now h bi b =
     (let b = noteChain E C b in
      andThen (if header_bool bi then Inr bi else lift_header b (bc_info E C h)) (\<lambda>bi.
      if header_eq bi (b_currentBlock b)
      then andThen (resetCurrent E now (b\<lparr>b_previousBlock := b_currentBlock b\<rparr>)) (\<lambda>b. Inr (True, b))
      else if header_eq bi (b_previousBlock b) then Inr (False, b)
      else if sb_db_lookup (be_st E) (h_stateRoot bi) (b_state b) = [] then throw InvalidStateRoot b
      else andThen (resetCurrent E now (b\<lparr>b_previousBlock := bi\<rparr>)) (\<lambda>b. Inr (True, b))))"

definition sync_head :: "('w, 'l, 'i) blk_env \<Rightarrow> chain \<Rightarrow> u256 \<Rightarrow> ('w, 'l) block \<Rightarrow> ('w, 'l) thrown + bool \<times> ('w, 'l) block" where
  "sync_head E C now b = sync_to E C now (bc_currentHash C) BlockHeader_new b"

section \<open>Executing transactions\<close>

definition uncommitToSeal :: "('w, 'l) block \<Rightarrow> ('w, 'l) block" where
  "uncommitToSeal b = (if b_committedToSeal b then b\<lparr>b_state := b_precommit b, b_committedToSeal := False\<rparr> else b)"

text \<open>The pointer to the engine is used without a test: a block on no chain cannot execute.\<close>

definition b_execute :: "('w, 'l, 'i) blk_env \<Rightarrow> h256 list \<Rightarrow> TransactionBase \<Rightarrow> Permanence \<Rightarrow> ('w, 'l) block
    \<Rightarrow> ('w, 'l) thrown + ExecutionResult \<times> ('w, 'l) block" where
  "b_execute E lh t p b =
     (if isSealed b then throw InvalidOperationOnSealedBlock b
      else let b = uncommitToSeal b
           in case b_sealEngine b of None \<Rightarrow> throw Undefined b
              | Some engine \<Rightarrow> (case sb_execute (be_st E) engine (b_currentBlock b) lh (b_gasUsed b) t p (b_state b) of
                    Inl (e, w) \<Rightarrow> throw (ExecutionThrown e) (b\<lparr>b_state := w\<rparr>)
                  | Inr (r, receipt, w) \<Rightarrow>
                      let b = b\<lparr>b_state := w\<rparr>
                      in Inr (r, if p = Committed
                         then b\<lparr>b_transactions := b_transactions b @ [t], b_receipts := b_receipts b @ [receipt],
                           b_transactionSet := insert (t_sha3 E t) (b_transactionSet b)\<rparr>
                         else b)))"

definition c_maxSyncTransactions :: nat where "c_maxSyncTransactions = 1024"

text \<open>What becomes of a transaction whose execution threw.\<close>

definition rejected :: "('w, 'l, 'i) blk_env \<Rightarrow> 'q queue \<Rightarrow> TransactionBase \<Rightarrow> exec_exception \<Rightarrow> ('w, 'l) block \<Rightarrow> 'q
    \<Rightarrow> ('w, 'l) thrown + 'q" where
  "rejected E Q t e b q = (case e of
     XInvalidNonce req got \<Rightarrow>
       if req > got then Inr (tq_drop Q (t_sha3 E t) q)
       else (case tx_sender (be_rlp E) (be_crypto E) t of
               Inl x \<Rightarrow> throw (TransactionThrown x) b
             | Inr (a, _) \<Rightarrow> if got > req + uint (tq_waiting Q a q) then Inr (tq_drop Q (t_sha3 E t) q)
                 else Inr (tq_setFuture Q (t_sha3 E t) q))
   | XBlockGasLimitReached got \<Rightarrow> Inr (if got > uint (h_gasLimit (b_currentBlock b)) then tq_drop Q (t_sha3 E t) q else q)
   | _ \<Rightarrow> Inr (tq_drop Q (t_sha3 E t) q))"

text \<open>The state of the loop: the block, the queue, the new receipts and the count of the good transactions of this pass.\<close>

definition sync_one :: "('w, 'l, 'i) blk_env \<Rightarrow> chain \<Rightarrow> 'q queue \<Rightarrow> (('w, 'l) block \<Rightarrow> u256) \<Rightarrow> TransactionBase
    \<Rightarrow> ('w, 'l) block \<times> 'q \<times> 'l TransactionReceipt list \<times> nat \<Rightarrow> ('w, 'l) thrown + ('w, 'l) block \<times> 'q \<times> 'l TransactionReceipt list \<times> nat" where
  "sync_one E C Q ask t s = (case s of (b, q, rs, good) \<Rightarrow>
     if t_sha3 E t \<in> b_transactionSet b then Inr s
     else if t_gasPrice t \<ge> ask b
     then (case b_execute E (bc_lastHashes C (bc_currentHash C)) (t_noted E t) Committed b of
             Inr (_, b) \<Rightarrow> Inr (b, q, rs @ [last (b_receipts b)], Suc good)
           | Inl (ExecutionThrown e, b) \<Rightarrow> andThen (rejected E Q t e b q) (\<lambda>q. Inr (b, q, rs, good))
           | Inl (Undefined, b) \<Rightarrow> throw Undefined b
           | Inl (_, b) \<Rightarrow> Inr (b, tq_drop Q (t_sha3 E t) q, rs, good))
     else if t_gasPrice t < ask b * 9 div 10 then Inr (b, tq_drop Q (t_sha3 E t) q, rs, good)
     else Inr s)"

primrec sync_pass :: "('w, 'l, 'i) blk_env \<Rightarrow> chain \<Rightarrow> 'q queue \<Rightarrow> (('w, 'l) block \<Rightarrow> u256) \<Rightarrow> TransactionBase list
    \<Rightarrow> ('w, 'l) block \<times> 'q \<times> 'l TransactionReceipt list \<times> nat \<Rightarrow> ('w, 'l) thrown + ('w, 'l) block \<times> 'q \<times> 'l TransactionReceipt list \<times> nat" where
  "sync_pass E C Q ask [] s = Inr s"
| "sync_pass E C Q ask (t # ts) s = andThen (sync_one E C Q ask t s) (sync_pass E C Q ask ts)"

text \<open>Passes are made until one of them executes all transactions; the deadline is over after \<open>Suc n\<close> of them.\<close>

primrec sync_passes :: "nat \<Rightarrow> ('w, 'l, 'i) blk_env \<Rightarrow> chain \<Rightarrow> 'q queue \<Rightarrow> (('w, 'l) block \<Rightarrow> u256) \<Rightarrow> TransactionBase list
    \<Rightarrow> bool \<Rightarrow> ('w, 'l) block \<times> 'q \<times> 'l TransactionReceipt list
    \<Rightarrow> ('w, 'l) thrown + ('l TransactionReceipt list \<times> bool) \<times> ('w, 'l) block \<times> 'q" where
  "sync_passes 0 E C Q ask ts hit s = (case s of (b, q, rs) \<Rightarrow>
     andThen (sync_pass E C Q ask ts (b, q, rs, 0)) (\<lambda>(b, q, rs, good). Inr ((rs, True), b, q)))"
| "sync_passes (Suc n) E C Q ask ts hit s = (case s of (b, q, rs) \<Rightarrow>
     andThen (sync_pass E C Q ask ts (b, q, rs, 0)) (\<lambda>(b, q, rs, good).
       if good < length ts then sync_passes n E C Q ask ts hit (b, q, rs) else Inr ((rs, hit), b, q)))"

definition sync_queue :: "('w, 'l, 'i) blk_env \<Rightarrow> chain \<Rightarrow> 'q queue \<Rightarrow> (('w, 'l) block \<Rightarrow> u256) \<Rightarrow> nat \<Rightarrow> 'q \<Rightarrow> ('w, 'l) block
    \<Rightarrow> ('w, 'l) thrown + ('l TransactionReceipt list \<times> bool) \<times> ('w, 'l) block \<times> 'q" where
  "sync_queue E C Q ask n q b =
     (if isSealed b then throw InvalidOperationOnSealedBlock b
      else let b = noteChain E C b;
               ts = tq_topTransactions Q c_maxSyncTransactions (b_transactionSet b) q;
               hit = (length ts = c_maxSyncTransactions)
           in if ts = [] then Inr (([], hit), b, q) else sync_passes n E C Q ask ts hit (b, q, []))"

text \<open>\<open>exec\<close> walks over the list of transactions while \<open>execute\<close> appends to it: after the first transaction that
  succeeds the iterator's end is not valid any more.\<close>

definition b_exec :: "('w, 'l, 'i) blk_env \<Rightarrow> chain \<Rightarrow> 'q queue \<Rightarrow> 'q \<Rightarrow> ('w, 'l) block
    \<Rightarrow> (('w, 'l) thrown \<times> 'q) + 'l TransactionReceipt list \<times> ('w, 'l) block \<times> 'q" where
  "b_exec E C Q q b =
     (if isSealed b then Inl ((InvalidOperationOnSealedBlock, b), q)
      else let b = noteChain E C b
           in case b_transactions b of
                [] \<Rightarrow> Inr ([], b, q)
              | t # _ \<Rightarrow> (case b_execute E (bc_lastHashes C (bc_currentHash C)) t Committed b of
                   Inl x \<Rightarrow> Inl (x, tq_drop Q (t_sha3 E t) q)
                 | Inr (_, b) \<Rightarrow> Inl ((Undefined, b), q)))"

end
