(* ===== verification/BlockSeal.thy ===== *)
theory BlockSeal
  imports Block
begin

text \<open>
  Sealing a block and playing back the blocks of others: the rest of \<open>libethereum/Block.cpp\<close>.
\<close>

section \<open>Rewards\<close>

text \<open>The arithmetic of 256 bits, as written.\<close>

definition uncle_reward :: "u256 \<Rightarrow> u256 \<Rightarrow> u256 \<Rightarrow> u256" where
  "uncle_reward reward uncle current = reward * (8 + uncle - current) div 8"

definition applyRewards :: "('w, 'l, 'i) blk_env \<Rightarrow> BlockHeader list \<Rightarrow> u256 \<Rightarrow> ('w, 'l) block \<Rightarrow> ('w, 'l) block" where
  "applyRewards E uncles reward b =
     (let (w, r) = foldl (\<lambda>(w, r) i. (st_addBalance (be_st E) (h_author i)
            (uncle_reward reward (h_number i) (h_number (b_currentBlock b))) w, r + reward div 32)) (b_state b, reward) uncles
      in b\<lparr>b_state := st_addBalance (be_st E) (h_author (b_currentBlock b)) r w\<rparr>)"

definition removeEmptyAccounts :: "chain \<Rightarrow> ('w, 'l) block \<Rightarrow> bool" where
  "removeEmptyAccounts C b \<longleftrightarrow> h_number (b_currentBlock b) \<ge> u256Param (bc_params C) ''EIP158ForkBlock''"

section \<open>Sealing\<close>

text \<open>The children of one ancestor that are not excluded: their headers and the bytes of these, at most two in all.\<close>

fun uncles_of :: "('w, 'l, 'i) blk_env \<Rightarrow> chain \<Rightarrow> h256 list \<Rightarrow> h256 list \<times> BlockHeader list \<times> bytes list
    \<Rightarrow> header_exception + h256 list \<times> BlockHeader list \<times> bytes list" where
  "uncles_of E C [] s = Inr s"
| "uncles_of E C (u # us) (excluded, hs, raws) =
     (if u \<in> set excluded then uncles_of E C us (excluded, hs, raws)
      else andThen (bc_info E C u) (\<lambda>h.
        if length hs = 1 then Inr (excluded, hs @ [h], raws @ [bc_headerData C u])
        else uncles_of E C us (u # excluded, hs @ [h], raws @ [bc_headerData C u])))"

primrec find_uncles :: "nat \<Rightarrow> ('w, 'l, 'i) blk_env \<Rightarrow> chain \<Rightarrow> h256 \<Rightarrow> h256 list \<times> BlockHeader list \<times> bytes list
    \<Rightarrow> header_exception + h256 list \<times> BlockHeader list \<times> bytes list" where
  "find_uncles 0 E C p s = Inr s"
| "find_uncles (Suc n) E C p s =
     (if p = bc_genesisHash C \<or> length (fst (snd s)) \<ge> 2 then Inr s
      else andThen (uncles_of E C (bd_children (bc_details C p)) s) (find_uncles n E C (bd_parent (bc_details C p))))"

definition seal_uncles :: "('w, 'l, 'i) blk_env \<Rightarrow> chain \<Rightarrow> ('w, 'l) block \<Rightarrow> header_exception + BlockHeader list \<times> bytes list" where
  "seal_uncles E C b = (if h_number (b_previousBlock b) \<noteq> 0
     then andThen (find_uncles 6 E C (h_parentHash (b_previousBlock b))
            (bc_allKinFrom C (h_parentHash (b_currentBlock b)) 6, [], [])) (\<lambda>s. Inr (snd s))
     else Inr ([], []))"

definition tx_bytes :: "('w, 'l, 'i) blk_env \<Rightarrow> TransactionBase \<Rightarrow> bytes" where
  "tx_bytes E t = tx_streamRLP (be_rlp E) t WithSignature False"

definition raw_list :: "'i rlp \<Rightarrow> bytes list \<Rightarrow> bytes" where
  "raw_list R raws = rlp_data R (rlp_list R (map (rlp_parse R) raws))"

definition seal_header :: "('w, 'l, 'i) blk_env \<Rightarrow> bytes \<Rightarrow> ('w, 'l) block \<Rightarrow> ('w, 'l) block" where
  "seal_header E extra b =
     (let R = be_rlp E; (ph, prev) = header_hash R WithSeal (b_previousBlock b) in
      b\<lparr>b_previousBlock := prev, b_currentBlock := setExtraData (take 32 extra) (setParentHash ph
         (setRoots (orderedTrieRoot R (map (tx_bytes E) (b_transactions b)))
           (orderedTrieRoot R (map (be_receipt E) (take (length (b_transactions b)) (b_receipts b))))
           (sha3 (b_currentUncles b)) (sb_rootHash (be_st E) (b_state b))
           (setGasUsed (b_gasUsed b) (setLogBloom (logBloom b) (b_currentBlock b)))))\<rparr>)"

definition commitToSeal :: "('w, 'l, 'i) blk_env \<Rightarrow> chain \<Rightarrow> bytes \<Rightarrow> ('w, 'l) block \<Rightarrow> ('w, 'l) thrown + ('w, 'l) block" where
  "commitToSeal E C extra b =
     (if isSealed b then throw InvalidOperationOnSealedBlock b
      else let b = noteChain E C b;
               b = (if b_committedToSeal b then uncommitToSeal b else b\<lparr>b_precommit := b_state b\<rparr>) in
      andThen (lift_header b (seal_uncles E C b)) (\<lambda>(uncles, raws).
      if length (b_receipts b) < length (b_transactions b) then throw Undefined b
      else let b = b\<lparr>b_currentTxs := raw_list (be_rlp E) (map (tx_bytes E) (b_transactions b)),
                     b_currentUncles := raw_list (be_rlp E) raws\<rparr>;
               b = applyRewards E uncles (blockReward (bc_params C)) b;
               b = b\<lparr>b_state := sb_commit (be_st E) (removeEmptyAccounts C b) (b_state b)\<rparr>
           in Inr ((seal_header E extra b)\<lparr>b_committedToSeal := True\<rparr>)))"

definition commitToSealAfterExecTx :: "('w, 'l, 'i) blk_env \<Rightarrow> ('w, 'l) block \<Rightarrow> ('w, 'l) block" where
  "commitToSealAfterExecTx E b =
     (let w = sb_commit (be_st E) False (b_state b); h = setGasUsed (b_gasUsed b) (setLogBloom (logBloom b) (b_currentBlock b))
      in b\<lparr>b_state := w, b_currentBlock := setRoots (h_transactionsRoot h) (orderedTrieRoot (be_rlp E) (map (be_receipt E) (b_receipts b)))
            (h_sha3Uncles h) (sb_rootHash (be_st E) w) h, b_committedToSeal := True\<rparr>)"

text \<open>The header that is given must be the block's but for its seal. The value says whether the block was sealed.\<close>

definition seal_matches :: "('w, 'l, 'i) blk_env \<Rightarrow> bytes \<Rightarrow> ('w, 'l) block \<Rightarrow> ('w, 'l) thrown + bool \<times> ('w, 'l) block" where
  "seal_matches E header b =
     andThen (lift_header b (BlockHeader_of (be_rlp E) HeaderData (zero_hash 32) header)) (\<lambda>g.
     let (hs, cur) = header_hash (be_rlp E) WithoutSeal (b_currentBlock b)
     in Inr (fst (header_hash (be_rlp E) WithoutSeal g) = hs, b\<lparr>b_currentBlock := cur\<rparr>))"

definition sealBlock :: "('w, 'l, 'i) blk_env \<Rightarrow> bytes \<Rightarrow> ('w, 'l) block \<Rightarrow> ('w, 'l) thrown + bool \<times> ('w, 'l) block" where
  "sealBlock E header b =
     (if \<not> b_committedToSeal b then Inr (False, b)
      else andThen (seal_matches E header b) (\<lambda>(ok, b).
        if \<not> ok then Inr (False, b)
        else andThen (lift_header b (BlockHeader_of (be_rlp E) HeaderData (zero_hash 32) header)) (\<lambda>g.
          Inr (True, b\<lparr>b_currentBytes := raw_list (be_rlp E) [header, b_currentTxs b, b_currentUncles b],
            b_currentBlock := g, b_state := b_precommit b\<rparr>))))"

text \<open>The other overload writes a list of five items, the last one empty, and leaves the block unsealed.\<close>

definition sealBlock_out :: "('w, 'l, 'i) blk_env \<Rightarrow> bytes \<Rightarrow> ('w, 'l) block \<Rightarrow> ('w, 'l) thrown + bytes option \<times> ('w, 'l) block" where
  "sealBlock_out E header b =
     (if \<not> b_committedToSeal b then Inr (None, b)
      else andThen (seal_matches E header b) (\<lambda>(ok, b).
        Inr (if \<not> ok then None
             else Some (rlp_data (be_rlp E) (rlp_list (be_rlp E) (map (rlp_parse (be_rlp E)) [header, b_currentTxs b, b_currentUncles b]
               @ [rlp_bytes (be_rlp E) (fst (header_hash (be_rlp E) WithoutSeal (b_currentBlock b))), rlp_list (be_rlp E) []]))), b)))"

definition fromPending :: "('w, 'l, 'i) blk_env \<Rightarrow> nat \<Rightarrow> ('w, 'l) block \<Rightarrow> ('w, 'l) thrown + 'w" where
  "fromPending E i b =
     (let i = min i (length (b_transactions b));
          root = (if i = 0 then Some (h_stateRoot (b_previousBlock b))
                  else if i - 1 < length (b_receipts b) then Some (rc_stateRoot (b_receipts b ! (i - 1))) else None)
      in case root of None \<Rightarrow> throw Undefined b
         | Some r \<Rightarrow> (case sb_setRoot (be_st E) r (b_state b) of None \<Rightarrow> throw InvalidRoot b | Some w \<Rightarrow> Inr w))"

section \<open>Playing back a block\<close>

primrec execute_all :: "('w, 'l, 'i) blk_env \<Rightarrow> h256 list \<Rightarrow> TransactionBase list \<Rightarrow> ('w, 'l) block \<times> bytes list
    \<Rightarrow> ('w, 'l) thrown + ('w, 'l) block \<times> bytes list" where
  "execute_all E lh [] s = Inr s"
| "execute_all E lh (t # ts) s = andThen (b_execute E lh t Committed (fst s))
     (\<lambda>(r, b). execute_all E lh ts (b, snd s @ [be_receipt E (last (b_receipts b))]))"

definition items_of :: "'i rlp \<Rightarrow> 'i \<Rightarrow> 'i list" where
  "items_of R it = (if rlp_isList R it then rlp_items R it else [])"

definition of_header :: "header_exception + 'a \<Rightarrow> block_exception + 'a" where
  "of_header r = (case r of Inl e \<Rightarrow> Inl (HeaderThrown e) | Inr x \<Rightarrow> Inr x)"

text \<open>The check of one uncle gives its header.\<close>

definition check_uncle :: "('w, 'l, 'i) blk_env \<Rightarrow> chain \<Rightarrow> BlockHeader \<Rightarrow> h256 list \<Rightarrow> bytes \<Rightarrow> block_exception + BlockHeader" where
  "check_uncle E C current excluded i =
     (let h = sha3 i in
      andThen (ensure (h \<notin> set excluded) UncleInChain) (\<lambda>_.
      andThen (of_header (BlockHeader_of (be_rlp E) HeaderData h i)) (\<lambda>uncle.
      andThen (ensure (bc_isKnown C (h_parentHash uncle)) UnknownParent) (\<lambda>_.
      andThen (of_header (BlockHeader_of (be_rlp E) BlockData (zero_hash 32) (bc_block C (h_parentHash uncle)))) (\<lambda>uncleParent.
      let depth = uint (h_number current) - uint (h_number uncle) in
      andThen (ensure (\<not> depth > 6) UncleTooOld) (\<lambda>_.
      andThen (ensure (\<not> depth < 1) UncleIsBrother) (\<lambda>_.
      let parent_of = (\<lambda>p. bd_parent (bc_details C p));
          (ph, uncleParent) = header_hash (be_rlp E) WithSeal uncleParent in
      andThen (ensure ((parent_of ^^ nat (depth - 1)) (parent_of (h_parentHash current)) = ph) UncleParentNotInChain) (\<lambda>_.
      andThen (of_header (header_verify (be_rlp E) CheckNothingNew uncleParent [] uncle)) (\<lambda>_. Inr uncle)))))))))"

primrec check_uncles :: "('w, 'l, 'i) blk_env \<Rightarrow> chain \<Rightarrow> BlockHeader \<Rightarrow> bytes list \<Rightarrow> h256 list \<Rightarrow> BlockHeader list
    \<Rightarrow> block_exception + BlockHeader list" where
  "check_uncles E C current [] excluded rewarded = Inr rewarded"
| "check_uncles E C current (i # is) excluded rewarded = andThen (check_uncle E C current excluded i)
     (\<lambda>uncle. check_uncles E C current is (sha3 i # excluded) (rewarded @ [uncle]))"

text \<open>The last checks, after the rewards.\<close>

definition enact_finish :: "('w, 'l, 'i) blk_env \<Rightarrow> chain \<Rightarrow> BlockHeader list \<Rightarrow> ('w, 'l) block
    \<Rightarrow> ('w, 'l) thrown + u256 \<times> ('w, 'l) block" where
  "enact_finish E C rewarded b =
     (let S = be_st E;
          b = applyRewards E rewarded (blockReward (bc_params C)) b;
          b = b\<lparr>b_state := sb_commit S (removeEmptyAccounts C b) (b_state b)\<rparr>;
          cur = b_currentBlock b;
          undone = b\<lparr>b_state := sb_db_rollback S (b_state b)\<rparr>
      in if h_stateRoot cur \<noteq> h_stateRoot (b_previousBlock b) \<and> h_stateRoot cur \<noteq> sb_rootHash S (b_state b)
         then throw InvalidStateRoot undone
         else if h_gasUsed cur \<noteq> b_gasUsed b then throw InvalidGasUsed undone
         else Inr (h_difficulty cur, b))"

definition enact_uncles :: "('w, 'l, 'i) blk_env \<Rightarrow> chain \<Rightarrow> bytes \<Rightarrow> ('w, 'l) block
    \<Rightarrow> ('w, 'l) thrown + BlockHeader list \<times> ('w, 'l) block" where
  "enact_uncles E C block b =
     (let R = be_rlp E; l = rlp_at R (rlp_parse R block) 2 in
      if rlp_itemCount R l > 2 then throw TooManyUncles b
      else let kin = bc_allKinFrom C (h_parentHash (b_currentBlock b)) 6;
               (h, cur) = header_hash R WithSeal (b_currentBlock b);
               b = b\<lparr>b_currentBlock := cur\<rparr>
           in case check_uncles E C cur (map (rlp_data R) (items_of R l)) (h # kin) [] of
                Inl e \<Rightarrow> throw e b
              | Inr rewarded \<Rightarrow> Inr (rewarded, b))"

definition enact :: "('w, 'l, 'i) blk_env \<Rightarrow> chain \<Rightarrow> VerifiedBlockRef \<Rightarrow> ('w, 'l) block \<Rightarrow> ('w, 'l) thrown + u256 \<times> ('w, 'l) block" where
  "enact E C vb b =
     (let R = be_rlp E; b = noteChain E C b;
          (ph, prev) = header_hash R WithSeal (b_previousBlock b);
          b = b\<lparr>b_previousBlock := prev\<rparr> in
      if h_parentHash (b_currentBlock b) \<noteq> ph then throw (HeaderThrown InvalidParentHash) b
      else let b = b\<lparr>b_currentBlock := vb_info vb\<rparr>;
               lh = bc_lastHashes C (h_parentHash (b_currentBlock b)) in
      andThen (execute_all E lh (vb_transactions vb) (b, [])) (\<lambda>(b, receipts).
      if orderedTrieRoot R receipts \<noteq> h_receiptsRoot (b_currentBlock b) then throw InvalidReceiptsStateRoot b
      else if h_logBloom (b_currentBlock b) \<noteq> logBloom b then throw InvalidLogBloom b
      else andThen (enact_uncles E C (vb_block vb) b) (\<lambda>(rewarded, b). enact_finish E C rewarded b)))"

definition enactOn :: "('w, 'l, 'i) blk_env \<Rightarrow> chain \<Rightarrow> u256 \<Rightarrow> VerifiedBlockRef \<Rightarrow> ('w, 'l) block
    \<Rightarrow> ('w, 'l) thrown + u256 \<times> ('w, 'l) block" where
  "enactOn E C now vb b =
     (let b = noteChain E C b in
      andThen (lift_header b (bc_info E C (h_parentHash (vb_info vb)))) (\<lambda>biParent.
      andThen (lift_header b (header_verify (be_rlp E) CheckNothingNew biParent [] (vb_info vb))) (\<lambda>_.
      andThen (lift_header b (if h_number biParent \<noteq> 0 then bc_info E C (h_parentHash biParent) else Inr BlockHeader_new)) (\<lambda>_.
      andThen (sync_to E C now (h_parentHash (vb_info vb)) BlockHeader_new b) (\<lambda>(_, b).
      andThen (resetCurrent E now b) (\<lambda>b. enact E C vb (b\<lparr>b_previousBlock := biParent\<rparr>)))))))"

text \<open>After a playback.\<close>

definition b_cleanup :: "('w, 'l, 'i) blk_env \<Rightarrow> u256 \<Rightarrow> bool \<Rightarrow> ('w, 'l) block \<Rightarrow> ('w, 'l) thrown + ('w, 'l) block" where
  "b_cleanup E now fullCommit b =
     (if fullCommit
      then let b = b\<lparr>b_state := sb_db_commit (be_st E) (b_state b), b_previousBlock := b_currentBlock b\<rparr>
           in andThen (b_engine b) (\<lambda>e. resetCurrent E now
                (b\<lparr>b_currentBlock := se_populateFromParent e (b_previousBlock b) (b_currentBlock b)\<rparr>))
      else resetCurrent E now (b\<lparr>b_state := sb_db_rollback (be_st E) (b_state b)\<rparr>))"

definition populateFromChain :: "('w, 'l, 'i) blk_env \<Rightarrow> chain \<Rightarrow> u256 \<Rightarrow> h256 \<Rightarrow> u32 \<Rightarrow> ('w, 'l) block
    \<Rightarrow> ('w, 'l) thrown + ('w, 'l) block" where
  "populateFromChain E C now h ir b =
     (let R = be_rlp E; b = noteChain E C b in
      if \<not> bc_isKnown C h then throw BlockNotFound b
      else andThen (lift_header b (BlockHeader_of R BlockData (zero_hash 32) (bc_block C h))) (\<lambda>bi.
        if h_number bi \<noteq> 0
        then andThen (lift_header b (BlockHeader_of R BlockData (zero_hash 32) (bc_block C (h_parentHash bi)))) (\<lambda>bip.
             andThen (sync_to E C now (h_parentHash bi) bip b) (\<lambda>(_, b).
             let b = b\<lparr>b_author := h_author bi\<rparr> in
             case bc_verifyBlock C (bc_block C h) (ir OR TransactionBasic) of
               None \<Rightarrow> throw VerifyThrown b
             | Some vb \<Rightarrow> andThen (enact E C vb b) (\<lambda>(_, b). Inr b)))
        else andThen (sync_to E C now h bi (b\<lparr>b_state := sb_empty (be_st E) (b_state b)\<rparr>)) (\<lambda>(_, b). Inr b)))"

end
