(* ===== verification/Authority.thy ===== *)
theory Authority
  imports BlockHeader
begin

text \<open>
  The seal engine of signed blocks (\<open>libethcore/BasicAuthority.h\<close> and \<open>.cpp\<close>): a block is sealed by a signature of one of the
  listed addresses. Its options are left out.
\<close>

section \<open>Blocks signed by an authority\<close>

record BasicAuthority =
  ba_secret :: bytes
  ba_authorities :: "address list"

definition Signature_struct :: "bytes \<Rightarrow> SignatureStruct" where
  "Signature_struct b = \<lparr>sig_r = fromBigEndian (take 32 b), sig_s = fromBigEndian (bslice 32 32 b), sig_v = b ! 64\<rparr>"

definition Signature_bytes :: "SignatureStruct \<Rightarrow> bytes" where
  "Signature_bytes g = toBigEndian 32 (sig_r g) @ toBigEndian 32 (sig_s g) @ [sig_v g]"

definition toAddress :: "bytes \<Rightarrow> address" where
  "toAddress p = fromBigEndian (right160 (sha3 p))"

text \<open>A missing seal reads as the default signature; one that is no signature throws.\<close>

definition ba_sig :: "'i rlp \<Rightarrow> BlockHeader \<Rightarrow> header_exception + bytes" where
  "ba_sig R h = (if h_seal h = [] then Inr (zero_hash 65) else need (BadHeaderField 13) (rlp_toHash R 65 (rlp_parse R (hd (h_seal h)))))"

definition ba_setSig :: "'i rlp \<Rightarrow> bytes \<Rightarrow> BlockHeader \<Rightarrow> BlockHeader" where
  "ba_setSig R s h = setSeal 0 (rlp_data R (rlp_bytes R s)) h"

definition ba_sealRLP :: "'i rlp \<Rightarrow> bytes" where
  "ba_sealRLP R = rlp_data R (rlp_bytes R (zero_hash 65))"

definition ba_shouldSeal :: "u256 \<Rightarrow> bool \<Rightarrow> u256 \<Rightarrow> bool" where
  "ba_shouldSeal ts pending_empty now \<longleftrightarrow> ts + 5 \<le> now \<or> ts \<le> now \<and> \<not> pending_empty"

text \<open>The bytes the listener gets.\<close>

definition ba_generateSeal :: "'i rlp \<Rightarrow> crypto \<Rightarrow> BasicAuthority \<Rightarrow> BlockHeader \<Rightarrow> bytes" where
  "ba_generateSeal R Y e h =
     (let (hs, h) = header_hash R WithoutSeal h
      in header_stream R WithSeal (ba_setSig R (Signature_bytes (cr_sign Y (ba_secret e) hs)) h))"

definition ba_populateFromParent :: "BasicAuthority \<Rightarrow> BlockHeader \<Rightarrow> BlockHeader \<Rightarrow> BlockHeader" where
  "ba_populateFromParent e parent h =
     (let h = header_populateFromParent parent h;
          d = fromBigEndian (take 4 (sha3 (hash_xor (sha3 (ba_secret e)) (h_parentHash h)))) :: u32
      in setDifficulty (ucast d) h)"

definition ba_verify :: "'i rlp \<Rightarrow> crypto \<Rightarrow> BasicAuthority \<Rightarrow> Strictness \<Rightarrow> BlockHeader \<Rightarrow> bytes \<Rightarrow> BlockHeader
    \<Rightarrow> header_exception + unit" where
  "ba_verify R Y e s parent block h =
     andThen (header_verify R s parent block h) (\<lambda>_.
     andThen (ba_sig R h) (\<lambda>g.
     let a = toAddress (cr_recover Y (Signature_struct g) (fst (header_hash R WithoutSeal h))) in
     if s = SCheckEverything \<and> h_parentHash h \<noteq> zero_hash 32 \<and> a \<notin> set (ba_authorities e) then Inl InvalidBlockNonce
     else if s = QuickNonce \<and> h_parentHash h \<noteq> zero_hash 32 \<and> \<not> sig_isValid (Signature_struct g) then Inl InvalidBlockNonce
     else Inr ()))"

end
