(* ===== verification/HeaderProps.thy ===== *)
theory HeaderProps
  imports Authority
begin

text \<open>
  The properties of block headers: a header survives its serialisation, the hash it gives is the hash of what it
  writes (except where \<open>populateFromParent\<close> leaves a stale one), when it is accepted, and which headers signed by an
  authority pass an engine's checks.
\<close>

section \<open>Serialisation\<close>

definition header_wf :: "'i rlp \<Rightarrow> BlockHeader \<Rightarrow> bool" where
  "header_wf R h \<longleftrightarrow> length (h_parentHash h) = 32 \<and> length (h_sha3Uncles h) = 32 \<and> length (h_stateRoot h) = 32
     \<and> length (h_transactionsRoot h) = 32 \<and> length (h_receiptsRoot h) = 32 \<and> length (h_logBloom h) = 256
     \<and> (\<forall>s \<in> set (h_seal h). s \<noteq> [] \<and> rlp_data R (rlp_parse R s) = s)"

lemma length_header_fields [simp]: "length (header_fields R h) = 13"
  by (simp add: header_fields_def)

lemma header_item:
  assumes "rlp_ok R" "header_wf R h"
  defines "it \<equiv> rlp_list R (header_fields R h @ map (rlp_parse R) (h_seal h))"
  shows "rlp_null R \<notin> set (header_fields R h @ map (rlp_parse R) (h_seal h))" "rlp_parse R (rlp_data R it) = it"
    "rlp_isList R it" "i < 13 \<Longrightarrow> rlp_at R it i = header_fields R h ! i"
    "map (\<lambda>i. rlp_data R (rlp_at R it i)) [13..<rlp_itemCount R it] = h_seal h"
proof -
  note R = rlp_okD [OF assms(1)] rlp_ok_views [OF assms(1)]
  have s: "\<forall>s \<in> set (h_seal h). s \<noteq> [] \<and> rlp_data R (rlp_parse R s) = s" using assms(2) by (simp add: header_wf_def)
  have "rlp_data R (rlp_null R) = []" by (simp add: R)
  with s have "rlp_null R \<noteq> rlp_parse R s" if "s \<in> set (h_seal h)" for s using that by force
  then show n: "rlp_null R \<notin> set (header_fields R h @ map (rlp_parse R) (h_seal h))"
    by (auto simp: header_fields_def R(9-11))
  show "rlp_parse R (rlp_data R it) = it" unfolding it_def by (rule rlp_ok_views(5) [OF assms(1) n])
  show "rlp_isList R it" unfolding it_def by (rule rlp_okD(1) [OF assms(1) n])
  have i: "rlp_items R it = header_fields R h @ map (rlp_parse R) (h_seal h)" unfolding it_def by (rule rlp_okD(2) [OF assms(1) n])
  then show "i < 13 \<Longrightarrow> rlp_at R it i = header_fields R h ! i" by (simp add: rlp_at_def nth_append)
  have "rlp_itemCount R it = 13 + length (h_seal h)" using \<open>rlp_isList R it\<close> i by (simp add: rlp_itemCount_def)
  then show "map (\<lambda>i. rlp_data R (rlp_at R it i)) [13..<rlp_itemCount R it] = h_seal h"
    using s by (intro nth_equalityI) (simp_all add: rlp_at_def i nth_append)
qed

lemma header_populate_fields:
  assumes R: "rlp_ok R" and h: "header_wf R h"
  shows "header_populate R (rlp_list R (header_fields R h @ map (rlp_parse R) (h_seal h))) g
    = Inr (h\<lparr>h_hash := h_hash g, h_hashWithout := h_hashWithout g, h_gen_idx := h_gen_idx g, h_node_list := h_node_list g\<rparr>)"
    (is "header_populate R ?it g = _")
proof -
  note rs = rlp_okD [OF R] rlp_ok_views [OF R]
  have at: "i < 13 \<Longrightarrow> rlp_at R ?it i = header_fields R h ! i" for i by (rule header_item(4) [OF R h])
  have f: "header_fields R h ! 0 = rlp_bytes R (h_parentHash h)" "header_fields R h ! Suc 0 = rlp_bytes R (h_sha3Uncles h)"
    "header_fields R h ! 2 = rlp_bytes R (toBigEndian 20 (h_author h))" "header_fields R h ! 3 = rlp_bytes R (h_stateRoot h)"
    "header_fields R h ! 4 = rlp_bytes R (h_transactionsRoot h)" "header_fields R h ! 5 = rlp_bytes R (h_receiptsRoot h)"
    "header_fields R h ! 6 = rlp_bytes R (h_logBloom h)" "header_fields R h ! 7 = rlp_int R (uint (h_difficulty h))"
    "header_fields R h ! 8 = rlp_int R (uint (h_number h))" "header_fields R h ! 9 = rlp_int R (uint (h_gasLimit h))"
    "header_fields R h ! 10 = rlp_int R (uint (h_gasUsed h))" "header_fields R h ! 11 = rlp_int R (uint (h_timestamp h))"
    "header_fields R h ! 12 = rlp_bytes R (h_extraData h)"
    by (simp_all add: header_fields_def)
  have l: "length (h_parentHash h) = 32" "length (h_sha3Uncles h) = 32" "length (h_stateRoot h) = 32"
    "length (h_transactionsRoot h) = 32" "length (h_receiptsRoot h) = 32" "length (h_logBloom h) = 256"
    using h by (simp_all add: header_wf_def)
  have a: "fromBigEndian (toBigEndian 20 (h_author h)) = h_author h" by (simp add: from_toBigEndian_id)
  have "rlp_toHash R 20 (rlp_bytes R (toBigEndian 20 (h_author h))) = Some (toBigEndian 20 (h_author h))" by (simp add: rs)
  then show ?thesis
    unfolding header_populate_def field_def header_item(5) [OF R h] by (simp add: at f l rs a)
qed

lemma header_parsed:
  assumes "rlp_ok R" "header_wf R h"
  shows "BlockHeader_of R HeaderData (zero_hash 32) (header_stream R WithSeal h)
    = Inr (h\<lparr>h_hash := sha3 (header_stream R WithSeal h), h_hashWithout := zero_hash 32, h_gen_idx := 0, h_node_list := []\<rparr>)"
proof -
  have p: "rlp_parse R (header_stream R WithSeal h) = rlp_list R (header_fields R h @ map (rlp_parse R) (h_seal h))"
    using header_item(2) [OF assms] by (simp add: header_stream_def)
  show ?thesis
    unfolding BlockHeader_of_def p
    by (simp add: header_populate_fields [OF assms] BlockHeader_new_def header_stream_def)
qed

text \<open>C33: a header that is written with its seal and read back from these bytes is the header, with its hash computed; only the index and the list of nodes, which are never written, are lost.\<close>

theorem header_roundtrip:
  assumes "rlp_ok R" "header_wf R h"
  shows "BlockHeader_of R HeaderData (zero_hash 32) (header_stream R WithSeal h)
    = Inr (h\<lparr>h_hash := sha3 (header_stream R WithSeal h), h_hashWithout := zero_hash 32, h_gen_idx := 0, h_node_list := []\<rparr>)"
  using assms by (rule header_parsed)

theorem header_roundtrip_witness:
  "BlockHeader_of tree_rlp HeaderData (zero_hash 32) (header_stream tree_rlp WithSeal (BlockHeader_new\<lparr>h_number := 7, h_seal := [[0x80]]\<rparr>))
    = Inr ((BlockHeader_new\<lparr>h_number := 7, h_seal := [[0x80]]\<rparr>)\<lparr>h_hash := sha3 (header_stream tree_rlp WithSeal
        (BlockHeader_new\<lparr>h_number := 7, h_seal := [[0x80]]\<rparr>)), h_hashWithout := zero_hash 32, h_gen_idx := 0, h_node_list := []\<rparr>)"
  by (rule header_roundtrip [OF tree_rlp_ok]) (simp add: header_wf_def BlockHeader_new_def zero_hash_def tree_rlp_def)

section \<open>The memoised hashes\<close>

text \<open>What is memoised is the hash of what the header writes now. Every public operation keeps this but
  \<open>populateFromParent\<close>, which changes fields and forgets no hash.\<close>

definition memo_ok :: "'i rlp \<Rightarrow> BlockHeader \<Rightarrow> bool" where
  "memo_ok R h \<longleftrightarrow> (h_hash h \<noteq> zero_hash 32 \<longrightarrow> h_hash h = sha3 (header_stream R WithSeal h))
     \<and> (h_hashWithout h \<noteq> zero_hash 32 \<longrightarrow> h_hashWithout h = sha3 (header_stream R WithoutSeal h))"

datatype header_op = Clear | SetParentHash h256 | SetSha3Uncles h256 | SetTimestamp u256 | SetAuthor address | SetRoots h256 h256 h256 h256
  | SetGasUsed u256 | SetNumber u256 | SetGasLimit u256 | SetExtraData bytes | SetLogBloom bytes | SetDifficulty u256 | SetSeal nat bytes
  | SetIndex u256 | SetNodeList "bytes list" | PopulateFromParent BlockHeader | Hash IncludeSeal

fun header_step :: "'i rlp \<Rightarrow> header_op \<Rightarrow> BlockHeader \<Rightarrow> BlockHeader" where
  "header_step R Clear = header_clear R"
| "header_step R (SetParentHash v) = setParentHash v"
| "header_step R (SetSha3Uncles v) = setSha3Uncles v"
| "header_step R (SetTimestamp v) = setTimestamp v"
| "header_step R (SetAuthor v) = setAuthor v"
| "header_step R (SetRoots t r u s) = setRoots t r u s"
| "header_step R (SetGasUsed v) = setGasUsed v"
| "header_step R (SetNumber v) = setNumber v"
| "header_step R (SetGasLimit v) = setGasLimit v"
| "header_step R (SetExtraData v) = setExtraData v"
| "header_step R (SetLogBloom v) = setLogBloom v"
| "header_step R (SetDifficulty v) = setDifficulty v"
| "header_step R (SetSeal i v) = setSeal i v"
| "header_step R (SetIndex v) = setIndex v"
| "header_step R (SetNodeList v) = setNodeList v"
| "header_step R (PopulateFromParent p) = header_populateFromParent p"
| "header_step R (Hash i) = (\<lambda>h. snd (header_hash R i h))"

lemmas setter_defs = setParentHash_def setSha3Uncles_def setTimestamp_def setAuthor_def setRoots_def setGasUsed_def setNumber_def
  setGasLimit_def setExtraData_def setLogBloom_def setDifficulty_def setSeal_def setIndex_def setNodeList_def header_clear_def

lemma memo_dirty [simp]: "memo_ok R (noteDirty h)"
  by (simp add: memo_ok_def noteDirty_def)

lemma header_fields_memo [simp]: "header_fields R (h\<lparr>h_hash := v\<rparr>) = header_fields R h"
  "header_fields R (h\<lparr>h_hashWithout := v\<rparr>) = header_fields R h"
  by (simp_all add: header_fields_def)

lemma header_stream_memo [simp]: "header_stream R i (h\<lparr>h_hash := v\<rparr>) = header_stream R i h"
  "header_stream R i (h\<lparr>h_hashWithout := v\<rparr>) = header_stream R i h"
  by (cases i; simp add: header_stream_def)+

lemma header_hash_value: "memo_ok R h \<Longrightarrow> fst (header_hash R i h) = sha3 (header_stream R i h)"
  by (cases i) (auto simp: header_hash_def memo_ok_def Let_def)

lemma memo_hash: "memo_ok R h \<Longrightarrow> memo_ok R (snd (header_hash R i h))"
  by (cases i) (auto simp: header_hash_def memo_ok_def Let_def)

text \<open>Whether the memoised hashes are right at the end: \<open>populateFromParent\<close> changes fields and keeps them, so it does harm when one may be
  there (\<open>m\<close>); every setter, and \<open>clear\<close>, drops them.\<close>

fun memo_right :: "bool \<Rightarrow> bool \<Rightarrow> header_op list \<Rightarrow> bool" where
  "memo_right m b [] = b"
| "memo_right m b (Hash i # ops) = memo_right True b ops"
| "memo_right m b (PopulateFromParent p # ops) = memo_right m (b \<and> \<not> m) ops"
| "memo_right m b (_ # ops) = memo_right False True ops"

definition no_memo :: "BlockHeader \<Rightarrow> bool" where
  "no_memo h \<longleftrightarrow> h_hash h = zero_hash 32 \<and> h_hashWithout h = zero_hash 32"

lemma no_memo_ok: "no_memo h \<Longrightarrow> memo_ok R h"
  by (simp add: no_memo_def memo_ok_def)

lemma no_memo_dirty [simp]: "no_memo (noteDirty h)"
  by (simp add: no_memo_def noteDirty_def)

lemma no_memo_populate: "no_memo h \<Longrightarrow> no_memo (header_populateFromParent p h)"
  by (simp add: no_memo_def header_populateFromParent_def)

lemma memo_steps: "(\<not> m \<longrightarrow> no_memo h) \<Longrightarrow> (b \<longrightarrow> memo_ok R h) \<Longrightarrow> memo_right m b ops \<Longrightarrow> memo_ok R (fold (header_step R) ops h)"
  by (induction m b ops arbitrary: h rule: memo_right.induct)
    (auto simp: setter_defs memo_hash intro: no_memo_ok no_memo_populate)

lemma header_stream_more: "header_stream R i (h\<lparr>h_gen_idx := a, h_node_list := b\<rparr>) = header_stream R i h"
  by (cases i) (simp_all add: header_stream_def header_fields_def)

text \<open>C20: after any sequence of setters, resets, calls of \<open>hash\<close> and of \<open>populateFromParent\<close> on a new header, or on one read back from
  what a header wrote, \<open>hash\<close> returns the hash of the header's present bytes, whichever was memoised before, unless
  \<open>populateFromParent\<close> was called while a hash was memoised and no setter followed: this function changes fields and keeps the hashes.\<close>

theorem header_memo:
  assumes "rlp_ok R" "header_wf R g" "BlockHeader_of R HeaderData (zero_hash 32) (header_stream R WithSeal g) = Inr h"
  shows "(memo_right True True ops \<longrightarrow> fst (header_hash R i (fold (header_step R) ops h)) = sha3 (header_stream R i (fold (header_step R) ops h)))
    \<and> (memo_right False True ops \<longrightarrow>
        fst (header_hash R i (fold (header_step R) ops BlockHeader_new)) = sha3 (header_stream R i (fold (header_step R) ops BlockHeader_new)))"
proof -
  have "h = g\<lparr>h_hash := sha3 (header_stream R WithSeal g), h_hashWithout := zero_hash 32, h_gen_idx := 0, h_node_list := []\<rparr>"
    using assms(3) unfolding header_parsed [OF assms(1,2)] by simp
  then have "memo_ok R h" by (simp add: memo_ok_def header_stream_more)
  moreover have "no_memo BlockHeader_new" by (simp add: no_memo_def BlockHeader_new_def)
  ultimately show ?thesis
    using memo_steps [of True h True R ops] memo_steps [of False BlockHeader_new True R ops] by (simp add: header_hash_value no_memo_ok)
qed

text \<open>The exception: a header hashed before it was populated from a parent gives its old hash.\<close>

lemma populate_keeps_hash:
  "h_hash (header_populateFromParent p h) = h_hash h" "h_hashWithout (header_populateFromParent p h) = h_hashWithout h"
  by (simp_all add: header_populateFromParent_def)

section \<open>Checks\<close>

lemma root_over: "trieRootOver R (length xs) (\<lambda>i. rlp_data R (rlp_int R (int i))) (\<lambda>i. xs ! i) = orderedTrieRoot R xs"
proof -
  have "enumerate 0 xs = map (\<lambda>i. (i, xs ! i)) [0..<length xs]" 
    by (rule nth_equalityI) (simp_all add: nth_enumerate_eq)
  then show ?thesis by (simp add: trieRootOver_def orderedTrieRoot_def foldl_map)
qed

definition block_transactions :: "'i rlp \<Rightarrow> bytes \<Rightarrow> bytes list" where
  "block_transactions R block = (let l = rlp_at R (rlp_parse R block) 1 in if rlp_isList R l then map (rlp_data R) (rlp_items R l) else [])"

lemma verify_block_Inr: "verify_block R block h = Inr () \<longleftrightarrow> h_transactionsRoot h = orderedTrieRoot R (block_transactions R block)
    \<and> h_sha3Uncles h = sha3 (rlp_data R (rlp_at R (rlp_parse R block) 2))"
proof -
  let ?l = "rlp_at R (rlp_parse R block) 1"
  have "trieRootOver R (rlp_itemCount R ?l) (\<lambda>i. rlp_data R (rlp_int R (int i))) (\<lambda>i. rlp_data R (rlp_at R ?l i))
    = trieRootOver R (length (block_transactions R block)) (\<lambda>i. rlp_data R (rlp_int R (int i))) (\<lambda>i. block_transactions R block ! i)"
    unfolding trieRootOver_def
    by (rule arg_cong [where f = "hash256 R"], rule foldl_cong) (simp_all add: block_transactions_def rlp_itemCount_def rlp_at_def Let_def split: if_splits)
  then show ?thesis by (auto simp: verify_block_def Let_def andThen_Inr root_over)
qed

text \<open>C26: with all checks on, a header is accepted as the child of a parent and the head of a block exactly when its number is that of
  the parent plus one and fits 32 bits, its gas is within its limit, it is younger, names the parent's hash or none at all, and its two
  roots are those of the transactions and of the uncles in the block.\<close>

theorem header_accepted:
  "header_verify R SCheckEverything (parent\<lparr>h_timestamp := t\<rparr>) (b # bs) h = Inr () \<longleftrightarrow>
     h_number h \<le> 0xffffffff \<and> h_gasUsed h \<le> h_gasLimit h
   \<and> (if t = Invalid256 then True else h_parentHash h \<in> {zero_hash 32, fst (header_hash R WithSeal (parent\<lparr>h_timestamp := t\<rparr>))}
        \<and> t < h_timestamp h \<and> h_number h = h_number parent + 1)
   \<and> h_transactionsRoot h = orderedTrieRoot R (block_transactions R (b # bs))
   \<and> h_sha3Uncles h = sha3 (rlp_data R (rlp_at R (rlp_parse R (b # bs)) 2))"
  by (auto simp: header_verify_def verify_parent_def header_bool_def andThen_Inr verify_block_Inr)

section \<open>Authorities\<close>

lemma Signature_roundtrip: "Signature_struct (Signature_bytes g) = g" "length (Signature_bytes g) = 65"
  by (simp_all add: Signature_struct_def Signature_bytes_def bslice_def from_toBigEndian_id nth_append)

lemma fields_seal [simp]: "header_fields R (h\<lparr>h_seal := ss\<rparr>) = header_fields R h"
  "header_fields R (h\<lparr>h_hashWithout := v, h_hash := w, h_seal := ss\<rparr>) = header_fields R h"
  by (simp_all add: header_fields_def)

lemma wf_memo [simp]: "header_wf R (h\<lparr>h_hash := v\<rparr>) = header_wf R h" "header_wf R (h\<lparr>h_hashWithout := v\<rparr>) = header_wf R h"
  by (simp_all add: header_wf_def)

definition signed :: "'i rlp \<Rightarrow> crypto \<Rightarrow> BasicAuthority \<Rightarrow> BlockHeader \<Rightarrow> BlockHeader" where
  "signed R Y e h = ba_setSig R (Signature_bytes (cr_sign Y (ba_secret e) (fst (header_hash R WithoutSeal h)))) (snd (header_hash R WithoutSeal h))"

lemma signed_seal: "h_seal h = [] \<Longrightarrow> h_seal (signed R Y e h)
    = [rlp_data R (rlp_bytes R (Signature_bytes (cr_sign Y (ba_secret e) (fst (header_hash R WithoutSeal h)))))]"
  by (simp add: signed_def ba_setSig_def setSeal_def noteDirty_def header_hash_def Let_def)

lemma signed_fields: "header_fields R (signed R Y e h) = header_fields R h"
  by (simp add: signed_def ba_setSig_def setSeal_def noteDirty_def header_hash_def Let_def header_fields_def)

lemma signed_lengths:
  "h_parentHash (signed R Y e h) = h_parentHash h" "h_sha3Uncles (signed R Y e h) = h_sha3Uncles h" "h_stateRoot (signed R Y e h) = h_stateRoot h"
  "h_transactionsRoot (signed R Y e h) = h_transactionsRoot h" "h_receiptsRoot (signed R Y e h) = h_receiptsRoot h" "h_logBloom (signed R Y e h) = h_logBloom h"
  by (simp_all add: signed_def ba_setSig_def setSeal_def noteDirty_def header_hash_def Let_def)

text \<open>C32: a header sealed by an authority whose signatures recover to one key is read by every engine with its signature: with all checks on it
  passes when the header itself does and the engine lists the address of the key, and is refused when the address is not listed, unless
  the header names no parent.\<close>

theorem authority_accepted:
  assumes R: "rlp_ok R" and h: "header_wf R h" "memo_ok R h" "h_seal h = []"
    and key: "cr_recover Y (cr_sign Y (ba_secret e) (sha3 (header_stream R WithoutSeal h))) (sha3 (header_stream R WithoutSeal h)) = pub"
  shows "\<exists>g. BlockHeader_of R HeaderData (zero_hash 32) (ba_generateSeal R Y e h) = Inr g \<and> header_fields R g = header_fields R h
    \<and> ba_verify R Y e' SCheckEverything parent block g = andThen (header_verify R SCheckEverything parent block g)
        (\<lambda>_. if h_parentHash h = zero_hash 32 \<or> toAddress pub \<in> set (ba_authorities e') then Inr () else Inl InvalidBlockNonce)"
proof -
  note rs = rlp_okD [OF R] rlp_ok_views [OF R]
  let ?m = "sha3 (header_stream R WithoutSeal h)" and ?s = "signed R Y e h"
  let ?b = "rlp_bytes R (Signature_bytes (cr_sign Y (ba_secret e) ?m))"
  have m: "fst (header_hash R WithoutSeal h) = ?m" using h(2) by (rule header_hash_value)
  have seal: "h_seal ?s = [rlp_data R ?b]" using signed_seal [OF h(3), of R Y e] by (simp add: m)
  have parse: "rlp_parse R (rlp_data R ?b) = ?b" by (simp add: rs)
  have wf: "header_wf R ?s" using h(1) by (simp add: header_wf_def signed_lengths seal parse) (simp add: rs rs(10) [symmetric])
  let ?g = "?s\<lparr>h_hash := sha3 (header_stream R WithSeal ?s), h_hashWithout := zero_hash 32, h_gen_idx := 0, h_node_list := []\<rparr>"
  have gen: "ba_generateSeal R Y e h = header_stream R WithSeal ?s"
    by (simp add: ba_generateSeal_def signed_def split: prod.split)
  have fields: "header_fields R ?g = header_fields R h" using signed_fields [of R Y e h] by (simp add: header_fields_def)
  have hash: "fst (header_hash R WithoutSeal ?g) = ?m"
    using fields by (simp add: header_hash_def header_stream_def Let_def)
  have sig: "ba_sig R ?g = Inr (Signature_bytes (cr_sign Y (ba_secret e) ?m))"
    by (simp add: ba_sig_def seal parse) (simp add: rs Signature_roundtrip(2))
  have "ba_verify R Y e' SCheckEverything parent block ?g = andThen (header_verify R SCheckEverything parent block ?g)
        (\<lambda>_. if h_parentHash h = zero_hash 32 \<or> toAddress pub \<in> set (ba_authorities e') then Inr () else Inl InvalidBlockNonce)"
    unfolding ba_verify_def sig hash by (simp add: Signature_roundtrip(1) key signed_lengths Let_def cong: if_cong)
  then show ?thesis using header_parsed [OF R wf] fields unfolding gen by blast
qed

definition sample_authority_crypto :: crypto where
  "sample_authority_crypto = \<lparr>cr_recover = (\<lambda>g m. replicate 64 (sig_v g)), cr_sign = (\<lambda>k m. \<lparr>sig_r = 1, sig_s = 1, sig_v = hd k\<rparr>)\<rparr>"

text \<open>The witness is a header that names a parent: the engine that lists the signer takes it, another refuses it.\<close>

theorem authority_accepted_witness:
  "\<exists>g. BlockHeader_of tree_rlp HeaderData (zero_hash 32) (ba_generateSeal tree_rlp sample_authority_crypto \<lparr>ba_secret = [1], ba_authorities = []\<rparr>
        (BlockHeader_new\<lparr>h_parentHash := replicate 32 1\<rparr>)) = Inr g
    \<and> ba_verify tree_rlp sample_authority_crypto \<lparr>ba_secret = [2], ba_authorities = [toAddress (replicate 64 1)]\<rparr> SCheckEverything BlockHeader_new [] g = Inr ()
    \<and> ba_verify tree_rlp sample_authority_crypto \<lparr>ba_secret = [2], ba_authorities = []\<rparr> SCheckEverything BlockHeader_new [] g = Inl InvalidBlockNonce"
proof -
  let ?h = "BlockHeader_new\<lparr>h_parentHash := replicate 32 1\<rparr>" and ?Y = sample_authority_crypto
  have h: "header_wf tree_rlp ?h" "memo_ok tree_rlp ?h" "h_seal ?h = []"
    "cr_recover ?Y (cr_sign ?Y (ba_secret \<lparr>ba_secret = [1], ba_authorities = []\<rparr>) m) m = replicate 64 1" for m
    by (simp_all add: header_wf_def BlockHeader_new_def zero_hash_def memo_ok_def sample_authority_crypto_def)
  obtain g where g: "BlockHeader_of tree_rlp HeaderData (zero_hash 32) (ba_generateSeal tree_rlp ?Y \<lparr>ba_secret = [1], ba_authorities = []\<rparr> ?h) = Inr g"
    and f: "header_fields tree_rlp g = header_fields tree_rlp ?h"
    using authority_accepted [OF tree_rlp_ok h] by blast
  have v: "ba_verify tree_rlp ?Y e' SCheckEverything BlockHeader_new [] g = andThen (header_verify tree_rlp SCheckEverything BlockHeader_new [] g)
        (\<lambda>_. if h_parentHash ?h = zero_hash 32 \<or> toAddress (replicate 64 1) \<in> set (ba_authorities e') then Inr () else Inl InvalidBlockNonce)" for e'
    using authority_accepted [OF tree_rlp_ok h, of e' BlockHeader_new "[]"] g by auto
  have "h_number g = 0" "h_gasUsed g = 0" using f by (auto simp: header_fields_def tree_rlp_def BlockHeader_new_def uint_0_iff)
  then have "header_verify tree_rlp SCheckEverything BlockHeader_new [] g = Inr ()"
    by (simp add: header_verify_def header_bool_def BlockHeader_new_def andThen_def)
  moreover have "h_parentHash ?h \<noteq> zero_hash 32" by (simp add: zero_hash_def)
  ultimately show ?thesis using g v by (simp add: andThen_def)
qed

theorem header_memo_witness:
  "fst (header_hash tree_rlp WithSeal (fold (header_step tree_rlp) [Hash WithSeal, PopulateFromParent BlockHeader_new, SetNumber 3] BlockHeader_new))
    = sha3 (header_stream tree_rlp WithSeal (fold (header_step tree_rlp) [Hash WithSeal, PopulateFromParent BlockHeader_new, SetNumber 3] BlockHeader_new))"
proof -
  have w: "header_wf tree_rlp BlockHeader_new" by (simp add: header_wf_def BlockHeader_new_def zero_hash_def)
  show ?thesis
    using header_memo [OF tree_rlp_ok w header_parsed [OF tree_rlp_ok w],
        of "[Hash WithSeal, PopulateFromParent BlockHeader_new, SetNumber 3]" WithSeal] by simp
qed

end
