(* ===== verification/BlockProps.thy ===== *)
theory BlockProps
  imports BlockSeal HeaderProps
begin

text \<open>
  What holds of every block, whatever was done with it: each operation of a block keeps its transactions, their hashes and
  their receipts in step.
\<close>

section \<open>Blocks are consistent\<close>

text \<open>Each receipt is one that the execution of the transaction at its place can give, on some accounts with some engine and environment, and the
  set is that of the hashes. It is not said that each execution started where the one before it ended: \<open>sync\<close>, \<open>uncommitToSeal\<close> and
  the commits change the accounts in between.\<close>

definition executed :: "('w, 'l, 'i) blk_env \<Rightarrow> TransactionBase \<Rightarrow> 'l TransactionReceipt \<Rightarrow> bool" where
  "executed E t r \<longleftrightarrow> (\<exists>engine h lh g w x w'. sb_execute (be_st E) engine h lh g t Committed w = Inr (x, r, w'))"

definition consistent :: "('w, 'l, 'i) blk_env \<Rightarrow> ('w, 'l) block \<Rightarrow> bool" where
  "consistent E b \<longleftrightarrow> list_all2 (executed E) (b_transactions b) (b_receipts b) \<and> b_transactionSet b = t_sha3 E ` set (b_transactions b)"

text \<open>A result keeps the invariant if the block that is thrown, or the one that is returned, has it.\<close>

definition keeps :: "(('w, 'l) block \<Rightarrow> bool) \<Rightarrow> ('a \<Rightarrow> ('w, 'l) block) \<Rightarrow> ('w, 'l) thrown + 'a \<Rightarrow> bool" where
  "keeps P f r \<longleftrightarrow> (case r of Inl x \<Rightarrow> P (snd x) | Inr x \<Rightarrow> P (f x))"

lemma keeps_simps [simp]: "keeps P f (Inl x) = P (snd x)" "keeps P f (Inr y) = P (f y)" "keeps P f (throw e b) = P b"
  by (simp_all add: keeps_def throw_def)

lemma andThen_throw [simp]: "andThen (throw e b) k = throw e b"
  by (simp add: throw_def)

lemma keeps_andThen: "keeps P f r \<Longrightarrow> (\<And>x. r = Inr x \<Longrightarrow> P (f x) \<Longrightarrow> keeps P g (k x)) \<Longrightarrow> keeps P g (andThen r k)"
  by (cases r) simp_all

lemma keeps_lift: "P b \<Longrightarrow> (\<And>x. r = Inr x \<Longrightarrow> keeps P g (k x)) \<Longrightarrow> keeps P g (andThen (lift_header b r) k)"
  by (cases r) (simp_all add: lift_header_def)

text \<open>Only these three fields count.\<close>

definition same_txs :: "('w, 'l) block \<Rightarrow> ('w, 'l) block \<Rightarrow> bool" where
  "same_txs a b \<longleftrightarrow> b_transactions a = b_transactions b \<and> b_receipts a = b_receipts b \<and> b_transactionSet a = b_transactionSet b"

lemma same_consistent: "same_txs a b \<Longrightarrow> consistent E a \<longleftrightarrow> consistent E b"
  by (simp add: same_txs_def consistent_def)

lemma consistent_frame [simp]:
  "consistent E (b\<lparr>b_state := w\<rparr>) = consistent E b" "consistent E (b\<lparr>b_precommit := w\<rparr>) = consistent E b"
  "consistent E (b\<lparr>b_previousBlock := h\<rparr>) = consistent E b" "consistent E (b\<lparr>b_currentBlock := h\<rparr>) = consistent E b"
  "consistent E (b\<lparr>b_currentBytes := x\<rparr>) = consistent E b" "consistent E (b\<lparr>b_committedToSeal := c\<rparr>) = consistent E b"
  "consistent E (b\<lparr>b_currentTxs := x\<rparr>) = consistent E b" "consistent E (b\<lparr>b_currentUncles := x\<rparr>) = consistent E b"
  "consistent E (b\<lparr>b_author := a\<rparr>) = consistent E b" "consistent E (b\<lparr>b_sealEngine := e\<rparr>) = consistent E b"
  by (simp_all add: consistent_def)

lemma consistent_note [simp]: "consistent E (noteChain F C b) = consistent E b"
  by (simp add: noteChain_def)

lemma consistent_uncommit [simp]: "consistent E (uncommitToSeal b) = consistent E b"
  by (simp add: uncommitToSeal_def)

lemma consistent_cleared [simp]: "consistent E (cleared ts b)"
  by (simp add: cleared_def resetCurrentTime_def consistent_def)

lemma keeps_engine: "P b \<Longrightarrow> (\<And>e. b_sealEngine b = Some e \<Longrightarrow> keeps P g (k e)) \<Longrightarrow> keeps P g (andThen (b_engine b) k)"
  by (cases "b_sealEngine b") (simp_all add: b_engine_def throw_def)

lemma keeps_daos: "consistent E b \<Longrightarrow> keeps (consistent E) id (move_daos F ds b)"
  by (induction ds arbitrary: b) (simp_all split: option.split)

lemma keeps_irregular: "consistent E b \<Longrightarrow> keeps (consistent E) id (performIrregularModifications F e b)"
  by (auto simp: performIrregularModifications_def Let_def intro: keeps_andThen [OF keeps_daos])

lemma keeps_reset: "keeps (consistent E) id (resetCurrent F ts b)"
  by (auto simp: resetCurrent_def Let_def split: option.split intro!: keeps_engine keeps_irregular)

lemma keeps_reset_then: "(\<And>x. consistent E x \<Longrightarrow> keeps (consistent E) g (k x)) \<Longrightarrow> keeps (consistent E) g (andThen (resetCurrent F ts b) k)"
  using keeps_andThen [OF keeps_reset] by fastforce

lemma keeps_sync_to: "consistent E b \<Longrightarrow> keeps (consistent E) snd (sync_to F C now h bi b)"
  by (auto simp: sync_to_def Let_def lift_header_def split: sum.split intro!: keeps_reset_then)

lemma consistent_push:
  assumes "consistent E b" "sb_execute (be_st E) en h lh g t Committed w = Inr (x, r, w')"
  shows "consistent E (b\<lparr>b_state := w'', b_transactions := b_transactions b @ [t], b_receipts := b_receipts b @ [r],
    b_transactionSet := insert (t_sha3 E t) (b_transactionSet b)\<rparr>)"
proof -
  have "executed E t r" unfolding executed_def using assms(2) by blast
  then show ?thesis using assms(1) by (auto simp: consistent_def intro!: list_all2_appendI)
qed

lemma keeps_execute: "consistent E b \<Longrightarrow> keeps (consistent E) snd (b_execute E lh t p b)"
proof -
  assume c: "consistent E b"
  let ?b = "uncommitToSeal b"
  have c': "consistent E ?b" using c by simp
  show ?thesis
  proof (cases "isSealed b")
    case True
    then show ?thesis using c by (simp add: b_execute_def)
  next
    case F: False
    show ?thesis
    proof (cases "b_sealEngine ?b")
      case None
      then show ?thesis using F c' by (simp add: b_execute_def Let_def)
    next
      case (Some en)
      show ?thesis
      proof (cases "sb_execute (be_st E) en (b_currentBlock ?b) lh (b_gasUsed ?b) t p (b_state ?b)")
        case (Inl x)
        then show ?thesis using F c' Some by (cases x) (simp add: b_execute_def Let_def)
      next
        case (Inr x)
        then obtain a r w where x: "sb_execute (be_st E) en (b_currentBlock ?b) lh (b_gasUsed ?b) t p (b_state ?b) = Inr (a, r, w)"
          by (cases x) simp
        then show ?thesis using consistent_push [OF c', of en "b_currentBlock ?b" lh "b_gasUsed ?b" t "b_state ?b" a r w w] c' F Some
          by (cases p) (simp_all add: b_execute_def Let_def)
      qed
    qed
  qed
qed

lemma tx_stream_memo [simp]: "tx_streamRLP R (t\<lparr>t_hashWith := v\<rparr>) g f = tx_streamRLP R t g f"
  by (simp add: tx_streamRLP_def tx_fields_def)

lemma t_noted_sha3 [simp]: "t_sha3 E (t_noted E t) = t_sha3 E t"
  by (simp add: t_sha3_def t_noted_def tx_sha3_def Let_def)

lemma keeps_rejected: "consistent E b \<Longrightarrow> (\<And>q. keeps (consistent E) g (k q)) \<Longrightarrow> keeps (consistent E) g (andThen (rejected F Q t e b q) k)"
  by (auto simp: rejected_def split: exec_exception.split sum.split)

lemma keeps_one: "consistent E (fst s) \<Longrightarrow> keeps (consistent E) fst (sync_one E C Q ask t s)"
proof -
  assume c: "consistent E (fst s)"
  obtain b q rs n where s: "s = (b, q, rs, n)" by (cases s) simp
  have k: "keeps (consistent E) snd (b_execute E lh t p b)" for lh t p using c s by (intro keeps_execute) simp
  show ?thesis
  proof (cases "b_execute E (bc_lastHashes C (bc_currentHash C)) (t_noted E t) Committed b")
    case (Inl x)
    obtain e b' where x: "x = (e, b')" by (cases x)
    have c': "consistent E b'" using k [of "bc_lastHashes C (bc_currentHash C)" "t_noted E t" Committed] Inl x by simp
    show ?thesis using c s c' Inl x by (cases e) (auto simp: sync_one_def intro!: keeps_rejected)
  next
    case (Inr x)
    then show ?thesis using c s k [of "bc_lastHashes C (bc_currentHash C)" "t_noted E t" Committed] by (cases x) (simp add: sync_one_def)
  qed
qed

lemma keeps_pass: "consistent E (fst s) \<Longrightarrow> keeps (consistent E) fst (sync_pass E C Q ask ts s)"
  by (induction ts arbitrary: s) (auto intro!: keeps_andThen [OF keeps_one])

lemma keeps_passes: "consistent E (fst s) \<Longrightarrow> keeps (consistent E) (\<lambda>r. fst (snd r)) (sync_passes n E C Q ask ts hit s)"
  by (induction n arbitrary: s) (auto simp: split: prod.split intro!: keeps_andThen [OF keeps_pass])

lemma keeps_queue: "consistent E b \<Longrightarrow> keeps (consistent E) (\<lambda>r. fst (snd r)) (sync_queue E C Q ask n q b)"
  by (auto simp: sync_queue_def Let_def intro!: keeps_passes)

lemma keeps_exec: "consistent E b \<Longrightarrow> (case b_exec E C Q q b of Inl x \<Rightarrow> consistent E (snd (fst x)) | Inr x \<Rightarrow> consistent E (fst (snd x)))"
proof -
  assume "consistent E b"
  then have k: "keeps (consistent E) snd (b_execute E lh t p (noteChain E C b))" for lh t p by (intro keeps_execute) simp
  show ?thesis using k [of _ _ Committed] \<open>consistent E b\<close>
    by (auto simp: b_exec_def Let_def keeps_def split: list.split sum.split) (metis snd_conv sum.simps(5,6))+
qed

lemma consistent_rewards [simp]: "consistent E (applyRewards F us r b) = consistent E b"
  by (simp add: applyRewards_def split: prod.split)

lemma consistent_seal_header [simp]: "consistent E (seal_header F x b) = consistent E b"
  by (simp add: seal_header_def Let_def split: prod.split)

lemma keeps_commit: "consistent E b \<Longrightarrow> keeps (consistent E) id (commitToSeal F C x b)"
  by (auto simp: commitToSeal_def Let_def split: prod.split intro!: keeps_lift)

lemma consistent_commit_exec [simp]: "consistent E (commitToSealAfterExecTx F b) = consistent E b"
  by (simp add: commitToSealAfterExecTx_def Let_def)

lemma keeps_matches: "consistent E b \<Longrightarrow> keeps (consistent E) snd (seal_matches F h b)"
  by (auto simp: seal_matches_def Let_def split: prod.split intro!: keeps_lift)

lemma keeps_seal: "consistent E b \<Longrightarrow> keeps (consistent E) snd (sealBlock F h b)"
  by (auto simp: sealBlock_def split: prod.split intro!: keeps_andThen [OF keeps_matches] keeps_lift)

lemma keeps_seal_out: "consistent E b \<Longrightarrow> keeps (consistent E) snd (sealBlock_out F h b)"
  by (auto simp: sealBlock_out_def split: prod.split intro!: keeps_andThen [OF keeps_matches])

lemma keeps_all: "consistent E (fst s) \<Longrightarrow> keeps (consistent E) fst (execute_all E lh ts s)"
  by (induction ts arbitrary: s) (auto intro!: keeps_andThen [OF keeps_execute])

lemma keeps_finish: "consistent E b \<Longrightarrow> keeps (consistent E) snd (enact_finish F C us b)"
  by (simp add: enact_finish_def Let_def)

lemma keeps_enact_uncles: "consistent E b \<Longrightarrow> keeps (consistent E) snd (enact_uncles F C x b)"
  by (auto simp: enact_uncles_def Let_def split: prod.split sum.split)

lemma keeps_enact: "consistent E b \<Longrightarrow> keeps (consistent E) snd (enact E C vb b)"
  by (auto simp: enact_def Let_def split: prod.split
      intro!: keeps_andThen [OF keeps_all] keeps_andThen [OF keeps_enact_uncles] keeps_finish)

lemma keeps_enactOn: "consistent E b \<Longrightarrow> keeps (consistent E) snd (enactOn E C now vb b)"
  by (auto simp: enactOn_def Let_def intro!: keeps_lift keeps_andThen [OF keeps_sync_to] keeps_reset_then keeps_enact)

lemma keeps_cleanup: "consistent E b \<Longrightarrow> keeps (consistent E) id (b_cleanup F now full b)"
  by (auto simp: b_cleanup_def Let_def intro!: keeps_engine keeps_reset)

lemma keeps_populate: "consistent E b \<Longrightarrow> keeps (consistent E) id (populateFromChain E C now h ir b)"
  by (auto simp: populateFromChain_def Let_def split: option.split intro!: keeps_lift keeps_andThen [OF keeps_sync_to] keeps_andThen [OF keeps_enact])

text \<open>The blocks that any sequence of operations leaves, exceptions included, on any chain and with any queue.\<close>

definition outcome :: "('a \<Rightarrow> ('w, 'l) block) \<Rightarrow> ('w, 'l) thrown + 'a \<Rightarrow> ('w, 'l) block" where
  "outcome f r = (case r of Inl x \<Rightarrow> snd x | Inr y \<Rightarrow> f y)"

inductive reached :: "('w, 'l, 'i) blk_env \<Rightarrow> 'q queue \<Rightarrow> ('w, 'l) block \<Rightarrow> bool" for E :: "('w, 'l, 'i) blk_env" and Q :: "'q queue" where
  r_null: "reached E Q (Block_null w a)"
| r_chain: "reached E Q (Block_of_chain E C w pre a)"
| r_root: "Block_of_root E C w pre root a = Some b \<Longrightarrow> reached E Q b"
| r_copy: "reached E Q s \<Longrightarrow> reached E Q (Block_copy s)"
| r_assign: "reached E Q s \<Longrightarrow> reached E Q b \<Longrightarrow> reached E Q (Block_assign s b)"
| r_reset: "reached E Q b \<Longrightarrow> reached E Q (outcome id (resetCurrent E ts b))"
| r_time: "reached E Q b \<Longrightarrow> reached E Q (resetCurrentTime ts b)"
| r_index: "reached E Q b \<Longrightarrow> reached E Q (b_setIndex i b)"
| r_nodes: "reached E Q b \<Longrightarrow> reached E Q (b_setNodeList ns b)"
| r_author: "reached E Q b \<Longrightarrow> reached E Q (outcome id (b_setAuthor E now a b))"
| r_sync: "reached E Q b \<Longrightarrow> reached E Q (outcome snd (sync_to E C now h bi b))"
| r_queue: "reached E Q b \<Longrightarrow> reached E Q (outcome (\<lambda>r. fst (snd r)) (sync_queue E C Q ask n q b))"
| r_execute: "reached E Q b \<Longrightarrow> reached E Q (outcome snd (b_execute E lh t p b))"
| r_exec: "reached E Q b \<Longrightarrow> reached E Q (case b_exec E C Q q b of Inl x \<Rightarrow> snd (fst x) | Inr x \<Rightarrow> fst (snd x))"
| r_commit: "reached E Q b \<Longrightarrow> reached E Q (outcome id (commitToSeal E C x b))"
| r_commit_exec: "reached E Q b \<Longrightarrow> reached E Q (commitToSealAfterExecTx E b)"
| r_seal: "reached E Q b \<Longrightarrow> reached E Q (outcome snd (sealBlock E h b))"
| r_seal_out: "reached E Q b \<Longrightarrow> reached E Q (outcome snd (sealBlock_out E h b))"
| r_enactOn: "reached E Q b \<Longrightarrow> reached E Q (outcome snd (enactOn E C now vb b))"
| r_populate: "reached E Q b \<Longrightarrow> reached E Q (outcome id (populateFromChain E C now h ir b))"
| r_cleanup: "reached E Q b \<Longrightarrow> reached E Q (outcome id (b_cleanup E now full b))"

lemma keeps_outcome: "keeps P f r \<Longrightarrow> P (outcome f r)"
  by (cases r) (simp_all add: outcome_def)

lemma consistent_empty: "b_transactions b = [] \<Longrightarrow> b_receipts b = [] \<Longrightarrow> b_transactionSet b = {} \<Longrightarrow> consistent E b"
  by (simp add: consistent_def)

lemma reached_consistent: "reached E Q b \<Longrightarrow> consistent E b"
proof (induction rule: reached.induct)
  case (r_null w a)
  show ?case by (simp add: Block_null_def consistent_empty)
next
  case (r_chain C w pre a)
  have "consistent E (Block_null w a)" by (simp add: Block_null_def consistent_empty)
  then show ?case by (simp add: Block_of_chain_def clear_headers_def)
next
  case (r_root C w pre root a b)
  have "consistent E (Block_null w a)" by (simp add: Block_null_def consistent_empty)
  then show ?case using r_root by (auto simp: Block_of_root_def clear_headers_def Let_def)
next
  case (r_assign s b)
  then show ?case by (simp add: Block_assign_def consistent_def)
next
  case (r_exec b C q)
  show ?case using keeps_exec [OF r_exec.IH, of C Q q] by (simp split: sum.split_asm sum.split)
qed (auto simp: Block_copy_def resetCurrentTime_def b_setIndex_def b_setNodeList_def b_setAuthor_def
    intro!: keeps_outcome keeps_reset keeps_sync_to keeps_queue keeps_execute keeps_commit keeps_seal keeps_seal_out
      keeps_enactOn keeps_populate keeps_cleanup)

lemma consistent_length: "consistent E b \<Longrightarrow> length (b_receipts b) = length (b_transactions b)"
  by (metis consistent_def list_all2_lengthD)

lemma commit_defined: "consistent E b \<Longrightarrow> commitToSeal F C x b \<noteq> Inl (Undefined, b')"
proof -
  assume "consistent E b"
  then have "length (b_receipts b) = length (b_transactions b)" by (rule consistent_length)
  then have "length (b_receipts (noteChain F C b)) = length (b_transactions (noteChain F C b))"
    by (simp add: noteChain_def)
  then show ?thesis
    by (auto simp: commitToSeal_def Let_def andThen_Inl throw_def lift_header_def uncommitToSeal_def split: if_splits sum.splits prod.splits)
qed

text \<open>C9: whatever is done with a block, by any sequence of operations on any chains, whether they throw or return, it has as many receipts as
  transactions, each a receipt that executing the transaction at its place gives (on some accounts, with some engine and environment), the set
  of hashes is that of the transactions, and no receipt is read that is not there when the block is sealed or looked at.\<close>

theorem block_consistent:
  assumes "reached E Q b"
  shows "list_all2 (executed E) (b_transactions b) (b_receipts b) \<and> b_transactionSet b = t_sha3 E ` set (b_transactions b)
    \<and> commitToSeal E C x b \<noteq> Inl (Undefined, b') \<and> fromPending E i b \<noteq> Inl (Undefined, b')"
proof -
  have c: "consistent E b" using assms by (rule reached_consistent)
  then have "length (b_receipts b) = length (b_transactions b)" by (rule consistent_length)
  moreover define n where "n = min i (length (b_transactions b))"
  ultimately have "n \<noteq> 0 \<longrightarrow> n - 1 < length (b_receipts b)" by linarith
  then have "fromPending E i b \<noteq> Inl (Undefined, b')"
    unfolding fromPending_def n_def [symmetric] by (auto simp: Let_def throw_def split: option.split)
  then show ?thesis using c commit_defined [OF c] by (simp add: consistent_def)
qed

section \<open>A small world\<close>

text \<open>Accounts that only count the transactions: a transaction is executed when its nonce is the count and its gas fits the block.\<close>

definition count_root :: "nat \<Rightarrow> h256" where
  "count_root w = replicate 32 (of_nat w)"

definition count_execute :: "seal_engine \<Rightarrow> BlockHeader \<Rightarrow> h256 list \<Rightarrow> u256 \<Rightarrow> TransactionBase \<Rightarrow> Permanence \<Rightarrow> nat
    \<Rightarrow> (exec_exception \<times> nat) + (ExecutionResult \<times> nat TransactionReceipt \<times> nat)" where
  "count_execute engine h lh g t p w =
     (if t_nonce t \<noteq> of_nat w then Inl (XInvalidNonce (int w) (uint (t_nonce t)), w)
      else if uint g + uint (t_gas t) > uint (h_gasLimit h) then Inl (XBlockGasLimitReached (uint g + uint (t_gas t)), w)
      else Inr (\<lparr>er_gasUsed = t_gas t, er_excepted = TE_None, er_newAddress = 0, er_output = [], er_codeDeposit = CD_None, er_gasRefunded = 0,
             er_depositSize = 0, er_gasForDeposit = 0\<rparr>,
           \<lparr>rc_stateRoot = count_root (Suc w), rc_gasUsed = g + t_gas t, rc_bloom = zero_hash 256, rc_log = []\<rparr>, Suc w))"

definition count_state :: "(nat, nat) chain_state" where
  "count_state = \<lparr>st_balance = (\<lambda>a w. 0), st_getNonce = (\<lambda>a w. of_nat w), st_addBalance = (\<lambda>a v w. w), st_subBalance = (\<lambda>a v w. Some w),
     st_transferBalance = (\<lambda>a b v w. Some w), st_incNonce = (\<lambda>a. Suc), st_setNewCode = (\<lambda>a c w. w), st_kill = (\<lambda>a w. w), st_savepoint = id,
     st_rollback = (\<lambda>n w. n), st_addressHasCode = (\<lambda>a w. False), st_code = (\<lambda>a w. []), st_codeHash = (\<lambda>a w. zero_hash 32),
     st_storage = (\<lambda>a n w. 0), st_addressInUse = (\<lambda>a w. True), st_accountNonemptyAndExisting = (\<lambda>a w. True),
     sb_execute = count_execute, sb_rootHash = count_root, sb_setRoot = (\<lambda>r w. Some (unat (hd r))), sb_commit = (\<lambda>e w. w), sb_db_commit = id,
     sb_db_rollback = id, sb_db_lookup = (\<lambda>h w. [0]), sb_empty = (\<lambda>w. 0), sb_noteAccountStartNonce = (\<lambda>n w. w)\<rparr>"

definition count_env :: "(nat, nat, item) blk_env" where
  "count_env = \<lparr>be_rlp = tree_rlp, be_crypto = sample_authority_crypto, be_st = count_state, be_receipt = rc_stateRoot, be_childDaos = []\<rparr>"

definition count_chain :: chain where
  "count_chain = \<lparr>bc_params = ChainOperationParams, bc_engine = NoProof ChainOperationParams, bc_genesisHash = replicate 32 1, bc_currentHash = replicate 32 1,
     bc_isKnown = (\<lambda>h. True), bc_block = (\<lambda>h. []), bc_headerData = (\<lambda>h. []),
     bc_details = (\<lambda>h. \<lparr>bd_number = 0, bd_totalDifficulty = 0, bd_parent = h, bd_children = []\<rparr>), bc_allKinFrom = (\<lambda>h n. [h]),
     bc_lastHashes = (\<lambda>h. [h]), bc_verifyBlock = (\<lambda>b ir. None)\<rparr>"

definition count_parent :: BlockHeader where
  "count_parent = BlockHeader_new\<lparr>h_hash := replicate 32 1, h_gasLimit := 100000, h_timestamp := 5, h_stateRoot := count_root 0\<rparr>"

definition count_block :: "(nat, nat) block" where
  "count_block = (Block_null 0 7)\<lparr>b_previousBlock := count_parent, b_sealEngine := Some (NoProof ChainOperationParams),
     b_currentBlock := header_populateFromParent count_parent (setTimestamp 6 (setAuthor 7 BlockHeader_new))\<rparr>"

definition count_tx :: "u256 \<Rightarrow> TransactionBase" where
  "count_tx n = tx_null\<lparr>t_type := MessageCall, t_nonce := n, t_gas := 21000\<rparr>"

lemma count_env_simps [simp]: "be_rlp count_env = tree_rlp" "be_st count_env = count_state" "sb_execute count_state = count_execute"
  "sb_rootHash count_state = count_root" "be_receipt count_env = rc_stateRoot"
  by (simp_all add: count_env_def count_state_def)

lemma count_block_simps [simp]: "b_state count_block = 0" "b_transactions count_block = []" "b_receipts count_block = []" "b_transactionSet count_block = {}"
  "\<not> isSealed count_block" "\<not> b_committedToSeal count_block" "b_previousBlock count_block = count_parent" "b_gasUsed count_block = 0"
  "b_sealEngine count_block = Some (NoProof ChainOperationParams)" "h_gasLimit (b_currentBlock count_block) = 100000"
  "h_parentHash (b_currentBlock count_block) = replicate 32 1" "b_precommit count_block = 0"
  by (simp_all add: count_block_def Block_null_def isSealed_def count_parent_def header_populateFromParent_def b_gasUsed_def)

lemma count_tx_simps [simp]: "t_nonce (count_tx n) = n" "t_gas (count_tx n) = 21000" "t_type (count_tx n) = MessageCall" "t_gasPrice (count_tx n) = 0"
  by (simp_all add: count_tx_def tx_null_def)

definition count_receipt :: "nat TransactionReceipt" where
  "count_receipt = \<lparr>rc_stateRoot = count_root 1, rc_gasUsed = 21000, rc_bloom = zero_hash 256, rc_log = []\<rparr>"

definition count_block1 :: "(nat, nat) block" where
  "count_block1 = count_block\<lparr>b_state := 1, b_transactions := [count_tx 0], b_receipts := [count_receipt], b_transactionSet := {t_sha3 count_env (count_tx 0)}\<rparr>"

lemma count_executes: "\<exists>r. b_execute count_env lh (count_tx 0) Committed count_block = Inr (r, count_block1)"
  by (simp add: b_execute_def uncommitToSeal_def Let_def count_execute_def count_block1_def count_receipt_def)

definition count_queue :: "TransactionBase list queue" where
  "count_queue = \<lparr>tq_topTransactions = (\<lambda>n avoid q. take n q), tq_drop = (\<lambda>h q. filter (\<lambda>t. t_sha3 count_env t \<noteq> h) q),
     tq_setFuture = (\<lambda>h q. q), tq_waiting = (\<lambda>a q. 0)\<rparr>"

definition count_reached :: "(nat, nat) block" where
  "count_reached = outcome snd (b_execute count_env [] ((count_tx 0)\<lparr>t_gas := 0\<rparr>) Committed (Block_of_chain count_env count_chain 0 0 7))"

theorem block_consistent_witness:
  "b_receipts count_reached \<noteq> []
    \<and> list_all2 (executed count_env) (b_transactions count_reached) (b_receipts count_reached)
    \<and> b_transactionSet count_reached = t_sha3 count_env ` set (b_transactions count_reached)
    \<and> commitToSeal count_env count_chain [1] count_reached \<noteq> Inl (Undefined, count_block) \<and> fromPending count_env 3 count_reached \<noteq> Inl (Undefined, count_block)"
proof -
  have "reached count_env count_queue count_reached" unfolding count_reached_def by (intro reached.r_execute reached.r_chain)
  moreover have "b_receipts count_reached \<noteq> []"
    by (simp add: count_reached_def b_execute_def uncommitToSeal_def Let_def count_execute_def Block_of_chain_def clear_headers_def noteChain_def
        count_state_def Block_null_def isSealed_def outcome_def b_gasUsed_def)
  ultimately show ?thesis using block_consistent [of count_env count_queue count_reached count_chain "[1]" count_block 3] by simp
qed

end
