(* ===== verification/SealProps.thy ===== *)
theory SealProps
  imports BlockProps
begin

text \<open>
  Sealing and playing back: a block sealed again is the block sealed once, what a node seals is accepted when it is played back
  on the same chain with the same engine, and what acceptance means.
\<close>

section \<open>Sealing again\<close>

definition seal_start :: "('w, 'l, 'i) blk_env \<Rightarrow> chain \<Rightarrow> ('w, 'l) block \<Rightarrow> ('w, 'l) block" where
  "seal_start E C b = (let b = noteChain E C b in if b_committedToSeal b then uncommitToSeal b else b\<lparr>b_precommit := b_state b\<rparr>)"

definition seal_with :: "('w, 'l, 'i) blk_env \<Rightarrow> chain \<Rightarrow> bytes \<Rightarrow> BlockHeader list \<Rightarrow> bytes list \<Rightarrow> ('w, 'l) block \<Rightarrow> ('w, 'l) block" where
  "seal_with E C x uncles raws b =
     (let b = applyRewards E uncles (blockReward (bc_params C)) (b\<lparr>b_currentTxs := raw_list (be_rlp E) (map (tx_bytes E) (b_transactions b)),
                     b_currentUncles := raw_list (be_rlp E) raws\<rparr>)
      in (seal_header E x (b\<lparr>b_state := sb_commit (be_st E) (removeEmptyAccounts C b) (b_state b)\<rparr>))\<lparr>b_committedToSeal := True\<rparr>)"

lemma commitToSeal_split:
  "commitToSeal E C x b = (if isSealed b then throw InvalidOperationOnSealedBlock b
     else andThen (lift_header (seal_start E C b) (seal_uncles E C (seal_start E C b))) (\<lambda>(uncles, raws).
       if length (b_receipts b) < length (b_transactions b) then throw Undefined (seal_start E C b)
       else Inr (seal_with E C x uncles raws (seal_start E C b))))"
proof -
  have r: "b_receipts (seal_start E C b) = b_receipts b" "b_transactions (seal_start E C b) = b_transactions b"
    by (simp_all add: seal_start_def noteChain_def uncommitToSeal_def Let_def)
  show ?thesis unfolding commitToSeal_def seal_with_def seal_start_def Let_def r [unfolded seal_start_def Let_def] ..
qed

lemma applyRewards_state:
  "applyRewards E us r b = b\<lparr>b_state := b_state (applyRewards E us r b)\<rparr>"
  by (simp add: applyRewards_def split: prod.split)

lemma applyRewards_cong: "b_state a = b_state b \<Longrightarrow> h_number (b_currentBlock a) = h_number (b_currentBlock b)
    \<Longrightarrow> h_author (b_currentBlock a) = h_author (b_currentBlock b)
    \<Longrightarrow> b_state (applyRewards E us r a) = b_state (applyRewards E us r b)"
  by (simp add: applyRewards_def split: prod.split)

lemma applyRewards_fields [simp]:
  "b_transactions (applyRewards E us r b) = b_transactions b" "b_receipts (applyRewards E us r b) = b_receipts b"
  "b_transactionSet (applyRewards E us r b) = b_transactionSet b" "b_precommit (applyRewards E us r b) = b_precommit b"
  "b_previousBlock (applyRewards E us r b) = b_previousBlock b" "b_currentBlock (applyRewards E us r b) = b_currentBlock b"
  "b_currentBytes (applyRewards E us r b) = b_currentBytes b" "b_committedToSeal (applyRewards E us r b) = b_committedToSeal b"
  "b_currentTxs (applyRewards E us r b) = b_currentTxs b" "b_currentUncles (applyRewards E us r b) = b_currentUncles b"
  "b_author (applyRewards E us r b) = b_author b" "b_sealEngine (applyRewards E us r b) = b_sealEngine b"
  by (simp_all add: applyRewards_def split: prod.split)

lemma header_hash_fields [simp]:
  "h_number (snd (header_hash R i h)) = h_number h" "h_parentHash (snd (header_hash R i h)) = h_parentHash h"
  "h_stateRoot (snd (header_hash R i h)) = h_stateRoot h" "h_timestamp (snd (header_hash R i h)) = h_timestamp h"
  "h_gasUsed (snd (header_hash R i h)) = h_gasUsed h" "h_difficulty (snd (header_hash R i h)) = h_difficulty h"
  "h_author (snd (header_hash R i h)) = h_author h" "h_receiptsRoot (snd (header_hash R i h)) = h_receiptsRoot h"
  "h_logBloom (snd (header_hash R i h)) = h_logBloom h" "h_gasLimit (snd (header_hash R i h)) = h_gasLimit h"
  by (cases i; simp add: header_hash_def Let_def)+

text \<open>The header that is sealed.\<close>

definition sealed_header :: "('w, 'l, 'i) blk_env \<Rightarrow> bytes \<Rightarrow> bytes list \<Rightarrow> 'w \<Rightarrow> ('w, 'l) block \<Rightarrow> BlockHeader" where
  "sealed_header E x raws w b = (b_currentBlock b)\<lparr>h_parentHash := fst (header_hash (be_rlp E) WithSeal (b_previousBlock b)),
     h_sha3Uncles := sha3 (raw_list (be_rlp E) raws), h_stateRoot := sb_rootHash (be_st E) w,
     h_transactionsRoot := orderedTrieRoot (be_rlp E) (map (tx_bytes E) (b_transactions b)),
     h_receiptsRoot := orderedTrieRoot (be_rlp E) (map (be_receipt E) (take (length (b_transactions b)) (b_receipts b))),
     h_logBloom := logBloom b, h_gasUsed := b_gasUsed b, h_extraData := take 32 x, h_hash := zero_hash 32, h_hashWithout := zero_hash 32\<rparr>"

definition rewarded_state :: "('w, 'l, 'i) blk_env \<Rightarrow> chain \<Rightarrow> BlockHeader list \<Rightarrow> ('w, 'l) block \<Rightarrow> 'w" where
  "rewarded_state E C us b = sb_commit (be_st E) (removeEmptyAccounts C b) (b_state (applyRewards E us (blockReward (bc_params C)) b))"

lemma rewarded_cong: "b_state a = b_state b \<Longrightarrow> h_number (b_currentBlock a) = h_number (b_currentBlock b)
    \<Longrightarrow> h_author (b_currentBlock a) = h_author (b_currentBlock b) \<Longrightarrow> rewarded_state E C us a = rewarded_state E C us b"
  using applyRewards_cong [of a b E us "blockReward (bc_params C)"] by (simp add: rewarded_state_def removeEmptyAccounts_def)

lemma seal_with_fields:
  defines "b' \<equiv> \<lambda>E C x us raws b. b\<lparr>b_currentTxs := raw_list (be_rlp E) (map (tx_bytes E) (b_transactions b)), b_currentUncles := raw_list (be_rlp E) raws,
     b_state := rewarded_state E C us b, b_previousBlock := snd (header_hash (be_rlp E) WithSeal (b_previousBlock b)),
     b_currentBlock := sealed_header E x raws (rewarded_state E C us b) b, b_committedToSeal := True\<rparr>"
  shows "seal_with E C x us raws b = b' E C x us raws b"
proof -
  let ?c = "b\<lparr>b_currentTxs := raw_list (be_rlp E) (map (tx_bytes E) (b_transactions b)), b_currentUncles := raw_list (be_rlp E) raws\<rparr>"
  have w: "b_state (applyRewards E us (blockReward (bc_params C)) ?c) = b_state (applyRewards E us (blockReward (bc_params C)) b)"
    by (rule applyRewards_cong) simp_all
  have h: "setExtraData x (setParentHash p (setRoots t r u s (setGasUsed g (setLogBloom l h)))) = h\<lparr>h_parentHash := p, h_sha3Uncles := u, h_stateRoot := s,
      h_transactionsRoot := t, h_receiptsRoot := r, h_logBloom := l, h_gasUsed := g, h_extraData := x, h_hash := zero_hash 32, h_hashWithout := zero_hash 32\<rparr>"
    for x p t r u s g l h by (rule BlockHeader.BlockHeader.equality) (simp_all add: setter_defs noteDirty_def)
  show ?thesis
    unfolding b'_def seal_with_def Let_def
    by (rule Block.block.equality) (simp_all add: Let_def seal_header_def sealed_header_def w rewarded_state_def removeEmptyAccounts_def
         logBloom_def b_gasUsed_def h split: prod.split)
qed

lemma header_hash_again [simp]: "header_hash R i (snd (header_hash R i h)) = header_hash R i h"
  by (cases i) (auto simp: header_hash_def Let_def)

lemma seal_start_fields [simp]:
  "b_transactions (seal_start E C b) = b_transactions b" "b_receipts (seal_start E C b) = b_receipts b"
  "b_transactionSet (seal_start E C b) = b_transactionSet b" "b_previousBlock (seal_start E C b) = b_previousBlock b"
  "b_currentBlock (seal_start E C b) = b_currentBlock b" "b_currentBytes (seal_start E C b) = b_currentBytes b"
  "b_author (seal_start E C b) = b_author b" "\<not> b_committedToSeal (seal_start E C b)"
  "b_precommit (seal_start E C b) = b_state (seal_start E C b)" "b_sealEngine (seal_start E C b) \<noteq> None"
  by (auto simp: seal_start_def noteChain_def uncommitToSeal_def Let_def)

lemma start_again:
  fixes E C x us raws b
  defines "s \<equiv> seal_start E C b"
  defines "b1 \<equiv> seal_with E C x us raws s"
  shows "seal_start E C b1 = b1\<lparr>b_state := b_state s, b_committedToSeal := False\<rparr>"
proof -
  have s: "b_precommit s = b_state s" "b_sealEngine s \<noteq> None" unfolding s_def by simp_all
  have b: "b_committedToSeal b1" "b_precommit b1 = b_state s" "b_sealEngine b1 \<noteq> None"
    unfolding b1_def seal_with_fields using s by simp_all
  then have "noteChain E C b1 = b1" unfolding noteChain_def by (simp only: if_False)
  then show ?thesis using b by (simp add: seal_start_def uncommitToSeal_def Let_def)
qed

lemma seal_uncles_cong: "h_number (b_previousBlock a) = h_number (b_previousBlock b) \<Longrightarrow> h_parentHash (b_previousBlock a) = h_parentHash (b_previousBlock b)
    \<Longrightarrow> h_parentHash (b_currentBlock a) = h_parentHash (b_currentBlock b) \<Longrightarrow> seal_uncles E C a = seal_uncles E C b"
  by (simp add: seal_uncles_def)

lemma seal_with_again:
  fixes E C x us raws b
  defines "s \<equiv> seal_start E C b"
  defines "s1 \<equiv> seal_start E C (seal_with E C x us raws s)"
  shows "seal_with E C y us' raws' s1 = seal_with E C y us' raws' s"
proof -
  have s1: "s1 = (seal_with E C x us raws s)\<lparr>b_state := b_state s, b_committedToSeal := False\<rparr>"
    unfolding s1_def s_def by (rule start_again)
  have f: "b_state s1 = b_state s" "b_transactions s1 = b_transactions s" "b_receipts s1 = b_receipts s" "b_transactionSet s1 = b_transactionSet s"
    "b_precommit s1 = b_precommit s" "b_currentBytes s1 = b_currentBytes s" "b_author s1 = b_author s" "b_sealEngine s1 = b_sealEngine s"
    "b_previousBlock s1 = snd (header_hash (be_rlp E) WithSeal (b_previousBlock s))"
    "b_currentBlock s1 = sealed_header E x raws (rewarded_state E C us s) s"
    unfolding s1 seal_with_fields by simp_all
  have c: "h_number (b_currentBlock s1) = h_number (b_currentBlock s)" "h_author (b_currentBlock s1) = h_author (b_currentBlock s)"
    unfolding f by (simp_all add: sealed_header_def)
  have w: "rewarded_state E C us' s1 = rewarded_state E C us' s" using f(1) c by (rule rewarded_cong)
  have "sealed_header E y raws' w s1 = sealed_header E y raws' w s" for w
    unfolding sealed_header_def [of E y raws'] f logBloom_def b_gasUsed_def header_hash_again by (simp add: sealed_header_def)
  then show ?thesis unfolding seal_with_fields w
    by (intro Block.block.equality) (simp_all add: f)
qed

text \<open>C18: \<open>commitToSeal\<close> may be called any number of times, as its documentation says: sealing a committed block gives the block, byte for byte, that sealing
  the uncommitted one gives; rewards are not paid twice. The current block has to name the hash of the previous one, as it does unless the
  previous header had no hash memoised when it was made the parent.\<close>

theorem seal_again:
  assumes "commitToSeal E C x b = Inr b'"
    and "h_parentHash (b_currentBlock b) = fst (header_hash (be_rlp E) WithSeal (b_previousBlock b))"
  shows "commitToSeal E C y b' = commitToSeal E C y b"
proof -
  let ?s = "seal_start E C b"
  from assms(1) obtain us raws where u: "\<not> isSealed b" "seal_uncles E C ?s = Inr (us, raws)"
      "\<not> length (b_receipts b) < length (b_transactions b)" "b' = seal_with E C x us raws ?s"
    unfolding commitToSeal_split by (auto simp: lift_header_def throw_def andThen_Inr split: if_splits sum.splits)
  have f: "b_transactions b' = b_transactions b" "b_receipts b' = b_receipts b" "b_currentBytes b' = b_currentBytes b"
    unfolding u(4) seal_with_fields by simp_all
  have "h_parentHash (b_currentBlock (seal_start E C b')) = h_parentHash (b_currentBlock ?s)"
    unfolding u(4) seal_with_fields using assms(2) by (simp add: sealed_header_def)
  then have "seal_uncles E C (seal_start E C b') = seal_uncles E C ?s"
    unfolding u(4) seal_with_fields by (intro seal_uncles_cong) simp_all
  then show ?thesis
    unfolding commitToSeal_split using u(1-3) f seal_with_again [of E C y us raws x us raws b]
    by (simp add: isSealed_def lift_header_def u(4))
qed

section \<open>Playing back what was sealed\<close>

text \<open>What \<open>EnvInfo\<close> takes of a header; the execution of a transaction may depend on these fields only.\<close>

definition same_env :: "BlockHeader \<Rightarrow> BlockHeader \<Rightarrow> bool" where
  "same_env h g \<longleftrightarrow> h_number h = h_number g \<and> h_author h = h_author g \<and> h_timestamp h = h_timestamp g
     \<and> h_difficulty h = h_difficulty g \<and> h_gasLimit h = h_gasLimit g"

definition env_law :: "('w, 'l, 'i) blk_env \<Rightarrow> bool" where
  "env_law E \<longleftrightarrow> (\<forall>engine h g. same_env h g \<longrightarrow> sb_execute (be_st E) engine h = sb_execute (be_st E) engine g)"

definition twin :: "('w, 'l) block \<Rightarrow> ('w, 'l) block \<Rightarrow> bool" where
  "twin a b \<longleftrightarrow> b_state a = b_state b \<and> b_transactions a = b_transactions b \<and> b_receipts a = b_receipts b
     \<and> b_sealEngine a = b_sealEngine b \<and> b_sealEngine a \<noteq> None \<and> same_env (b_currentBlock a) (b_currentBlock b) \<and> \<not> isSealed a \<and> \<not> isSealed b \<and> \<not> b_committedToSeal a \<and> \<not> b_committedToSeal b"

text \<open>What executing leaves alone.\<close>

definition frame :: "('w, 'l) block \<Rightarrow> ('w, 'l) block \<Rightarrow> bool" where
  "frame a b \<longleftrightarrow> b_currentBlock a = b_currentBlock b \<and> b_previousBlock a = b_previousBlock b \<and> b_sealEngine a = b_sealEngine b
     \<and> b_currentBytes a = b_currentBytes b \<and> b_author a = b_author b \<and> b_committedToSeal a = b_committedToSeal b"

lemma frame_refl [simp]: "frame b b"
  by (simp add: frame_def)

lemma frame_trans: "frame a b \<Longrightarrow> frame b c \<Longrightarrow> frame a c"
  by (simp add: frame_def)

definition pushed :: "('w, 'l, 'i) blk_env \<Rightarrow> TransactionBase \<Rightarrow> 'l TransactionReceipt \<Rightarrow> 'w \<Rightarrow> ('w, 'l) block \<Rightarrow> ('w, 'l) block" where
  "pushed E t r w b = b\<lparr>b_state := w, b_transactions := b_transactions b @ [t], b_receipts := b_receipts b @ [r],
     b_transactionSet := insert (t_sha3 E t) (b_transactionSet b)\<rparr>"

lemma pushed_simps [simp]: "b_state (pushed E t r w b) = w" "b_transactions (pushed E t r w b) = b_transactions b @ [t]"
  "b_receipts (pushed E t r w b) = b_receipts b @ [r]" "b_currentBlock (pushed E t r w b) = b_currentBlock b"
  "b_sealEngine (pushed E t r w b) = b_sealEngine b" "isSealed (pushed E t r w b) = isSealed b" "b_committedToSeal (pushed E t r w b) = b_committedToSeal b" "frame b (pushed E t r w b)"
  by (simp_all add: pushed_def isSealed_def frame_def)

lemma execute_plain: "\<not> isSealed b \<Longrightarrow> \<not> b_committedToSeal b \<Longrightarrow> b_sealEngine b = Some en \<Longrightarrow> b_execute E lh t Committed b =
    (case sb_execute (be_st E) en (b_currentBlock b) lh (b_gasUsed b) t Committed (b_state b) of
       Inl (e, w) \<Rightarrow> throw (ExecutionThrown e) (b\<lparr>b_state := w\<rparr>) | Inr (x, r, w) \<Rightarrow> Inr (x, pushed E t r w b))"
  by (simp add: b_execute_def uncommitToSeal_def Let_def pushed_def split: sum.split prod.split)

lemma execute_twin:
  assumes "env_law E" "twin a b" "b_execute E lh t Committed a = Inr (x, a')"
  obtains r w where "a' = pushed E t r w a" "b_execute E lh t Committed b = Inr (x, pushed E t r w b)"
    "twin (pushed E t r w a) (pushed E t r w b)"
proof -
  obtain en where en: "b_sealEngine a = Some en" "b_sealEngine b = Some en" using assms(2) unfolding twin_def by (metis not_None_eq)
  have "sb_execute (be_st E) en (b_currentBlock a) = sb_execute (be_st E) en (b_currentBlock b)" "b_gasUsed a = b_gasUsed b" "b_state a = b_state b"
    using assms(1,2) by (simp_all add: env_law_def twin_def b_gasUsed_def)
  moreover obtain r w where "sb_execute (be_st E) en (b_currentBlock a) lh (b_gasUsed a) t Committed (b_state a) = Inr (x, r, w)" "a' = pushed E t r w a"
    using assms(2,3) en by (auto simp: execute_plain twin_def throw_def split: sum.splits prod.splits)
  ultimately show ?thesis using assms(2) en that by (simp add: execute_plain twin_def)
qed

lemma execute_all_twin:
  assumes "env_law E" "twin a b" "execute_all E lh ts (a, rs) = Inr (a', rs')"
  shows "\<exists>b' rcs. execute_all E lh ts (b, rs) = Inr (b', rs') \<and> twin a' b' \<and> frame a a' \<and> frame b b'
    \<and> b_transactions a' = b_transactions a @ ts \<and> b_receipts a' = b_receipts a @ rcs \<and> rs' = rs @ map (be_receipt E) rcs \<and> length rcs = length ts"
  using assms(2,3)
proof (induction ts arbitrary: a b rs)
  case (Cons t ts)
  then obtain x a1 where x: "b_execute E lh t Committed a = Inr (x, a1)"
    and all: "execute_all E lh ts (a1, rs @ [be_receipt E (last (b_receipts a1))]) = Inr (a', rs')"
    by (auto simp: andThen_Inr)
  from execute_twin [OF assms(1) Cons.prems(1) x] obtain r w where p: "a1 = pushed E t r w a"
    "b_execute E lh t Committed b = Inr (x, pushed E t r w b)" "twin (pushed E t r w a) (pushed E t r w b)" by blast
  from Cons.IH [OF p(3) all [unfolded p(1)]] obtain b' rcs where
    b': "execute_all E lh ts (pushed E t r w b, rs @ [be_receipt E r]) = Inr (b', rs')" "twin a' b'" "frame (pushed E t r w a) a'"
      "frame (pushed E t r w b) b'" "b_transactions a' = b_transactions a @ t # ts" "b_receipts a' = b_receipts a @ r # rcs"
      "rs' = rs @ be_receipt E r # map (be_receipt E) rcs" "length rcs = length ts"
    by auto
  show ?case
    by (rule exI [of _ b'], rule exI [of _ "r # rcs"])
      (use b' p(2) frame_trans [OF pushed_simps(8) b'(3)] frame_trans [OF pushed_simps(8) b'(4)] in simp)
qed simp

text \<open>A block on a chain that has been reset on a parent and holds no transactions yet.\<close>

definition fresh_on :: "('w, 'l, 'i) blk_env \<Rightarrow> chain \<Rightarrow> BlockHeader \<Rightarrow> 'w \<Rightarrow> ('w, 'l) block \<Rightarrow> bool" where
  "fresh_on E C prev w b \<longleftrightarrow> b_transactions b = [] \<and> b_receipts b = [] \<and> \<not> b_committedToSeal b \<and> \<not> isSealed b \<and> b_sealEngine b = Some (bc_engine C)
     \<and> b_previousBlock b = prev \<and> b_state b = w \<and> h_parentHash (b_currentBlock b) = fst (header_hash (be_rlp E) WithSeal prev)"

lemma raw_list_parse:
  assumes R: "rlp_ok R" and "\<forall>r \<in> set raws. rlp_parse R r \<noteq> rlp_null R"
  shows "rlp_parse R (raw_list R raws) = rlp_list R (map (rlp_parse R) raws)" "rlp_parse R (raw_list R raws) \<noteq> rlp_null R"
    "rlp_items R (rlp_list R (map (rlp_parse R) raws)) = map (rlp_parse R) raws" "rlp_isList R (rlp_list R (map (rlp_parse R) raws))"
proof -
  have n: "rlp_null R \<notin> set (map (rlp_parse R) raws)" using assms(2) by auto
  show p: "rlp_parse R (raw_list R raws) = rlp_list R (map (rlp_parse R) raws)"
    unfolding raw_list_def using rlp_ok_views(5) [OF R n] .
  show "rlp_parse R (raw_list R raws) \<noteq> rlp_null R" unfolding p using rlp_okD(9) [OF R] by metis
  show "rlp_items R (rlp_list R (map (rlp_parse R) raws)) = map (rlp_parse R) raws" "rlp_isList R (rlp_list R (map (rlp_parse R) raws))"
    using rlp_okD(1,2) [OF R n] by simp_all
qed

lemma tx_bytes_parse:
  assumes "rlp_ok (be_rlp E)" "t_type t \<noteq> NullTransaction"
  shows "rlp_parse (be_rlp E) (tx_bytes E t) \<noteq> rlp_null (be_rlp E)"
proof -
  let ?R = "be_rlp E"
  have "rlp_parse ?R (rlp_data ?R (rlp_list ?R (tx_fields ?R t WithSignature False))) = rlp_list ?R (tx_fields ?R t WithSignature False)"
    by (rule rlp_ok_views(5) [OF assms(1) tx_fields_items [OF assms(1)]])
  then show ?thesis using assms(2) rlp_okD(9) [OF assms(1)] by (metis tx_bytes_def tx_streamRLP_def)
qed

definition header_with_seal :: "('w, 'l, 'i) blk_env \<Rightarrow> bytes list \<Rightarrow> ('w, 'l) block \<Rightarrow> bytes" where
  "header_with_seal E ss b = header_stream (be_rlp E) WithSeal ((b_currentBlock b)\<lparr>h_seal := ss\<rparr>)"

text \<open>The block that sealing gives when the header is the block's own with seal fields.\<close>

lemma seal_own:
  fixes E :: "('w, 'l, 'i) blk_env" and ss b
  defines "R \<equiv> be_rlp E" and "g \<equiv> (b_currentBlock b)\<lparr>h_seal := ss\<rparr>"
  defines "f \<equiv> g\<lparr>h_hash := sha3 (header_stream R WithSeal g), h_hashWithout := zero_hash 32, h_gen_idx := 0, h_node_list := []\<rparr>"
  assumes R: "rlp_ok R" and wf: "header_wf R g" and "b_committedToSeal b" and memo: "memo_ok R (b_currentBlock b)"
  shows "sealBlock E (header_with_seal E ss b) b = Inr (True, b\<lparr>b_currentBytes := raw_list R [header_with_seal E ss b, b_currentTxs b, b_currentUncles b],
    b_currentBlock := f, b_state := b_precommit b\<rparr>)"
proof -
  have parsed: "BlockHeader_of R HeaderData (zero_hash 32) (header_with_seal E ss b) = Inr f"
    using header_parsed [OF R wf] by (simp add: header_with_seal_def f_def g_def R_def)
  have fields: "header_fields R f = header_fields R (b_currentBlock b)" unfolding f_def g_def by (simp add: header_fields_def)
  have "memo_ok R f" unfolding f_def by (simp add: memo_ok_def header_stream_more)
  then have "fst (header_hash R WithoutSeal f) = fst (header_hash R WithoutSeal (b_currentBlock b))"
    using memo by (simp add: header_hash_value header_stream_def fields)
  then have "seal_matches E (header_with_seal E ss b) b = Inr (True, b\<lparr>b_currentBlock := snd (header_hash R WithoutSeal (b_currentBlock b))\<rparr>)"
    using parsed by (simp add: seal_matches_def lift_header_def R_def split: prod.split)
  then show ?thesis using assms(6) parsed by (simp add: sealBlock_def lift_header_def R_def)
qed

text \<open>A block without uncles passes the check of uncles.\<close>

lemma enact_no_uncles:
  assumes "rlp_ok (be_rlp E)" "rlp_parse (be_rlp E) h \<noteq> rlp_null (be_rlp E)" "rlp_parse (be_rlp E) t \<noteq> rlp_null (be_rlp E)"
  shows "enact_uncles E C (raw_list (be_rlp E) [h, t, raw_list (be_rlp E) []]) b
    = Inr ([], b\<lparr>b_currentBlock := snd (header_hash (be_rlp E) WithSeal (b_currentBlock b))\<rparr>)"
proof -
  let ?R = "be_rlp E"
  have u: "rlp_parse ?R (raw_list ?R []) = rlp_list ?R []" "rlp_parse ?R (raw_list ?R []) \<noteq> rlp_null ?R" "rlp_items ?R (rlp_list ?R []) = []"
    "rlp_isList ?R (rlp_list ?R [])"
    using raw_list_parse [OF assms(1), of "[]"] by simp_all
  have "\<forall>r \<in> set [h, t, raw_list ?R []]. rlp_parse ?R r \<noteq> rlp_null ?R" using assms u by simp
  note l = raw_list_parse [OF assms(1) this]
  have "rlp_at ?R (rlp_parse ?R (raw_list ?R [h, t, raw_list ?R []])) 2 = rlp_list ?R []"
    unfolding l(1) using l(3) by (simp add: rlp_at_def u(1))
  then show ?thesis by (simp add: enact_uncles_def Let_def rlp_itemCount_def items_of_def u split: prod.split)
qed

lemma gasUsed_frame [simp]: "b_gasUsed (b\<lparr>b_currentBlock := h\<rparr>) = b_gasUsed b" "b_gasUsed (b\<lparr>b_state := w\<rparr>) = b_gasUsed b"
  "b_gasUsed (applyRewards E us r b) = b_gasUsed b"
  by (simp_all add: b_gasUsed_def)

lemma applyRewards_set: "(applyRewards E us r b)\<lparr>b_state := w\<rparr> = b\<lparr>b_state := w\<rparr>"
  by (subst applyRewards_state) simp

lemma enact_finish_split: "enact_finish E C us b = (let w = rewarded_state E C us b; cur = b_currentBlock b; undone = b\<lparr>b_state := sb_db_rollback (be_st E) w\<rparr>
    in if h_stateRoot cur \<noteq> h_stateRoot (b_previousBlock b) \<and> h_stateRoot cur \<noteq> sb_rootHash (be_st E) w then throw InvalidStateRoot undone
       else if h_gasUsed cur \<noteq> b_gasUsed b then throw InvalidGasUsed undone
       else Inr (h_difficulty cur, b\<lparr>b_state := w\<rparr>))"
  by (simp add: enact_finish_def rewarded_state_def removeEmptyAccounts_def Let_def applyRewards_set)

lemma note_id: "b_sealEngine b \<noteq> None \<Longrightarrow> noteChain E C b = b"
  unfolding noteChain_def by (simp only: if_False)

lemma commit_no_uncles:
  assumes "seal_uncles E C b = Inr ([], [])" "commitToSeal E C x b = Inr b'" "\<not> b_committedToSeal b" "b_sealEngine b \<noteq> None"
  shows "b' = seal_with E C x [] [] (b\<lparr>b_precommit := b_state b\<rparr>)" "\<not> isSealed b"
proof -
  have n: "noteChain E C b = b" using assms(4) by (rule note_id)
  have s: "seal_start E C b = b\<lparr>b_precommit := b_state b\<rparr>" using assms(3) by (simp add: seal_start_def n Let_def)
  have "seal_uncles E C (seal_start E C b) = Inr ([], [])" using assms(1) seal_uncles_cong [of "b\<lparr>b_precommit := b_state b\<rparr>" b E C] unfolding s by simp
  then show "b' = seal_with E C x [] [] (b\<lparr>b_precommit := b_state b\<rparr>)" "\<not> isSealed b"
    using assms(2) unfolding commitToSeal_split s by (auto simp: lift_header_def throw_def split: if_splits)
qed

lemma seal_enacts:
  assumes R: "rlp_ok (be_rlp E)" and law: "env_law E"
    and fresh: "fresh_on E C prev w b" "fresh_on E C prev w c" "same_env (b_currentBlock b) (b_currentBlock c)"
    and run: "execute_all E (bc_lastHashes C (fst (header_hash (be_rlp E) WithSeal prev))) ts (b, []) = Inr (b1, rs)"
    and txs: "\<forall>t \<in> set ts. t_type t \<noteq> NullTransaction"
    and commit: "seal_uncles E C b1 = Inr ([], [])" "commitToSeal E C x b1 = Inr b2"
    and seal: "header_wf (be_rlp E) ((b_currentBlock b2)\<lparr>h_seal := ss\<rparr>)" "sealBlock E (header_with_seal E ss b2) b2 = Inr (ok, b3)"
  shows "ok \<and> (\<exists>c3. enact E C \<lparr>vb_block = b_currentBytes b3, vb_info = b_currentBlock b3, vb_transactions = ts\<rparr> c = Inr (h_difficulty (b_currentBlock b), c3)
    \<and> b_state c3 = b_state b2 \<and> b_transactions c3 = ts \<and> b_receipts c3 = b_receipts b2 \<and> h_stateRoot (b_currentBlock c3) = sb_rootHash (be_st E) (b_state c3))"
proof -
  let ?R = "be_rlp E" and ?ph = "fst (header_hash (be_rlp E) WithSeal prev)"
  have twin: "twin b b" using fresh by (simp add: twin_def fresh_on_def same_env_def)
  obtain rcs where a: "frame b b1" "twin b1 b1" "b_transactions b1 = ts" "b_receipts b1 = rcs" "rs = map (be_receipt E) rcs" "length rcs = length ts"
    using execute_all_twin [OF law twin run] fresh(1) by (auto simp: fresh_on_def twin_def same_env_def)
  let ?s = "b1\<lparr>b_precommit := b_state b1\<rparr>" and ?w = "rewarded_state E C [] (b1\<lparr>b_precommit := b_state b1\<rparr>)"
  have b2: "b2 = seal_with E C x [] [] ?s"
    using commit_no_uncles [OF commit] a(1,2) fresh(1) by (simp add: twin_def frame_def fresh_on_def)
  have prev: "b_previousBlock b1 = prev" using a(1) fresh(1) by (simp add: frame_def fresh_on_def)
  let ?h = "sealed_header E x [] ?w ?s"
  have b2f: "b_currentBlock b2 = ?h" "b_state b2 = ?w" "b_receipts b2 = rcs" "b_committedToSeal b2"
    "b_currentUncles b2 = raw_list ?R []" "b_currentTxs b2 = raw_list ?R (map (tx_bytes E) ts)"
    unfolding b2 seal_with_fields using a by simp_all
  define g where "g = (b_currentBlock b2)\<lparr>h_seal := ss, h_hash := sha3 (header_stream ?R WithSeal ((b_currentBlock b2)\<lparr>h_seal := ss\<rparr>)),
    h_hashWithout := zero_hash 32, h_gen_idx := 0, h_node_list := []\<rparr>"
  have "memo_ok ?R (b_currentBlock b2)" unfolding b2f by (simp add: memo_ok_def sealed_header_def)
  from seal_own [OF R seal(1) b2f(4) this] have b3: "ok" "b_currentBlock b3 = g"
    "b_currentBytes b3 = raw_list ?R [header_with_seal E ss b2, raw_list ?R (map (tx_bytes E) ts), raw_list ?R []]"
    using seal(2) by (simp_all add: g_def b2f(5,6))
  have g: "h_parentHash g = ?ph" "h_stateRoot g = sb_rootHash (be_st E) ?w" "h_logBloom g = logBloom b1" "h_gasUsed g = b_gasUsed b1"
    "h_receiptsRoot g = orderedTrieRoot ?R rs" "h_difficulty g = h_difficulty (b_currentBlock b)" "same_env (b_currentBlock b1) g"
    unfolding g_def b2f using a prev by (simp_all add: sealed_header_def logBloom_def b_gasUsed_def same_env_def frame_def)
  let ?c = "c\<lparr>b_previousBlock := snd (header_hash ?R WithSeal prev), b_currentBlock := g\<rparr>"
  have "b_currentBlock b1 = b_currentBlock b" using a(1) by (simp add: frame_def)
  then have "twin b ?c" using fresh g(7) by (simp add: twin_def fresh_on_def isSealed_def)
  from execute_all_twin [OF law this run] obtain c1 where c1: "execute_all E (bc_lastHashes C ?ph) ts (?c, []) = Inr (c1, rs)" "twin b1 c1" "frame ?c c1"
    by auto
  have c1f: "b_currentBlock c1 = g" "b_transactions c1 = ts" "b_receipts c1 = rcs" "logBloom c1 = logBloom b1" "b_gasUsed c1 = b_gasUsed b1" "b_state c1 = b_state b1"
    using c1(2,3) a by (simp_all add: twin_def frame_def logBloom_def b_gasUsed_def)
  let ?c2 = "c1\<lparr>b_currentBlock := snd (header_hash ?R WithSeal g)\<rparr>"
  have items: "rlp_parse ?R (header_with_seal E ss b2) \<noteq> rlp_null ?R" "rlp_parse ?R (raw_list ?R (map (tx_bytes E) ts)) \<noteq> rlp_null ?R"
    using header_item(2) [OF R seal(1)] rlp_okD(9) [OF R] raw_list_parse(2) [OF R, of "map (tx_bytes E) ts"] tx_bytes_parse [OF R] txs
    by (simp_all add: header_with_seal_def header_stream_def) (metis)+
  have "enact_uncles E C (b_currentBytes b3) c1 = Inr ([], ?c2)"
    unfolding b3 using enact_no_uncles [OF R items] c1f(1) by simp
  moreover have "rewarded_state E C [] ?c2 = ?w"
    by (rule rewarded_cong) (use c1f g(7) in \<open>simp_all add: same_env_def\<close>)
  then have "enact_finish E C [] ?c2 = Inr (h_difficulty g, ?c2\<lparr>b_state := ?w\<rparr>)"
    using g(2,4) c1f(1,5) by (simp add: enact_finish_split Let_def)
  ultimately have "enact E C \<lparr>vb_block = b_currentBytes b3, vb_info = b_currentBlock b3, vb_transactions = ts\<rparr> c = Inr (h_difficulty g, ?c2\<lparr>b_state := ?w\<rparr>)"
    using fresh(2) c1(1) g(1,3,5) c1f(1,4) by (simp add: enact_def fresh_on_def note_id b3(2) Let_def split_beta)
  then show ?thesis using b3(1) g(2,6) b2f(2,3) c1f by simp
qed

text \<open>C4: what a node seals, every node accepts. When transactions are executed on a fresh block of a chain, the block is committed without uncles and is sealed with a
  header that adds seal fields to its own, then the block that results, played back on a fresh block of the same chain (and so with the same engine) on the same parent and accounts, passes every
  check of \<open>enact\<close> and leads to the very accounts, transactions and receipts that were sealed.\<close>

theorem sealed_block_plays_back:
  assumes R: "rlp_ok (be_rlp E)" and law: "env_law E"
    and fresh: "fresh_on E C prev w b" "fresh_on E C prev w c" "same_env (b_currentBlock b) (b_currentBlock c)"
    and run: "execute_all E (bc_lastHashes C (fst (header_hash (be_rlp E) WithSeal prev))) ts (b, []) = Inr (b1, rs)"
    and txs: "\<forall>t \<in> set ts. t_type t \<noteq> NullTransaction"
    and commit: "seal_uncles E C b1 = Inr ([], [])" "commitToSeal E C x b1 = Inr b2"
    and seal: "header_wf (be_rlp E) ((b_currentBlock b2)\<lparr>h_seal := ss\<rparr>)" "sealBlock E (header_with_seal E ss b2) b2 = Inr (ok, b3)"
  shows "ok \<and> (\<exists>c3. enact E C \<lparr>vb_block = b_currentBytes b3, vb_info = b_currentBlock b3, vb_transactions = ts\<rparr> c = Inr (h_difficulty (b_currentBlock b), c3)
    \<and> b_state c3 = b_state b2 \<and> b_transactions c3 = ts \<and> b_receipts c3 = b_receipts b2 \<and> h_stateRoot (b_currentBlock c3) = sb_rootHash (be_st E) (b_state c3))"
  using assms by (rule seal_enacts)

section \<open>What acceptance means\<close>

lemma execute_pushed: "b_execute E lh t Committed b = Inr (x, b') \<Longrightarrow> \<exists>r w. b' = pushed E t r w (uncommitToSeal b)"
  by (auto simp: b_execute_def Let_def pushed_def throw_def split: if_splits sum.splits option.splits)

lemma execute_all_receipts: "execute_all E lh ts (b, rs) = Inr (b', rs') \<Longrightarrow> \<exists>rcs. b_receipts b' = b_receipts b @ rcs \<and> length rcs = length ts
    \<and> b_transactions b' = b_transactions b @ ts \<and> rs' = rs @ map (be_receipt E) rcs
    \<and> b_currentBlock b' = b_currentBlock b \<and> b_previousBlock b' = b_previousBlock b"
proof (induction ts arbitrary: b rs)
  case (Cons t ts)
  then obtain x a where a: "b_execute E lh t Committed b = Inr (x, a)" "execute_all E lh ts (a, rs @ [be_receipt E (last (b_receipts a))]) = Inr (b', rs')"
    by (auto simp: andThen_Inr)
  obtain r w where p: "a = pushed E t r w (uncommitToSeal b)" using execute_pushed [OF a(1)] by blast
  have f: "b_receipts a = b_receipts b @ [r]" "b_transactions a = b_transactions b @ [t]" "b_currentBlock a = b_currentBlock b" "b_previousBlock a = b_previousBlock b"
    unfolding p by (simp_all add: uncommitToSeal_def pushed_def)
  from Cons.IH [OF a(2)] obtain rcs where "b_receipts b' = b_receipts a @ rcs" "length rcs = length ts" "b_transactions b' = b_transactions a @ ts"
    "rs' = (rs @ [be_receipt E r]) @ map (be_receipt E) rcs" "b_currentBlock b' = b_currentBlock a" "b_previousBlock b' = b_previousBlock a"
    using f(1) by auto
  then show ?case using f by (intro exI [of _ "r # rcs"]) simp
qed simp

text \<open>C14: a block that is accepted names the hash of its parent, its receipts are those of its transactions and hash to the root it gives, its bloom filter and
  its gas are those of the receipts, it has two uncles at most, and it gives the root of the accounts it leads to - or the root of its parent's
  accounts, in which case the accounts it leads to are not checked at all.\<close>

theorem accepted_block:
  assumes "enact E C vb b = Inr (d, b')"
  shows "h_parentHash (b_currentBlock b) = fst (header_hash (be_rlp E) WithSeal (b_previousBlock b)) \<and> d = h_difficulty (vb_info vb)
    \<and> (\<exists>rcs. b_receipts b' = b_receipts b @ rcs \<and> length rcs = length (vb_transactions vb)
         \<and> h_receiptsRoot (vb_info vb) = orderedTrieRoot (be_rlp E) (map (be_receipt E) rcs))
    \<and> h_logBloom (vb_info vb) = logBloom b' \<and> h_gasUsed (vb_info vb) = b_gasUsed b'
    \<and> rlp_itemCount (be_rlp E) (rlp_at (be_rlp E) (rlp_parse (be_rlp E) (vb_block vb)) 2) \<le> 2
    \<and> h_stateRoot (vb_info vb) \<in> {sb_rootHash (be_st E) (b_state b'), h_stateRoot (b_previousBlock b)}"
proof -
  let ?R = "be_rlp E" and ?b = "noteChain E C b"
  have n: "b_previousBlock ?b = b_previousBlock b" "b_currentBlock ?b = b_currentBlock b" "b_receipts ?b = b_receipts b"
    by (simp_all add: noteChain_def)
  let ?c = "?b\<lparr>b_previousBlock := snd (header_hash ?R WithSeal (b_previousBlock b)), b_currentBlock := vb_info vb\<rparr>"
  from assms obtain c rs us c2 where c: "h_parentHash (b_currentBlock b) = fst (header_hash ?R WithSeal (b_previousBlock b))"
    "execute_all E (bc_lastHashes C (h_parentHash (vb_info vb))) (vb_transactions vb) (?c, []) = Inr (c, rs)"
    "orderedTrieRoot ?R rs = h_receiptsRoot (b_currentBlock c)" "h_logBloom (b_currentBlock c) = logBloom c"
    "enact_uncles E C (vb_block vb) c = Inr (us, c2)" "enact_finish E C us c2 = Inr (d, b')"
    by (auto simp: enact_def n Let_def split_beta andThen_Inr throw_def split: if_splits)
  obtain rcs where r: "b_receipts c = b_receipts b @ rcs" "length rcs = length (vb_transactions vb)" "rs = map (be_receipt E) rcs"
    "b_currentBlock c = vb_info vb" "b_previousBlock c = snd (header_hash ?R WithSeal (b_previousBlock b))"
    using execute_all_receipts [OF c(2)] n(3) by auto
  have u: "rlp_itemCount ?R (rlp_at ?R (rlp_parse ?R (vb_block vb)) 2) \<le> 2" "c2 = c\<lparr>b_currentBlock := snd (header_hash ?R WithSeal (b_currentBlock c))\<rparr>"
    using c(5) by (auto simp: enact_uncles_def Let_def throw_def split_beta split: if_splits sum.splits)
  obtain w where w: "b' = c2\<lparr>b_state := w\<rparr>" "h_gasUsed (b_currentBlock c2) = b_gasUsed c2" "d = h_difficulty (b_currentBlock c2)"
    "h_stateRoot (b_currentBlock c2) = h_stateRoot (b_previousBlock c2) \<or> h_stateRoot (b_currentBlock c2) = sb_rootHash (be_st E) w"
    using c(6) by (auto simp: enact_finish_split Let_def throw_def split: if_splits)
  have b': "b_receipts b' = b_receipts c" "logBloom b' = logBloom c" "b_gasUsed b' = b_gasUsed c" "b_state b' = w"
    unfolding w(1) u(2) by (simp_all add: logBloom_def)
  show ?thesis using c(1,3,4) r u w(2-4) b' by auto
qed

text \<open>The hole: with the root of its parent a block is accepted whatever its transactions have done.\<close>

lemma parent_root_accepted: "h_stateRoot (b_currentBlock b) = h_stateRoot (b_previousBlock b) \<Longrightarrow> h_gasUsed (b_currentBlock b) = b_gasUsed b
    \<Longrightarrow> enact_finish E C us b = Inr (h_difficulty (b_currentBlock b), b\<lparr>b_state := rewarded_state E C us b\<rparr>)"
  by (simp add: enact_finish_split Let_def)

section \<open>Rewards\<close>

text \<open>For uncles of the six generations that are allowed, the product is exact while seven times the reward fits 256 bits.\<close>

lemma uncle_reward_exact:
  assumes "1 \<le> k" "k \<le> 6" "unat n + k < 2 ^ 256" "7 * unat r < 2 ^ 256"
  shows "unat (uncle_reward r n (n + of_nat k)) = unat r * (8 - k) div 8"
proof -
  define m where "m = 8 - k"
  have "(of_nat (8 - k) :: u256) = of_nat 8 - of_nat k" using assms(2) by (intro of_nat_diff) simp
  then have "(8 :: u256) + n - (n + of_nat k) = of_nat m" by (simp add: m_def)
  moreover have "unat r * (8 - k) \<le> unat r * 7" using assms(1) by (intro mult_left_mono) simp_all
  then have "unat r * m < 2 ^ 256" using assms(4) unfolding m_def by linarith
  moreover have "unat (of_nat m :: u256) = m" by (rule unat_of_nat_lt) (simp add: m_def)
  ultimately have "unat (r * of_nat m) = unat r * m" "(8 :: u256) + n - (n + of_nat k) = of_nat m"
    using unat_mult_lem [of r "of_nat m"] by simp_all
  then show ?thesis by (simp add: uncle_reward_def unat_div m_def)
qed

section \<open>Two defects\<close>

text \<open>\<open>commitToSealAfterExecTx\<close> remembers no accounts, so leaving the committed state goes back to those from before the block's transactions.\<close>

lemma commit_exec_forgets: "b_state (uncommitToSeal (commitToSealAfterExecTx E b)) = b_precommit b"
  by (simp add: uncommitToSeal_def commitToSealAfterExecTx_def Let_def)

lemma execute_precommit: "b_execute E lh t p b = Inr (x, b') \<Longrightarrow> b_precommit b' = b_precommit b"
  by (auto simp: b_execute_def uncommitToSeal_def Let_def throw_def split: if_splits sum.splits option.splits)

text \<open>\<open>exec\<close> is undefined as soon as the first pending transaction succeeds.\<close>

lemma exec_undefined: "b_transactions b = t # ts \<Longrightarrow> b_execute E (bc_lastHashes C (bc_currentHash C)) t Committed (noteChain E C b) = Inr (x, b')
    \<Longrightarrow> b_exec E C Q q b = Inl ((Undefined, b'), q)"
  by (auto simp: b_exec_def Let_def noteChain_def b_execute_def isSealed_def throw_def split: if_splits)

section \<open>Witnesses\<close>

text \<open>The small world: one transaction, committed, sealed with one field and played back.\<close>

definition count_block2 :: "(nat, nat) block" where
  "count_block2 = seal_with count_env count_chain [9] [] [] (count_block1\<lparr>b_precommit := 1\<rparr>)"

lemma count_block1_simps [simp]: "\<not> isSealed count_block1" "\<not> b_committedToSeal count_block1" "b_previousBlock count_block1 = count_parent" "b_state count_block1 = 1"
  "b_sealEngine count_block1 = Some (NoProof ChainOperationParams)" "b_transactions count_block1 = [count_tx 0]" "b_receipts count_block1 = [count_receipt]"
  "b_currentBlock count_block1 = b_currentBlock count_block" "b_gasUsed count_block1 = 21000"
  by (simp_all add: count_block1_def isSealed_def b_gasUsed_def count_receipt_def) (simp_all add: count_block_def Block_null_def)

lemma count_law: "env_law count_env"
  by (auto simp: env_law_def same_env_def count_execute_def fun_eq_iff)

lemma count_uncles: "seal_uncles count_env count_chain count_block1 = Inr ([], [])"
  by (simp add: seal_uncles_def count_parent_def BlockHeader_new_def)

lemma count_commit: "commitToSeal count_env count_chain [9] count_block1 = Inr count_block2"
proof -
  have n: "noteChain count_env count_chain count_block1 = count_block1" by (rule note_id) simp
  have s: "seal_start count_env count_chain count_block1 = count_block1\<lparr>b_precommit := 1\<rparr>" by (simp add: seal_start_def n Let_def)
  have "seal_uncles count_env count_chain (count_block1\<lparr>b_precommit := 1\<rparr>) = Inr ([], [])"
    using count_uncles seal_uncles_cong [of "count_block1\<lparr>b_precommit := 1\<rparr>" count_block1 count_env count_chain] by simp
  then show ?thesis by (simp add: commitToSeal_split s lift_header_def count_block2_def)
qed

lemma count_prev_hash: "header_hash R WithSeal count_parent = (replicate 32 1, count_parent)"
proof -
  have "hd (replicate 32 (1 :: byte)) \<noteq> hd (zero_hash 32)" by (simp add: zero_hash_def)
  then have "replicate 32 (1 :: byte) \<noteq> zero_hash 32" by metis
  then show ?thesis by (simp add: header_hash_def count_parent_def Let_def)
qed

theorem seal_again_witness: "commitToSeal count_env count_chain [8] count_block2 = commitToSeal count_env count_chain [8] count_block1"
  by (rule seal_again [OF count_commit]) (simp add: count_prev_hash)

lemma count_header_wf: "header_wf tree_rlp ((b_currentBlock count_block2)\<lparr>h_seal := [[0x80]]\<rparr>)"
proof -
  have "rlp_data tree_rlp (rlp_parse tree_rlp [0x80]) = [0x80]" by (simp add: tree_rlp_def)
  moreover have "length (logBloom count_block1) = 256"
    by (simp add: logBloom_def count_receipt_def hash_or_def zero_hash_def)
  then have "length (logBloom (count_block1\<lparr>b_precommit := 1\<rparr>)) = 256" by (simp add: logBloom_def)
  ultimately show ?thesis
    by (simp add: count_block2_def seal_with_fields sealed_header_def header_wf_def count_prev_hash count_root_def orderedTrieRoot_def hash256_def)
qed

definition count_block3 :: "(nat, nat) block" where
  "count_block3 = outcome snd (sealBlock count_env (header_with_seal count_env [[0x80]] count_block2) count_block2)"

lemma count_seal: "sealBlock count_env (header_with_seal count_env [[0x80]] count_block2) count_block2 = Inr (True, count_block3)"
proof -
  have "memo_ok (be_rlp count_env) (b_currentBlock count_block2)" "b_committedToSeal count_block2"
    unfolding count_block2_def seal_with_fields by (simp_all add: sealed_header_def memo_ok_def)
  then show ?thesis
    using seal_own [of count_env "[[0x80]]" count_block2] tree_rlp_ok count_header_wf unfolding count_block3_def by (simp add: outcome_def)
qed

lemma count_run: "\<exists>rs. execute_all count_env lh [count_tx 0] (count_block, []) = Inr (count_block1, rs)"
  using count_executes [of lh] by auto

theorem sealed_block_plays_back_witness:
  "\<exists>c3. enact count_env count_chain \<lparr>vb_block = b_currentBytes count_block3, vb_info = b_currentBlock count_block3, vb_transactions = [count_tx 0]\<rparr> count_block
        = Inr (h_difficulty (b_currentBlock count_block), c3)
    \<and> b_state c3 = b_state count_block2 \<and> b_transactions c3 = [count_tx 0] \<and> b_receipts c3 = b_receipts count_block2 \<and> h_stateRoot (b_currentBlock c3) = count_root (b_state c3)"
proof -
  obtain rs where run: "execute_all count_env (bc_lastHashes count_chain (fst (header_hash (be_rlp count_env) WithSeal count_parent))) [count_tx 0] (count_block, [])
      = Inr (count_block1, rs)" using count_run by blast
  have f: "fresh_on count_env count_chain count_parent 0 count_block" by (simp add: fresh_on_def count_prev_hash count_chain_def)
  have "same_env (b_currentBlock count_block) (b_currentBlock count_block)" by (simp add: same_env_def)
  from sealed_block_plays_back [OF _ count_law f f this run _ count_uncles count_commit _ count_seal]
  show ?thesis using tree_rlp_ok count_header_wf by simp
qed

lemma count_accepted: "\<exists>d c3. enact count_env count_chain \<lparr>vb_block = b_currentBytes count_block3, vb_info = b_currentBlock count_block3, vb_transactions = [count_tx 0]\<rparr> count_block = Inr (d, c3)"
proof -
  obtain rs where run: "execute_all count_env (bc_lastHashes count_chain (fst (header_hash (be_rlp count_env) WithSeal count_parent))) [count_tx 0] (count_block, [])
      = Inr (count_block1, rs)" using count_run by blast
  have f: "fresh_on count_env count_chain count_parent 0 count_block" by (simp add: fresh_on_def count_prev_hash count_chain_def)
  have "same_env (b_currentBlock count_block) (b_currentBlock count_block)" by (simp add: same_env_def)
  from seal_enacts [OF _ count_law f f this run _ count_uncles count_commit _ count_seal]
  show ?thesis using tree_rlp_ok count_header_wf by auto
qed

theorem accepted_block_witness:
  "\<exists>c3 d. enact count_env count_chain \<lparr>vb_block = b_currentBytes count_block3, vb_info = b_currentBlock count_block3, vb_transactions = [count_tx 0]\<rparr> count_block = Inr (d, c3)
    \<and> h_gasUsed (b_currentBlock count_block3) = b_gasUsed c3 \<and> h_stateRoot (b_currentBlock count_block3) \<in> {count_root (b_state c3), h_stateRoot count_parent}"
proof -
  obtain d c3 where e: "enact count_env count_chain \<lparr>vb_block = b_currentBytes count_block3, vb_info = b_currentBlock count_block3, vb_transactions = [count_tx 0]\<rparr> count_block = Inr (d, c3)"
    using count_accepted by blast
  then show ?thesis using accepted_block [OF e] by (intro exI [of _ c3] exI [of _ d]) simp
qed

end
