(* ===== verification/SyncProps.thy ===== *)
theory SyncProps
  imports SealProps
begin

text \<open>
  What taking transactions from the queue does to a block: it executes some of those offered, one after the other, and says when it is done.
\<close>

section \<open>One transaction\<close>

text \<open>An execution that throws leaves the accounts alone: \<open>Executive\<close> throws before it changes any.\<close>

definition throw_law :: "('w, 'l, 'i) blk_env \<Rightarrow> bool" where
  "throw_law E \<longleftrightarrow> (\<forall>engine h lh g t p w e w'. sb_execute (be_st E) engine h lh g t p w = Inl (e, w') \<longrightarrow> w' = w)"

text \<open>A block that comes from another by executing transactions out of \<open>T\<close>, none twice and none that the other had.\<close>

definition ran :: "('w, 'l, 'i) blk_env \<Rightarrow> h256 list \<Rightarrow> TransactionBase set \<Rightarrow> ('w, 'l) block \<Rightarrow> ('w, 'l) block \<Rightarrow> 'l TransactionReceipt list \<Rightarrow> bool" where
  "ran E lh T b0 b rs \<longleftrightarrow> (\<exists>ts. execute_all E lh ts (b0, []) = Inr (b, map (be_receipt E) rs) \<and> distinct (map (t_sha3 E) ts)
     \<and> t_sha3 E ` set ts \<inter> b_transactionSet b0 = {} \<and> b_transactionSet b = b_transactionSet b0 \<union> t_sha3 E ` set ts
     \<and> set ts \<subseteq> t_noted E ` T \<and> length rs = length ts \<and> \<not> isSealed b \<and> \<not> b_committedToSeal b
     \<and> b_sealEngine b \<noteq> None)"

lemma execute_all_append: "execute_all E lh (ts @ us) s = andThen (execute_all E lh ts s) (execute_all E lh us)"
proof (induction ts arbitrary: s)
  case (Cons t ts)
  then show ?case by (cases "b_execute E lh t Committed (fst s)") (simp_all add: split_beta)
qed simp

lemma ran_refl: "\<not> isSealed b \<Longrightarrow> \<not> b_committedToSeal b \<Longrightarrow> b_sealEngine b \<noteq> None \<Longrightarrow> ran E lh T b b []"
  by (simp add: ran_def exI [of _ "[]"])

lemma ran_step:
  assumes "ran E lh T b0 b rs" "t \<in> T" "t_sha3 E t \<notin> b_transactionSet b" "b_execute E lh (t_noted E t) Committed b = Inr (x, b')"
  shows "ran E lh T b0 b' (rs @ [last (b_receipts b')])" "b_transactionSet b' = insert (t_sha3 E t) (b_transactionSet b)"
proof -
  from assms(1) obtain ts where ts: "execute_all E lh ts (b0, []) = Inr (b, map (be_receipt E) rs)" "distinct (map (t_sha3 E) ts)"
     "t_sha3 E ` set ts \<inter> b_transactionSet b0 = {}" "b_transactionSet b = b_transactionSet b0 \<union> t_sha3 E ` set ts"
     "set ts \<subseteq> t_noted E ` T" "length rs = length ts" "\<not> isSealed b" "\<not> b_committedToSeal b" "b_sealEngine b \<noteq> None"
    by (auto simp: ran_def)
  obtain r w where p: "b' = pushed E (t_noted E t) r w b" using execute_pushed [OF assms(4)] ts(8) by (auto simp: uncommitToSeal_def)
  then show set: "b_transactionSet b' = insert (t_sha3 E t) (b_transactionSet b)" by (simp add: pushed_def)
  have "execute_all E lh (ts @ [t_noted E t]) (b0, []) = Inr (b', map (be_receipt E) (rs @ [last (b_receipts b')]))"
    using ts(1) assms(4) by (simp add: execute_all_append)
  then show "ran E lh T b0 b' (rs @ [last (b_receipts b')])"
    unfolding ran_def using ts assms(2,3) set p by (intro exI [of _ "ts @ [t_noted E t]"]) auto
qed

text \<open>What one turn of the loop may do: nothing to the block, or execute the transaction.\<close>

lemma sync_one_cases:
  assumes "throw_law E" "\<not> isSealed b" "\<not> b_committedToSeal b" "b_sealEngine b \<noteq> None" "sync_one E C Q ask t (b, q, rs, good) = Inr (b', q', rs', good')"
  obtains "b' = b" "rs' = rs" "good' = good"
  | x where "t_sha3 E t \<notin> b_transactionSet b" "b_execute E (bc_lastHashes C (bc_currentHash C)) (t_noted E t) Committed b = Inr (x, b')"
      "rs' = rs @ [last (b_receipts b')]" "good' = Suc good"
proof (cases "t_sha3 E t \<in> b_transactionSet b \<or> \<not> t_gasPrice t \<ge> ask b")
  case True
  then show ?thesis using assms(5) that(1) by (auto simp: sync_one_def split: if_splits)
next
  case False
  then have f: "t_sha3 E t \<notin> b_transactionSet b" "t_gasPrice t \<ge> ask b" by auto
  show ?thesis
  proof (cases "b_execute E (bc_lastHashes C (bc_currentHash C)) (t_noted E t) Committed b")
    case (Inr y)
    then show ?thesis using assms(5) f that(2) by (cases y) (simp add: sync_one_def)
  next
    case (Inl y)
    from assms(4) obtain en where en: "b_sealEngine b = Some en" by blast
    with Inl obtain e w where e: "sb_execute (be_st E) en (b_currentBlock b) (bc_lastHashes C (bc_currentHash C)) (b_gasUsed b) (t_noted E t) Committed (b_state b) = Inl (e, w)"
        "y = (ExecutionThrown e, b\<lparr>b_state := w\<rparr>)"
      using assms(2,3) by (auto simp: execute_plain throw_def split: sum.splits)
    from e(1) assms(1) have "w = b_state b" unfolding throw_law_def by blast
    then have "b\<lparr>b_state := w\<rparr> = b" by simp
    then show ?thesis using assms(5) f Inl e(2) that(1) by (auto simp: sync_one_def andThen_Inr)
  qed
qed

section \<open>Passes\<close>

lemma pass_ran:
  assumes "throw_law E" "ran E (bc_lastHashes C (bc_currentHash C)) T b0 b rs" "set ts \<subseteq> T"
    and "sync_pass E C Q ask ts (b, q, rs, good) = Inr (b', q', rs', good')"
  shows "ran E (bc_lastHashes C (bc_currentHash C)) T b0 b' rs' \<and> length rs' + good = length rs + good' \<and> b_transactionSet b \<subseteq> b_transactionSet b'
    \<and> good' \<le> good + length (filter (\<lambda>t. t_sha3 E t \<notin> b_transactionSet b) ts)"
  using assms(2-4)
proof (induction ts arbitrary: b q rs good)
  case (Cons t ts)
  then obtain b1 q1 rs1 good1 where one: "sync_one E C Q ask t (b, q, rs, good) = Inr (b1, q1, rs1, good1)"
    and pass: "sync_pass E C Q ask ts (b1, q1, rs1, good1) = Inr (b', q', rs', good')"
    by (auto simp: andThen_Inr)
  have u: "\<not> isSealed b" "\<not> b_committedToSeal b" "b_sealEngine b \<noteq> None" using Cons.prems(1) by (auto simp: ran_def)
  show ?case
  proof (rule sync_one_cases [OF assms(1) u one])
    assume s: "b1 = b" "rs1 = rs" "good1 = good"
    show ?thesis using Cons.IH [of b rs q1 good] Cons.prems(1,2) pass s by auto
  next
    fix x assume e: "t_sha3 E t \<notin> b_transactionSet b" "b_execute E (bc_lastHashes C (bc_currentHash C)) (t_noted E t) Committed b = Inr (x, b1)"
      "rs1 = rs @ [last (b_receipts b1)]" "good1 = Suc good"
    have t: "t \<in> T" using Cons.prems(2) by simp
    note r = ran_step [OF Cons.prems(1) t e(1,2)]
    have "length (filter (\<lambda>t. t_sha3 E t \<notin> b_transactionSet b1) ts) \<le> length (filter (\<lambda>t. t_sha3 E t \<notin> b_transactionSet b) ts)"
      unfolding r(2) by (induction ts) auto
    then show ?thesis using Cons.IH [of b1 rs1 q1 good1] Cons.prems(2) pass e r by auto
  qed
qed auto

lemma ran_nonempty: "ran E lh T b0 b rs \<Longrightarrow> rs \<noteq> [] \<Longrightarrow> \<exists>t \<in> T. t_sha3 E t \<in> b_transactionSet b"
proof -
  assume "ran E lh T b0 b rs" "rs \<noteq> []"
  then obtain ts where "set ts \<subseteq> t_noted E ` T" "b_transactionSet b = b_transactionSet b0 \<union> t_sha3 E ` set ts" "ts \<noteq> []"
    unfolding ran_def by (metis length_0_conv)
  then show ?thesis by (cases ts) auto
qed

lemma passes_ran:
  assumes "throw_law E" "ran E (bc_lastHashes C (bc_currentHash C)) (set ts) b0 b rs"
    and "sync_passes n E C Q ask ts hit (b, q, rs) = Inr ((rs', hit'), b', q')"
  shows "ran E (bc_lastHashes C (bc_currentHash C)) (set ts) b0 b' rs' \<and> (hit' \<or> hit' = hit \<and> length rs' = length ts)"
  using assms(2,3)
proof (induction n arbitrary: b q rs)
  case 0
  then obtain b1 q1 rs1 good where pass: "sync_pass E C Q ask ts (b, q, rs, 0) = Inr (b1, q1, rs1, good)" and r: "b1 = b'" "rs1 = rs'" "hit'"
    by (auto simp: andThen_Inr)
  show ?case using pass_ran [OF assms(1) 0(1) subset_refl pass] r by simp
next
  case (Suc n)
  then obtain b1 q1 rs1 good where pass: "sync_pass E C Q ask ts (b, q, rs, 0) = Inr (b1, q1, rs1, good)"
    and rest: "(if good < length ts then sync_passes n E C Q ask ts hit (b1, q1, rs1) else Inr ((rs1, hit), b1, q1)) = Inr ((rs', hit'), b', q')"
    by (auto simp: andThen_Inr)
  note p = pass_ran [OF assms(1) Suc.prems(1) subset_refl pass]
  show ?case
  proof (cases "good < length ts")
    case True
    then show ?thesis using Suc.IH [of b1 rs1 q1] p rest by simp
  next
    case False
    have "rs = []"
    proof (rule ccontr)
      assume "rs \<noteq> []"
      then obtain t where "t \<in> set ts" "t_sha3 E t \<in> b_transactionSet b" using ran_nonempty [OF Suc.prems(1)] by blast
      then have "length (filter (\<lambda>t. t_sha3 E t \<notin> b_transactionSet b) ts) < length ts" by (intro length_filter_less) auto
      then show False using p False by linarith
    qed
    moreover have "good \<le> length ts"
      using p length_filter_le [of "\<lambda>t. t_sha3 E t \<notin> b_transactionSet b" ts] by linarith
    ultimately show ?thesis using p rest False by auto
  qed
qed

text \<open>C19: taking transactions from the queue is executing some of those it offers, one after the other, none twice and none that the block already
  holds; the receipts returned are theirs. The call reports that nothing is left only if it executed all that was offered: when a
  single one is refused, the passes go on until the deadline and the call reports that there is more to do.\<close>

theorem sync_executes:
  assumes "throw_law E" "\<not> b_committedToSeal b" "sync_queue E C Q ask n q b = Inr ((rs, hit), b', q')"
  defines "offered \<equiv> tq_topTransactions Q c_maxSyncTransactions (b_transactionSet b) q"
  shows "(\<exists>ts. execute_all E (bc_lastHashes C (bc_currentHash C)) ts (noteChain E C b, []) = Inr (b', map (be_receipt E) rs)
      \<and> distinct (map (t_sha3 E) ts) \<and> set ts \<subseteq> t_noted E ` set offered \<and> t_sha3 E ` set ts \<inter> b_transactionSet b = {} \<and> length rs = length ts)
    \<and> (if hit then True else length rs = length offered \<and> length offered \<noteq> 1024)"
proof -
  have n: "b_transactionSet (noteChain E C b) = b_transactionSet b" "\<not> b_committedToSeal (noteChain E C b)" "isSealed (noteChain E C b) = isSealed b"
    "b_sealEngine (noteChain E C b) \<noteq> None" using assms(2) by (simp_all add: noteChain_def isSealed_def)
  have "\<not> isSealed b" using assms(3) by (auto simp: sync_queue_def throw_def)
  then have r: "ran E (bc_lastHashes C (bc_currentHash C)) (set offered) (noteChain E C b) (noteChain E C b) []" using n by (intro ran_refl) simp_all
  have "ran E (bc_lastHashes C (bc_currentHash C)) (set offered) (noteChain E C b) b' rs \<and> (if hit then True else length rs = length offered \<and> length offered \<noteq> 1024)"
  proof (cases "offered = []")
    case True
    then show ?thesis using assms(3) \<open>\<not> isSealed b\<close> r n by (auto simp: sync_queue_def Let_def offered_def)
  next
    case False
    then have "sync_passes n E C Q ask offered (length offered = c_maxSyncTransactions) (noteChain E C b, q, []) = Inr ((rs, hit), b', q')"
      using assms(3) \<open>\<not> isSealed b\<close> n by (simp add: sync_queue_def Let_def offered_def)
    from passes_ran [OF assms(1) r this] show ?thesis by (auto simp: c_maxSyncTransactions_def)
  qed
  moreover from this obtain ts where "execute_all E (bc_lastHashes C (bc_currentHash C)) ts (noteChain E C b, []) = Inr (b', map (be_receipt E) rs)"
      "distinct (map (t_sha3 E) ts)" "set ts \<subseteq> t_noted E ` set offered" "t_sha3 E ` set ts \<inter> b_transactionSet b = {}" "length rs = length ts"
    unfolding ran_def n(1) by blast
  ultimately show ?thesis by blast
qed

lemma noted_simps [simp]: "t_nonce (t_noted E t) = t_nonce t" "t_gas (t_noted E t) = t_gas t"
  by (simp_all add: t_noted_def tx_sha3_def Let_def)

lemma count_noted: "\<exists>r b'. b_execute count_env lh (t_noted count_env (count_tx 0)) Committed count_block = Inr (r, b')"
  by (simp add: execute_plain count_execute_def)

theorem sync_executes_witness:
  "\<exists>rs hit b' q'. sync_queue count_env count_chain count_queue (\<lambda>b. 0) (Suc 0) [count_tx 0] count_block = Inr ((rs, hit), b', q')
    \<and> (\<exists>ts. execute_all count_env (bc_lastHashes count_chain (bc_currentHash count_chain)) ts (noteChain count_env count_chain count_block, []) = Inr (b', map (be_receipt count_env) rs)
      \<and> distinct (map (t_sha3 count_env) ts) \<and> set ts \<subseteq> t_noted count_env ` set (tq_topTransactions count_queue c_maxSyncTransactions (b_transactionSet count_block) [count_tx 0])
      \<and> t_sha3 count_env ` set ts \<inter> b_transactionSet count_block = {} \<and> length rs = length ts)"
proof -
  have law: "throw_law count_env" by (simp add: throw_law_def count_execute_def)
  have n: "noteChain count_env count_chain count_block = count_block" by (rule note_id) simp
  have "\<exists>rs hit b' q'. sync_queue count_env count_chain count_queue (\<lambda>b. 0) (Suc 0) [count_tx 0] count_block = Inr ((rs, hit), b', q')"
  proof -
    obtain r b' where "b_execute count_env (bc_lastHashes count_chain (bc_currentHash count_chain)) (t_noted count_env (count_tx 0)) Committed count_block = Inr (r, b')"
      using count_noted by blast
    then have "sync_one count_env count_chain count_queue (\<lambda>b. 0) (count_tx 0) (count_block, [count_tx 0], [], 0)
        = Inr (b', [count_tx 0], [last (b_receipts b')], Suc 0)" by (simp add: sync_one_def)
    moreover have "tq_topTransactions count_queue c_maxSyncTransactions (b_transactionSet count_block) [count_tx 0] = [count_tx 0]"
      by (simp add: count_queue_def c_maxSyncTransactions_def)
    ultimately show ?thesis by (simp add: sync_queue_def n Let_def)
  qed
  then obtain rs hit b' q' where r: "sync_queue count_env count_chain count_queue (\<lambda>b. 0) (Suc 0) [count_tx 0] count_block = Inr ((rs, hit), b', q')" by blast
  then show ?thesis using sync_executes [OF law count_block_simps(6) r] by blast
qed

end
