(* ===== verification/Spec2Isabelle.thy ===== *)
theory Spec2Isabelle
  imports VMProps VMDispatch RangeMask OverlayDB Hex ExecutiveProps TrieIterProps NodeTableProps SyncProps
begin

text \<open>
  A verification development for the node software of this repository (a fork of cpp-ethereum with
  a PBFT seal engine), in Isabelle/HOL.

  \<^bold>\<open>The parts of the program.\<close> \<open>libdevcore\<close> holds the data types everything else uses (bytes, hashes,
  nibbles, hashing, the key-value databases); \<open>libevmcore\<close> and \<open>libevm\<close> the virtual machine;
  \<open>libethcore\<close> and \<open>libethereum\<close> blocks, accounts and their execution, which calls the machine through
  \<open>VM::exec\<close>; \<open>libpdftseal\<close> and \<open>libethashseal\<close> the seal engines; \<open>libp2p\<close> and \<open>libwhisper\<close> the
  network. The development starts at the machine, the part whose correctness every node has to agree
  on, and at the data types under it.

  \<^bold>\<open>Theories and code.\<close>

  \<^item> \<open>Prelude\<close>: machine types, byte slices (\<open>bslice\<close>, \<open>poke\<close>), loops with fuel, and two interfaces:
    \<open>codec\<close> (an encoder and a decoder that inverts it) and \<open>metered_loop\<close> (a loop whose body keeps an
    invariant and decreases a measure, so that it ends within its fuel).
  \<^item> \<open>CommonData\<close>: \<open>toBigEndian\<close>, \<open>fromBigEndian\<close>, \<open>u2s\<close>, \<open>s2u\<close> of \<open>libdevcore/CommonData.h\<close> and
    \<open>Common.h\<close>; the codec interface is interpreted on them.
  \<^item> \<open>FixedHash\<close>, \<open>Keccak\<close>: \<open>libdevcore/FixedHash.h\<close> and \<open>SHA3.cpp\<close>.
  \<^item> \<open>Nibbles\<close>: \<open>libdevcore/TrieCommon.h\<close> and \<open>.cpp\<close>, the keys of the trie. \<open>TrieHash\<close>:
    \<open>libdevcore/TrieHash.cpp\<close>, the root of a trie computed from its whole content.
  \<^item> \<open>RlpFace\<close>: the interface of \<open>RLP.h\<close> as the record \<open>rlp\<close>, and results that may be exceptions.
  \<^item> \<open>Transaction\<close>: \<open>libethcore/Transaction.cpp\<close>, its exceptions and its signatures. \<open>SealEngine\<close>:
    chain parameters and what all seal engines share (\<open>libethcore/ChainOperationParams.cpp\<close>,
    \<open>SealEngine.cpp\<close>). \<open>Executive\<close>: \<open>libethereum/Executive.cpp\<close>, which runs a transaction on the
    accounts and calls \<open>exec\<close>; \<open>ExecutiveProps\<close> holds its lemmas.
  \<^item> \<open>BlockHeader\<close>: \<open>libethcore/BlockHeader.cpp\<close>. \<open>Authority\<close>: \<open>BasicAuthority.cpp\<close>. \<open>HeaderProps\<close> holds their lemmas.
    \<open>Block\<close>, \<open>BlockSeal\<close>: \<open>libethereum/Block.cpp\<close>, the block being worked on: reset, synchronised, executed on (\<open>Block\<close>),
    committed, sealed and played back (\<open>BlockSeal\<close>). Methods throw the exception and the block they leave. \<open>BlockProps\<close> (what
    holds of every block), \<open>SealProps\<close> (sealing and acceptance) and \<open>SyncProps\<close> (the loop over the queue) hold the lemmas.
  \<^item> \<open>RangeMask\<close>: \<open>libdevcore/RangeMask.h\<close>, sets of numbers as sorted ranges. \<open>Hex\<close>: the strings and
    small containers of \<open>CommonData.h\<close>, \<open>CommonData.cpp\<close> and \<open>Common.h\<close>.
  \<^item> \<open>MemoryDB\<close>, \<open>OverlayDB\<close>: \<open>libdevcore/MemoryDB.cpp\<close> and \<open>OverlayDB.cpp\<close>, the store of trie nodes
    with reference counts and its overlay over a database; the interface \<open>node_store\<close> (what an
    insertion and a kill promise to a reader) is interpreted on both.
  \<^item> \<open>TrieDB\<close>, \<open>TrieIter\<close>: \<open>libdevcore/TrieDB.h\<close>, the trie over a database \<open>db_ops\<close> and its iterators. The other
    theories with this prefix hold no code: \<open>TrieTree\<close> and \<open>TrieErase\<close> (trees, insertion and removal on
    them, one tree for every map), \<open>TrieRep\<close> (how items in a database stand for a tree; the interfaces
    \<open>node_source\<close> and \<open>ref_store\<close>, interpreted on both databases), \<open>TrieLookup\<close>, \<open>TrieMerge\<close>, \<open>TrieInsert\<close>,
    \<open>TrieDelete\<close> (each operation against its tree), \<open>TrieRuns\<close> (sequences of operations against a map),
    \<open>TrieWalk\<close>, \<open>TrieSeek\<close> (what iterators find), \<open>TrieProps\<close>, \<open>TrieIterProps\<close> (the properties).
  \<^item> \<open>Discovery\<close>: addresses, endpoints and the signed datagrams of \<open>libp2p/Common.h\<close>, \<open>Common.cpp\<close>, \<open>UDP.h\<close>,
    \<open>UDP.cpp\<close> and the packets of \<open>NodeTable.h\<close>. \<open>NodeTable\<close>: \<open>libp2p/NodeTable.cpp\<close>. Its entries are shared
    objects, held strongly by \<open>m_nodes\<close> and weakly by the buckets, so an entry is an index and a weak reference can be
    dead; clocks are arguments, timers a list of tasks, a bucket out of bounds is \<open>None\<close>. The interface \<open>p2p_lib\<close> is what
    the datagrams need of signatures and RLP. \<open>NodeTableProps\<close> holds the lemmas.
  \<^item> \<open>Instruction\<close>, \<open>EVMSchedule\<close>: \<open>libevmcore\<close>.
  \<^item> \<open>VMState\<close>: the class \<open>VM\<close> of \<open>libevm/VM.h\<close> as the record \<open>vm\<close>, the world behind \<open>ExtVMFace\<close> as
    the record of functions \<open>ext\<close>, and stack adjustment, metering, memory and fetch of \<open>VM.cpp\<close>.
  \<^item> \<open>VMCalls\<close>: \<open>libevm/VMCalls.cpp\<close>. \<open>VMOpt\<close>: \<open>libevm/VMOpt.cpp\<close>. \<open>VMOps\<close>: the cases of
    \<open>VM::interpretCases\<close>, one definition each, and the switch. \<open>VMExec\<close>: \<open>VM::exec\<close> and its trampoline.
    \<open>VMDispatch\<close>: the label table of \<open>VMConfig.h\<close>.
  \<^item> \<open>VMSteps\<close> (what every operation keeps and costs), \<open>VMSpec\<close> (the value instructions on abstract
    stacks) and \<open>VMProps\<close> (the properties of the machine) hold no code of their own.

  \<^bold>\<open>What the lemmas show.\<close> The machine always ends, never leaves its arrays, pays for every pass and
  for all memory it holds; its value instructions refine abstract ones over lists; jumps land on
  instruction starts only; what a call charges, passes on and gives back is accounted for exactly. The encoders lose
  nothing. The node store counts references exactly; a commit changes no answer, except that a store that does not
  enforce references forgets the dead entries it still answered with; nodes stored
  under their hash can be read back; range masks are sets under union, difference and lookup. The trie
  root serialises a tree that holds exactly the map. The trie over a database is that map, as long as values are only
  inserted, or inserted and removed under keys of one length (\<open>ops_ok\<close>; the code does not support removals among keys of
  different lengths): every key reads right, the root is the one computed from the content, each
  node has exactly the references the tree has, two tries can share a database, and they survive commits and
  are iterated in the order of keys. A signed transaction survives its serialisation; it
  is accepted exactly under the conditions of the rules, runs within the gas it bought, stands or is
  rolled back as a whole, and what it paid is shared between its sender and the author of the block.
  The hash of a header is that of its present bytes, unless \<open>populateFromParent\<close> changed a header whose hash was memoised;
  a block has one receipt for each of its transactions whatever was done
  with it; sealing twice is sealing once; and what a node seals is accepted when it is played back on the same chain with
  the same engine, and leads to the same accounts.
  Every table of nodes that calls, packets and timers can reach is well formed and indexes no bucket out of bounds but
  the one the code lacks; an eviction that was started is never settled (\<open>evictions_stay\<close>); the nodes found near a target
  are the sorted content of the buckets visited, which need not be the closest ones; a datagram survives its signing.
  Where the code departs from its documentation or from itself (the two dispatch tables, the mnemonic
  table, offsets cut to 32 bits, unsigned transactions) the theorem states what the code does.

  \<^bold>\<open>Fuel.\<close> \<open>exec\<close> runs its loop with fuel \<open>2 * gas + 3\<close>: a pass that goes on lowers twice the gas left
  plus the stage of the trampoline (0 to 2), so the fuel never runs out (\<open>exec_terminates\<close>).
  The recursions of the trie take \<open>trie_fuel\<close>, twice the length of the key and 8: each step uses up a
  nibble, except the few that graft or split. The iterators take their fuel as an argument; three steps
  for each node are enough (\<open>trie_iterates\<close>).

  \<^bold>\<open>Parameters.\<close> \<open>State.h\<close>, \<open>ExtVMFace.h\<close>, \<open>ExtVM.cpp\<close> and \<open>RLP.h\<close> are not in the repository. What the
  machine uses of the world is the record \<open>ext\<close>; that calls and creations give back no more gas than
  they got (\<open>ext_gas_ok\<close>) and that the prices are positive and small (\<open>wellPriced\<close>, true of every
  schedule of the source) are hypotheses where they are needed, bundled in \<open>env_ok\<close>. The read of
  \<open>tierStepGas\<close> one past its end, for a byte that is no instruction, gives the parameter
  \<open>oob_tierGas\<close>. RLP items appear through what the code reads of them (\<open>rlp\<close>; \<open>rlp_ok\<close> says that what a
  stream wrote is read back). Recovery and signing are the record \<open>crypto\<close>. A node is stored under its hash, so the properties of the
  trie have a collision among the data they name as an alternative. The accounts are the record
  \<open>state_ops\<close>, of which \<open>state_ok\<close> says that adding to a balance adds to that balance only; what \<open>ExtVM.cpp\<close>
  adds to \<open>ExtVM.h\<close> is the field \<open>ext_rest\<close> of \<open>xenv\<close>, under \<open>xenv_ok\<close>. The signatures and RLP readers of the
  datagrams are the record \<open>p2p_env\<close>, under \<open>p2p_ok\<close>.
  Blocks run on the accounts \<open>chain_state\<close>, the chain \<open>chain\<close> and the queue \<open>queue\<close> (\<open>State\<close>, \<open>BlockChain\<close> and
  \<open>TransactionQueue\<close> have no implementation in the repository); \<open>env_law\<close> says that executing a transaction depends on the
  fields of the header that \<open>EnvInfo\<close> has, \<open>throw_law\<close> that an execution that throws leaves the accounts alone.
  The database under \<open>OverlayDB\<close> is the record \<open>ldb\<close> with the hypothesis \<open>ldb_ok\<close>: a write that
  succeeds is read back and touches no other key, one that fails changes nothing.

  \<^bold>\<open>Not modelled.\<close> Tracing callbacks; the constant pool and the constant-jump pass, which need
  \<open>EVM_OPTIMIZE\<close>, and the subroutine jumps, which need \<open>EVM_JUMPS_AND_SUBS\<close> (both off in \<open>VMConfig.h\<close>);
  the external JIT; logging, threads, locks, files and sockets, and with them the sessions between peers; the elliptic-curve code, whose arithmetic is
  in libraries outside the repository. The message handlers that \<open>libpdftseal/PBFT.h\<close> declares have no
  bodies in the repository.

  \<^bold>\<open>Plan.\<close> Next: log filters, the frames of the peer protocol and the sessions over them, the PBFT engine.
\<close>

end
